(* ===== verification/Prelude.thy ===== *)
theory Prelude
  imports Main "HOL-Library.Word"
begin

text \<open>
  Shared vocabulary of the development.

  The program is Rust, built in the \<open>dev\<close> profile (\<open>Cargo.toml\<close> sets
  \<open>panic = "abort"\<close> and leaves overflow checks on, and the \<open>xbuild-microkernel-*\<close>
  aliases build that profile). A call therefore has three kinds of outcome: a value, a typed
  error, or a panic that stops the kernel; \<open>res\<close> is that type. Methods on
  \<open>&mut self\<close> become functions that return the new state next to the result, because
  in Rust an early return of an error keeps whatever was already written.

  The theory also holds the standard-library operations the sources use (checked,
  saturating and truncating arithmetic, bounds-checked indexing, \<open>Iterator::position\<close>)
  and the facts about them that the component theories share.
\<close>

unbundle bit_operations_syntax

section \<open>Machine integers\<close>

type_synonym u8 = "8 word"
type_synonym u16 = "16 word"
type_synonym u32 = "32 word"
type_synonym u64 = "64 word"
type_synonym u128 = "128 word"

text \<open>All three target architectures are 64-bit, so \<open>usize\<close> is \<open>u64\<close> and the
  casts between the two change nothing. \<open>usize\<close> counters that index a fixed-capacity
  table are \<open>nat\<close> in the models, with the bounds check of the source written out.\<close>

type_synonym usize = "64 word"

section \<open>Outcomes\<close>

datatype ('e, 'a) res = Ok 'a | Err 'e | Panic

fun ok_or :: "'a option \<Rightarrow> 'e \<Rightarrow> ('e, 'a) res" where
  "ok_or (Some x) e = Ok x"
| "ok_or None e = Err e"

fun map_err :: "('e \<Rightarrow> 'f) \<Rightarrow> ('e, 'a) res \<Rightarrow> ('f, 'a) res" where
  "map_err f (Ok x) = Ok x"
| "map_err f (Err e) = Err (f e)"
| "map_err f Panic = Panic"

text \<open>\<open>try_in s r f\<close> is \<open>let x = r?; f(x)\<close> where computing \<open>r\<close> changes
  nothing; \<open>then_do (r, s) f\<close> is the same after a call that left the state \<open>s\<close>.\<close>

definition then_do ::
  "('e, 'a) res \<times> 's \<Rightarrow> ('a \<Rightarrow> 's \<Rightarrow> ('e, 'b) res \<times> 's) \<Rightarrow> ('e, 'b) res \<times> 's" where
  "then_do m f = (case fst m of
      Ok x \<Rightarrow> f x (snd m)
    | Err e \<Rightarrow> (Err e, snd m)
    | Panic \<Rightarrow> (Panic, snd m))"

definition try_in ::
  "'s \<Rightarrow> ('e, 'a) res \<Rightarrow> ('a \<Rightarrow> ('e, 'b) res \<times> 's) \<Rightarrow> ('e, 'b) res \<times> 's" where
  "try_in s r f = (case r of
      Ok x \<Rightarrow> f x
    | Err e \<Rightarrow> (Err e, s)
    | Panic \<Rightarrow> (Panic, s))"

definition bind_res :: "('e, 'a) res \<Rightarrow> ('a \<Rightarrow> ('e, 'b) res) \<Rightarrow> ('e, 'b) res" where
  "bind_res r f = (case r of Ok x \<Rightarrow> f x | Err e \<Rightarrow> Err e | Panic \<Rightarrow> Panic)"

lemma then_do_simps [simp]:
  "then_do (Ok x, s) f = f x s"
  "then_do (Err e, s) f = (Err e, s)"
  "then_do (Panic, s) f = (Panic, s)"
  by (simp_all add: then_do_def)

lemma try_in_simps [simp]:
  "try_in s (Ok x) f = f x"
  "try_in s (Err e) f = (Err e, s)"
  "try_in s Panic f = (Panic, s)"
  by (simp_all add: try_in_def)

lemma bind_res_simps [simp]:
  "bind_res (Ok x) f = f x"
  "bind_res (Err e) f = Err e"
  "bind_res Panic f = Panic"
  by (simp_all add: bind_res_def)

lemma ok_or_eq [simp]:
  "ok_or opt e = Ok x \<longleftrightarrow> opt = Some x"
  "ok_or opt e = Err e' \<longleftrightarrow> opt = None \<and> e' = e"
  "ok_or opt e \<noteq> Panic"
  by (cases opt; auto)+

lemma map_err_eq [simp]:
  "map_err f r = Ok x \<longleftrightarrow> r = Ok x"
  "map_err f r = Panic \<longleftrightarrow> r = Panic"
  "Panic = map_err f r \<longleftrightarrow> r = Panic"
  by (cases r; auto)+

lemma try_in_Ok_iff:
  "try_in s r f = (Ok y, s') \<longleftrightarrow> (\<exists>x. r = Ok x \<and> f x = (Ok y, s'))"
  by (cases r) auto

lemma try_in_Err_iff:
  "try_in s r f = (Err e, s') \<longleftrightarrow>
     r = Err e \<and> s' = s \<or> (\<exists>x. r = Ok x \<and> f x = (Err e, s'))"
  by (cases r) auto

lemma try_in_Panic_iff:
  "fst (try_in s r f) = Panic \<longleftrightarrow> r = Panic \<or> (\<exists>x. r = Ok x \<and> fst (f x) = Panic)"
  by (cases r) auto

lemma then_do_Ok_iff:
  "then_do m f = (Ok y, s') \<longleftrightarrow> (\<exists>x s. m = (Ok x, s) \<and> f x s = (Ok y, s'))"
  by (cases m; cases "fst m") auto

lemma then_do_Err_iff:
  "then_do m f = (Err e, s') \<longleftrightarrow>
     m = (Err e, s') \<or> (\<exists>x s. m = (Ok x, s) \<and> f x s = (Err e, s'))"
  by (cases m; cases "fst m") auto

lemma then_do_Panic_iff:
  "fst (then_do m f) = Panic \<longleftrightarrow>
     fst m = Panic \<or> (\<exists>x s. m = (Ok x, s) \<and> fst (f x s) = Panic)"
  by (cases m; cases "fst m") auto

lemmas outcome_iff = try_in_Ok_iff try_in_Err_iff try_in_Panic_iff
  then_do_Ok_iff then_do_Err_iff then_do_Panic_iff

lemma bind_res_Ok_iff:
  "bind_res r f = Ok y \<longleftrightarrow> (\<exists>x. r = Ok x \<and> f x = Ok y)"
  by (cases r) auto

text \<open>\<open>keeps I m\<close>: the call \<open>m\<close> did not panic and left a state that satisfies
  \<open>I\<close>, whether it returned a value or an error. It is the judgement the invariant
  proofs of the kernel compute with.\<close>

definition keeps :: "('s \<Rightarrow> bool) \<Rightarrow> ('e, 'a) res \<times> 's \<Rightarrow> bool" where
  "keeps I m \<longleftrightarrow> fst m \<noteq> Panic \<and> I (snd m)"

named_theorems keeps_intro

lemma keeps_Ok [simp]: "keeps I (Ok x, s) \<longleftrightarrow> I s"
  and keeps_Err [simp]: "keeps I (Err e, s) \<longleftrightarrow> I s"
  and keeps_Panic [simp]: "\<not> keeps I (Panic, s)"
  by (simp_all add: keeps_def)

lemma keeps_try_in:
  assumes "I s" and "r \<noteq> Panic" and "\<And>x. r = Ok x \<Longrightarrow> keeps I (f x)"
  shows "keeps I (try_in s r f)"
  using assms by (cases r) auto

lemma keeps_then_do:
  assumes "keeps I m" and "\<And>x. fst m = Ok x \<Longrightarrow> keeps I (f x (snd m))"
  shows "keeps I (then_do m f)"
  using assms by (cases "fst m") (auto simp: then_do_def keeps_def)

text \<open>\<open>leaves P m\<close>: whatever \<open>m\<close> returned, the state it left satisfies
  \<open>P\<close>.\<close>

definition leaves :: "('s \<Rightarrow> bool) \<Rightarrow> ('e, 'a) res \<times> 's \<Rightarrow> bool" where
  "leaves P m \<longleftrightarrow> P (snd m)"

lemma leaves_pair [simp]: "leaves P (r, s) = P s"
  by (simp add: leaves_def)

lemma leaves_try_in:
  assumes "P s" and "\<And>x. r = Ok x \<Longrightarrow> leaves P (f x)"
  shows "leaves P (try_in s r f)"
  using assms by (cases r) auto

lemma leaves_then_do:
  assumes "leaves P m" and "\<And>x s. P s \<Longrightarrow> leaves P (f x s)"
  shows "leaves P (then_do m f)"
  using assms by (cases m; cases "fst m") (auto simp: then_do_def)

lemma leaves_mono: "leaves P m \<Longrightarrow> (\<And>s. P s \<Longrightarrow> Q s) \<Longrightarrow> leaves Q m"
  by (simp add: leaves_def)

section \<open>Bounds-checked access to arrays\<close>

definition nth_opt :: "'a list \<Rightarrow> nat \<Rightarrow> 'a option" where
  "nth_opt xs i = (if i < length xs then Some (xs ! i) else None)"

text \<open>A table of kernel objects is an array of \<open>Option\<close>; \<open>slot_at\<close> is
  \<open>table.get(i).and_then(|s| s.as_ref())\<close>.\<close>

definition slot_at :: "'a option list \<Rightarrow> nat \<Rightarrow> 'a option" where
  "slot_at xs i = (if i < length xs then xs ! i else None)"

text \<open>\<open>iter().position(|s| s.is_none())\<close>.\<close>

fun first_none :: "'a option list \<Rightarrow> nat option" where
  "first_none [] = None"
| "first_none (None # xs) = Some 0"
| "first_none (Some _ # xs) = map_option Suc (first_none xs)"

lemma nth_opt_Some_iff: "nth_opt xs i = Some x \<longleftrightarrow> i < length xs \<and> xs ! i = x"
  by (auto simp: nth_opt_def)

lemma nth_opt_None_iff: "nth_opt xs i = None \<longleftrightarrow> length xs \<le> i"
  by (auto simp: nth_opt_def)

lemma slot_at_Some_iff: "slot_at xs i = Some x \<longleftrightarrow> i < length xs \<and> xs ! i = Some x"
  by (auto simp: slot_at_def)

lemma slot_at_None_iff: "slot_at xs i = None \<longleftrightarrow> i < length xs \<longrightarrow> xs ! i = None"
  by (auto simp: slot_at_def)

lemma slot_at_update:
  "slot_at (xs[i := v]) j = (if i = j \<and> i < length xs then v else slot_at xs j)"
  by (auto simp: slot_at_def)

lemma slot_at_length: "slot_at xs i = Some x \<Longrightarrow> i < length xs"
  by (simp add: slot_at_Some_iff)

lemma slot_at_replicate [simp]: "slot_at (replicate n None) i = None"
  by (simp add: slot_at_def)

lemma first_none_Some:
  "first_none xs = Some i \<Longrightarrow>
     i < length xs \<and> xs ! i = None \<and> (\<forall>j < i. xs ! j \<noteq> None)"
proof (induction xs arbitrary: i rule: first_none.induct)
  case (3 v xs)
  then obtain j where j: "first_none xs = Some j" and i: "i = Suc j" by auto
  from "3.IH"[OF j] i show ?case by (auto simp: nth_Cons split: nat.splits)
qed auto

lemma first_none_None: "first_none xs = None \<longleftrightarrow> (\<forall>x \<in> set xs. x \<noteq> None)"
  by (induction xs rule: first_none.induct) auto

lemma first_none_slot_at: "first_none xs = Some i \<Longrightarrow> i < length xs \<and> slot_at xs i = None"
  by (drule first_none_Some) (simp add: slot_at_def)

lemma first_none_full:
  "first_none xs = None \<Longrightarrow> i < length xs \<Longrightarrow> \<exists>x. slot_at xs i = Some x"
  by (auto simp: first_none_None slot_at_def dest: nth_mem)

text \<open>\<open>iter().position(p)\<close>, and \<open>iter().flatten()\<close> over an array of
  \<open>Option\<close>.\<close>

fun find_index :: "('a \<Rightarrow> bool) \<Rightarrow> 'a list \<Rightarrow> nat option" where
  "find_index P [] = None"
| "find_index P (x # xs) = (if P x then Some 0 else map_option Suc (find_index P xs))"

fun flatten :: "'a option list \<Rightarrow> 'a list" where
  "flatten [] = []"
| "flatten (None # xs) = flatten xs"
| "flatten (Some x # xs) = x # flatten xs"

lemma find_index_Some:
  "find_index P xs = Some i \<Longrightarrow> i < length xs \<and> P (xs ! i) \<and> (\<forall>j < i. \<not> P (xs ! j))"
proof (induction xs arbitrary: i)
  case (Cons x xs)
  show ?case
  proof (cases "P x")
    case True
    then show ?thesis using Cons.prems by simp
  next
    case False
    with Cons.prems obtain j where j: "find_index P xs = Some j" "i = Suc j" by auto
    from Cons.IH [OF j(1)] False j(2) show ?thesis by (auto simp: nth_Cons split: nat.splits)
  qed
qed simp

lemma find_index_None: "find_index P xs = None \<longleftrightarrow> (\<forall>x \<in> set xs. \<not> P x)"
  by (induction xs) auto

lemma set_flatten: "set (flatten xs) = {x. Some x \<in> set xs}"
  by (induction xs rule: flatten.induct) auto

lemma mem_flatten_iff: "x \<in> set (flatten xs) \<longleftrightarrow> (\<exists>i. slot_at xs i = Some x)"
  by (auto simp: set_flatten slot_at_Some_iff in_set_conv_nth)

lemma mem_flatten_fill:
  assumes "i < length xs" and "xs ! i = None"
  shows "x \<in> set (flatten (xs[i := Some y])) \<longleftrightarrow> x = y \<or> x \<in> set (flatten xs)"
proof -
  have "(\<exists>j. slot_at (xs[i := Some y]) j = Some x) \<longleftrightarrow> x = y \<or> (\<exists>j. slot_at xs j = Some x)"
    using assms by (metis (no_types, lifting) option.inject option.distinct(1) slot_at_Some_iff
        slot_at_update)
  then show ?thesis by (simp only: mem_flatten_iff)
qed

lemma mem_flatten_clear:
  "x \<in> set (flatten (xs[i := None])) \<Longrightarrow> x \<in> set (flatten xs)"
  by (auto simp: mem_flatten_iff slot_at_update split: if_splits)

lemma flatten_replicate [simp]: "flatten (replicate n None) = []"
  by (induction n) auto

lemma length_flatten_fill:
  "i < length xs \<Longrightarrow> xs ! i = None \<Longrightarrow> length (flatten (xs[i := Some x])) = Suc (length (flatten xs))"
proof (induction xs arbitrary: i rule: flatten.induct)
  case (2 xs)
  then show ?case by (cases i) auto
next
  case (3 y xs)
  then show ?case by (cases i) auto
qed simp

lemma length_flatten_clear:
  "i < length xs \<Longrightarrow> xs ! i = Some x \<Longrightarrow> Suc (length (flatten (xs[i := None]))) = length (flatten xs)"
proof (induction xs arbitrary: i rule: flatten.induct)
  case (2 xs)
  then show ?case by (cases i) auto
next
  case (3 y xs)
  then show ?case by (cases i) auto
qed simp

lemma length_flatten_full:
  "first_none xs = None \<Longrightarrow> length (flatten xs) = length xs"
  by (induction xs rule: flatten.induct) auto

lemma length_flatten_le: "length (flatten xs) \<le> length xs"
  by (induction xs rule: flatten.induct) auto

section \<open>Integer operations of the standard library\<close>

definition checked_add :: "'a::len word \<Rightarrow> 'a word \<Rightarrow> 'a word option" where
  "checked_add x y = (if uint x + uint y < 2 ^ LENGTH('a) then Some (x + y) else None)"

definition checked_mul :: "'a::len word \<Rightarrow> 'a word \<Rightarrow> 'a word option" where
  "checked_mul x y = (if uint x * uint y < 2 ^ LENGTH('a) then Some (x * y) else None)"

definition saturating_add :: "'a::len word \<Rightarrow> 'a word \<Rightarrow> 'a word" where
  "saturating_add x y = (if uint x + uint y < 2 ^ LENGTH('a) then x + y else - 1)"

definition saturating_sub :: "'a::len word \<Rightarrow> 'a word \<Rightarrow> 'a word" where
  "saturating_sub x y = (if y \<le> x then x - y else 0)"

definition is_power_of_two :: "'a::len word \<Rightarrow> bool" where
  "is_power_of_two x = list_ex (\<lambda>n. x = 2 ^ n) [0 ..< LENGTH('a)]"

text \<open>Plain \<open>+\<close> and \<open>-\<close> panic on overflow in this profile.\<close>

definition add_or_panic :: "'a::len word \<Rightarrow> 'a word \<Rightarrow> ('e, 'a word) res" where
  "add_or_panic x y = (if uint x + uint y < 2 ^ LENGTH('a) then Ok (x + y) else Panic)"

definition sub_or_panic :: "'a::len word \<Rightarrow> 'a word \<Rightarrow> ('e, 'a word) res" where
  "sub_or_panic x y = (if y \<le> x then Ok (x - y) else Panic)"

definition mul_or_panic :: "'a::len word \<Rightarrow> 'a word \<Rightarrow> ('e, 'a word) res" where
  "mul_or_panic x y = (if uint x * uint y < 2 ^ LENGTH('a) then Ok (x * y) else Panic)"

lemma unat_add_exact:
  fixes x y :: "'a::len word"
  assumes "unat x + unat y < 2 ^ LENGTH('a)"
  shows "unat (x + y) = unat x + unat y"
  using assms by (simp add: unat_word_ariths)

lemma unat_mult_exact:
  fixes x y :: "'a::len word"
  assumes "unat x * unat y < 2 ^ LENGTH('a)"
  shows "unat (x * y) = unat x * unat y"
  using assms by (simp add: unat_word_ariths)

lemma unat_sub_exact:
  fixes x y :: "'a::len word"
  assumes "y \<le> x"
  shows "unat (x - y) = unat x - unat y"
  using assms by (simp add: unat_sub)

lemma unat_bound: "unat (x :: 'a::len word) < 2 ^ LENGTH('a)"
  by simp

lemma unat_all_ones: "unat (- 1 :: 'a::len word) = 2 ^ LENGTH('a) - 1"
  by (simp add: unsigned_minus_1_eq_mask mask_eq_exp_minus_1)

lemma uint_unat_less:
  fixes x :: "'a::len word" and y :: "'b::len word"
  shows "uint x + uint y < 2 ^ n \<longleftrightarrow> unat x + unat y < 2 ^ n"
    and "uint x * uint y < 2 ^ n \<longleftrightarrow> unat x * unat y < 2 ^ n"
proof -
  have "int (unat x + unat y) < int (2 ^ n) \<longleftrightarrow> unat x + unat y < 2 ^ n"
    by (rule of_nat_less_iff)
  then show "uint x + uint y < 2 ^ n \<longleftrightarrow> unat x + unat y < 2 ^ n"
    by (simp only: uint_nat of_nat_add of_nat_power of_nat_numeral)
  have "int (unat x * unat y) < int (2 ^ n) \<longleftrightarrow> unat x * unat y < 2 ^ n"
    by (rule of_nat_less_iff)
  then show "uint x * uint y < 2 ^ n \<longleftrightarrow> unat x * unat y < 2 ^ n"
    by (simp only: uint_nat of_nat_mult of_nat_power of_nat_numeral)
qed

lemma add_or_panic_Ok:
  fixes x y :: "'a::len word"
  shows "add_or_panic x y = Ok z \<longleftrightarrow> unat x + unat y < 2 ^ LENGTH('a) \<and> z = x + y"
  by (auto simp: add_or_panic_def uint_unat_less)

lemma mul_or_panic_Ok:
  fixes x y :: "'a::len word"
  shows "mul_or_panic x y = Ok z \<longleftrightarrow> unat x * unat y < 2 ^ LENGTH('a) \<and> z = x * y"
  by (auto simp: mul_or_panic_def uint_unat_less)

lemma sub_or_panic_Ok: "sub_or_panic x y = Ok z \<longleftrightarrow> y \<le> x \<and> z = x - y"
  by (auto simp: sub_or_panic_def)

lemma checked_add_Some:
  fixes x y :: "'a::len word"
  shows "checked_add x y = Some z \<longleftrightarrow> unat x + unat y < 2 ^ LENGTH('a) \<and> z = x + y"
  by (auto simp: checked_add_def uint_unat_less)

lemma checked_mul_Some:
  fixes x y :: "'a::len word"
  shows "checked_mul x y = Some z \<longleftrightarrow> unat x * unat y < 2 ^ LENGTH('a) \<and> z = x * y"
  by (auto simp: checked_mul_def uint_unat_less)

lemma checked_add_None:
  fixes x y :: "'a::len word"
  shows "checked_add x y = None \<longleftrightarrow> 2 ^ LENGTH('a) \<le> unat x + unat y"
  by (simp only: checked_add_def uint_unat_less) auto

lemma checked_mul_None:
  fixes x y :: "'a::len word"
  shows "checked_mul x y = None \<longleftrightarrow> 2 ^ LENGTH('a) \<le> unat x * unat y"
  by (simp only: checked_mul_def uint_unat_less) auto

lemma unat_saturating_add:
  fixes x y :: "'a::len word"
  shows "unat (saturating_add x y) = min (unat x + unat y) (2 ^ LENGTH('a) - 1)"
  by (auto simp: saturating_add_def uint_unat_less unat_add_exact unat_all_ones)

lemma unat_saturating_sub: "unat (saturating_sub x y) = unat x - unat y"
  by (auto simp: saturating_sub_def unat_sub_exact word_le_nat_alt)

lemma saturating_add_ge: "x \<le> saturating_add x y"
proof -
  have "unat x \<le> 2 ^ LENGTH('a) - 1" using unat_bound [of x] by linarith
  then show ?thesis by (simp add: word_le_nat_alt unat_saturating_add)
qed

lemma is_power_of_two_iff:
  fixes x :: "'a::len word"
  shows "is_power_of_two x \<longleftrightarrow> (\<exists>n < LENGTH('a). x = 2 ^ n)"
  by (auto simp: is_power_of_two_def list_ex_iff)

lemma unat_of_nat_small: "i < 2 ^ LENGTH('a) \<Longrightarrow> unat (of_nat i :: 'a::len word) = i"
  by (simp add: unat_of_nat take_bit_eq_mod)

lemma of_nat_inj_small:
  "i < 2 ^ LENGTH('a) \<Longrightarrow> j < 2 ^ LENGTH('a) \<Longrightarrow>
     (of_nat i :: 'a::len word) = of_nat j \<longleftrightarrow> i = j"
  by (metis unat_of_nat_small)

lemma unat_ucast_up:
  "LENGTH('a) \<le> LENGTH('b) \<Longrightarrow> unat (ucast (x :: 'a::len word) :: 'b::len word) = unat x"
  by (simp add: unsigned_ucast_eq take_bit_nat_eq_self_iff
      less_le_trans [OF unat_bound power_increasing])

text \<open>Rounding down with a mask: \<open>x & !(2^n - 1)\<close>.\<close>

lemma unat_and_not_mask:
  fixes x :: "'a::len word"
  shows "unat (x AND NOT (2 ^ n - 1)) = unat x div 2 ^ n * 2 ^ n"
proof -
  have "x AND NOT (2 ^ n - 1) = push_bit n (drop_bit n x)"
    by (rule bit_word_eqI) (auto simp: bit_simps simp flip: mask_eq_exp_minus_1)
  moreover have "unat (push_bit n (drop_bit n x)) = unat x div 2 ^ n * 2 ^ n"
  proof -
    have "unat x div 2 ^ n * 2 ^ n < 2 ^ LENGTH('a)"
      by (meson div_times_less_eq_dividend le_less_trans unat_bound)
    then show ?thesis
      by (simp only: unsigned_push_bit_eq unat_drop_bit_eq)
        (simp add: push_bit_eq_mult take_bit_eq_mod drop_bit_eq_div)
  qed
  ultimately show ?thesis by simp
qed

lemma round_up_nat:
  fixes x a :: nat
  assumes "0 < a"
  shows "x \<le> (x + (a - 1)) div a * a" and "(x + (a - 1)) div a * a < x + a"
proof -
  let ?d = "(x + (a - 1)) div a" and ?m = "(x + (a - 1)) mod a"
  have "?d * a + ?m = x + (a - 1)" by simp
  moreover have "?m < a" using assms by simp
  ultimately show "x \<le> ?d * a" and "?d * a < x + a" using assms by linarith+
qed

text \<open>Rounding up to a power of two: \<open>(x + (a - 1)) & !(a - 1)\<close>.\<close>

lemma align_up_word:
  fixes x a :: "'a::len word"
  assumes "is_power_of_two a" and "unat x + unat (a - 1) < 2 ^ LENGTH('a)"
  shows "unat x \<le> unat ((x + (a - 1)) AND NOT (a - 1))"
    and "unat ((x + (a - 1)) AND NOT (a - 1)) < unat x + unat a"
    and "unat a dvd unat ((x + (a - 1)) AND NOT (a - 1))"
proof -
  obtain n where n: "a = 2 ^ n" "n < LENGTH('a)"
    using assms(1) by (auto simp: is_power_of_two_iff)
  have "a = of_nat (2 ^ n)" using n(1) by simp
  then have ua: "unat a = 2 ^ n" using n(2) by (simp add: unat_of_nat_small del: of_nat_power)
  then have "1 \<le> a" by (simp add: word_le_nat_alt)
  then have a1: "unat (a - 1) = 2 ^ n - 1" using ua by (simp add: unat_sub_exact)
  have eq: "unat ((x + (a - 1)) AND NOT (a - 1)) = (unat x + (2 ^ n - 1)) div 2 ^ n * 2 ^ n"
    using unat_and_not_mask [of "x + (a - 1)" n] unat_add_exact [OF assms(2)] a1 n(1) by simp
  show "unat x \<le> unat ((x + (a - 1)) AND NOT (a - 1))"
    and "unat ((x + (a - 1)) AND NOT (a - 1)) < unat x + unat a"
    and "unat a dvd unat ((x + (a - 1)) AND NOT (a - 1))"
    unfolding eq ua using round_up_nat [of "2 ^ n" "unat x"] by simp_all
qed

end
