(* ===== verification/Caps.thy ===== *)
theory Caps
  imports Prelude
begin

text \<open>
  \<open>kernel/kernel-cap/src/ids.rs\<close>, \<open>rights.rs\<close> and \<open>lib.rs\<close>: the ids that
  name kernel objects, the rights bit set, and the capability value.

  The \<open>kernel_id!\<close> newtypes wrap one \<open>u32\<close>; the wrapper has no behaviour of its
  own, so each is a name for \<open>u32\<close>. The operations that \<open>bitflags!\<close> generates for
  \<open>CapabilityRights\<close> are the bit operations its documentation states: union is OR,
  \<open>contains\<close> is the subset test on set bits, \<open>all()\<close> is the union of the declared
  constants.
\<close>

type_synonym cap_id = u32
type_synonym object_id = u32
type_synonym thread_id = u32
type_synonym endpoint_id = u32
type_synonym notification_id = u32
type_synonym untyped_id = u32
type_synonym page_table_id = u32
type_synonym cap_space_id = u32
type_synonym shared_region_id = u32
type_synonym chain_group_id = u32
type_synonym mmio_region_id = u32

definition as_usize :: "u32 \<Rightarrow> nat" where
  "as_usize i = unat i"

lemma as_usize_of_nat: "i < 2 ^ 32 \<Longrightarrow> as_usize (of_nat i) = i"
  by (simp add: as_usize_def unat_of_nat_small)

lemma of_nat_as_usize [simp]: "of_nat (as_usize c) = c"
  by (simp add: as_usize_def)

lemma as_usize_inj [simp]: "as_usize a = as_usize b \<longleftrightarrow> a = b"
  by (metis of_nat_as_usize)

section \<open>Rights\<close>

type_synonym rights = u32

definition READ :: rights where "READ = 0x01"
definition WRITE :: rights where "WRITE = 0x02"
definition EXECUTE :: rights where "EXECUTE = 0x04"
definition GRANT :: rights where "GRANT = 0x08"
definition DUPLICATE :: rights where "DUPLICATE = 0x10"
definition REVOKE :: rights where "REVOKE = 0x20"

definition all_rights :: rights where
  "all_rights = READ OR WRITE OR EXECUTE OR GRANT OR DUPLICATE OR REVOKE"

definition RO :: rights where "RO = READ"
definition RW :: rights where "RW = READ OR WRITE"
definition RX :: rights where "RX = READ OR EXECUTE"

definition contains :: "rights \<Rightarrow> rights \<Rightarrow> bool" where
  "contains self other \<longleftrightarrow> self AND other = other"

definition is_subset_of :: "rights \<Rightarrow> rights \<Rightarrow> bool" where
  "is_subset_of self parent = contains parent self"

lemmas rights_defs = READ_def WRITE_def EXECUTE_def GRANT_def DUPLICATE_def REVOKE_def
  all_rights_def RO_def RW_def RX_def

lemma contains_bits: "contains r s \<longleftrightarrow> (\<forall>n. bit s n \<longrightarrow> bit r n)"
proof
  assume "contains r s"
  then have "r AND s = s" by (simp add: contains_def)
  then show "\<forall>n. bit s n \<longrightarrow> bit r n" by (metis bit_and_iff)
next
  assume "\<forall>n. bit s n \<longrightarrow> bit r n"
  then show "contains r s"
    by (auto simp: contains_def bit_simps intro!: bit_word_eqI)
qed

lemma is_subset_of_refl [simp]: "is_subset_of r r"
  by (simp add: is_subset_of_def contains_def)

lemma is_subset_of_trans: "is_subset_of a b \<Longrightarrow> is_subset_of b c \<Longrightarrow> is_subset_of a c"
  by (simp add: is_subset_of_def contains_bits)

lemma contains_mono: "is_subset_of a b \<Longrightarrow> contains a n \<Longrightarrow> contains b n"
  by (simp add: is_subset_of_def contains_bits)

section \<open>Kernel objects and capabilities\<close>

datatype object_kind = UntypedMemory | PageTable | ThreadControlBlock | Endpoint
  | Notification | CapabilitySpace | SharedRegion | MmioRegion

record object_ref =
  obj_kind :: object_kind
  obj_id :: object_id

record capability =
  cap_object :: object_ref
  cap_rights :: rights
  cap_badge :: u64

definition ObjectRef :: "object_kind \<Rightarrow> object_id \<Rightarrow> object_ref" where
  "ObjectRef kind i = \<lparr>obj_kind = kind, obj_id = i\<rparr>"

definition full :: "object_ref \<Rightarrow> capability" where
  "full obj = \<lparr>cap_object = obj, cap_rights = all_rights, cap_badge = 0\<rparr>"

text \<open>The \<open>debug_assert!\<close> of \<open>with_badge\<close> is live in the \<open>dev\<close> profile.\<close>

definition with_badge :: "capability \<Rightarrow> u64 \<Rightarrow> ('e, capability) res" where
  "with_badge c badge = (if cap_badge c = 0 then Ok (c\<lparr>cap_badge := badge\<rparr>) else Panic)"

definition allows :: "capability \<Rightarrow> rights \<Rightarrow> bool" where
  "allows c needed = contains (cap_rights c) needed"

lemma full_simps [simp]:
  "cap_object (full obj) = obj" "cap_rights (full obj) = all_rights" "cap_badge (full obj) = 0"
  by (simp_all add: full_def)

lemma ObjectRef_simps [simp]:
  "obj_kind (ObjectRef k i) = k" "obj_id (ObjectRef k i) = i"
  by (simp_all add: ObjectRef_def)

lemma allows_mono: "is_subset_of (cap_rights c) (cap_rights p) \<Longrightarrow> allows c n \<Longrightarrow> allows p n"
  by (simp add: allows_def contains_mono)

end
