(* ===== verification/Cdt.thy ===== *)
theory Cdt
  imports Caps
begin

text \<open>
  \<open>kernel/kernel-cap/src/cdt.rs\<close>: capability tables, the derivation tree whose parent
  links may cross capability spaces, and revocation.

  A \<open>CapTable<N>\<close> is a record whose \<open>slots\<close> list has length \<open>N\<close>; the array
  \<open>[Option<CapTable<N>>; M]\<close> handed to revocation is a list of length \<open>M\<close>. The const
  generic \<open>N\<close> is an argument of the functions that use it. The first half holds the code,
  the second the invariant \<open>cdt_wf\<close> (the five invariants of the module comment), its
  preservation by every operation, and what revocation frees.
\<close>

section \<open>Data\<close>

datatype cap_table_error = Full | EmptySlot | RightsEscalation | BadgeConflict

record global_cap_id =
  gc_space :: cap_space_id
  gc_cap :: cap_id

definition GlobalCapId :: "cap_space_id \<Rightarrow> cap_id \<Rightarrow> global_cap_id" where
  "GlobalCapId space cap = \<lparr>gc_space = space, gc_cap = cap\<rparr>"

record cap_slot =
  slot_cap :: "capability option"
  slot_parent :: "global_cap_id option"
  free_next :: "cap_id option"

definition EMPTY_SLOT :: cap_slot where
  "EMPTY_SLOT = \<lparr>slot_cap = None, slot_parent = None, free_next = None\<rparr>"

record cap_table =
  slots :: "cap_slot list"
  free_head :: "cap_id option"
  occupied :: nat
  table_space :: cap_space_id

type_synonym cap_spaces = "cap_table option list"

section \<open>Operations of one table\<close>

definition ct_new :: "nat \<Rightarrow> cap_space_id \<Rightarrow> cap_table" where
  "ct_new N space =
     \<lparr>slots = map (\<lambda>i. EMPTY_SLOT\<lparr>free_next :=
          (if i + 1 < N then Some (of_nat (i + 1)) else None)\<rparr>) [0 ..< N],
      free_head = (if N > 0 then Some 0 else None),
      occupied = 0,
      table_space = space\<rparr>"

definition ct_len :: "cap_table \<Rightarrow> nat" where "ct_len t = occupied t"
definition ct_is_empty :: "cap_table \<Rightarrow> bool" where "ct_is_empty t \<longleftrightarrow> occupied t = 0"
definition ct_is_full :: "cap_table \<Rightarrow> bool" where "ct_is_full t \<longleftrightarrow> free_head t = None"

definition ct_lookup :: "cap_table \<Rightarrow> cap_id \<Rightarrow> capability option" where
  "ct_lookup t c = Option.bind (nth_opt (slots t) (as_usize c)) slot_cap"

definition parent_of :: "cap_table \<Rightarrow> cap_id \<Rightarrow> global_cap_id option" where
  "parent_of t c = Option.bind (nth_opt (slots t) (as_usize c)) slot_parent"

text \<open>Indexing \<open>self.slots[i]\<close> out of range panics.\<close>

definition alloc_slot :: "cap_table \<Rightarrow> (cap_table_error, cap_id) res \<times> cap_table" where
  "alloc_slot t = (case free_head t of
      None \<Rightarrow> (Err Full, t)
    | Some c \<Rightarrow> (case nth_opt (slots t) (as_usize c) of
          None \<Rightarrow> (Panic, t)
        | Some s \<Rightarrow> (Ok c, t\<lparr>free_head := free_next s,
            slots := (slots t)[as_usize c := EMPTY_SLOT],
            occupied := occupied t + 1\<rparr>)))"

definition free_slot :: "cap_table \<Rightarrow> cap_id \<Rightarrow> (cap_table_error, unit) res \<times> cap_table" where
  "free_slot t c = (if as_usize c < length (slots t) \<and> occupied t > 0
     then (Ok (), t\<lparr>slots := (slots t)[as_usize c := EMPTY_SLOT\<lparr>free_next := free_head t\<rparr>],
                   free_head := Some c,
                   occupied := occupied t - 1\<rparr>)
     else (Panic, t))"

definition set_slot_cap :: "cap_table \<Rightarrow> cap_id \<Rightarrow> capability \<Rightarrow> cap_table" where
  "set_slot_cap t c v =
     t\<lparr>slots := (slots t)[as_usize c := (slots t ! as_usize c)\<lparr>slot_cap := Some v\<rparr>]\<rparr>"

definition set_slot_parent :: "cap_table \<Rightarrow> cap_id \<Rightarrow> global_cap_id \<Rightarrow> cap_table" where
  "set_slot_parent t c p =
     t\<lparr>slots := (slots t)[as_usize c := (slots t ! as_usize c)\<lparr>slot_parent := Some p\<rparr>]\<rparr>"

definition insert_root ::
  "cap_table \<Rightarrow> capability \<Rightarrow> (cap_table_error, cap_id) res \<times> cap_table" where
  "insert_root t cap = then_do (alloc_slot t) (\<lambda>c t. (Ok c, set_slot_cap t c cap))"

definition effective_badge :: "capability \<Rightarrow> u64 \<Rightarrow> (cap_table_error, u64) res" where
  "effective_badge parent badge =
     (if cap_badge parent \<noteq> 0
      then (if badge \<noteq> 0 \<and> badge \<noteq> cap_badge parent then Err BadgeConflict
            else Ok (cap_badge parent))
      else Ok badge)"

definition insert_derived ::
  "cap_table \<Rightarrow> capability \<Rightarrow> global_cap_id \<Rightarrow> rights \<Rightarrow> u64 \<Rightarrow>
     (cap_table_error, cap_id) res \<times> cap_table" where
  "insert_derived dst parent_cap parent_global rights badge =
     (if \<not> is_subset_of rights (cap_rights parent_cap) then (Err RightsEscalation, dst)
      else try_in dst (effective_badge parent_cap badge) (\<lambda>b.
        then_do (alloc_slot dst) (\<lambda>child dst.
          (Ok child,
           set_slot_parent
             (set_slot_cap dst child
               \<lparr>cap_object = cap_object parent_cap, cap_rights = rights, cap_badge = b\<rparr>)
             child parent_global))))"

definition derive_child ::
  "cap_table \<Rightarrow> cap_id \<Rightarrow> rights \<Rightarrow> u64 \<Rightarrow> (cap_table_error, cap_id) res \<times> cap_table" where
  "derive_child t parent rights badge =
     try_in t (ok_or (ct_lookup t parent) EmptySlot) (\<lambda>parent_cap.
       insert_derived t parent_cap (GlobalCapId (table_space t) parent) rights badge)"

definition derive_child_cross_space ::
  "cap_table \<Rightarrow> cap_space_id \<Rightarrow> cap_id \<Rightarrow> cap_table \<Rightarrow> rights \<Rightarrow> u64 \<Rightarrow>
     (cap_table_error, cap_id) res \<times> cap_table" where
  "derive_child_cross_space src src_space parent dst rights badge =
     try_in dst (ok_or (ct_lookup src parent) EmptySlot) (\<lambda>parent_cap.
       insert_derived dst parent_cap (GlobalCapId src_space parent) rights badge)"

section \<open>Revocation across tables\<close>

definition table_at :: "cap_spaces \<Rightarrow> cap_space_id \<Rightarrow> cap_table option" where
  "table_at tabs sp = slot_at tabs (as_usize sp)"

definition parent_in :: "cap_spaces \<Rightarrow> global_cap_id \<Rightarrow> global_cap_id option" where
  "parent_in tabs g = Option.bind (table_at tabs (gc_space g)) (\<lambda>t. parent_of t (gc_cap g))"

text \<open>The bounded ancestry walk: one recursion step is one iteration of the loop.\<close>

primrec walk_up :: "nat \<Rightarrow> cap_spaces \<Rightarrow> global_cap_id \<Rightarrow> global_cap_id \<Rightarrow> bool" where
  "walk_up 0 tabs cur target = False"
| "walk_up (Suc n) tabs cur target = (case parent_in tabs cur of
      Some p \<Rightarrow> if p = target then True else walk_up n tabs p target
    | None \<Rightarrow> False)"

definition is_descendant_of ::
  "nat \<Rightarrow> cap_spaces \<Rightarrow> global_cap_id \<Rightarrow> global_cap_id \<Rightarrow> bool" where
  "is_descendant_of N tabs cur target = walk_up (length tabs * N + 1) tabs cur target"

text \<open>Pass 1: the \<open>marked\<close> matrix.\<close>

definition mark_slot :: "nat \<Rightarrow> cap_spaces \<Rightarrow> global_cap_id \<Rightarrow> nat \<Rightarrow> cap_table \<Rightarrow> nat \<Rightarrow> bool" where
  "mark_slot N tabs target si t i =
     (if slot_cap (slots t ! i) = None then False
      else let cand = GlobalCapId (of_nat si) (of_nat i)
           in cand = target \<or> is_descendant_of N tabs cand target)"

definition mark_table :: "nat \<Rightarrow> cap_spaces \<Rightarrow> global_cap_id \<Rightarrow> nat \<Rightarrow> bool list" where
  "mark_table N tabs target si = (case tabs ! si of
      None \<Rightarrow> replicate N False
    | Some t \<Rightarrow> map (mark_slot N tabs target si t) [0 ..< N])"

definition mark_all :: "nat \<Rightarrow> cap_spaces \<Rightarrow> global_cap_id \<Rightarrow> bool list list" where
  "mark_all N tabs target = map (mark_table N tabs target) [0 ..< length tabs]"

text \<open>Pass 2: free every marked slot, counting in a \<open>u32\<close>.\<close>

fun free_loop :: "bool list \<Rightarrow> nat list \<Rightarrow> cap_table \<Rightarrow> u32 \<Rightarrow>
    (cap_table_error, u32) res \<times> cap_table" where
  "free_loop ms [] t freed = (Ok freed, t)"
| "free_loop ms (i # is) t freed =
     (if ms ! i
      then then_do (free_slot t (of_nat i)) (\<lambda>_ t.
             try_in t (add_or_panic freed 1) (\<lambda>freed. free_loop ms is t freed))
      else free_loop ms is t freed)"

fun free_tables :: "nat \<Rightarrow> bool list list \<Rightarrow> nat list \<Rightarrow> cap_spaces \<Rightarrow> u32 \<Rightarrow>
    (cap_table_error, u32) res \<times> cap_spaces" where
  "free_tables N marked [] tabs freed = (Ok freed, tabs)"
| "free_tables N marked (si # sis) tabs freed = (case tabs ! si of
      None \<Rightarrow> free_tables N marked sis tabs freed
    | Some t \<Rightarrow> (let m = free_loop (marked ! si) [0 ..< N] t freed
                in then_do (fst m, tabs[si := Some (snd m)]) (\<lambda>freed tabs.
                     free_tables N marked sis tabs freed)))"

definition revoke_cross_space ::
  "nat \<Rightarrow> cap_spaces \<Rightarrow> global_cap_id \<Rightarrow> (cap_table_error, u32) res \<times> cap_spaces" where
  "revoke_cross_space N tabs target =
     try_in tabs (ok_or (table_at tabs (gc_space target)) EmptySlot) (\<lambda>t.
       if ct_lookup t (gc_cap target) = None then (Err EmptySlot, tabs)
       else free_tables N (mark_all N tabs target) [0 ..< length tabs] tabs 0)"

section \<open>The invariant of one table\<close>

text \<open>\<open>chain ss h is\<close>: following the free-list links from \<open>h\<close> visits exactly the
  slot numbers \<open>is\<close>, in order.\<close>

fun chain :: "cap_slot list \<Rightarrow> cap_id option \<Rightarrow> nat list \<Rightarrow> bool" where
  "chain ss h [] \<longleftrightarrow> h = None"
| "chain ss h (i # is) \<longleftrightarrow>
     (\<exists>c. h = Some c \<and> as_usize c = i \<and> i < length ss \<and> chain ss (free_next (ss ! i)) is)"

text \<open>Module invariants 1 and 2: the free list holds every free slot exactly once, occupied
  slots are never on it, and \<open>occupied\<close> counts the others.\<close>

definition ct_wf :: "cap_table \<Rightarrow> bool" where
  "ct_wf t \<longleftrightarrow>
     length (slots t) \<le> 2 ^ 32 \<and>
     (\<forall>i < length (slots t). slot_cap (slots t ! i) = None \<longrightarrow> slot_parent (slots t ! i) = None) \<and>
     (\<exists>fs. chain (slots t) (free_head t) fs \<and> distinct fs \<and>
        set fs = {i. i < length (slots t) \<and> slot_cap (slots t ! i) = None} \<and>
        occupied t + length fs = length (slots t))"

lemma chain_update: "j \<notin> set ks \<Longrightarrow> chain (ss[j := s]) h ks = chain ss h ks"
  by (induction ks arbitrary: h) auto

lemma ct_wf_bound: "ct_wf t \<Longrightarrow> length (slots t) \<le> 2 ^ 32"
  by (simp add: ct_wf_def)

lemma ct_wf_free_parent:
  "ct_wf t \<Longrightarrow> i < length (slots t) \<Longrightarrow> slot_cap (slots t ! i) = None \<Longrightarrow>
     slot_parent (slots t ! i) = None"
  by (simp add: ct_wf_def)

lemma ct_lookup_Some_iff:
  "ct_lookup t c = Some v \<longleftrightarrow>
     as_usize c < length (slots t) \<and> slot_cap (slots t ! as_usize c) = Some v"
  by (auto simp: ct_lookup_def nth_opt_def)

lemma parent_of_Some_iff:
  "parent_of t c = Some p \<longleftrightarrow>
     as_usize c < length (slots t) \<and> slot_parent (slots t ! as_usize c) = Some p"
  by (auto simp: parent_of_def nth_opt_def)

lemma chain_new:
  assumes "n \<le> 2 ^ 32"
  shows "k \<le> n \<Longrightarrow>
    chain (map (\<lambda>i. EMPTY_SLOT\<lparr>free_next :=
        (if i + 1 < n then Some (of_nat (i + 1)) else None)\<rparr>) [0 ..< n])
      (if k < n then Some (of_nat k) else None) [k ..< n]"
proof (induction "n - k" arbitrary: k)
  case 0
  then show ?case by simp
next
  case (Suc d)
  then have k: "k < n" by linarith
  have eq: "[k ..< n] = k # [Suc k ..< n]" using k by (rule upt_conv_Cons)
  have idx: "as_usize (of_nat k) = k"
    using k assms by (simp add: as_usize_def unat_of_nat_small)
  have "chain (map (\<lambda>i. EMPTY_SLOT\<lparr>free_next :=
        (if i + 1 < n then Some (of_nat (i + 1)) else None)\<rparr>) [0 ..< n])
      (if Suc k < n then Some (of_nat (Suc k)) else None) [Suc k ..< n]"
    using Suc k by (intro Suc(1)) auto
  then show ?case using k idx by (cases "Suc k < n") (simp_all add: eq del: of_nat_Suc)
qed

lemma ct_wf_new:
  assumes "N \<le> 2 ^ 32"
  shows "ct_wf (ct_new N sp)"
proof -
  have "chain (slots (ct_new N sp)) (free_head (ct_new N sp)) [0 ..< N]"
    using chain_new [OF assms, of 0] by (cases "0 < N") (simp_all add: ct_new_def)
  then show ?thesis
    using assms
    by (auto simp: ct_wf_def ct_new_def EMPTY_SLOT_def intro!: exI [where x = "[0 ..< N]"])
qed

lemma ct_new_simps [simp]:
  "length (slots (ct_new N sp)) = N" "table_space (ct_new N sp) = sp" "occupied (ct_new N sp) = 0"
  by (simp_all add: ct_new_def)

lemma ct_lookup_new [simp]: "ct_lookup (ct_new N sp) c = None" "parent_of (ct_new N sp) c = None"
  by (simp_all add: ct_lookup_def parent_of_def nth_opt_def ct_new_def EMPTY_SLOT_def)

text \<open>Allocation pops the head of the free list; a table whose popped slot is then filled is
  well formed again.\<close>

lemma alloc_slot_full:
  assumes "ct_wf t" and "free_head t = None"
  shows "alloc_slot t = (Err Full, t)" and "occupied t = length (slots t)"
    and "\<And>i. i < length (slots t) \<Longrightarrow> slot_cap (slots t ! i) \<noteq> None"
proof -
  show "alloc_slot t = (Err Full, t)" using assms by (simp add: alloc_slot_def)
  obtain fs where fs: "chain (slots t) (free_head t) fs"
      "set fs = {i. i < length (slots t) \<and> slot_cap (slots t ! i) = None}"
      "occupied t + length fs = length (slots t)"
    using assms(1) by (auto simp: ct_wf_def)
  have "fs = []" using fs(1) assms(2) by (cases fs) auto
  with fs show "occupied t = length (slots t)"
    and "\<And>i. i < length (slots t) \<Longrightarrow> slot_cap (slots t ! i) \<noteq> None" by auto
qed

lemma alloc_slot_ok:
  assumes "ct_wf t" and "free_head t = Some c"
  obtains t' where "alloc_slot t = (Ok c, t')" and "as_usize c < length (slots t)"
    and "slot_cap (slots t ! as_usize c) = None"
    and "slots t' = (slots t)[as_usize c := EMPTY_SLOT]"
    and "table_space t' = table_space t" and "occupied t' = Suc (occupied t)"
    and "\<And>s. slot_cap s \<noteq> None \<Longrightarrow> ct_wf (t'\<lparr>slots := (slots t')[as_usize c := s]\<rparr>)"
proof -
  let ?i = "as_usize c"
  obtain fs where fs: "chain (slots t) (free_head t) fs" "distinct fs"
      "set fs = {i. i < length (slots t) \<and> slot_cap (slots t ! i) = None}"
      "occupied t + length fs = length (slots t)"
    using assms(1) by (auto simp: ct_wf_def)
  obtain gs where gs: "fs = ?i # gs" "?i < length (slots t)"
      "chain (slots t) (free_next (slots t ! ?i)) gs"
    using fs(1) assms(2) by (cases fs) auto
  define t' where "t' = t\<lparr>free_head := free_next (slots t ! ?i),
    slots := (slots t)[?i := EMPTY_SLOT], occupied := occupied t + 1\<rparr>"
  have free: "slot_cap (slots t ! ?i) = None"
  proof -
    have "?i \<in> set fs" using gs(1) by simp
    then show ?thesis unfolding fs(3) by simp
  qed
  have wf: "ct_wf (t'\<lparr>slots := (slots t')[?i := s]\<rparr>)" if s: "slot_cap s \<noteq> None" for s
  proof -
    have "?i \<notin> set gs" using fs(2) gs(1) by simp
    then have ch: "chain ((slots t)[?i := s]) (free_next (slots t ! ?i)) gs"
      using gs(3) by (simp add: chain_update)
    have st: "set gs = {i. i < length (slots t) \<and> slot_cap ((slots t)[?i := s] ! i) = None}"
    proof -
      have mem: "x \<in> set gs \<longleftrightarrow> x \<in> set fs \<and> x \<noteq> ?i" for x
        using fs(2) gs(1) by auto
      show ?thesis
      proof (rule set_eqI)
        fix x
        show "x \<in> set gs \<longleftrightarrow>
            x \<in> {i. i < length (slots t) \<and> slot_cap ((slots t)[?i := s] ! i) = None}"
          unfolding mem fs(3) using s gs(2) by (cases "x = ?i") simp_all
      qed
    qed
    have pr: "\<forall>i < length (slots t). slot_cap ((slots t)[?i := s] ! i) = None \<longrightarrow>
        slot_parent ((slots t)[?i := s] ! i) = None"
      using assms(1) s gs(2) by (auto simp: nth_list_update ct_wf_def)
    have "distinct gs" "occupied t + 1 + length gs = length (slots t)"
      using fs(2,4) gs(1) by auto
    then have "\<exists>gs. chain ((slots t)[?i := s]) (free_next (slots t ! ?i)) gs \<and> distinct gs \<and>
        set gs = {i. i < length (slots t) \<and> slot_cap ((slots t)[?i := s] ! i) = None} \<and>
        occupied t + 1 + length gs = length (slots t)"
      using ch st by blast
    then show ?thesis using pr ct_wf_bound [OF assms(1)]
      by (simp add: ct_wf_def t'_def)
  qed
  have "alloc_slot t = (Ok c, t')"
    using assms(2) gs(2) by (simp add: alloc_slot_def nth_opt_def t'_def)
  then show thesis using that gs(2) free wf by (simp add: t'_def)
qed

lemma free_slot_ok:
  assumes wf: "ct_wf t" and i: "as_usize c < length (slots t)"
    and occ: "slot_cap (slots t ! as_usize c) \<noteq> None"
  obtains t' where "free_slot t c = (Ok (), t')" and "ct_wf t'"
    and "slots t' = (slots t)[as_usize c := EMPTY_SLOT\<lparr>free_next := free_head t\<rparr>]"
    and "table_space t' = table_space t" and "Suc (occupied t') = occupied t"
proof -
  let ?i = "as_usize c" and ?s = "EMPTY_SLOT\<lparr>free_next := free_head t\<rparr>"
  obtain fs where fs: "chain (slots t) (free_head t) fs" "distinct fs"
      "set fs = {i. i < length (slots t) \<and> slot_cap (slots t ! i) = None}"
      "occupied t + length fs = length (slots t)"
    using wf by (auto simp: ct_wf_def)
  have nin: "?i \<notin> set fs" using fs(3) occ by simp
  have len: "Suc (length fs) \<le> length (slots t)"
  proof -
    have "set (?i # fs) \<subseteq> {..< length (slots t)}" using fs(3) i by auto
    then have "card (set (?i # fs)) \<le> card {..< length (slots t)}"
      by (intro card_mono) auto
    moreover have "card (set (?i # fs)) = Suc (length fs)"
      using fs(2) nin by (simp add: distinct_card)
    ultimately show ?thesis by simp
  qed
  define t' where "t' = t\<lparr>slots := (slots t)[?i := ?s], free_head := Some c,
    occupied := occupied t - 1\<rparr>"
  have pos: "occupied t > 0" using len fs(4) by linarith
  have "ct_wf t'"
  proof -
    have "chain (slots t') (free_head t') (?i # fs)"
      using fs(1) nin i by (simp add: t'_def chain_update)
    moreover have "set (?i # fs) = {i. i < length (slots t') \<and> slot_cap (slots t' ! i) = None}"
      using fs(3) i by (auto simp: t'_def nth_list_update EMPTY_SLOT_def)
    moreover have "occupied t' + length (?i # fs) = length (slots t')"
      using fs(4) pos by (simp add: t'_def)
    moreover have "distinct (?i # fs)" using fs(2) nin by simp
    moreover have "\<forall>i < length (slots t'). slot_cap (slots t' ! i) = None \<longrightarrow>
        slot_parent (slots t' ! i) = None"
      using wf i by (auto simp: t'_def nth_list_update EMPTY_SLOT_def ct_wf_def)
    moreover have "length (slots t') \<le> 2 ^ 32" using ct_wf_bound [OF wf] by (simp add: t'_def)
    ultimately show ?thesis unfolding ct_wf_def by blast
  qed
  moreover have "free_slot t c = (Ok (), t')"
    using i pos by (simp add: free_slot_def t'_def)
  ultimately show thesis using that pos by (simp add: t'_def)
qed

section \<open>Derivation forests\<close>

text \<open>What a derivation step may change: the object stays, rights only narrow, and a badge
  once set is inherited.\<close>

definition derived_ok :: "capability \<Rightarrow> capability \<Rightarrow> bool" where
  "derived_ok parent c \<longleftrightarrow>
     cap_object c = cap_object parent \<and> is_subset_of (cap_rights c) (cap_rights parent) \<and>
     (cap_badge parent \<noteq> 0 \<longrightarrow> cap_badge c = cap_badge parent)"

lemma derived_ok_refl [simp]: "derived_ok c c"
  by (simp add: derived_ok_def)

lemma derived_ok_trans: "derived_ok a b \<Longrightarrow> derived_ok b c \<Longrightarrow> derived_ok a c"
  by (auto simp: derived_ok_def intro: is_subset_of_trans)

definition link_rel :: "('g \<Rightarrow> 'g option) \<Rightarrow> ('g \<times> 'g) set" where
  "link_rel par = {(g, p). par g = Some p}"

lemma link_rel_iff [simp]: "(g, p) \<in> link_rel par \<longleftrightarrow> par g = Some p"
  by (simp add: link_rel_def)

text \<open>The interface between the tables and everything that reasons about ancestry: a state with
  capabilities and parent links whose links are derivations, without cycles, and few enough to
  be walked in \<open>bound\<close> steps.\<close>

locale derivation_forest =
  fixes inv :: "'s \<Rightarrow> bool"
    and cap_of :: "'s \<Rightarrow> 'g \<Rightarrow> capability option"
    and par :: "'s \<Rightarrow> 'g \<Rightarrow> 'g option"
    and bound :: "'s \<Rightarrow> nat"
  assumes parent_derived: "inv s \<Longrightarrow> par s g = Some p \<Longrightarrow>
      \<exists>c pc. cap_of s g = Some c \<and> cap_of s p = Some pc \<and> derived_ok pc c"
    and no_cycle: "inv s \<Longrightarrow> acyclic (link_rel (par s))"
    and few_links: "inv s \<Longrightarrow> finite (link_rel (par s)) \<and> card (link_rel (par s)) \<le> bound s"
begin

lemma ancestor_derived:
  assumes "inv s" and "(g, a) \<in> (link_rel (par s))\<^sup>+"
  shows "\<exists>c ac. cap_of s g = Some c \<and> cap_of s a = Some ac \<and> derived_ok ac c"
  using assms(2)
proof (induction rule: trancl_induct)
  case (base p)
  then show ?case using parent_derived [OF assms(1)] by simp
next
  case (step p q)
  then obtain pc qc where "cap_of s p = Some pc" "cap_of s q = Some qc" "derived_ok qc pc"
    using parent_derived [OF assms(1)] by fastforce
  with step.IH show ?case by (auto intro: derived_ok_trans)
qed

lemma ancestor_within_bound:
  assumes "inv s"
  shows "(g, a) \<in> (link_rel (par s))\<^sup>+ \<longleftrightarrow>
    (\<exists>k. 0 < k \<and> k \<le> bound s \<and> (g, a) \<in> link_rel (par s) ^^ k)"
proof
  assume "(g, a) \<in> (link_rel (par s))\<^sup>+"
  then show "\<exists>k. 0 < k \<and> k \<le> bound s \<and> (g, a) \<in> link_rel (par s) ^^ k"
    using few_links [OF assms] by (auto simp: trancl_finite_eq_relpow dest: le_trans)
next
  assume "\<exists>k. 0 < k \<and> k \<le> bound s \<and> (g, a) \<in> link_rel (par s) ^^ k"
  then show "(g, a) \<in> (link_rel (par s))\<^sup>+" by (auto simp: trancl_power)
qed

lemma never_own_ancestor: "inv s \<Longrightarrow> (g, g) \<notin> (link_rel (par s))\<^sup>+"
  using no_cycle by (auto simp: acyclic_def)

end

section \<open>The invariant across capability spaces\<close>

definition cap_at :: "cap_spaces \<Rightarrow> global_cap_id \<Rightarrow> capability option" where
  "cap_at tabs g = Option.bind (table_at tabs (gc_space g)) (\<lambda>t. ct_lookup t (gc_cap g))"

definition tables_wf :: "nat \<Rightarrow> cap_spaces \<Rightarrow> bool" where
  "tables_wf N tabs \<longleftrightarrow> length tabs < 2 ^ 32 \<and> length tabs * N < 2 ^ 32 \<and>
     (\<forall>i t. slot_at tabs i = Some t \<longrightarrow>
        ct_wf t \<and> length (slots t) = N \<and> table_space t = of_nat i)"

definition cdt_wf :: "nat \<Rightarrow> cap_spaces \<Rightarrow> bool" where
  "cdt_wf N tabs \<longleftrightarrow> tables_wf N tabs \<and>
     (\<forall>g p. parent_in tabs g = Some p \<longrightarrow>
        (\<exists>c pc. cap_at tabs g = Some c \<and> cap_at tabs p = Some pc \<and> derived_ok pc c)) \<and>
     acyclic (link_rel (parent_in tabs))"

definition descends :: "cap_spaces \<Rightarrow> global_cap_id \<Rightarrow> global_cap_id \<Rightarrow> bool" where
  "descends tabs g a \<longleftrightarrow> (g, a) \<in> (link_rel (parent_in tabs))\<^sup>+"

lemma GlobalCapId_simps [simp]:
  "gc_space (GlobalCapId sp c) = sp" "gc_cap (GlobalCapId sp c) = c"
  by (simp_all add: GlobalCapId_def)

lemma gid_eq_iff: "g = GlobalCapId sp c \<longleftrightarrow> gc_space g = sp \<and> gc_cap g = c"
  by (cases g) (auto simp: GlobalCapId_def)

lemma gid_collapse [simp]: "GlobalCapId (gc_space g) (gc_cap g) = g"
  by (simp add: gid_eq_iff [symmetric, of g] flip: gid_eq_iff)

lemma cap_at_Some_iff:
  "cap_at tabs g = Some v \<longleftrightarrow>
     (\<exists>t. slot_at tabs (as_usize (gc_space g)) = Some t \<and> as_usize (gc_cap g) < length (slots t) \<and>
        slot_cap (slots t ! as_usize (gc_cap g)) = Some v)"
  by (auto simp: cap_at_def table_at_def ct_lookup_Some_iff bind_eq_Some_conv)

lemma parent_in_Some_iff:
  "parent_in tabs g = Some p \<longleftrightarrow>
     (\<exists>t. slot_at tabs (as_usize (gc_space g)) = Some t \<and> as_usize (gc_cap g) < length (slots t) \<and>
        slot_parent (slots t ! as_usize (gc_cap g)) = Some p)"
  by (auto simp: parent_in_def table_at_def parent_of_Some_iff bind_eq_Some_conv)

lemma tables_wfD:
  assumes "tables_wf N tabs" and "slot_at tabs i = Some t"
  shows "ct_wf t" and "length (slots t) = N" and "table_space t = of_nat i" and "i < 2 ^ 32"
    and "i < length tabs"
  using assms slot_at_length [OF assms(2)] by (auto simp: tables_wf_def)

lemma cdt_wf_tables: "cdt_wf N tabs \<Longrightarrow> tables_wf N tabs"
  by (simp add: cdt_wf_def)

lemma parent_in_live:
  "cdt_wf N tabs \<Longrightarrow> parent_in tabs g = Some p \<Longrightarrow>
     \<exists>c pc. cap_at tabs g = Some c \<and> cap_at tabs p = Some pc \<and> derived_ok pc c"
  by (simp add: cdt_wf_def)

lemma links_few:
  assumes "tables_wf N tabs"
  shows "finite (link_rel (parent_in tabs)) \<and>
    card (link_rel (parent_in tabs)) \<le> length tabs * N"
proof -
  let ?D = "(\<lambda>(si, i). GlobalCapId (of_nat si) (of_nat i)) ` ({..< length tabs} \<times> {..< N})"
  let ?f = "\<lambda>g. (g, the (parent_in tabs g))"
  have sub: "link_rel (parent_in tabs) \<subseteq> ?f ` ?D"
  proof
    fix e assume "e \<in> link_rel (parent_in tabs)"
    then obtain g p where e: "e = (g, p)" and gp: "parent_in tabs g = Some p"
      by (cases e) auto
    from gp obtain t where t: "slot_at tabs (as_usize (gc_space g)) = Some t"
        "as_usize (gc_cap g) < length (slots t)"
      by (auto simp: parent_in_Some_iff)
    have "as_usize (gc_space g) < length tabs" "as_usize (gc_cap g) < N"
      using tables_wfD [OF assms t(1)] t(2) by auto
    then have "g \<in> ?D"
      by (intro image_eqI [where x = "(as_usize (gc_space g), as_usize (gc_cap g))"]) auto
    then show "e \<in> ?f ` ?D" using e gp by (intro image_eqI [where x = g]) auto
  qed
  have fin: "finite (?f ` ?D)" by simp
  have "card (?f ` ?D) \<le> card ({..< length tabs} \<times> {..< N})"
    by (rule le_trans [OF card_image_le card_image_le]) auto
  then have "card (?f ` ?D) \<le> length tabs * N" by simp
  then show ?thesis using sub fin by (meson card_mono finite_subset le_trans)
qed

interpretation cdt: derivation_forest "cdt_wf N" cap_at parent_in "\<lambda>tabs. length tabs * N" for N
proof unfold_locales
  fix s g p
  assume "cdt_wf N s" "parent_in s g = Some p"
  then show "\<exists>c pc. cap_at s g = Some c \<and> cap_at s p = Some pc \<and> derived_ok pc c"
    by (rule parent_in_live)
next
  fix s assume "cdt_wf N s"
  then show "acyclic (link_rel (parent_in s))" by (simp add: cdt_wf_def)
next
  fix s assume "cdt_wf N s"
  then show "finite (link_rel (parent_in s)) \<and> card (link_rel (parent_in s)) \<le> length s * N"
    by (intro links_few cdt_wf_tables)
qed

text \<open>The bounded walk decides ancestry: \<open>M * N + 1\<close> iterations are enough.\<close>

lemma walk_up_iff:
  "walk_up n tabs g a \<longleftrightarrow> (\<exists>k. 0 < k \<and> k \<le> n \<and> (g, a) \<in> link_rel (parent_in tabs) ^^ k)"
proof (induction n arbitrary: g)
  case 0
  then show ?case by simp
next
  case (Suc n)
  let ?E = "link_rel (parent_in tabs)"
  have step: "(g, a) \<in> ?E ^^ Suc k \<longleftrightarrow> (\<exists>p. parent_in tabs g = Some p \<and> (p, a) \<in> ?E ^^ k)" for k
    by (metis link_rel_iff relpow_Suc_D2 relpow_Suc_I2)
  have "(\<exists>k. 0 < k \<and> k \<le> Suc n \<and> (g, a) \<in> ?E ^^ k) \<longleftrightarrow> (\<exists>k \<le> n. (g, a) \<in> ?E ^^ Suc k)"
    by (metis Suc_le_mono gr0_conv_Suc zero_less_Suc)
  also have "\<dots> \<longleftrightarrow> (\<exists>p. parent_in tabs g = Some p \<and> (p = a \<or> walk_up n tabs p a))"
  proof
    assume "\<exists>k \<le> n. (g, a) \<in> ?E ^^ Suc k"
    then obtain k p where k: "k \<le> n" "parent_in tabs g = Some p" "(p, a) \<in> ?E ^^ k"
      unfolding step by blast
    have "p = a \<or> walk_up n tabs p a"
    proof (cases "k = 0")
      case True
      then show ?thesis using k(3) by simp
    next
      case False
      then show ?thesis unfolding Suc.IH using k(1,3) by blast
    qed
    then show "\<exists>p. parent_in tabs g = Some p \<and> (p = a \<or> walk_up n tabs p a)" using k by blast
  next
    assume "\<exists>p. parent_in tabs g = Some p \<and> (p = a \<or> walk_up n tabs p a)"
    then obtain p where p: "parent_in tabs g = Some p" "p = a \<or> walk_up n tabs p a" by blast
    then have "\<exists>k \<le> n. (p, a) \<in> ?E ^^ k"
      by (auto simp: Suc.IH intro: exI [where x = "0::nat"])
    then show "\<exists>k \<le> n. (g, a) \<in> ?E ^^ Suc k" unfolding step using p(1) by blast
  qed
  finally show ?case by (auto split: option.splits)
qed

lemma is_descendant_of_iff:
  assumes "cdt_wf N tabs"
  shows "is_descendant_of N tabs g a \<longleftrightarrow> descends tabs g a"
  unfolding is_descendant_of_def descends_def walk_up_iff cdt.ancestor_within_bound [OF assms]
proof -
  have "(\<exists>k. 0 < k \<and> k \<le> length tabs * N \<and> (g, a) \<in> link_rel (parent_in tabs) ^^ k)"
    if "(g, a) \<in> (link_rel (parent_in tabs))\<^sup>+"
    using that cdt.ancestor_within_bound [OF assms] by blast
  moreover have "(g, a) \<in> (link_rel (parent_in tabs))\<^sup>+"
    if "0 < k" "(g, a) \<in> link_rel (parent_in tabs) ^^ k" for k
    using that by (auto simp: trancl_power)
  ultimately show "(\<exists>k>0. k \<le> length tabs * N + 1 \<and> (g, a) \<in> link_rel (parent_in tabs) ^^ k) =
    (\<exists>k>0. k \<le> length tabs * N \<and> (g, a) \<in> link_rel (parent_in tabs) ^^ k)"
    by (meson le_add1 le_trans)
qed

section \<open>Preservation: filling a free slot\<close>

lemma acyclic_link_upd:
  assumes "acyclic (link_rel par)" and "par g0 = None" and "\<And>g. par g \<noteq> Some g0"
    and "q \<noteq> Some g0"
  shows "acyclic (link_rel (par(g0 := q)))"
proof (cases q)
  case None
  with assms(2) have "par(g0 := q) = par" by (simp add: fun_upd_idem)
  with assms(1) show ?thesis by simp
next
  case (Some p)
  have "link_rel (par(g0 := q)) = insert (g0, p) (link_rel par)"
    using Some assms(2) by (auto simp: link_rel_def split: if_splits)
  moreover have "(p, g0) \<notin> (link_rel par)\<^sup>*"
    using Some assms(3,4) by (auto elim: rtranclE)
  ultimately show ?thesis using assms(1) by (simp add: acyclic_insert)
qed

lemma table_update_views:
  assumes "slot_at tabs (as_usize sp) = Some t"
    and "slots t' = (slots t)[as_usize c := s]" and "as_usize c < length (slots t)"
  shows "cap_at (tabs[as_usize sp := Some t']) = (cap_at tabs)(GlobalCapId sp c := slot_cap s)"
    and "parent_in (tabs[as_usize sp := Some t']) =
           (parent_in tabs)(GlobalCapId sp c := slot_parent s)"
proof -
  have len: "as_usize sp < length tabs" using assms(1) by (rule slot_at_length)
  show "cap_at (tabs[as_usize sp := Some t']) = (cap_at tabs)(GlobalCapId sp c := slot_cap s)"
  proof
    fix g
    show "cap_at (tabs[as_usize sp := Some t']) g =
        ((cap_at tabs)(GlobalCapId sp c := slot_cap s)) g"
      using assms len
      by (cases "gc_space g = sp"; cases "gc_cap g = c")
        (auto simp: cap_at_def table_at_def slot_at_update ct_lookup_def nth_opt_def gid_eq_iff)
  qed
  show "parent_in (tabs[as_usize sp := Some t']) =
           (parent_in tabs)(GlobalCapId sp c := slot_parent s)"
  proof
    fix g
    show "parent_in (tabs[as_usize sp := Some t']) g =
        ((parent_in tabs)(GlobalCapId sp c := slot_parent s)) g"
      using assms len
      by (cases "gc_space g = sp"; cases "gc_cap g = c")
        (auto simp: parent_in_def table_at_def slot_at_update parent_of_def nth_opt_def gid_eq_iff)
  qed
qed

lemma tables_wf_update:
  assumes "tables_wf N tabs" and "slot_at tabs i = Some t" and "ct_wf t'"
    and "length (slots t') = length (slots t)" and "table_space t' = table_space t"
  shows "tables_wf N (tabs[i := Some t'])"
  using assms by (auto simp: tables_wf_def slot_at_update)

lemma free_slot_no_parent:
  assumes "tables_wf N tabs" and "cap_at tabs g = None"
  shows "parent_in tabs g = None"
proof (rule ccontr)
  assume "parent_in tabs g \<noteq> None"
  then obtain p t where t: "slot_at tabs (as_usize (gc_space g)) = Some t"
      "as_usize (gc_cap g) < length (slots t)"
      "slot_parent (slots t ! as_usize (gc_cap g)) = Some p"
    by (auto simp: parent_in_Some_iff)
  then obtain v where "slot_cap (slots t ! as_usize (gc_cap g)) = Some v"
    using ct_wf_free_parent [OF tables_wfD(1) [OF assms(1) t(1)]] by fastforce
  then have "cap_at tabs g = Some v" unfolding cap_at_Some_iff using t by blast
  then show False using assms(2) by simp
qed

lemma cdt_wf_fill:
  assumes wf: "cdt_wf N tabs" and t: "slot_at tabs (as_usize sp) = Some t"
    and t': "ct_wf t'" "table_space t' = table_space t" "slots t' = (slots t)[as_usize c := s]"
    and c: "as_usize c < length (slots t)" "slot_cap (slots t ! as_usize c) = None"
    and s: "slot_cap s = Some v"
    and par: "\<And>p. slot_parent s = Some p \<Longrightarrow> \<exists>pc. cap_at tabs p = Some pc \<and> derived_ok pc v"
  shows "cdt_wf N (tabs[as_usize sp := Some t'])"
proof -
  let ?g = "GlobalCapId sp c" and ?tabs = "tabs[as_usize sp := Some t']"
  note views = table_update_views [OF t t'(3) c(1)]
  have tw: "tables_wf N tabs" using wf by (rule cdt_wf_tables)
  have free: "cap_at tabs ?g = None" using t c by (auto simp: cap_at_def table_at_def
      ct_lookup_def nth_opt_def)
  have nopar: "parent_in tabs ?g = None" using tw free by (rule free_slot_no_parent)
  have nochild: "parent_in tabs g \<noteq> Some ?g" for g
    using parent_in_live [OF wf, of g ?g] free by auto
  have self: "slot_parent s \<noteq> Some ?g" using par [of ?g] free by auto
  have "tables_wf N ?tabs" using tw t t' by (intro tables_wf_update) auto
  moreover have "\<exists>c pc. cap_at ?tabs g = Some c \<and> cap_at ?tabs p = Some pc \<and> derived_ok pc c"
    if "parent_in ?tabs g = Some p" for g p
  proof (cases "g = ?g")
    case True
    then have "slot_parent s = Some p" using that by (simp add: views)
    then show ?thesis using par [of p] self True s free by (auto simp: views)
  next
    case False
    then have "parent_in tabs g = Some p" using that by (simp add: views)
    then show ?thesis using parent_in_live [OF wf] nochild [of g] False
      by (fastforce simp: views)
  qed
  moreover have "acyclic (link_rel (parent_in ?tabs))"
    unfolding views using wf nopar nochild self
    by (intro acyclic_link_upd) (auto simp: cdt_wf_def)
  ultimately show ?thesis by (simp add: cdt_wf_def)
qed

text \<open>Every insertion is an allocation followed by a fill.\<close>

lemma insert_root_cases:
  assumes "ct_wf t"
  obtains (full) "insert_root t cap = (Err Full, t)" "free_head t = None"
  | (ok) c t' s where "insert_root t cap = (Ok c, t')" "free_head t = Some c"
      "as_usize c < length (slots t)" "slot_cap (slots t ! as_usize c) = None"
      "slots t' = (slots t)[as_usize c := s]" "slot_cap s = Some cap" "slot_parent s = None"
      "table_space t' = table_space t" "ct_wf t'" "occupied t' = Suc (occupied t)"
proof (cases "free_head t")
  case None
  then show thesis using alloc_slot_full(1) [OF assms] full by (simp add: insert_root_def)
next
  case (Some c)
  from assms Some show thesis
  proof (rule alloc_slot_ok)
    fix t1
    assume a: "alloc_slot t = (Ok c, t1)" "as_usize c < length (slots t)"
      "slot_cap (slots t ! as_usize c) = None" "slots t1 = (slots t)[as_usize c := EMPTY_SLOT]"
      "table_space t1 = table_space t" "occupied t1 = Suc (occupied t)"
      "\<And>s. slot_cap s \<noteq> None \<Longrightarrow> ct_wf (t1\<lparr>slots := (slots t1)[as_usize c := s]\<rparr>)"
    let ?s = "EMPTY_SLOT\<lparr>slot_cap := Some cap\<rparr>"
    have "ct_wf (set_slot_cap t1 c cap)"
      using a(7) [of ?s] a(2,4) by (simp add: set_slot_cap_def)
    then show thesis
      using a Some by (intro ok [of c "set_slot_cap t1 c cap" ?s])
        (auto simp: insert_root_def set_slot_cap_def EMPTY_SLOT_def)
  qed
qed

lemma insert_derived_cases:
  assumes "ct_wf t"
  obtains (escalation) "insert_derived t pc pg r b = (Err RightsEscalation, t)"
      "\<not> is_subset_of r (cap_rights pc)"
  | (badge) "insert_derived t pc pg r b = (Err BadgeConflict, t)"
      "is_subset_of r (cap_rights pc)" "cap_badge pc \<noteq> 0" "b \<noteq> 0" "b \<noteq> cap_badge pc"
  | (full) "insert_derived t pc pg r b = (Err Full, t)"
      "is_subset_of r (cap_rights pc)" "cap_badge pc = 0 \<or> b = 0 \<or> b = cap_badge pc"
      "free_head t = None"
  | (ok) c t' s v where "insert_derived t pc pg r b = (Ok c, t')"
      "is_subset_of r (cap_rights pc)" "cap_badge pc = 0 \<or> b = 0 \<or> b = cap_badge pc"
      "free_head t = Some c" "as_usize c < length (slots t)"
      "slot_cap (slots t ! as_usize c) = None"
      "slots t' = (slots t)[as_usize c := s]" "slot_cap s = Some v" "slot_parent s = Some pg"
      "v = \<lparr>cap_object = cap_object pc, cap_rights = r,
            cap_badge = (if cap_badge pc = 0 then b else cap_badge pc)\<rparr>"
      "derived_ok pc v"
      "table_space t' = table_space t" "ct_wf t'" "occupied t' = Suc (occupied t)"
proof (cases "is_subset_of r (cap_rights pc)")
  case False
  then show thesis using escalation by (simp add: insert_derived_def)
next
  case sub: True
  show thesis
  proof (cases "cap_badge pc = 0 \<or> b = 0 \<or> b = cap_badge pc")
    case False
    then show thesis using badge sub by (simp add: insert_derived_def effective_badge_def)
  next
    case True
    let ?b = "if cap_badge pc = 0 then b else cap_badge pc"
    let ?v = "\<lparr>cap_object = cap_object pc, cap_rights = r, cap_badge = ?b\<rparr>"
    let ?s = "EMPTY_SLOT\<lparr>slot_cap := Some ?v, slot_parent := Some pg\<rparr>"
    have eb: "effective_badge pc b = Ok ?b" using True by (auto simp: effective_badge_def)
    show thesis
    proof (cases "free_head t")
      case None
      then show thesis using alloc_slot_full(1) [OF assms] sub eb True
        by (intro full) (simp_all add: insert_derived_def)
    next
      case (Some c)
      from assms Some show thesis
      proof (rule alloc_slot_ok)
        fix t1
        assume a: "alloc_slot t = (Ok c, t1)" "as_usize c < length (slots t)"
          "slot_cap (slots t ! as_usize c) = None"
          "slots t1 = (slots t)[as_usize c := EMPTY_SLOT]"
          "table_space t1 = table_space t" "occupied t1 = Suc (occupied t)"
          "\<And>s. slot_cap s \<noteq> None \<Longrightarrow> ct_wf (t1\<lparr>slots := (slots t1)[as_usize c := s]\<rparr>)"
        let ?t' = "set_slot_parent (set_slot_cap t1 c ?v) c pg"
        have sl: "slots ?t' = (slots t)[as_usize c := ?s]"
          using a(2,4) by (simp add: set_slot_cap_def set_slot_parent_def)
        have "ct_wf ?t'"
          using a(7) [of ?s] a(2,4) by (simp add: set_slot_cap_def set_slot_parent_def)
        then show thesis
          using a sl Some sub True eb
          by (intro ok [of c ?t' ?s ?v])
            (auto simp: insert_derived_def set_slot_cap_def set_slot_parent_def EMPTY_SLOT_def
              derived_ok_def)
      qed
    qed
  qed
qed

section \<open>Preservation: a new capability space\<close>

lemma add_space_views:
  assumes "slot_at tabs i = None"
  shows "cap_at (tabs[i := Some (ct_new N sp)]) = cap_at tabs"
    and "parent_in (tabs[i := Some (ct_new N sp)]) = parent_in tabs"
  using assms
  by (auto simp: fun_eq_iff cap_at_def parent_in_def table_at_def slot_at_update)

lemma cdt_wf_add_space:
  assumes "cdt_wf N tabs" and "slot_at tabs i = None" and "N \<le> 2 ^ 32"
  shows "cdt_wf N (tabs[i := Some (ct_new N (of_nat i))])"
  using assms
  by (auto simp: cdt_wf_def add_space_views tables_wf_def slot_at_update ct_wf_new)

lemma cap_at_replicate [simp]: "cap_at (replicate n None) g = None"
  by (simp add: cap_at_def table_at_def)

lemma parent_in_replicate [simp]: "parent_in (replicate n None) g = None"
  by (simp add: parent_in_def table_at_def)

lemma cdt_wf_empty:
  "M < 2 ^ 32 \<Longrightarrow> M * N < 2 ^ 32 \<Longrightarrow> cdt_wf N (replicate M None)"
  by (simp add: cdt_wf_def tables_wf_def link_rel_def acyclic_def)

section \<open>Revocation\<close>

lemma free_loop_spec:
  assumes "ct_wf t" and "distinct ks"
    and "\<And>i. i \<in> set ks \<Longrightarrow> i < length (slots t) \<and> (ms ! i \<longrightarrow> slot_cap (slots t ! i) \<noteq> None)"
    and "unat f + length ks < 2 ^ 32"
  obtains t' f' where "free_loop ms ks t f = (Ok f', t')" and "ct_wf t'"
    and "length (slots t') = length (slots t)" and "table_space t' = table_space t"
    and "unat f' + occupied t' = unat f + occupied t"
    and "unat f \<le> unat f'" and "unat f' \<le> unat f + length ks"
    and "\<And>j. j < length (slots t) \<Longrightarrow>
       slot_cap (slots t' ! j) = (if j \<in> set ks \<and> ms ! j then None else slot_cap (slots t ! j)) \<and>
       slot_parent (slots t' ! j) =
         (if j \<in> set ks \<and> ms ! j then None else slot_parent (slots t ! j))"
  using assms
proof (induction ks arbitrary: t f thesis)
  case Nil
  then show ?case by (intro Nil(1)) auto
next
  case (Cons i ks)
  show ?case
  proof (cases "ms ! i")
    case False
    show ?thesis
    proof (rule Cons.IH [of t f])
      fix t' f'
      assume "free_loop ms ks t f = (Ok f', t')" "ct_wf t'"
        "length (slots t') = length (slots t)" "table_space t' = table_space t"
        "unat f' + occupied t' = unat f + occupied t" "unat f \<le> unat f'"
        "unat f' \<le> unat f + length ks"
        "\<And>j. j < length (slots t) \<Longrightarrow>
          slot_cap (slots t' ! j) =
            (if j \<in> set ks \<and> ms ! j then None else slot_cap (slots t ! j)) \<and>
          slot_parent (slots t' ! j) =
            (if j \<in> set ks \<and> ms ! j then None else slot_parent (slots t ! j))"
      with False show ?thesis by (intro Cons.prems(1) [of f' t']) auto
    qed (use Cons.prems in auto)
  next
    case True
    have i: "i < length (slots t)" "slot_cap (slots t ! i) \<noteq> None"
      using Cons.prems(4) [of i] True by auto
    have idx: "as_usize (of_nat i) = i"
      using i(1) ct_wf_bound [OF Cons.prems(2)] by (simp add: as_usize_of_nat)
    obtain t1 where t1: "free_slot t (of_nat i) = (Ok (), t1)" "ct_wf t1"
        "slots t1 = (slots t)[i := EMPTY_SLOT\<lparr>free_next := free_head t\<rparr>]"
        "table_space t1 = table_space t" "Suc (occupied t1) = occupied t"
      using free_slot_ok [where c = "of_nat i", OF Cons.prems(2)] i idx by auto
    have f1: "(add_or_panic f 1 :: (cap_table_error, u32) res) = Ok (f + 1)"
        "unat (f + 1) = Suc (unat f)"
      using Cons.prems(5) by (auto simp: add_or_panic_Ok unat_add_exact)
    show ?thesis
    proof (rule Cons.IH [of t1 "f + 1"])
      show "distinct ks" using Cons.prems(3) by simp
      show "unat (f + 1) + length ks < 2 ^ 32" using Cons.prems(5) f1(2) by simp
      show "k < length (slots t1) \<and> (ms ! k \<longrightarrow> slot_cap (slots t1 ! k) \<noteq> None)"
        if "k \<in> set ks" for k
        using Cons.prems(3) Cons.prems(4) [of k] that t1(3) by (cases "k = i") auto
    next
      fix t' f'
      assume r: "free_loop ms ks t1 (f + 1) = (Ok f', t')" "ct_wf t'"
        "length (slots t') = length (slots t1)" "table_space t' = table_space t1"
        "unat f' + occupied t' = unat (f + 1) + occupied t1" "unat (f + 1) \<le> unat f'"
        "unat f' \<le> unat (f + 1) + length ks"
        "\<And>j. j < length (slots t1) \<Longrightarrow>
          slot_cap (slots t' ! j) =
            (if j \<in> set ks \<and> ms ! j then None else slot_cap (slots t1 ! j)) \<and>
          slot_parent (slots t' ! j) =
            (if j \<in> set ks \<and> ms ! j then None else slot_parent (slots t1 ! j))"
      show ?thesis
      proof (rule Cons.prems(1) [of f' t'])
        show "free_loop ms (i # ks) t f = (Ok f', t')"
          using True t1(1) f1(1) r(1) by simp
        show "slot_cap (slots t' ! j) =
            (if j \<in> set (i # ks) \<and> ms ! j then None else slot_cap (slots t ! j)) \<and>
          slot_parent (slots t' ! j) =
            (if j \<in> set (i # ks) \<and> ms ! j then None else slot_parent (slots t ! j))"
          if "j < length (slots t)" for j
          using r(8) [of j] that t1(3) True i(1)
          by (auto simp: nth_list_update EMPTY_SLOT_def split: if_splits)
      qed (use r t1 f1 in auto)
    qed (use t1 in auto)
  qed
qed

definition total_caps :: "cap_spaces \<Rightarrow> nat" where
  "total_caps tabs = sum_list (map (\<lambda>x. case x of None \<Rightarrow> 0 | Some t \<Rightarrow> occupied t) tabs)"

lemma total_caps_update:
  assumes "slot_at tabs i = Some t"
  shows "total_caps (tabs[i := Some t']) + occupied t = total_caps tabs + occupied t'"
proof -
  let ?f = "\<lambda>x. case x of None \<Rightarrow> 0 | Some t \<Rightarrow> occupied t"
  have i: "i < length tabs" "tabs ! i = Some t" using assms by (auto simp: slot_at_Some_iff)
  have "occupied t \<le> sum_list (map ?f tabs)"
    using elem_le_sum_list [of i "map ?f tabs"] i by simp
  moreover have "sum_list (map ?f (tabs[i := Some t'])) =
      sum_list (map ?f tabs) + occupied t' - occupied t"
    using i by (simp add: map_update sum_list_update)
  ultimately show ?thesis by (simp add: total_caps_def)
qed

lemma free_tables_spec:
  assumes "tables_wf N tabs" and "distinct ss" and "\<And>si. si \<in> set ss \<Longrightarrow> si < length tabs"
    and "\<And>si t i. si \<in> set ss \<Longrightarrow> slot_at tabs si = Some t \<Longrightarrow> i < N \<Longrightarrow>
           marked ! si ! i \<Longrightarrow> slot_cap (slots t ! i) \<noteq> None"
    and "unat f + length ss * N < 2 ^ 32"
  obtains tabs' f' where "free_tables N marked ss tabs f = (Ok f', tabs')"
    and "tables_wf N tabs'" and "length tabs' = length tabs"
    and "unat f' + total_caps tabs' = unat f + total_caps tabs"
    and "\<And>g. cap_at tabs' g =
       (if as_usize (gc_space g) \<in> set ss \<and> marked ! as_usize (gc_space g) ! as_usize (gc_cap g)
        then None else cap_at tabs g)"
    and "\<And>g. parent_in tabs' g =
       (if as_usize (gc_space g) \<in> set ss \<and> marked ! as_usize (gc_space g) ! as_usize (gc_cap g)
        then None else parent_in tabs g)"
    and "\<And>i. slot_at tabs' i = None \<longleftrightarrow> slot_at tabs i = None"
  using assms
proof (induction ss arbitrary: tabs f thesis)
  case Nil
  then show ?case by (intro Nil(1)) auto
next
  case (Cons si ss)
  have si: "si < length tabs" "si < 2 ^ 32"
    using Cons.prems(4) [of si] Cons.prems(2) by (auto simp: tables_wf_def)
  show ?case
  proof (cases "slot_at tabs si")
    case None
    then have nn: "tabs ! si = None" using si by (simp add: slot_at_def)
    have none: "cap_at tabs g = None" "parent_in tabs g = None"
      if "as_usize (gc_space g) = si" for g
      using None that by (simp_all add: cap_at_def parent_in_def table_at_def)
    show ?thesis
    proof (rule Cons.IH [of tabs f])
      show "slot_cap (slots u ! i) \<noteq> None"
        if "sj \<in> set ss" "slot_at tabs sj = Some u" "i < N" "marked ! sj ! i" for sj u i
        using Cons.prems(5) [of sj u i] that by simp
    next
      fix tabs' f'
      assume r: "free_tables N marked ss tabs f = (Ok f', tabs')" "tables_wf N tabs'"
        "length tabs' = length tabs" "unat f' + total_caps tabs' = unat f + total_caps tabs"
        "\<And>g. cap_at tabs' g = (if as_usize (gc_space g) \<in> set ss \<and>
           marked ! as_usize (gc_space g) ! as_usize (gc_cap g) then None else cap_at tabs g)"
        "\<And>g. parent_in tabs' g = (if as_usize (gc_space g) \<in> set ss \<and>
           marked ! as_usize (gc_space g) ! as_usize (gc_cap g) then None else parent_in tabs g)"
        "\<And>i. slot_at tabs' i = None \<longleftrightarrow> slot_at tabs i = None"
      show ?thesis
      proof (rule Cons.prems(1))
        show "free_tables N marked (si # ss) tabs f = (Ok f', tabs')" using r(1) nn by simp
      qed (use r none in auto)
    qed (use Cons.prems in \<open>auto simp: distrib_right\<close>)
  next
    case (Some t)
    then have nn: "tabs ! si = Some t" by (simp add: slot_at_Some_iff)
    note tw = tables_wfD [OF Cons.prems(2) Some]
    obtain t1 f1 where t1: "free_loop (marked ! si) [0 ..< N] t f = (Ok f1, t1)" "ct_wf t1"
        "length (slots t1) = length (slots t)" "table_space t1 = table_space t"
        "unat f1 + occupied t1 = unat f + occupied t"
        "unat f1 \<le> unat f + N"
        and sl: "\<And>j. j < length (slots t) \<Longrightarrow>
         slot_cap (slots t1 ! j) =
           (if j \<in> set [0 ..< N] \<and> marked ! si ! j then None else slot_cap (slots t ! j)) \<and>
         slot_parent (slots t1 ! j) =
           (if j \<in> set [0 ..< N] \<and> marked ! si ! j then None else slot_parent (slots t ! j))"
    proof (rule free_loop_spec [of t "[0 ..< N]" "marked ! si" f])
      show "i < length (slots t) \<and> (marked ! si ! i \<longrightarrow> slot_cap (slots t ! i) \<noteq> None)"
        if "i \<in> set [0 ..< N]" for i
        using that tw(2) Cons.prems(5) [OF _ Some, of i] by auto
      show "unat f + length [0 ..< N] < 2 ^ 32" using Cons.prems(6) by simp
    qed (use tw in auto)
    let ?tabs = "tabs[si := Some t1]"
    have view: "cap_at ?tabs g = (if as_usize (gc_space g) = si \<and>
          marked ! si ! as_usize (gc_cap g) then None else cap_at tabs g) \<and>
        parent_in ?tabs g = (if as_usize (gc_space g) = si \<and>
          marked ! si ! as_usize (gc_cap g) then None else parent_in tabs g)" for g
      using Some si t1(3) sl [of "as_usize (gc_cap g)"] tw(2)
      by (auto simp: cap_at_def parent_in_def table_at_def slot_at_update ct_lookup_def
          parent_of_def nth_opt_def)
    show ?thesis
    proof (rule Cons.IH [of ?tabs f1])
      show "tables_wf N ?tabs" using Cons.prems(2) Some t1 by (intro tables_wf_update) auto
      show "distinct ss" using Cons.prems(3) by simp
      show "unat f1 + length ss * N < 2 ^ 32"
        using Cons.prems(6) t1(6) by (simp add: distrib_right)
      show "sj < length ?tabs" if "sj \<in> set ss" for sj using Cons.prems(4) that by simp
      show "slot_cap (slots u ! i) \<noteq> None"
        if "sj \<in> set ss" "slot_at ?tabs sj = Some u" "i < N" "marked ! sj ! i" for sj u i
      proof -
        have "sj \<noteq> si" using Cons.prems(3) that(1) by auto
        then have "slot_at tabs sj = Some u" using that(2) by (simp add: slot_at_update)
        then show ?thesis using Cons.prems(5) [of sj u i] that by simp
      qed
    next
      fix tabs' f'
      assume r: "free_tables N marked ss ?tabs f1 = (Ok f', tabs')" "tables_wf N tabs'"
        "length tabs' = length ?tabs" "unat f' + total_caps tabs' = unat f1 + total_caps ?tabs"
        "\<And>g. cap_at tabs' g = (if as_usize (gc_space g) \<in> set ss \<and>
           marked ! as_usize (gc_space g) ! as_usize (gc_cap g) then None else cap_at ?tabs g)"
        "\<And>g. parent_in tabs' g = (if as_usize (gc_space g) \<in> set ss \<and>
           marked ! as_usize (gc_space g) ! as_usize (gc_cap g) then None else parent_in ?tabs g)"
        "\<And>i. slot_at tabs' i = None \<longleftrightarrow> slot_at ?tabs i = None"
      show ?thesis
      proof (rule Cons.prems(1))
        show "free_tables N marked (si # ss) tabs f = (Ok f', tabs')"
          using r(1) nn t1(1) by simp
        show "unat f' + total_caps tabs' = unat f + total_caps tabs"
          using r(4) t1(5) total_caps_update [OF Some, of t1] by linarith
        show "slot_at tabs' i = None \<longleftrightarrow> slot_at tabs i = None" for i
          using r(7) [of i] Some si by (auto simp: slot_at_update)
      qed (use r(2,3,5,6) view in auto)
    qed
  qed
qed

lemma marked_iff:
  assumes wf: "cdt_wf N tabs" and si: "si < length tabs" and i: "i < N"
  shows "mark_all N tabs target ! si ! i \<longleftrightarrow>
    (let g = GlobalCapId (of_nat si) (of_nat i)
     in cap_at tabs g \<noteq> None \<and> (g = target \<or> descends tabs g target))"
proof (cases "slot_at tabs si")
  case None
  then show ?thesis using si i wf
    by (auto simp: mark_all_def mark_table_def slot_at_def cap_at_def table_at_def Let_def
        as_usize_of_nat cdt_wf_def tables_wf_def)
next
  case (Some t)
  note tw = tables_wfD [OF cdt_wf_tables [OF wf] Some]
  have idx: "as_usize (of_nat si) = si" "as_usize (of_nat i) = i"
    using tw ct_wf_bound [OF tw(1)] i by (auto simp: as_usize_of_nat)
  have "tabs ! si = Some t" using Some by (simp add: slot_at_Some_iff)
  moreover have "cap_at tabs (GlobalCapId (of_nat si) (of_nat i)) = slot_cap (slots t ! i)"
    using Some idx i tw(2) by (simp add: cap_at_def table_at_def ct_lookup_def nth_opt_def)
  ultimately show ?thesis using si i
    by (simp add: mark_all_def mark_table_def mark_slot_def Let_def is_descendant_of_iff [OF wf])
qed

lemma cap_at_bounds:
  assumes "tables_wf N tabs" and "cap_at tabs g \<noteq> None"
  shows "as_usize (gc_space g) < length tabs" and "as_usize (gc_cap g) < N"
proof -
  obtain v where "cap_at tabs g = Some v" using assms(2) by blast
  then obtain t where t: "slot_at tabs (as_usize (gc_space g)) = Some t"
      "as_usize (gc_cap g) < length (slots t)" by (auto simp: cap_at_Some_iff)
  show "as_usize (gc_space g) < length tabs" "as_usize (gc_cap g) < N"
    using tables_wfD(2,5) [OF assms(1) t(1)] t(2) by simp_all
qed

lemma revoke_empty_slot:
  "cap_at tabs target = None \<Longrightarrow> revoke_cross_space N tabs target = (Err EmptySlot, tabs)"
  by (cases "table_at tabs (gc_space target)") (simp_all add: revoke_cross_space_def cap_at_def)

lemma revoke_tables:
  assumes wf: "cdt_wf N tabs" and occ: "cap_at tabs target \<noteq> None"
  obtains n tabs' where "revoke_cross_space N tabs target = (Ok n, tabs')"
    and "tables_wf N tabs'" and "length tabs' = length tabs"
    and "unat n + total_caps tabs' = total_caps tabs"
    and "\<And>g. cap_at tabs' g =
       (if g = target \<or> descends tabs g target then None else cap_at tabs g)"
    and "\<And>g. parent_in tabs' g =
       (if g = target \<or> descends tabs g target then None else parent_in tabs g)"
    and "\<And>i. slot_at tabs' i = None \<longleftrightarrow> slot_at tabs i = None"
proof -
  let ?m = "mark_all N tabs target"
  note tw = cdt_wf_tables [OF wf]
  have in_m: "as_usize (gc_space g) \<in> set [0 ..< length tabs] \<and>
      ?m ! as_usize (gc_space g) ! as_usize (gc_cap g) \<longleftrightarrow> g = target \<or> descends tabs g target"
    if "cap_at tabs g \<noteq> None" for g
    using marked_iff [OF wf cap_at_bounds [OF tw that], of target] cap_at_bounds [OF tw that] that
    by simp
  show thesis
  proof (rule free_tables_spec [of N tabs "[0 ..< length tabs]" ?m 0])
    show "slot_cap (slots t ! i) \<noteq> None"
      if "si \<in> set [0 ..< length tabs]" "slot_at tabs si = Some t" "i < N" "?m ! si ! i" for si t i
    proof -
      have "as_usize (of_nat si) = si" "as_usize (of_nat i) = i"
        using tables_wfD [OF tw that(2)] ct_wf_bound [of t] that(3) by (auto simp: as_usize_of_nat)
      moreover have "cap_at tabs (GlobalCapId (of_nat si) (of_nat i)) \<noteq> None"
        using marked_iff [OF wf _ that(3), of si target] that by (simp add: Let_def)
      ultimately show ?thesis using that(2)
        by (auto simp: cap_at_def table_at_def ct_lookup_def nth_opt_def split: if_splits)
    qed
  next
    fix tabs' f'
    assume r: "free_tables N ?m [0 ..< length tabs] tabs 0 = (Ok f', tabs')" "tables_wf N tabs'"
      "length tabs' = length tabs" "unat f' + total_caps tabs' = unat (0::u32) + total_caps tabs"
      "\<And>g. cap_at tabs' g = (if as_usize (gc_space g) \<in> set [0 ..< length tabs] \<and>
         ?m ! as_usize (gc_space g) ! as_usize (gc_cap g) then None else cap_at tabs g)"
      "\<And>g. parent_in tabs' g = (if as_usize (gc_space g) \<in> set [0 ..< length tabs] \<and>
         ?m ! as_usize (gc_space g) ! as_usize (gc_cap g) then None else parent_in tabs g)"
      "\<And>i. slot_at tabs' i = None \<longleftrightarrow> slot_at tabs i = None"
    show thesis
    proof (rule that [of f' tabs'])
      obtain t where "table_at tabs (gc_space target) = Some t" "ct_lookup t (gc_cap target) \<noteq> None"
        using occ by (cases "table_at tabs (gc_space target)") (auto simp: cap_at_def)
      then show "revoke_cross_space N tabs target = (Ok f', tabs')"
        using r(1) by (simp add: revoke_cross_space_def)
      show "cap_at tabs' g = (if g = target \<or> descends tabs g target then None else cap_at tabs g)"
        for g
      proof (cases "cap_at tabs g = None")
        case True
        then show ?thesis by (simp only: r(5) if_cancel True)
      next
        case False
        show ?thesis by (simp only: r(5) in_m [OF False])
      qed
      show "parent_in tabs' g =
          (if g = target \<or> descends tabs g target then None else parent_in tabs g)" for g
      proof (cases "cap_at tabs g = None")
        case True
        then show ?thesis by (simp only: r(6) if_cancel free_slot_no_parent [OF tw True])
      next
        case False
        show ?thesis by (simp only: r(6) in_m [OF False])
      qed
    qed (use r in auto)
  qed (use tw in \<open>auto simp: tables_wf_def\<close>)
qed

lemma descends_step:
  "parent_in tabs g = Some p \<Longrightarrow> p = a \<or> descends tabs p a \<Longrightarrow> descends tabs g a"
  by (auto simp: descends_def intro: trancl_into_trancl2)

lemma cdt_wf_restrict:
  assumes wf: "cdt_wf N tabs" and tw: "tables_wf N tabs'"
    and cap: "\<And>g. cap_at tabs' g =
       (if g = target \<or> descends tabs g target then None else cap_at tabs g)"
    and par: "\<And>g. parent_in tabs' g =
       (if g = target \<or> descends tabs g target then None else parent_in tabs g)"
  shows "cdt_wf N tabs'"
  unfolding cdt_wf_def
proof (intro conjI allI impI)
  show "tables_wf N tabs'" by (rule tw)
  have "link_rel (parent_in tabs') \<subseteq> link_rel (parent_in tabs)"
    by (auto simp: link_rel_def par split: if_splits)
  then show "acyclic (link_rel (parent_in tabs'))"
    using wf by (auto simp: cdt_wf_def intro: acyclic_subset)
  fix g p
  assume "parent_in tabs' g = Some p"
  then have keep: "\<not> (g = target \<or> descends tabs g target)" and gp: "parent_in tabs g = Some p"
    by (auto simp: par split: if_splits)
  then have "\<not> (p = target \<or> descends tabs p target)" using descends_step by blast
  then show "\<exists>c pc. cap_at tabs' g = Some c \<and> cap_at tabs' p = Some pc \<and> derived_ok pc c"
    using parent_in_live [OF wf gp] keep by (simp add: cap)
qed

lemma occupied_card:
  assumes "ct_wf t"
  shows "occupied t = card {i. i < length (slots t) \<and> slot_cap (slots t ! i) \<noteq> None}"
proof -
  let ?n = "length (slots t)" and ?F = "\<lambda>i. slot_cap (slots t ! i) = None"
  obtain fs where fs: "distinct fs" "set fs = {i. i < ?n \<and> ?F i}" "occupied t + length fs = ?n"
    using assms by (auto simp: ct_wf_def)
  have "{i. i < ?n \<and> \<not> ?F i} = {..< ?n} - set fs" unfolding fs(2) by auto
  moreover have "card ({..< ?n} - set fs) = ?n - length fs"
  proof -
    have "set fs \<subseteq> {..< ?n}" unfolding fs(2) by auto
    then show ?thesis using distinct_card [OF fs(1)] by (simp add: card_Diff_subset)
  qed
  ultimately have "card {i. i < ?n \<and> \<not> ?F i} = ?n - length fs" by simp
  then show ?thesis using fs(3) by linarith
qed

lemma total_caps_card:
  assumes tw: "tables_wf N tabs"
  shows "total_caps tabs = card {g. cap_at tabs g \<noteq> None}"
proof -
  let ?occ = "\<lambda>si. {i. \<exists>t. slot_at tabs si = Some t \<and> i < length (slots t) \<and>
      slot_cap (slots t ! i) \<noteq> None}"
  let ?G = "\<lambda>si. (\<lambda>i. GlobalCapId (of_nat si) (of_nat i)) ` ?occ si"
  have fin: "finite (?occ si)" for si
    by (cases "slot_at tabs si") auto
  have small: "si < 2 ^ 32" if "si < length tabs" for si
    using tw that by (auto simp: tables_wf_def)
  have small_i: "i < 2 ^ 32" if "i \<in> ?occ si" for i si
    using that tables_wfD(1) [OF tw] ct_wf_bound by fastforce
  have inj: "inj_on (\<lambda>i. GlobalCapId (of_nat si) (of_nat i)) (?occ si)" for si
  proof (rule inj_onI)
    fix i j
    assume "i \<in> ?occ si" "j \<in> ?occ si"
      and "GlobalCapId (of_nat si) (of_nat i) = GlobalCapId (of_nat si) (of_nat j)"
    then show "i = j" using small_i [of i si] small_i [of j si]
      by (metis GlobalCapId_simps(2) as_usize_of_nat)
  qed
  have card_occ: "card (?occ si) = (case tabs ! si of None \<Rightarrow> 0 | Some t \<Rightarrow> occupied t)"
    if "si < length tabs" for si
    using that occupied_card tables_wfD(1) [OF tw, of si]
    by (auto simp: slot_at_def split: option.splits)
  have "{g. cap_at tabs g \<noteq> None} = (\<Union>si < length tabs. ?G si)"
  proof (intro equalityI subsetI)
    fix g assume "g \<in> {g. cap_at tabs g \<noteq> None}"
    then obtain v t where t: "slot_at tabs (as_usize (gc_space g)) = Some t"
        "as_usize (gc_cap g) < length (slots t)"
        "slot_cap (slots t ! as_usize (gc_cap g)) = Some v"
      by (auto simp: cap_at_Some_iff)
    then have "as_usize (gc_cap g) \<in> ?occ (as_usize (gc_space g))" by auto
    then have "g \<in> ?G (as_usize (gc_space g))"
      by (intro image_eqI [where x = "as_usize (gc_cap g)"]) auto
    then show "g \<in> (\<Union>si < length tabs. ?G si)" using slot_at_length [OF t(1)] by blast
  next
    fix g assume "g \<in> (\<Union>si < length tabs. ?G si)"
    then obtain si i where g: "si < length tabs" "i \<in> ?occ si"
        "g = GlobalCapId (of_nat si) (of_nat i)" by blast
    then show "g \<in> {g. cap_at tabs g \<noteq> None}"
      using small [OF g(1)] small_i [OF g(2)]
      by (auto simp: cap_at_def table_at_def ct_lookup_def nth_opt_def as_usize_of_nat)
  qed
  also have "card \<dots> = (\<Sum>si < length tabs. card (?G si))"
  proof (rule card_UN_disjoint)
    show "\<forall>si \<in> {..< length tabs}. finite (?G si)" using fin by simp
    show "\<forall>i \<in> {..< length tabs}. \<forall>j \<in> {..< length tabs}. i \<noteq> j \<longrightarrow> ?G i \<inter> ?G j = {}"
      using small by (auto simp: GlobalCapId_def of_nat_inj_small)
  qed simp
  also have "\<dots> = (\<Sum>si < length tabs. case tabs ! si of None \<Rightarrow> 0 | Some t \<Rightarrow> occupied t)"
    by (intro sum.cong refl) (simp only: card_image [OF inj] lessThan_iff card_occ)
  also have "\<dots> = total_caps tabs"
    by (simp add: total_caps_def sum_list_sum_nth atLeast0LessThan)
  finally show ?thesis by simp
qed

lemma finite_caps: "tables_wf N tabs \<Longrightarrow> finite {g. cap_at tabs g \<noteq> None}"
proof -
  assume tw: "tables_wf N tabs"
  have "{g. cap_at tabs g \<noteq> None} \<subseteq>
    (\<lambda>(si, i). GlobalCapId (of_nat si) (of_nat i)) ` ({..< length tabs} \<times> {..< N})"
  proof
    fix g assume "g \<in> {g. cap_at tabs g \<noteq> None}"
    then show "g \<in> (\<lambda>(si, i). GlobalCapId (of_nat si) (of_nat i)) ` ({..< length tabs} \<times> {..< N})"
      using cap_at_bounds [OF tw, of g]
      by (intro image_eqI [where x = "(as_usize (gc_space g), as_usize (gc_cap g))"]) auto
  qed
  then show ?thesis by (rule finite_subset) simp
qed

lemma list_update_slot_same: "slot_at tabs i = Some t \<Longrightarrow> tabs[i := Some t] = tabs"
  by (metis list_update_id slot_at_Some_iff)

text \<open>Every operation on one table, put back into its array, keeps the invariant.\<close>

lemma insert_root_wf:
  assumes wf: "cdt_wf N tabs" and t: "slot_at tabs (as_usize sp) = Some t"
  shows "fst (insert_root t cap) \<noteq> Panic"
    and "cdt_wf N (tabs[as_usize sp := Some (snd (insert_root t cap))])"
proof -
  have "ct_wf t" using tables_wfD(1) [OF cdt_wf_tables [OF wf] t] .
  then show "fst (insert_root t cap) \<noteq> Panic"
    by (rule insert_root_cases [where cap = cap]) simp_all
  from \<open>ct_wf t\<close> show "cdt_wf N (tabs[as_usize sp := Some (snd (insert_root t cap))])"
  proof (cases rule: insert_root_cases [where cap = cap])
    case full
    then show ?thesis using wf list_update_slot_same [OF t] by simp
  next
    case (ok c t' s)
    show ?thesis unfolding ok(1) snd_conv
      by (rule cdt_wf_fill [OF wf t ok(9,8,5,3,4,6)]) (simp add: ok(7))
  qed
qed

lemma insert_derived_wf:
  assumes wf: "cdt_wf N tabs" and t: "slot_at tabs (as_usize sp) = Some t"
    and p: "cap_at tabs pg = Some pc"
  shows "fst (insert_derived t pc pg r b) \<noteq> Panic"
    and "cdt_wf N (tabs[as_usize sp := Some (snd (insert_derived t pc pg r b))])"
proof -
  have "ct_wf t" using tables_wfD(1) [OF cdt_wf_tables [OF wf] t] .
  then show "fst (insert_derived t pc pg r b) \<noteq> Panic"
    by (rule insert_derived_cases [where pc = pc and r = r and b = b and pg = pg]) simp_all
  from \<open>ct_wf t\<close>
  show "cdt_wf N (tabs[as_usize sp := Some (snd (insert_derived t pc pg r b))])"
  proof (cases rule: insert_derived_cases [where pc = pc and r = r and b = b and pg = pg])
    case (ok c t' s v)
    show ?thesis unfolding ok(1) snd_conv
      by (rule cdt_wf_fill [OF wf t ok(13,12,7,5,6,8)]) (use ok(9,11) p in auto)
  qed (use wf list_update_slot_same [OF t] in simp_all)
qed

lemma derive_cross_wf:
  assumes wf: "cdt_wf N tabs" and src: "table_at tabs ss = Some src"
    and dst: "slot_at tabs (as_usize ds) = Some dst"
  shows "fst (derive_child_cross_space src ss p dst r b) \<noteq> Panic"
    and "cdt_wf N (tabs[as_usize ds := Some (snd (derive_child_cross_space src ss p dst r b))])"
proof -
  have "fst (derive_child_cross_space src ss p dst r b) \<noteq> Panic \<and>
    cdt_wf N (tabs[as_usize ds := Some (snd (derive_child_cross_space src ss p dst r b))])"
  proof (cases "ct_lookup src p")
    case None
    then show ?thesis
      using wf list_update_slot_same [OF dst] by (simp add: derive_child_cross_space_def)
  next
    case (Some pc)
    then have "cap_at tabs (GlobalCapId ss p) = Some pc" using src by (simp add: cap_at_def)
    from insert_derived_wf [OF wf dst this] show ?thesis
      using Some by (simp add: derive_child_cross_space_def)
  qed
  then show "fst (derive_child_cross_space src ss p dst r b) \<noteq> Panic"
    and "cdt_wf N (tabs[as_usize ds := Some (snd (derive_child_cross_space src ss p dst r b))])"
    by simp_all
qed

lemma derive_child_cross:
  "derive_child t p r b = derive_child_cross_space t (table_space t) p t r b"
  by (simp add: derive_child_def derive_child_cross_space_def)

lemma descends_live:
  "cdt_wf N tabs \<Longrightarrow> descends tabs g a \<Longrightarrow>
     \<exists>c ac. cap_at tabs g = Some c \<and> cap_at tabs a = Some ac \<and> derived_ok ac c"
  using cdt.ancestor_derived by (simp add: descends_def)

text \<open>What revocation does, with the count it returns.\<close>

lemma revoke_outcome:
  assumes wf: "cdt_wf N tabs" and occ: "cap_at tabs target \<noteq> None"
  obtains n tabs' where "revoke_cross_space N tabs target = (Ok n, tabs')"
    and "cdt_wf N tabs'" and "length tabs' = length tabs"
    and "unat n = card {g. g = target \<or> descends tabs g target}"
    and "\<And>g. cap_at tabs' g =
       (if g = target \<or> descends tabs g target then None else cap_at tabs g)"
    and "\<And>i. slot_at tabs' i = None \<longleftrightarrow> slot_at tabs i = None"
proof (rule revoke_tables [OF wf occ])
  fix n tabs'
  assume r: "revoke_cross_space N tabs target = (Ok n, tabs')" "tables_wf N tabs'"
    "length tabs' = length tabs" "unat n + total_caps tabs' = total_caps tabs"
    "\<And>g. cap_at tabs' g = (if g = target \<or> descends tabs g target then None else cap_at tabs g)"
    "\<And>g. parent_in tabs' g =
       (if g = target \<or> descends tabs g target then None else parent_in tabs g)"
    "\<And>i. slot_at tabs' i = None \<longleftrightarrow> slot_at tabs i = None"
  note tw = cdt_wf_tables [OF wf]
  let ?L = "{g. cap_at tabs g \<noteq> None}" and ?L' = "{g. cap_at tabs' g \<noteq> None}"
    and ?D = "{g. g = target \<or> descends tabs g target}"
  have sub: "?D \<subseteq> ?L"
  proof
    fix g assume "g \<in> ?D"
    then show "g \<in> ?L" using occ descends_live [OF wf, of g target] by auto
  qed
  have "?L' = ?L - ?D" by (auto simp: r(5))
  then have "card ?L' = card ?L - card ?D"
    using card_Diff_subset [OF finite_subset [OF sub finite_caps [OF tw]] sub] by simp
  moreover have "card ?D \<le> card ?L" by (rule card_mono [OF finite_caps [OF tw] sub])
  ultimately have "unat n = card ?D"
    using r(4) total_caps_card [OF tw] total_caps_card [OF r(2)] by linarith
  then show thesis using that [OF r(1) cdt_wf_restrict [OF wf r(2,5,6)] r(3) _ r(5,7)] by simp
qed

section \<open>Properties\<close>

text \<open>The concrete tables of the witnesses: two spaces of two slots; space 0 holds a root
  capability for an endpoint, a badged child of it is granted to space 1.\<close>

definition demo_root :: capability where
  "demo_root = full (ObjectRef Endpoint 3)"

definition demo_two :: cap_spaces where
  "demo_two = [Some (snd (insert_root (ct_new 2 0) demo_root)), Some (ct_new 2 1)]"

definition demo_grant :: "(cap_table_error, cap_id) res \<times> cap_table" where
  "demo_grant = derive_child_cross_space (the (table_at demo_two 0)) 0 0
     (the (table_at demo_two 1)) WRITE 7"

definition demo_granted :: cap_spaces where
  "demo_granted = demo_two[1 := Some (snd demo_grant)]"

lemma demo_table_at:
  "table_at demo_two 0 = Some (the (table_at demo_two 0))"
  "slot_at demo_two (as_usize 1) = Some (the (table_at demo_two 1))"
  by code_simp+

lemma demo_two_wf: "cdt_wf 2 demo_two"
proof -
  have "cdt_wf 2 (replicate 2 None)" by (rule cdt_wf_empty) simp_all
  then have "cdt_wf 2 [None, None]" by (simp add: numeral_2_eq_2)
  from cdt_wf_add_space [OF this, of 0] have "cdt_wf 2 [Some (ct_new 2 0), None]"
    by (simp add: slot_at_def)
  from cdt_wf_add_space [OF this, of 1]
  have "cdt_wf 2 [Some (ct_new 2 0), Some (ct_new 2 1)]"
    by (simp add: slot_at_def)
  from insert_root_wf(2) [OF this, of 0 "ct_new 2 0" demo_root] show ?thesis
    by (simp add: slot_at_def as_usize_def demo_two_def)
qed

lemma demo_granted_wf: "cdt_wf 2 demo_granted"
  using derive_cross_wf(2) [OF demo_two_wf demo_table_at, of 0 WRITE 7]
  by (simp add: demo_granted_def demo_grant_def as_usize_def)

text \<open>C9: Revocation through the derivation tree is exact. On tables that satisfy the
  module's invariants, revoking an occupied slot returns without an error, frees that slot and
  every capability derived from it, directly or through any number of steps and in any space,
  leaves every other slot as it was, keeps the invariants, and returns the number of
  capabilities it removed; revoking an empty or unknown slot is \<open>EmptySlot\<close> and changes
  nothing.\<close>

theorem revoke_exact:
  assumes "cdt_wf N tabs"
  shows "case revoke_cross_space N tabs target of
      (Ok n, tabs') \<Rightarrow> cap_at tabs target \<noteq> None \<and> cdt_wf N tabs' \<and>
        (\<forall>g. cap_at tabs' g =
          (if g = target \<or> descends tabs g target then None else cap_at tabs g)) \<and>
        unat n = card {g. g = target \<or> descends tabs g target}
    | (Err e, tabs') \<Rightarrow> cap_at tabs target = None \<and> e = EmptySlot \<and> tabs' = tabs
    | (Panic, tabs') \<Rightarrow> False"
proof (cases "cap_at tabs target = None")
  case True
  then show ?thesis by (simp add: revoke_empty_slot)
next
  case False
  with assms show ?thesis by (rule revoke_outcome) (use False in simp)
qed

theorem revoke_exact_witness:
  "cap_at (snd (revoke_cross_space 2 demo_granted (GlobalCapId 0 0))) (GlobalCapId 1 0) = None \<and>
   cap_at demo_granted (GlobalCapId 1 0) \<noteq> None \<and>
   fst (revoke_cross_space 2 demo_granted (GlobalCapId 0 0)) = Ok 2"
proof -
  have v: "fst (revoke_cross_space 2 demo_granted (GlobalCapId 0 0)) = Ok 2" by code_simp
  have d: "descends demo_granted (GlobalCapId 1 0) (GlobalCapId 0 0)"
    unfolding is_descendant_of_iff [OF demo_granted_wf, symmetric] by code_simp
  have "cap_at demo_granted (GlobalCapId 1 0) \<noteq> None" by code_simp
  with v d revoke_exact [OF demo_granted_wf, of "GlobalCapId 0 0"] show ?thesis
    by (auto split: prod.splits)
qed





text \<open>C12: The bounded ancestry walk is a decision procedure: on well-formed tables its
  \<open>M * N + 1\<close> iterations always reach the root, so it answers true exactly for the
  descendants of the target.\<close>

theorem ancestry_walk_decides:
  assumes "cdt_wf N tabs"
  shows "is_descendant_of N tabs g a = descends tabs g a"
  using assms by (rule is_descendant_of_iff)

theorem ancestry_walk_decides_witness:
  "descends demo_granted (GlobalCapId 1 0) (GlobalCapId 0 0) \<and>
   \<not> descends demo_granted (GlobalCapId 0 0) (GlobalCapId 1 0)"
  unfolding ancestry_walk_decides [OF demo_granted_wf, symmetric] by code_simp

end
