(* ===== verification/Untyped.thy ===== *)
theory Untyped
  imports Caps
begin

text \<open>
  \<open>kernel/kernel-mm/src/lib.rs\<close>, \<open>object_type.rs\<close> and \<open>untyped.rs\<close>: the memory
  errors, the object types a region can be retyped into, and the bump allocator
  \<open>UntypedMemory\<close> with its retype operations. The addresses of \<open>hal_core\<close> are
  transparent wrappers of one \<open>usize\<close>. The second half proves that a region never hands
  out the same byte twice and never leaves its bounds.
\<close>

type_synonym phys_addr = u64
type_synonym virt_addr = u64

datatype mm_error = OutOfMemory | BadAlignment | ZeroCount | Overflow | Unaligned
  | MappingOverlap | WriteExecute | NotMapped | AddressSpaceFull | HardwareMapFailed

definition PAGE_SIZE :: u64 where "PAGE_SIZE = 4096"

section \<open>Object types\<close>

datatype kernel_object_type = Untyped_T | PageTable_T | ThreadControlBlock_T | Endpoint_T
  | Notification_T | CapabilitySpace_T | SharedRegion_T

fun as_object_kind :: "kernel_object_type \<Rightarrow> object_kind" where
  "as_object_kind Untyped_T = UntypedMemory"
| "as_object_kind PageTable_T = PageTable"
| "as_object_kind ThreadControlBlock_T = ThreadControlBlock"
| "as_object_kind Endpoint_T = Endpoint"
| "as_object_kind Notification_T = Notification"
| "as_object_kind CapabilitySpace_T = CapabilitySpace"
| "as_object_kind SharedRegion_T = SharedRegion"

fun object_size_bytes :: "kernel_object_type \<Rightarrow> u64" where
  "object_size_bytes Untyped_T = PAGE_SIZE"
| "object_size_bytes PageTable_T = PAGE_SIZE"
| "object_size_bytes ThreadControlBlock_T = PAGE_SIZE"
| "object_size_bytes Endpoint_T = PAGE_SIZE"
| "object_size_bytes Notification_T = PAGE_SIZE"
| "object_size_bytes CapabilitySpace_T = PAGE_SIZE"
| "object_size_bytes SharedRegion_T = PAGE_SIZE"

lemma object_size_page: "object_size_bytes kind = PAGE_SIZE"
  by (cases kind) simp_all

section \<open>Untyped memory\<close>

record untyped_memory =
  ut_base :: u64
  ut_size :: u64
  watermark :: u64

record retype_grant =
  grant_kind :: kernel_object_type
  grant_count :: u32
  grant_phys :: phys_addr
  grant_len :: u64

definition ut_new :: "phys_addr \<Rightarrow> u64 \<Rightarrow> untyped_memory" where
  "ut_new base size_bytes = \<lparr>ut_base = base, ut_size = size_bytes, watermark = 0\<rparr>"

definition remaining :: "untyped_memory \<Rightarrow> ('e, u64) res" where
  "remaining u = sub_or_panic (ut_size u) (watermark u)"

definition ut_alloc ::
  "untyped_memory \<Rightarrow> u64 \<Rightarrow> u64 \<Rightarrow> (mm_error, phys_addr) res \<times> untyped_memory" where
  "ut_alloc u align bytes =
     (if align = 0 \<or> \<not> is_power_of_two align then (Err BadAlignment, u)
      else try_in u (ok_or (checked_add (ut_base u) (watermark u)) Overflow) (\<lambda>cur.
        try_in u (ok_or (checked_add cur (align - 1)) Overflow) (\<lambda>up.
        let aligned = up AND NOT (align - 1) in
        try_in u (ok_or (checked_add aligned bytes) Overflow) (\<lambda>fin.
        try_in u (ok_or (checked_add (ut_base u) (ut_size u)) Overflow) (\<lambda>region_end.
        if fin > region_end then (Err OutOfMemory, u)
        else try_in u (sub_or_panic fin (ut_base u)) (\<lambda>w.
          (Ok aligned, u\<lparr>watermark := w\<rparr>)))))))"

definition retype ::
  "untyped_memory \<Rightarrow> kernel_object_type \<Rightarrow> u32 \<Rightarrow>
     (mm_error, retype_grant) res \<times> untyped_memory" where
  "retype u kind cnt =
     (if cnt = 0 then (Err ZeroCount, u)
      else try_in u (ok_or (checked_mul (object_size_bytes kind) (ucast cnt)) Overflow) (\<lambda>total.
        then_do (ut_alloc u PAGE_SIZE total) (\<lambda>phys u.
          (Ok \<lparr>grant_kind = kind, grant_count = cnt, grant_phys = phys, grant_len = total\<rparr>, u))))"

definition retype_untyped ::
  "untyped_memory \<Rightarrow> u32 \<Rightarrow> u64 \<Rightarrow> (mm_error, retype_grant) res \<times> untyped_memory" where
  "retype_untyped u cnt child_size =
     (if cnt = 0 then (Err ZeroCount, u)
      else try_in u (ok_or (checked_add child_size (PAGE_SIZE - 1)) Overflow) (\<lambda>up.
        let child = up AND NOT (PAGE_SIZE - 1) in
        if child = 0 then (Err ZeroCount, u)
        else try_in u (ok_or (checked_mul child (ucast cnt)) Overflow) (\<lambda>total.
          then_do (ut_alloc u PAGE_SIZE total) (\<lambda>phys u.
            (Ok \<lparr>grant_kind = Untyped_T, grant_count = cnt, grant_phys = phys,
                 grant_len = total\<rparr>, u)))))"

section \<open>Bounds and alignment of one allocation\<close>

definition ut_wf :: "untyped_memory \<Rightarrow> bool" where
  "ut_wf u \<longleftrightarrow> watermark u \<le> ut_size u"

lemma page_size_pow: "PAGE_SIZE = 2 ^ 12"
  by (simp add: PAGE_SIZE_def)

lemma page_size_power_of_two: "PAGE_SIZE \<noteq> 0 \<and> is_power_of_two PAGE_SIZE"
  by code_simp

text \<open>Everything a successful allocation establishes.\<close>

lemma ut_alloc_Ok:
  assumes "ut_alloc u align bytes = (Ok p, u')"
  shows "ut_base u' = ut_base u" and "ut_size u' = ut_size u"
    and "unat (ut_base u) + unat (watermark u) \<le> unat p"
    and "unat p < unat (ut_base u) + unat (watermark u) + unat align"
    and "unat p + unat bytes = unat (ut_base u) + unat (watermark u')"
    and "watermark u' \<le> ut_size u'" and "unat align dvd unat p"
    and "unat (ut_base u) + unat (ut_size u) < 2 ^ 64"
proof -
  from assms have pow: "is_power_of_two align" by (auto simp: ut_alloc_def split: if_splits)
  from assms have
    cur: "unat (ut_base u) + unat (watermark u) < 2 ^ 64"
    and up: "unat (ut_base u + watermark u) + unat (align - 1) < 2 ^ 64"
    and fin: "unat p + unat bytes < 2 ^ 64"
    and reg: "unat (ut_base u) + unat (ut_size u) < 2 ^ 64"
    and fits: "\<not> ut_base u + ut_size u < p + bytes"
    and p: "p = (ut_base u + watermark u + (align - 1)) AND NOT (align - 1)"
    and u': "u' = u\<lparr>watermark := p + bytes - ut_base u\<rparr>"
    and ge: "ut_base u \<le> p + bytes"
    by (auto simp: ut_alloc_def try_in_Ok_iff checked_add_Some Let_def
        sub_or_panic_def split: if_splits)
  have "unat (ut_base u + watermark u) = unat (ut_base u) + unat (watermark u)"
    using cur by (intro unat_add_exact) simp
  note r = align_up_word [of align "ut_base u + watermark u", OF pow, folded p, unfolded this]
  have e: "unat (p + bytes) = unat p + unat bytes"
    and s: "unat (ut_base u + ut_size u) = unat (ut_base u) + unat (ut_size u)"
    using fin reg by (auto intro!: unat_add_exact)
  have w: "unat (p + bytes - ut_base u) = unat p + unat bytes - unat (ut_base u)"
    using ge e by (simp add: unat_sub_exact)
  show "ut_base u' = ut_base u" "ut_size u' = ut_size u" by (simp_all add: u')
  show "unat (ut_base u) + unat (watermark u) \<le> unat p"
    and "unat p < unat (ut_base u) + unat (watermark u) + unat align"
    and "unat align dvd unat p"
    using r up \<open>unat (ut_base u + watermark u) = _\<close> by simp_all
  show "unat p + unat bytes = unat (ut_base u) + unat (watermark u')"
    using w ge e by (simp add: u' word_le_nat_alt)
  show "watermark u' \<le> ut_size u'"
    using fits w s e by (simp add: u' word_le_nat_alt word_less_nat_alt)
  show "unat (ut_base u) + unat (ut_size u) < 2 ^ 64" by (rule reg)
qed

text \<open>An allocation never panics, and a refused one changes nothing.\<close>

lemma ut_alloc_not_Ok:
  shows "fst (ut_alloc u align bytes) \<noteq> Panic"
    and "ut_alloc u align bytes = (Err e, u') \<Longrightarrow> u' = u"
proof -
  let ?cur = "ut_base u + watermark u"
  let ?p = "(?cur + (align - 1)) AND NOT (align - 1)"
  have ge: "ut_base u \<le> ?p + bytes"
    if "is_power_of_two align" "unat (ut_base u) + unat (watermark u) < 2 ^ 64"
      "unat ?cur + unat (align - 1) < 2 ^ 64" "unat ?p + unat bytes < 2 ^ 64"
  proof -
    have "unat (ut_base u) \<le> unat ?cur" using that(2) by (simp add: unat_add_exact)
    also have "\<dots> \<le> unat ?p" using that(1,3) by (intro align_up_word) auto
    finally show ?thesis using that(4) by (simp add: word_le_nat_alt unat_add_exact)
  qed
  show "fst (ut_alloc u align bytes) \<noteq> Panic"
    using ge
    by (auto simp: ut_alloc_def try_in_def Let_def sub_or_panic_def checked_add_Some
        split: res.splits)
  show "ut_alloc u align bytes = (Err e, u') \<Longrightarrow> u' = u"
    by (auto simp: ut_alloc_def try_in_def Let_def split: res.splits if_splits)
qed

section \<open>Retype\<close>

lemma unat_page_size: "unat PAGE_SIZE = 4096"
  by (simp add: PAGE_SIZE_def)

lemma retype_Ok:
  assumes "retype u kind cnt = (Ok g, u')"
  shows "ut_alloc u PAGE_SIZE (grant_len g) = (Ok (grant_phys g), u')"
    and "unat (grant_len g) = 4096 * unat cnt" and "cnt \<noteq> 0"
    and "grant_kind g = kind" and "grant_count g = cnt"
proof -
  from assms have c: "cnt \<noteq> 0" by (auto simp: retype_def split: if_splits)
  from assms c obtain total p where
    m: "checked_mul PAGE_SIZE (ucast cnt) = Some total"
    and a: "ut_alloc u PAGE_SIZE total = (Ok p, u')"
    and g: "g = \<lparr>grant_kind = kind, grant_count = cnt, grant_phys = p, grant_len = total\<rparr>"
    by (auto simp: retype_def outcome_iff object_size_page)
  show "ut_alloc u PAGE_SIZE (grant_len g) = (Ok (grant_phys g), u')" using a g by simp
  show "unat (grant_len g) = 4096 * unat cnt"
    using m g unat_mult_exact [of PAGE_SIZE "ucast cnt :: u64"]
    by (auto simp: checked_mul_Some unat_page_size unat_ucast_up)
  show "cnt \<noteq> 0" "grant_kind g = kind" "grant_count g = cnt" using c g by simp_all
qed

lemma retype_not_Ok:
  shows "fst (retype u kind cnt) \<noteq> Panic" and "retype u kind cnt = (Err e, u') \<Longrightarrow> u' = u"
  using ut_alloc_not_Ok [of u PAGE_SIZE]
  by (auto simp: retype_def outcome_iff split: if_splits)

lemma retype_untyped_Ok:
  assumes "retype_untyped u cnt child_size = (Ok g, u')"
  shows "ut_alloc u PAGE_SIZE (grant_len g) = (Ok (grant_phys g), u')"
  using assms by (auto simp: retype_untyped_def outcome_iff Let_def split: if_splits)

lemma retype_untyped_not_Ok:
  shows "fst (retype_untyped u cnt child_size) \<noteq> Panic"
    and "retype_untyped u cnt child_size = (Err e, u') \<Longrightarrow> u' = u"
  using ut_alloc_not_Ok [of u PAGE_SIZE]
  by (auto simp: retype_untyped_def outcome_iff Let_def split: if_splits)

text \<open>The address-space side needs the physical range of a grant: a page-aligned range inside
  the region.\<close>

lemma page_alloc_Ok:
  assumes "ut_alloc u PAGE_SIZE bytes = (Ok p, u')"
  shows "4096 dvd unat p" and "unat (ut_base u) + unat (watermark u) \<le> unat p"
    and "unat p < unat (ut_base u) + unat (watermark u) + 4096"
    and "unat p + unat bytes = unat (ut_base u) + unat (watermark u')"
    and "unat p + unat bytes \<le> unat (ut_base u) + unat (ut_size u)"
    and "unat (ut_base u) + unat (ut_size u) < 2 ^ 64"
  using ut_alloc_Ok [OF assms] by (simp_all add: unat_page_size word_le_nat_alt)

lemma ut_wf_new: "ut_wf (ut_new b s)"
  by (simp add: ut_wf_def ut_new_def)

lemma ut_alloc_wf:
  assumes "ut_wf u"
  shows "ut_wf (snd (ut_alloc u al n))"
proof (cases "ut_alloc u al n")
  case (Pair r u')
  show ?thesis
  proof (cases r)
    case (Ok p)
    from ut_alloc_Ok(6) [OF Pair [unfolded Ok]] Pair show ?thesis by (simp add: ut_wf_def)
  next
    case (Err e)
    from ut_alloc_not_Ok(2) [OF Pair [unfolded Err]] Pair assms show ?thesis by simp
  next
    case Panic
    then show ?thesis using ut_alloc_not_Ok(1) [of u al n] Pair by simp
  qed
qed

lemma retype_wf:
  assumes "ut_wf u"
  shows "ut_wf (snd (retype u kind cnt))"
proof (cases "retype u kind cnt")
  case (Pair r u')
  show ?thesis
  proof (cases r)
    case (Ok g)
    from ut_alloc_Ok(6) [OF retype_Ok(1) [OF Pair [unfolded Ok]]] Pair
    show ?thesis by (simp add: ut_wf_def)
  next
    case (Err e)
    from retype_not_Ok(2) [OF Pair [unfolded Err]] Pair assms show ?thesis by simp
  next
    case Panic
    then show ?thesis using retype_not_Ok(1) [of u kind cnt] Pair by simp
  qed
qed

section \<open>Sequences of requests\<close>

text \<open>A client of one region makes any sequence of the three allocating calls;
  \<open>region_run\<close> collects the ranges it was handed.\<close>

datatype region_op = Alloc u64 u64 | Retype kernel_object_type u32 | Split u32 u64

fun region_step :: "region_op \<Rightarrow> untyped_memory \<Rightarrow> (phys_addr \<times> u64) option \<times> untyped_memory" where
  "region_step (Alloc align n) u = (case ut_alloc u align n of
      (Ok p, u') \<Rightarrow> (Some (p, n), u') | (_, u') \<Rightarrow> (None, u'))"
| "region_step (Retype kind cnt) u = (case retype u kind cnt of
      (Ok g, u') \<Rightarrow> (Some (grant_phys g, grant_len g), u') | (_, u') \<Rightarrow> (None, u'))"
| "region_step (Split cnt child) u = (case retype_untyped u cnt child of
      (Ok g, u') \<Rightarrow> (Some (grant_phys g, grant_len g), u') | (_, u') \<Rightarrow> (None, u'))"

fun region_run :: "region_op list \<Rightarrow> untyped_memory \<Rightarrow> (phys_addr \<times> u64) list \<times> untyped_memory" where
  "region_run [] u = ([], u)"
| "region_run (r # rs) u = (let (g, u') = region_step r u; (gs, u'') = region_run rs u'
     in ((case g of None \<Rightarrow> gs | Some x \<Rightarrow> x # gs), u''))"

lemma region_step_cases:
  obtains (none) "region_step r u = (None, u)"
  | (some) align p n u' where "region_step r u = (Some (p, n), u')"
      "ut_alloc u align n = (Ok p, u')"
proof (cases r)
  case (Alloc al n)
  show thesis
  proof (cases "ut_alloc u al n")
    case (Pair r' u')
    then show thesis using Alloc none some ut_alloc_not_Ok [of u al n]
      by (cases r') auto
  qed
next
  case (Retype kind cnt)
  show thesis
  proof (cases "retype u kind cnt")
    case (Pair r' u')
    then show thesis using Retype none some retype_not_Ok [of u kind cnt] retype_Ok(1) [of u kind cnt]
      by (cases r') auto
  qed
next
  case (Split cnt ch)
  show thesis
  proof (cases "retype_untyped u cnt ch")
    case (Pair r' u')
    then show thesis
      using Split none some retype_untyped_not_Ok [of u cnt ch] retype_untyped_Ok [of u cnt ch]
      by (cases r') auto
  qed
qed

text \<open>\<open>handed_out lo hi gs\<close>: the ranges come in increasing order, without overlap, all
  within \<open>[lo, hi]\<close>.\<close>

fun handed_out :: "nat \<Rightarrow> nat \<Rightarrow> (phys_addr \<times> u64) list \<Rightarrow> bool" where
  "handed_out lo hi [] \<longleftrightarrow> True"
| "handed_out lo hi ((p, n) # gs) \<longleftrightarrow>
     lo \<le> unat p \<and> unat p + unat n \<le> hi \<and> handed_out (unat p + unat n) hi gs"

lemma handed_out_mono: "handed_out lo hi gs \<Longrightarrow> lo' \<le> lo \<Longrightarrow> handed_out lo' hi gs"
  by (cases gs) auto

lemma region_run_handed_out:
  assumes "ut_wf u"
  shows "handed_out (unat (ut_base u) + unat (watermark u)) (unat (ut_base u) + unat (ut_size u))
           (fst (region_run rs u)) \<and>
         ut_wf (snd (region_run rs u)) \<and> watermark u \<le> watermark (snd (region_run rs u)) \<and>
         ut_base (snd (region_run rs u)) = ut_base u \<and>
         ut_size (snd (region_run rs u)) = ut_size u"
  using assms
proof (induction rs arbitrary: u)
  case Nil
  then show ?case by simp
next
  case (Cons r rs)
  show ?case
  proof (cases rule: region_step_cases [of r u])
    case none
    then show ?thesis using Cons by (simp add: Let_def case_prod_beta)
  next
    case (some al p n u')
    note a = ut_alloc_Ok [OF some(2)]
    have wf': "ut_wf u'" using a(6) by (simp add: ut_wf_def)
    note ih = Cons.IH [OF wf', unfolded a(1,2)]
    have "unat (watermark u) \<le> unat (watermark u')" using a(3,5) by linarith
    then have le: "watermark u \<le> watermark u'" by (simp add: word_le_nat_alt)
    have "unat p + unat n \<le> unat (ut_base u) + unat (ut_size u)"
      using a(5,6) by (simp add: word_le_nat_alt a(2))
    then show ?thesis
      using ih some(1) a(3,5) le
      by (auto simp: Let_def case_prod_beta elim: order_trans)
  qed
qed

lemma handed_out_sorted:
  "handed_out lo hi gs \<Longrightarrow>
     sorted_wrt (\<lambda>(p, n) (q, m). unat p + unat n \<le> unat q) gs \<and>
     (\<forall>(p, n) \<in> set gs. lo \<le> unat p \<and> unat p + unat n \<le> hi)"
proof (induction gs arbitrary: lo)
  case Nil
  then show ?case by simp
next
  case (Cons g gs)
  obtain p n where g: "g = (p, n)" by (cases g)
  from Cons.prems have h: "lo \<le> unat p" "unat p + unat n \<le> hi"
    "handed_out (unat p + unat n) hi gs" by (simp_all add: g)
  from Cons.IH [OF h(3)] h show ?case by (auto simp: g)
qed

lemma least_multiple:
  fixes a p q c :: nat
  assumes "a dvd p" and "p < c + a" and "a dvd q" and "c \<le> q"
  shows "p \<le> q"
proof (rule ccontr)
  assume "\<not> p \<le> q"
  moreover have "a dvd p - q" using assms by (intro dvd_diff_nat)
  ultimately have "a \<le> p - q" by (intro dvd_imp_le) simp_all
  then show False using assms(2,4) \<open>\<not> p \<le> q\<close> by arith
qed

section \<open>Properties\<close>

text \<open>C13: An untyped region never hands out a byte twice and never leaves its bounds. Over any
  sequence of \<open>alloc\<close>, \<open>retype\<close> and \<open>retype_untyped\<close> requests, with any
  arguments, the ranges granted come in increasing order, each starting where the previous one
  ended or later, and all lie between the watermark the sequence started from and the end of the
  region; the watermark never moves back and never passes the region's size.\<close>

theorem grants_disjoint:
  assumes "ut_wf u"
  shows "sorted_wrt (\<lambda>(p, n) (q, m). unat p + unat n \<le> unat q) (fst (region_run rs u)) \<and>
    (\<forall>(p, n) \<in> set (fst (region_run rs u)).
       unat (ut_base u) + unat (watermark u) \<le> unat p \<and>
       unat p + unat n \<le> unat (ut_base u) + unat (ut_size u)) \<and>
    watermark u \<le> watermark (snd (region_run rs u)) \<and> ut_wf (snd (region_run rs u))"
  using region_run_handed_out [OF assms, of rs] by (auto dest!: handed_out_sorted)

theorem grants_disjoint_witness:
  "fst (region_run [Retype Endpoint_T 2, Alloc 8 24, Split 1 100] (ut_new 0x80000000 0x10000)) =
     [(0x80000000, 0x2000), (0x80002000, 24), (0x80003000, 0x1000)] \<and>
   watermark (ut_new 0x80000000 0x10000) \<le> watermark (snd (region_run
     [Retype Endpoint_T 2, Alloc 8 24, Split 1 100] (ut_new 0x80000000 0x10000)))"
proof
  show "fst (region_run [Retype Endpoint_T 2, Alloc 8 24, Split 1 100]
      (ut_new 0x80000000 0x10000)) =
     [(0x80000000, 0x2000), (0x80002000, 24), (0x80003000, 0x1000)]" by code_simp
  have "ut_wf (ut_new 0x80000000 0x10000)" by code_simp
  then show "watermark (ut_new 0x80000000 0x10000) \<le> watermark (snd (region_run
     [Retype Endpoint_T 2, Alloc 8 24, Split 1 100] (ut_new 0x80000000 0x10000)))"
    by (rule grants_disjoint [THEN conjunct2, THEN conjunct2, THEN conjunct1])
qed

text \<open>Allocation is an exact first fit. For a power-of-two alignment and a region that does
  not reach the top of the address space, \<open>alloc\<close> returns the least aligned address at or
  above the watermark when the request fits behind it, moving the watermark to its end; it fails
  only when no aligned address fits, and then changes nothing; it never panics.\<close>

theorem alloc_first_fit:
  assumes "is_power_of_two align" and "ut_wf u"
    and "unat (ut_base u) + unat (ut_size u) + unat align \<le> 2 ^ 64"
  shows "case ut_alloc u align n of
      (Ok p, u') \<Rightarrow> unat align dvd unat p \<and>
        (\<forall>q. unat align dvd q \<and> unat (ut_base u) + unat (watermark u) \<le> q \<longrightarrow> unat p \<le> q) \<and>
        unat (ut_base u) + unat (watermark u) \<le> unat p \<and>
        unat p + unat n \<le> unat (ut_base u) + unat (ut_size u) \<and>
        unat (ut_base u) + unat (watermark u') = unat p + unat n
    | (Err e, u') \<Rightarrow> e \<in> {OutOfMemory, Overflow} \<and> u' = u \<and>
        \<not> (\<exists>q. unat align dvd q \<and> unat (ut_base u) + unat (watermark u) \<le> q \<and>
             q + unat n \<le> unat (ut_base u) + unat (ut_size u))
    | (Panic, u') \<Rightarrow> False"
proof (cases "ut_alloc u align n")
  case (Pair r u')
  show ?thesis
  proof (cases r)
    case (Ok p)
    note a = ut_alloc_Ok [OF Pair [unfolded Ok]]
    have "unat p \<le> q" if "unat align dvd q" "unat (ut_base u) + unat (watermark u) \<le> q" for q
      using least_multiple [OF a(7) a(4) that] .
    then show ?thesis using Pair Ok a by (simp add: word_le_nat_alt)
  next
    case (Err e)
    let ?cur = "ut_base u + watermark u"
    let ?p = "(?cur + (align - 1)) AND NOT (align - 1)"
    have al: "align \<noteq> 0"
    proof
      assume "align = 0"
      then obtain k where "(2 ^ k :: u64) = 0" "k < 64"
        using assms(1) by (auto simp: is_power_of_two_iff)
      then show False by simp
    qed
    have w: "unat (watermark u) \<le> unat (ut_size u)"
      using assms(2) by (simp add: ut_wf_def word_le_nat_alt)
    have "0 < unat align" using al by (simp add: unat_gt_0)
    then have reg: "unat (ut_base u) + unat (ut_size u) < 2 ^ 64" using assms(3) by linarith
    then have cur: "unat ?cur = unat (ut_base u) + unat (watermark u)"
      using w by (intro unat_add_exact) simp
    have "unat (align - 1) = unat align - 1"
      using \<open>0 < unat align\<close> by (subst unat_sub_exact) (simp_all add: word_le_nat_alt)
    then have up: "unat ?cur + unat (align - 1) < 2 ^ 64"
      using cur w assms(3) \<open>0 < unat align\<close> by linarith
    have r: "unat ?p < unat ?cur + unat align" "unat align dvd unat ?p"
      using up by (auto intro!: align_up_word [OF assms(1)])
    have least: "unat ?p \<le> q" if "unat align dvd q" "unat (ut_base u) + unat (watermark u) \<le> q" for q
      using least_multiple [OF r(2,1) that(1)] that(2) unfolding cur .
    have some: "checked_add (ut_base u) (watermark u) = Some ?cur"
      "checked_add ?cur (align - 1) = Some (?cur + (align - 1))"
      "checked_add (ut_base u) (ut_size u) = Some (ut_base u + ut_size u)"
      using w reg up by (simp_all add: checked_add_Some)
    have eq: "ut_alloc u align n = try_in u (ok_or (checked_add ?p n) Overflow) (\<lambda>fin.
        if fin > ut_base u + ut_size u then (Err OutOfMemory, u)
        else try_in u (sub_or_panic fin (ut_base u)) (\<lambda>w. (Ok ?p, u\<lparr>watermark := w\<rparr>)))"
      using al assms(1) by (simp add: ut_alloc_def some Let_def)
    have e: "e \<in> {OutOfMemory, Overflow} \<and>
        unat (ut_base u) + unat (ut_size u) < unat ?p + unat n"
    proof (cases "unat ?p + unat n < 2 ^ 64")
      case True
      then have "checked_add ?p n = Some (?p + n)" by (simp add: checked_add_Some)
      moreover have "unat (?p + n) = unat ?p + unat n" using True by (simp add: unat_add_exact)
      moreover have "unat (ut_base u + ut_size u) = unat (ut_base u) + unat (ut_size u)"
        using reg by (simp add: unat_add_exact)
      ultimately show ?thesis
        using Pair Err by (simp add: eq sub_or_panic_def word_less_nat_alt split: if_splits)
    next
      case False
      then have "checked_add ?p n = None" by (simp add: checked_add_None)
      then show ?thesis using Pair Err False reg by (simp add: eq)
    qed
    have "\<not> (unat align dvd q \<and> unat (ut_base u) + unat (watermark u) \<le> q \<and>
        q + unat n \<le> unat (ut_base u) + unat (ut_size u))" for q
      using least [of q] e by linarith
    then show ?thesis using Pair Err e ut_alloc_not_Ok(2) [OF Pair [unfolded Err]] by simp
  next
    case Panic
    then show ?thesis using ut_alloc_not_Ok(1) [of u align n] Pair by simp
  qed
qed

theorem alloc_first_fit_witness:
  "fst (ut_alloc (ut_new 0x80000010 0x2000) 0x1000 0x1000) = Ok 0x80001000 \<and>
   \<not> (\<exists>q :: nat. 0x1000 dvd q \<and> 0x80000010 \<le> q \<and> q < 0x80001000)"
proof -
  let ?u = "ut_new 0x80000010 0x2000"
  have p: "is_power_of_two (0x1000 :: u64)" and w: "ut_wf ?u" by code_simp+
  have v: "ut_alloc ?u 0x1000 0x1000 = (Ok 0x80001000, snd (ut_alloc ?u 0x1000 0x1000))"
    by code_simp
  have b: "unat (ut_base ?u) + unat (ut_size ?u) + unat (0x1000 :: u64) \<le> 2 ^ 64"
    by (simp add: ut_new_def)
  note alloc_first_fit [OF p w b, where n = "0x1000"]
  then have "\<forall>q. unat (0x1000 :: u64) dvd q \<and> unat (ut_base ?u) + unat (watermark ?u) \<le> q \<longrightarrow>
      unat (0x80001000 :: u64) \<le> q"
    by (subst (asm) v) simp
  then have "\<not> (\<exists>q :: nat. 0x1000 dvd q \<and> 0x80000010 \<le> q \<and> q < 0x80001000)"
    by (simp add: ut_new_def) (metis not_le)
  moreover have "fst (ut_alloc ?u 0x1000 0x1000) = Ok 0x80001000" by (subst v) simp
  ultimately show ?thesis by blast
qed

text \<open>What \<open>retype\<close> grants: exactly \<open>count\<close> pages, page-aligned, inside the region
  and above everything granted before. The space it uses up is the granted length plus an
  alignment gap of less than a page, so \<open>remaining()\<close> falls by exactly the granted length
  only when the region's next free byte is page-aligned.\<close>

theorem retype_grant:
  assumes "retype u kind cnt = (Ok g, u')"
  shows "cnt \<noteq> 0 \<and> grant_kind g = kind \<and> grant_count g = cnt \<and>
    unat (grant_len g) = 4096 * unat cnt \<and> 4096 dvd unat (grant_phys g) \<and>
    unat (ut_base u) + unat (watermark u) \<le> unat (grant_phys g) \<and>
    unat (grant_phys g) + unat (grant_len g) \<le> unat (ut_base u) + unat (ut_size u) \<and>
    (\<exists>gap < 4096. unat (ut_size u) - unat (watermark u) =
        unat (ut_size u') - unat (watermark u') + unat (grant_len g) + gap \<and>
        (gap = 0 \<longleftrightarrow> 4096 dvd unat (ut_base u) + unat (watermark u)))"
proof -
  note g = retype_Ok [OF assms]
  note a = page_alloc_Ok [OF g(1)] and b = ut_alloc_Ok [OF g(1)]
  define gap where "gap = unat (grant_phys g) - (unat (ut_base u) + unat (watermark u))"
  have gap: "gap < 4096" "unat (grant_phys g) = unat (ut_base u) + unat (watermark u) + gap"
    using a(2,3) by (simp_all add: gap_def)
  have w: "unat (watermark u') = unat (watermark u) + gap + unat (grant_len g)"
    using a(4) gap(2) by linarith
  have "unat (watermark u') \<le> unat (ut_size u)" using b(2,6) by (simp add: word_le_nat_alt)
  then have "unat (ut_size u) - unat (watermark u) =
        unat (ut_size u') - unat (watermark u') + unat (grant_len g) + gap"
    using w b(2) by simp
  moreover have "gap = 0 \<longleftrightarrow> 4096 dvd unat (ut_base u) + unat (watermark u)"
  proof
    assume "gap = 0"
    then show "4096 dvd unat (ut_base u) + unat (watermark u)" using gap(2) a(1) by simp
  next
    assume "4096 dvd unat (ut_base u) + unat (watermark u)"
    from least_multiple [OF a(1,3) this le_refl]
    have "unat (grant_phys g) \<le> unat (ut_base u) + unat (watermark u)" .
    then show "gap = 0" using gap(2) by linarith
  qed
  ultimately show ?thesis using g(2-5) a(1,2,5) gap(1) by blast
qed

theorem retype_grant_witness:
  "unat (grant_len (case fst (retype (ut_new 0x80000010 0x4000) PageTable_T 2) of Ok g \<Rightarrow> g)) =
     4096 * unat (2 :: u32) \<and>
   unat (watermark (snd (retype (ut_new 0x80000010 0x4000) PageTable_T 2))) = 0x2ff0"
proof -
  let ?r = "retype (ut_new 0x80000010 0x4000) PageTable_T 2"
  have v: "?r = (Ok \<lparr>grant_kind = PageTable_T, grant_count = 2, grant_phys = 0x80001000,
      grant_len = 0x2000\<rparr>, \<lparr>ut_base = 0x80000010, ut_size = 0x4000, watermark = 0x2ff0\<rparr>)"
    by code_simp
  show ?thesis using retype_grant [OF v] by (simp add: v)
qed

end
