(* ===== verification/AddrSpace.thy ===== *)
theory AddrSpace
  imports Untyped
begin

text \<open>
  \<open>kernel/kernel-mm/src/address_space.rs\<close>: the mappings of one address space. The
  additions of \<open>end\<close>, \<open>overlaps\<close> and \<open>translate\<close> are unchecked in the source, so they
  panic on overflow here. The theory proves that the array of mappings implements a partial
  function from virtual addresses, which \<open>map\<close>, \<open>unmap\<close> and \<open>translate\<close> update and
  read, as long as no mapping reaches the top of the address space; what happens at the top is
  the last property.
\<close>

record map_permissions =
  readable :: bool
  writable :: bool
  executable :: bool
  device_uncached :: bool

record mapping =
  m_vaddr :: virt_addr
  m_paddr :: phys_addr
  m_len :: u64
  m_perms :: map_permissions

record address_space =
  root_phys :: phys_addr
  mappings :: "mapping option list"
  map_count :: nat

definition as_new :: "nat \<Rightarrow> phys_addr \<Rightarrow> address_space" where
  "as_new M root = \<lparr>root_phys = root, mappings = replicate M None, map_count = 0\<rparr>"

definition set_root_phys :: "address_space \<Rightarrow> phys_addr \<Rightarrow> address_space" where
  "set_root_phys s root = s\<lparr>root_phys := root\<rparr>"

definition as_len :: "address_space \<Rightarrow> nat" where "as_len s = map_count s"

definition mapping_end :: "mapping \<Rightarrow> ('e, u64) res" where
  "mapping_end m = add_or_panic (m_vaddr m) (m_len m)"

definition overlaps :: "mapping \<Rightarrow> virt_addr \<Rightarrow> u64 \<Rightarrow> ('e, bool) res" where
  "overlaps m vaddr len =
     bind_res (mapping_end m) (\<lambda>a1.
     bind_res (add_or_panic vaddr len) (\<lambda>b1.
     Ok (m_vaddr m < b1 \<and> vaddr < a1)))"

fun overlap_scan :: "mapping list \<Rightarrow> virt_addr \<Rightarrow> u64 \<Rightarrow> (mm_error, unit) res" where
  "overlap_scan [] vaddr len = Ok ()"
| "overlap_scan (m # ms) vaddr len = bind_res (overlaps m vaddr len) (\<lambda>hit.
     if hit then Err MappingOverlap else overlap_scan ms vaddr len)"

definition as_map ::
  "address_space \<Rightarrow> virt_addr \<Rightarrow> phys_addr \<Rightarrow> u64 \<Rightarrow> map_permissions \<Rightarrow>
     (mm_error, unit) res \<times> address_space" where
  "as_map s vaddr paddr len perms =
     (if len = 0 \<or> vaddr mod PAGE_SIZE \<noteq> 0 \<or> paddr mod PAGE_SIZE \<noteq> 0 \<or> len mod PAGE_SIZE \<noteq> 0
      then (Err Unaligned, s)
      else if writable perms \<and> executable perms then (Err WriteExecute, s)
      else try_in s (overlap_scan (flatten (mappings s)) vaddr len) (\<lambda>_.
        try_in s (ok_or (first_none (mappings s)) AddressSpaceFull) (\<lambda>i.
          (Ok (), s\<lparr>mappings := (mappings s)[i := Some
              \<lparr>m_vaddr = vaddr, m_paddr = paddr, m_len = len, m_perms = perms\<rparr>],
            map_count := map_count s + 1\<rparr>))))"

definition starts_at :: "virt_addr \<Rightarrow> mapping option \<Rightarrow> bool" where
  "starts_at v x = (case x of Some m \<Rightarrow> m_vaddr m = v | None \<Rightarrow> False)"

definition as_unmap ::
  "address_space \<Rightarrow> virt_addr \<Rightarrow> (mm_error, mapping) res \<times> address_space" where
  "as_unmap s vaddr =
     try_in s (ok_or (find_index (starts_at vaddr) (mappings s)) NotMapped) (\<lambda>i.
       case mappings s ! i of
         None \<Rightarrow> (Panic, s)
       | Some m \<Rightarrow> if map_count s = 0 then (Panic, s)
           else (Ok m, s\<lparr>mappings := (mappings s)[i := None], map_count := map_count s - 1\<rparr>))"

fun translate_scan :: "mapping list \<Rightarrow> virt_addr \<Rightarrow> ('e, (phys_addr \<times> map_permissions) option) res" where
  "translate_scan [] v = Ok None"
| "translate_scan (m # ms) v =
     (if m_vaddr m \<le> v
      then bind_res (add_or_panic (m_vaddr m) (m_len m)) (\<lambda>e.
        if v < e
        then bind_res (add_or_panic (m_paddr m) (v - m_vaddr m)) (\<lambda>p. Ok (Some (p, m_perms m)))
        else translate_scan ms v)
      else translate_scan ms v)"

definition translate ::
  "address_space \<Rightarrow> virt_addr \<Rightarrow> ('e, (phys_addr \<times> map_permissions) option) res" where
  "translate s v = translate_scan (flatten (mappings s)) v"

section \<open>The invariant\<close>

definition covers :: "mapping \<Rightarrow> virt_addr \<Rightarrow> bool" where
  "covers m v \<longleftrightarrow> unat (m_vaddr m) \<le> unat v \<and> unat v < unat (m_vaddr m) + unat (m_len m)"

definition apart :: "mapping \<Rightarrow> mapping \<Rightarrow> bool" where
  "apart a b \<longleftrightarrow> unat (m_vaddr a) + unat (m_len a) \<le> unat (m_vaddr b) \<or>
     unat (m_vaddr b) + unat (m_len b) \<le> unat (m_vaddr a)"

definition mapping_ok :: "mapping \<Rightarrow> bool" where
  "mapping_ok m \<longleftrightarrow> m_len m \<noteq> 0 \<and> m_vaddr m mod PAGE_SIZE = 0 \<and> m_paddr m mod PAGE_SIZE = 0 \<and>
     m_len m mod PAGE_SIZE = 0 \<and> \<not> (writable (m_perms m) \<and> executable (m_perms m))"

definition as_wf :: "nat \<Rightarrow> address_space \<Rightarrow> bool" where
  "as_wf M s \<longleftrightarrow> length (mappings s) = M \<and> map_count s = length (flatten (mappings s)) \<and>
     (\<forall>m \<in> set (flatten (mappings s)). mapping_ok m) \<and>
     (\<forall>i j a b. slot_at (mappings s) i = Some a \<longrightarrow> slot_at (mappings s) j = Some b \<longrightarrow> i \<noteq> j \<longrightarrow>
        apart a b)"

text \<open>A range that ends below the top of the address space, on both sides.\<close>

definition range_fits :: "virt_addr \<Rightarrow> phys_addr \<Rightarrow> u64 \<Rightarrow> bool" where
  "range_fits v p n \<longleftrightarrow> unat v + unat n < 2 ^ 64 \<and> unat p + unat n \<le> 2 ^ 64"

definition as_fits :: "address_space \<Rightarrow> bool" where
  "as_fits s \<longleftrightarrow> (\<forall>m \<in> set (flatten (mappings s)). range_fits (m_vaddr m) (m_paddr m) (m_len m))"

text \<open>The partial function an address space stands for.\<close>

definition vmap :: "address_space \<Rightarrow> virt_addr \<Rightarrow> (phys_addr \<times> map_permissions) option" where
  "vmap s v = map_option (\<lambda>m. (m_paddr m + (v - m_vaddr m), m_perms m))
     (find (\<lambda>m. covers m v) (flatten (mappings s)))"

lemma overlaps_Ok:
  assumes "range_fits (m_vaddr m) p (m_len m)" and "unat v + unat n < 2 ^ 64"
  shows "(overlaps m v n :: ('e, bool) res) =
    Ok (\<not> apart m \<lparr>m_vaddr = v, m_paddr = q, m_len = n, m_perms = pr\<rparr>)"
proof -
  have "unat (m_vaddr m + m_len m) = unat (m_vaddr m) + unat (m_len m)"
    "unat (v + n) = unat v + unat n"
    "(mapping_end m :: ('e, u64) res) = Ok (m_vaddr m + m_len m)"
    "(add_or_panic v n :: ('e, u64) res) = Ok (v + n)"
    using assms by (auto simp: range_fits_def mapping_end_def add_or_panic_Ok intro!: unat_add_exact)
  then show ?thesis
    by (auto simp: overlaps_def apart_def word_less_nat_alt)
qed

lemma overlap_scan_cases:
  assumes "\<forall>m \<in> set ms. range_fits (m_vaddr m) (m_paddr m) (m_len m)"
    and "unat v + unat n < 2 ^ 64"
    and "new = \<lparr>m_vaddr = v, m_paddr = q, m_len = n, m_perms = pr\<rparr>"
  shows "overlap_scan ms v n =
    (if \<forall>m \<in> set ms. apart m new then Ok () else Err MappingOverlap)"
  using assms(1)
proof (induction ms)
  case (Cons m ms)
  have "(overlaps m v n :: (mm_error, bool) res) = Ok (\<not> apart m new)"
    unfolding assms(3) by (rule overlaps_Ok [OF _ assms(2)]) (use Cons.prems in auto)
  then show ?case using Cons by simp
qed simp

lemma translate_scan_eq:
  assumes "\<forall>m \<in> set ms. range_fits (m_vaddr m) (m_paddr m) (m_len m)"
  shows "(translate_scan ms v :: ('e, _) res) =
    Ok (map_option (\<lambda>m. (m_paddr m + (v - m_vaddr m), m_perms m)) (find (\<lambda>m. covers m v) ms))"
  using assms
proof (induction ms)
  case (Cons m ms)
  have e: "(add_or_panic (m_vaddr m) (m_len m) :: ('e, u64) res) = Ok (m_vaddr m + m_len m)"
    "unat (m_vaddr m + m_len m) = unat (m_vaddr m) + unat (m_len m)"
    using Cons.prems by (auto simp: range_fits_def add_or_panic_Ok intro!: unat_add_exact)
  have p: "(add_or_panic (m_paddr m) (v - m_vaddr m) :: ('e, u64) res) =
      Ok (m_paddr m + (v - m_vaddr m))" if "covers m v"
    using that Cons.prems
    by (auto simp: covers_def range_fits_def add_or_panic_Ok unat_sub_exact word_le_nat_alt)
  have c: "covers m v \<longleftrightarrow> m_vaddr m \<le> v \<and> v < m_vaddr m + m_len m"
    using e(2) by (simp add: covers_def word_le_nat_alt word_less_nat_alt)
  show ?case
    using Cons.IH Cons.prems p by (auto simp: e(1) c)
qed simp

lemma translate_eq_vmap: "as_fits s \<Longrightarrow> translate s v = Ok (vmap s v)"
  by (simp add: translate_def as_fits_def vmap_def translate_scan_eq)

lemma live_unique:
  assumes "as_wf M s" and "a \<in> set (flatten (mappings s))" and "b \<in> set (flatten (mappings s))"
    and "covers a v" and "covers b v"
  shows "a = b"
proof -
  obtain i j where i: "slot_at (mappings s) i = Some a" and j: "slot_at (mappings s) j = Some b"
    using assms(2,3) by (auto simp: mem_flatten_iff)
  have "\<not> apart a b" using assms(4,5) by (auto simp: covers_def apart_def)
  then have "i = j" using assms(1) i j unfolding as_wf_def by blast
  then show ?thesis using i j by simp
qed

lemma vmap_Some_iff:
  assumes "as_wf M s"
  shows "vmap s v = Some x \<longleftrightarrow> (\<exists>m \<in> set (flatten (mappings s)). covers m v \<and>
    x = (m_paddr m + (v - m_vaddr m), m_perms m))"
proof
  assume "vmap s v = Some x"
  then obtain m where "find (\<lambda>m. covers m v) (flatten (mappings s)) = Some m"
      "x = (m_paddr m + (v - m_vaddr m), m_perms m)"
    by (auto simp: vmap_def)
  then show "\<exists>m \<in> set (flatten (mappings s)). covers m v \<and>
      x = (m_paddr m + (v - m_vaddr m), m_perms m)"
    by (auto simp: find_Some_iff)
next
  assume "\<exists>m \<in> set (flatten (mappings s)). covers m v \<and>
      x = (m_paddr m + (v - m_vaddr m), m_perms m)"
  then obtain m where m: "m \<in> set (flatten (mappings s))" "covers m v"
      "x = (m_paddr m + (v - m_vaddr m), m_perms m)" by blast
  then obtain m' where m': "find (\<lambda>m. covers m v) (flatten (mappings s)) = Some m'"
    by (cases "find (\<lambda>m. covers m v) (flatten (mappings s))") (auto simp: find_None_iff)
  then have "m' \<in> set (flatten (mappings s))" "covers m' v"
    by (auto simp: find_Some_iff in_set_conv_nth)
  then have "m' = m" using live_unique [OF assms] m by blast
  then show "vmap s v = Some x" using m' m by (simp add: vmap_def)
qed

lemma vmap_None_iff:
  "vmap s v = None \<longleftrightarrow> (\<forall>m \<in> set (flatten (mappings s)). \<not> covers m v)"
  by (auto simp: vmap_def find_None_iff)

lemma option_ext: "(\<And>y. a = Some y \<longleftrightarrow> b = Some y) \<Longrightarrow> a = b"
  by (metis option.exhaust)

text \<open>What a successful \<open>map\<close> leaves behind.\<close>

lemma as_map_Ok:
  assumes wf: "as_wf M s" and fits: "as_fits s" and rf: "range_fits v p n"
    and ok: "as_map s v p n pr = (Ok (), s')"
  defines "new \<equiv> \<lparr>m_vaddr = v, m_paddr = p, m_len = n, m_perms = pr\<rparr>"
  shows "as_wf M s'" and "as_fits s'" and "map_count s' = Suc (map_count s)"
    and "mapping_ok new" and "\<forall>m \<in> set (flatten (mappings s)). apart m new"
    and "vmap s' = (\<lambda>w. if covers new w then Some (p + (w - v), pr) else vmap s w)"
    and "root_phys s' = root_phys s"
proof -
  have al: "\<not> (n = 0 \<or> v mod PAGE_SIZE \<noteq> 0 \<or> p mod PAGE_SIZE \<noteq> 0 \<or> n mod PAGE_SIZE \<noteq> 0)"
    and wx: "\<not> (writable pr \<and> executable pr)"
    using ok by (auto simp: as_map_def split: if_splits)
  show mok: "mapping_ok new" using al wx by (auto simp: mapping_ok_def new_def)
  have vn: "unat v + unat n < 2 ^ 64" using rf by (simp add: range_fits_def)
  have scan: "overlap_scan (flatten (mappings s)) v n =
      (if \<forall>m \<in> set (flatten (mappings s)). apart m new then Ok () else Err MappingOverlap)"
    using fits vn by (intro overlap_scan_cases [where q = p and pr = pr])
      (auto simp: as_fits_def new_def)
  from ok al wx obtain i where
    ap: "\<forall>m \<in> set (flatten (mappings s)). apart m new"
    and i: "first_none (mappings s) = Some i"
    and s': "s' = s\<lparr>mappings := (mappings s)[i := Some new], map_count := map_count s + 1\<rparr>"
    by (auto simp: as_map_def outcome_iff scan new_def split: if_splits)
  show "\<forall>m \<in> set (flatten (mappings s)). apart m new" by (rule ap)
  note fs = first_none_Some [OF i]
  have mem: "x \<in> set (flatten (mappings s')) \<longleftrightarrow> x = new \<or> x \<in> set (flatten (mappings s))" for x
    using fs by (simp add: s' mem_flatten_fill)
  show wf': "as_wf M s'"
    unfolding as_wf_def
  proof (intro conjI allI impI ballI)
    show "length (mappings s') = M" using wf by (simp add: s' as_wf_def)
    show "map_count s' = length (flatten (mappings s'))"
      using wf fs by (simp add: s' as_wf_def length_flatten_fill)
    show "mapping_ok m" if "m \<in> set (flatten (mappings s'))" for m
      using that mok wf by (auto simp: mem as_wf_def)
    show "apart a b" if "slot_at (mappings s') j = Some a" "slot_at (mappings s') k = Some b"
      "j \<noteq> k" for j k a b
    proof -
      have old: "slot_at (mappings s') l = (if l = i then Some new else slot_at (mappings s) l)" for l
        using fs by (auto simp: s' slot_at_update)
      have ap': "apart c new \<and> apart new c" if "slot_at (mappings s) l = Some c" for l c
        using ap that by (auto simp: apart_def mem_flatten_iff)
      show ?thesis
      proof (cases "j = i \<or> k = i")
        case True
        then show ?thesis using that ap' by (auto simp: old)
      next
        case False
        then show ?thesis using that wf unfolding as_wf_def old by simp
      qed
    qed
  qed
  show "as_fits s'" using fits rf by (auto simp: as_fits_def mem new_def)
  show "map_count s' = Suc (map_count s)" "root_phys s' = root_phys s" by (simp_all add: s')
  show "vmap s' = (\<lambda>w. if covers new w then Some (p + (w - v), pr) else vmap s w)"
  proof (rule ext, rule option_ext)
    fix w x
    have "\<not> covers m w" if "m \<in> set (flatten (mappings s))" "covers new w" for m
      using ap that by (fastforce simp: apart_def covers_def)
    then show "vmap s' w = Some x \<longleftrightarrow>
        (if covers new w then Some (p + (w - v), pr) else vmap s w) = Some x"
      unfolding vmap_Some_iff [OF wf'] Bex_def mem using vmap_Some_iff [OF wf, of w x]
      by (cases "covers new w") (auto simp: new_def Bex_def)
  qed
qed

text \<open>The two ways a \<open>map\<close> can fail after its argument checks, and that it cannot panic
  below the top of the address space.\<close>

lemma as_map_cases:
  assumes "as_fits s" and "unat v + unat n < 2 ^ 64"
  obtains (unaligned) "as_map s v p n pr = (Err Unaligned, s)"
      "n = 0 \<or> v mod PAGE_SIZE \<noteq> 0 \<or> p mod PAGE_SIZE \<noteq> 0 \<or> n mod PAGE_SIZE \<noteq> 0"
  | (wx) "as_map s v p n pr = (Err WriteExecute, s)" "writable pr" "executable pr"
  | (overlap) m where "as_map s v p n pr = (Err MappingOverlap, s)"
      "m \<in> set (flatten (mappings s))"
      "\<not> apart m \<lparr>m_vaddr = v, m_paddr = p, m_len = n, m_perms = pr\<rparr>"
  | (nospace) "as_map s v p n pr = (Err AddressSpaceFull, s)" "first_none (mappings s) = None"
  | (ok) s' where "as_map s v p n pr = (Ok (), s')"
proof -
  let ?new = "\<lparr>m_vaddr = v, m_paddr = p, m_len = n, m_perms = pr\<rparr>"
  have scan: "overlap_scan (flatten (mappings s)) v n =
      (if \<forall>m \<in> set (flatten (mappings s)). apart m ?new then Ok () else Err MappingOverlap)"
    using assms by (intro overlap_scan_cases [where q = p and pr = pr]) (auto simp: as_fits_def)
  show thesis
  proof (cases "n = 0 \<or> v mod PAGE_SIZE \<noteq> 0 \<or> p mod PAGE_SIZE \<noteq> 0 \<or> n mod PAGE_SIZE \<noteq> 0")
    case True
    then show thesis by (intro unaligned) (auto simp: as_map_def)
  next
    case al: False
    show thesis
    proof (cases "writable pr \<and> executable pr")
      case True
      then show thesis using al by (intro wx) (auto simp: as_map_def)
    next
      case False
      note eq = as_map_def [of s v p n pr, unfolded if_not_P [OF al] if_not_P [OF False] scan]
      show thesis
      proof (cases "\<forall>m \<in> set (flatten (mappings s)). apart m ?new")
        case True
        then show thesis
          by (cases "first_none (mappings s)") (rule nospace, simp_all add: eq, rule ok, simp add: eq)
      next
        case False
        then obtain m where m: "m \<in> set (flatten (mappings s))" "\<not> apart m ?new" by blast
        show thesis by (rule overlap [OF _ m]) (simp add: eq False)
      qed
    qed
  qed
qed

lemma as_unmap_cases:
  assumes "as_wf M s"
  obtains (missing) "as_unmap s v = (Err NotMapped, s)"
      "\<forall>m \<in> set (flatten (mappings s)). m_vaddr m \<noteq> v"
  | (ok) m s' where "as_unmap s v = (Ok m, s')" "m_vaddr m = v"
      "m \<in> set (flatten (mappings s))" "as_wf M s'" "Suc (map_count s') = map_count s"
      "vmap s' = (\<lambda>w. if covers m w then None else vmap s w)"
      "\<And>x. x \<in> set (flatten (mappings s')) \<Longrightarrow> x \<in> set (flatten (mappings s))"
      "root_phys s' = root_phys s"
proof (cases "find_index (starts_at v) (mappings s)")
  case None
  then have "\<forall>m \<in> set (flatten (mappings s)). m_vaddr m \<noteq> v"
    by (auto simp: find_index_None set_flatten starts_at_def)
  then show thesis using None missing by (simp add: as_unmap_def)
next
  case (Some i)
  then obtain m where i: "i < length (mappings s)" and m: "mappings s ! i = Some m" "m_vaddr m = v"
    using find_index_Some [OF Some] by (auto simp: starts_at_def split: option.splits)
  have live: "m \<in> set (flatten (mappings s))"
    using i m by (auto simp: mem_flatten_iff slot_at_def)
  then have pos: "map_count s \<noteq> 0" using assms by (auto simp: as_wf_def)
  define s' where "s' = s\<lparr>mappings := (mappings s)[i := None], map_count := map_count s - 1\<rparr>"
  have eq: "as_unmap s v = (Ok m, s')"
    using Some m pos by (simp add: as_unmap_def s'_def)
  have sub: "x \<in> set (flatten (mappings s))" if "x \<in> set (flatten (mappings s'))" for x
    using that by (auto simp: s'_def dest: mem_flatten_clear)
  have len: "Suc (length (flatten (mappings s'))) = length (flatten (mappings s))"
    using i m(1) by (simp add: s'_def length_flatten_clear)
  have slot: "slot_at (mappings s') j = (if j = i then None else slot_at (mappings s) j)" for j
    using i by (auto simp: s'_def slot_at_update)
  have wf': "as_wf M s'"
    unfolding as_wf_def
  proof (intro conjI allI impI ballI)
    show "length (mappings s') = M" "map_count s' = length (flatten (mappings s'))"
      using assms len by (simp_all add: s'_def as_wf_def)
    show "mapping_ok x" if "x \<in> set (flatten (mappings s'))" for x
      using sub [OF that] assms by (simp add: as_wf_def)
    show "apart a b" if "slot_at (mappings s') j = Some a" "slot_at (mappings s') k = Some b"
      "j \<noteq> k" for j k a b
      using that assms unfolding slot as_wf_def by (simp split: if_splits)
  qed
  have rest: "x \<in> set (flatten (mappings s')) \<longleftrightarrow> x \<in> set (flatten (mappings s)) \<and> x \<noteq> m" for x
  proof
    assume x: "x \<in> set (flatten (mappings s'))"
    have "x \<noteq> m"
    proof
      assume "x = m"
      then obtain j where j: "slot_at (mappings s) j = Some m" "j \<noteq> i"
        using x by (auto simp: mem_flatten_iff slot split: if_splits)
      moreover have "slot_at (mappings s) i = Some m" using i m by (simp add: slot_at_def)
      ultimately have "apart m m" using assms unfolding as_wf_def by blast
      then have "m_len m = 0" by (auto simp: apart_def unat_eq_zero)
      then show False using live assms by (auto simp: as_wf_def mapping_ok_def)
    qed
    then show "x \<in> set (flatten (mappings s)) \<and> x \<noteq> m" using sub [OF x] by simp
  next
    assume "x \<in> set (flatten (mappings s)) \<and> x \<noteq> m"
    then obtain j where "slot_at (mappings s) j = Some x" "x \<noteq> m" by (auto simp: mem_flatten_iff)
    moreover have "slot_at (mappings s) i = Some m" using m i by (simp add: slot_at_def)
    ultimately have "slot_at (mappings s') j = Some x" unfolding slot by auto
    then show "x \<in> set (flatten (mappings s'))" by (auto simp: mem_flatten_iff)
  qed
  have "vmap s' = (\<lambda>w. if covers m w then None else vmap s w)"
  proof (rule ext, rule option_ext)
    fix w y
    have "x = m" if "x \<in> set (flatten (mappings s))" "covers x w" "covers m w" for x
      using live_unique [OF assms that(1) live that(2,3)] .
    then show "vmap s' w = Some y \<longleftrightarrow> (if covers m w then None else vmap s w) = Some y"
      unfolding vmap_Some_iff [OF wf'] Bex_def rest using vmap_Some_iff [OF assms, of w y]
      by (cases "covers m w") (auto simp: Bex_def)
  qed
  then show thesis
    using ok [OF eq m(2) live wf' _ _ sub] pos by (simp add: s'_def)
qed

lemma as_wf_new: "as_wf M (as_new M root)"
  by (simp add: as_wf_def as_new_def)

lemma as_fits_new: "as_fits (as_new M root)"
  by (simp add: as_fits_def as_new_def)

lemma vmap_new: "vmap (as_new M root) v = None"
  by (simp add: vmap_def as_new_def)

lemma as_wf_set_root [simp]: "as_wf M (set_root_phys s r) = as_wf M s"
  "as_fits (set_root_phys s r) = as_fits s"
  by (simp_all add: as_wf_def as_fits_def set_root_phys_def)

section \<open>Properties\<close>

text \<open>The space of the witnesses: one page of two possible mappings.\<close>

definition user_data :: map_permissions where
  "user_data = \<lparr>readable = True, writable = True, executable = False, device_uncached = False\<rparr>"

definition one_page :: address_space where
  "one_page = snd (as_map (as_new 2 0) 0x400000 0x80000000 0x1000 user_data)"

lemma one_page_map:
  "as_map (as_new 2 0) 0x400000 0x80000000 0x1000 user_data = (Ok (), one_page)"
  by code_simp

lemma one_page_range: "range_fits 0x400000 0x80000000 0x1000"
  by (simp add: range_fits_def)

lemmas one_page_ok = as_map_Ok(1,2) [OF as_wf_new as_fits_new one_page_range one_page_map]

text \<open>C14: An address space implements a partial function from virtual to physical addresses.
  Below the top of the address space, \<open>map\<close> never panics; when it succeeds the request was
  page-aligned, not writable and executable, and apart from every live mapping, the invariant
  holds again and exactly the new range now resolves to \<open>paddr + (v - vaddr)\<close> with the new
  permissions; each error names its cause and changes nothing.\<close>

theorem map_refines:
  assumes "as_wf M s" and "as_fits s" and "range_fits v p n"
  shows "case as_map s v p n pr of
      (Ok _, s') \<Rightarrow> as_wf M s' \<and> as_fits s' \<and>
        mapping_ok \<lparr>m_vaddr = v, m_paddr = p, m_len = n, m_perms = pr\<rparr> \<and>
        vmap s' = (\<lambda>w. if unat v \<le> unat w \<and> unat w < unat v + unat n
                        then Some (p + (w - v), pr) else vmap s w) \<and>
        (\<forall>w. unat v \<le> unat w \<and> unat w < unat v + unat n \<longrightarrow> vmap s w = None)
    | (Err e, s') \<Rightarrow> s' = s \<and>
        (e = Unaligned \<and> (n = 0 \<or> v mod PAGE_SIZE \<noteq> 0 \<or> p mod PAGE_SIZE \<noteq> 0 \<or>
             n mod PAGE_SIZE \<noteq> 0) \<or>
         e = WriteExecute \<and> writable pr \<and> executable pr \<or>
         e = MappingOverlap \<and> (\<exists>w. unat v \<le> unat w \<and> unat w < unat v + unat n \<and>
             vmap s w \<noteq> None) \<or>
         e = AddressSpaceFull \<and> map_count s = M)
    | (Panic, s') \<Rightarrow> False"
proof -
  let ?new = "\<lparr>m_vaddr = v, m_paddr = p, m_len = n, m_perms = pr\<rparr>"
  have vn: "unat v + unat n < 2 ^ 64" using assms(3) by (simp add: range_fits_def)
  have cov: "covers ?new w \<longleftrightarrow> unat v \<le> unat w \<and> unat w < unat v + unat n" for w
    by (simp add: covers_def)
  from assms(2) vn show ?thesis
  proof (cases rule: as_map_cases [where p = p and pr = pr])
    case (ok s')
    note o = as_map_Ok [OF assms ok]
    have "vmap s w = None" if "covers ?new w" for w
      using o(5) that by (fastforce simp: vmap_None_iff apart_def covers_def)
    then show ?thesis using ok o by (simp add: cov)
  next
    case (overlap m)
    have m: "m_len m \<noteq> 0" "range_fits (m_vaddr m) (m_paddr m) (m_len m)"
      using overlap(2) assms(1,2) by (auto simp: as_wf_def mapping_ok_def as_fits_def)
    show ?thesis
    proof (cases "n = 0")
      case True
      then show ?thesis using overlap(1) by (simp add: as_map_def)
    next
      case False
      let ?w = "if v \<le> m_vaddr m then m_vaddr m else v"
      have "unat n \<noteq> 0" "unat (m_len m) \<noteq> 0" using False m(1) by (simp_all add: unat_eq_zero)
      then have "covers m ?w \<and> covers ?new ?w"
        using overlap(3) by (auto simp: covers_def apart_def word_le_nat_alt)
      then have "vmap s ?w \<noteq> None \<and> covers ?new ?w"
        using overlap(2) by (auto simp: vmap_None_iff simp del: not_None_eq)
      then show ?thesis using overlap(1) unfolding cov by auto
    qed
  next
    case nospace
    then have "map_count s = M" using assms(1) length_flatten_full by (auto simp: as_wf_def)
    then show ?thesis using nospace by simp
  qed auto
qed

theorem map_refines_witness:
  "as_wf 2 one_page \<and> as_fits one_page \<and> vmap one_page 0x400010 = Some (0x80000010, user_data) \<and>
   fst (as_map one_page 0x400000 0 0x1000 user_data) = Err MappingOverlap"
proof -
  have e: "fst (as_map one_page 0x400000 0 0x1000 user_data) = Err MappingOverlap"
    by code_simp
  from map_refines [OF as_wf_new as_fits_new one_page_range, of 2 user_data 0]
  have "as_wf 2 one_page \<and> as_fits one_page \<and> vmap one_page 0x400010 =
      Some (0x80000000 + (0x400010 - 0x400000), user_data)"
    by (simp add: one_page_map)
  with e show ?thesis by simp
qed

text \<open>\<open>unmap\<close> is the inverse: it succeeds exactly when a mapping starts at the given
  address, returns that mapping, makes exactly its range unmapped and keeps the invariant;
  otherwise it is \<open>NotMapped\<close> and changes nothing; the counter never underflows.\<close>

theorem unmap_refines:
  assumes "as_wf M s" and "as_fits s"
  shows "case as_unmap s v of
      (Ok m, s') \<Rightarrow> m_vaddr m = v \<and> vmap s v = Some (m_paddr m, m_perms m) \<and>
        as_wf M s' \<and> as_fits s' \<and> as_len s = Suc (as_len s') \<and>
        vmap s' = (\<lambda>w. if unat v \<le> unat w \<and> unat w < unat v + unat (m_len m)
                        then None else vmap s w)
    | (Err e, s') \<Rightarrow> e = NotMapped \<and> s' = s \<and> (\<forall>m \<in> set (flatten (mappings s)). m_vaddr m \<noteq> v)
    | (Panic, s') \<Rightarrow> False"
proof (rule as_unmap_cases [OF assms(1)])
  assume "as_unmap s v = (Err NotMapped, s)" "\<forall>m \<in> set (flatten (mappings s)). m_vaddr m \<noteq> v"
  then show ?thesis by simp
next
  fix m s'
  assume u: "as_unmap s v = (Ok m, s')" "m_vaddr m = v" "m \<in> set (flatten (mappings s))"
    "as_wf M s'" "Suc (map_count s') = map_count s"
    "vmap s' = (\<lambda>w. if covers m w then None else vmap s w)"
    "\<And>x. x \<in> set (flatten (mappings s')) \<Longrightarrow> x \<in> set (flatten (mappings s))"
  have "as_fits s'" using assms(2) u(7) by (auto simp: as_fits_def)
  moreover have "unat (m_len m) \<noteq> 0"
    using u(3) assms(1) by (auto simp: as_wf_def mapping_ok_def unat_eq_zero)
  then have "vmap s v = Some (m_paddr m, m_perms m)"
    using u(2,3) by (auto simp: vmap_Some_iff [OF assms(1)] covers_def intro!: bexI [of _ m])
  ultimately show ?thesis using u by (simp add: as_len_def covers_def)
qed

theorem unmap_refines_witness:
  "vmap (snd (as_unmap one_page 0x400000)) 0x400010 = None \<and>
   fst (as_unmap one_page 0x400010) = Err NotMapped"
proof -
  let ?m = "\<lparr>m_vaddr = 0x400000, m_paddr = 0x80000000, m_len = 0x1000, m_perms = user_data\<rparr>"
  have v: "as_unmap one_page 0x400000 = (Ok ?m, snd (as_unmap one_page 0x400000))"
    and e: "fst (as_unmap one_page 0x400010) = Err NotMapped" by code_simp+
  from unmap_refines [OF one_page_ok, of "0x400000"]
  have "vmap (snd (as_unmap one_page 0x400000)) =
      (\<lambda>w. if unat (0x400000 :: u64) \<le> unat w \<and>
             unat w < unat (0x400000 :: u64) + unat (m_len ?m) then None else vmap one_page w)"
    by (subst (asm) v) simp
  with e show ?thesis by simp
qed

text \<open>\<open>translate\<close> reads that function: below the top of the address space it never
  panics and returns the physical address and permissions of the one mapping that contains the
  address, and nothing for an address in no mapping.\<close>

theorem translate_refines:
  assumes "as_wf M s" and "as_fits s"
  shows "translate s v = Ok (vmap s v) \<and>
    (\<forall>x. vmap s v = Some x \<longleftrightarrow> (\<exists>!m. m \<in> set (flatten (mappings s)) \<and> covers m v \<and>
        x = (m_paddr m + (v - m_vaddr m), m_perms m)))"
proof (intro conjI allI)
  show "translate s v = Ok (vmap s v)" using assms(2) by (rule translate_eq_vmap)
  show "vmap s v = Some x \<longleftrightarrow> (\<exists>!m. m \<in> set (flatten (mappings s)) \<and> covers m v \<and>
        x = (m_paddr m + (v - m_vaddr m), m_perms m))" for x
    unfolding vmap_Some_iff [OF assms(1)] using live_unique [OF assms(1)] by blast
qed

theorem translate_refines_witness:
  "(translate one_page 0x400010 :: (unit, _) res) = Ok (Some (0x80000010, user_data)) \<and>
   (translate one_page 0x400010 :: (unit, _) res) = Ok (vmap one_page 0x400010)"
proof
  show "(translate one_page 0x400010 :: (unit, _) res) = Ok (vmap one_page 0x400010)"
    using translate_refines [OF one_page_ok] by blast
  show "(translate one_page 0x400010 :: (unit, _) res) = Ok (Some (0x80000010, user_data))"
    by code_simp
qed

text \<open>At the very top of the address space the unchecked additions matter. The last page
  is accepted into an empty space; from then on every well-formed \<open>map\<close> into that space, and
  every \<open>translate\<close> of an address in that page, panics.\<close>

theorem last_page_poisons:
  assumes "M > 0" and "p mod PAGE_SIZE = 0" and "\<not> (writable pr \<and> executable pr)"
  shows "\<exists>s'. as_map (as_new M root) 0xFFFFFFFFFFFFF000 p 0x1000 pr = (Ok (), s') \<and>
    (\<forall>v q n pr'. n \<noteq> 0 \<and> v mod PAGE_SIZE = 0 \<and> q mod PAGE_SIZE = 0 \<and> n mod PAGE_SIZE = 0 \<and>
       \<not> (writable pr' \<and> executable pr') \<longrightarrow> fst (as_map s' v q n pr') = Panic) \<and>
    (\<forall>v \<ge> 0xFFFFFFFFFFFFF000. (translate s' v :: (mm_error, _) res) = Panic)"
proof -
  let ?m = "\<lparr>m_vaddr = 0xFFFFFFFFFFFFF000, m_paddr = p, m_len = 0x1000, m_perms = pr\<rparr>"
  obtain k where k: "M = Suc k" using assms(1) gr0_conv_Suc by blast
  have al: "(0xFFFFFFFFFFFFF000 :: u64) mod PAGE_SIZE = 0" "(0x1000 :: u64) mod PAGE_SIZE = 0"
    by code_simp+
  let ?s = "\<lparr>root_phys = root, mappings = Some ?m # replicate k None, map_count = 1\<rparr>"
  have first: "as_map (as_new M root) 0xFFFFFFFFFFFFF000 p 0x1000 pr = (Ok (), ?s)"
    using assms al by (simp add: as_map_def as_new_def k)
  have top: "(add_or_panic (0xFFFFFFFFFFFFF000 :: u64) 0x1000 :: (mm_error, u64) res) = Panic"
    by code_simp
  have maps: "fst (as_map ?s v q n pr') = Panic" if "n \<noteq> 0 \<and> v mod PAGE_SIZE = 0 \<and>
      q mod PAGE_SIZE = 0 \<and> n mod PAGE_SIZE = 0 \<and> \<not> (writable pr' \<and> executable pr')" for v q n pr'
    using that by (simp add: as_map_def overlaps_def mapping_end_def top)
  have walk: "(translate ?s v :: (mm_error, _) res) = Panic" if "v \<ge> 0xFFFFFFFFFFFFF000" for v
    using that by (simp add: translate_def top)
  show ?thesis
  proof (intro exI conjI allI impI)
    show "as_map (as_new M root) 0xFFFFFFFFFFFFF000 p 0x1000 pr = (Ok (), ?s)" by (rule first)
  qed (rule maps walk; assumption)+
qed

theorem last_page_poisons_witness:
  "fst (as_map (snd (as_map (as_new 2 0) 0xFFFFFFFFFFFFF000 0 0x1000 user_data))
     0x400000 0x1000 0x1000 user_data) = Panic"
proof -
  have "\<not> (writable user_data \<and> executable user_data)" "(0 :: u64) mod PAGE_SIZE = 0"
    "(0x400000 :: u64) mod PAGE_SIZE = 0" "(0x1000 :: u64) mod PAGE_SIZE = 0" "(0x1000 :: u64) \<noteq> 0"
    by code_simp+
  moreover from last_page_poisons [of 2 0 user_data 0] calculation(1,2)
  obtain s' where "as_map (as_new 2 0) 0xFFFFFFFFFFFFF000 0 0x1000 user_data = (Ok (), s')"
    "\<forall>v q n pr'. n \<noteq> 0 \<and> v mod PAGE_SIZE = 0 \<and> q mod PAGE_SIZE = 0 \<and> n mod PAGE_SIZE = 0 \<and>
       \<not> (writable pr' \<and> executable pr') \<longrightarrow> fst (as_map s' v q n pr') = Panic"
    by (metis zero_less_numeral)
  ultimately show ?thesis by simp
qed

end
