(* ===== verification/Ipc.thy ===== *)
theory Ipc
  imports Caps
begin

text \<open>
  \<open>kernel/kernel-ipc\<close>: the small message (\<open>message.rs\<close>), the synchronous endpoint with
  its two array queues (\<open>endpoint.rs\<close>), the notification (\<open>notification.rs\<close>), the shared
  region (\<open>shared_region.rs\<close>) and the fast-path predicate (\<open>fastpath.rs\<close>). The array
  queues are refined to lists through the \<open>fifo_queue\<close> interface, the endpoint to a pair of
  waiting lists, of which at most one is non-empty.
\<close>

datatype ipc_error = IpcQueueFull | IpcWouldBlock | MessageTooLong | NoSuchObject

section \<open>Messages\<close>

definition MSG_MAX_WORDS :: nat where "MSG_MAX_WORDS = 6"

record small_message =
  label :: u64
  mwords :: "u64 list"
  mlen :: u8

definition msg_new :: "u64 \<Rightarrow> small_message" where
  "msg_new l = \<lparr>label = l, mwords = replicate MSG_MAX_WORDS 0, mlen = 0\<rparr>"

definition from_words :: "u64 \<Rightarrow> u64 list \<Rightarrow> (ipc_error, small_message) res" where
  "from_words l data =
     (if length data > MSG_MAX_WORDS then Err MessageTooLong
      else Ok \<lparr>label = l, mwords = data @ drop (length data) (replicate MSG_MAX_WORDS 0),
               mlen = of_nat (length data)\<rparr>)"

definition msg_words :: "small_message \<Rightarrow> ('e, u64 list) res" where
  "msg_words m = (if unat (mlen m) \<le> length (mwords m) then Ok (take (unat (mlen m)) (mwords m))
     else Panic)"

definition msg_len :: "small_message \<Rightarrow> nat" where "msg_len m = unat (mlen m)"

definition msg_push :: "small_message \<Rightarrow> u64 \<Rightarrow> (ipc_error, unit) res \<times> small_message" where
  "msg_push m w = (let i = unat (mlen m) in
     if i \<ge> MSG_MAX_WORDS then (Err MessageTooLong, m)
     else if i \<ge> length (mwords m) then (Panic, m)
     else try_in m (add_or_panic (mlen m) 1) (\<lambda>l.
       (Ok (), m\<lparr>mwords := (mwords m)[i := w], mlen := l\<rparr>)))"

definition msg_word :: "small_message \<Rightarrow> nat \<Rightarrow> ('e, u64 option) res" where
  "msg_word m i = (if i < unat (mlen m)
     then (if i < length (mwords m) then Ok (Some (mwords m ! i)) else Panic)
     else Ok None)"

section \<open>Endpoints\<close>

datatype endpoint_error = QueueFull

datatype send_outcome = DeliveredTo thread_id | SenderQueued | SendWouldBlock

datatype recv_outcome = Received thread_id small_message | ReceiverQueued | RecvWouldBlock

record waiter =
  w_thread :: thread_id
  w_msg :: small_message

type_synonym wait_queue = "waiter option list \<times> nat"

record endpoint =
  senders :: "waiter option list"
  senders_len :: nat
  receivers :: "waiter option list"
  receivers_len :: nat
  pending_delivery :: "(thread_id \<times> small_message) option"

definition ep_new :: "nat \<Rightarrow> endpoint" where
  "ep_new Q = \<lparr>senders = replicate Q None, senders_len = 0,
     receivers = replicate Q None, receivers_len = 0, pending_delivery = None\<rparr>"

definition is_idle :: "endpoint \<Rightarrow> bool" where
  "is_idle e \<longleftrightarrow> senders_len e = 0 \<and> receivers_len e = 0 \<and> pending_delivery e = None"

definition blocked_receiver :: "endpoint \<Rightarrow> (endpoint_error, thread_id option) res" where
  "blocked_receiver e = (if receivers_len e > 0
     then (case nth_opt (receivers e) 0 of
         None \<Rightarrow> Panic
       | Some w \<Rightarrow> Ok (map_option w_thread w))
     else Ok None)"

definition blocked_sender_count :: "endpoint \<Rightarrow> nat" where
  "blocked_sender_count e = senders_len e"

definition q_push :: "waiter \<Rightarrow> wait_queue \<Rightarrow> (endpoint_error, unit) res \<times> wait_queue" where
  "q_push w q = (if snd q \<ge> length (fst q) then (Err QueueFull, q)
     else (Ok (), ((fst q)[snd q := Some w], snd q + 1)))"

text \<open>\<open>for i in 1..*len { queue[i - 1] = queue[i].take(); }\<close>\<close>

fun shift_loop :: "nat list \<Rightarrow> waiter option list \<Rightarrow> ('e, waiter option list) res" where
  "shift_loop [] qs = Ok qs"
| "shift_loop (i # is) qs = (if i < length qs
     then shift_loop is (qs[i - 1 := qs ! i, i := None]) else Panic)"

definition q_pop_front :: "wait_queue \<Rightarrow> (endpoint_error, waiter option) res \<times> wait_queue" where
  "q_pop_front q = (if snd q = 0 then (Ok None, q)
     else case nth_opt (fst q) 0 of
         None \<Rightarrow> (Panic, q)
       | Some front \<Rightarrow> (case shift_loop [1 ..< snd q] ((fst q)[0 := None]) of
             Ok qs \<Rightarrow> (Ok front, (qs, snd q - 1))
           | Err e \<Rightarrow> (Err e, q)
           | Panic \<Rightarrow> (Panic, q)))"

definition set_senders :: "endpoint \<Rightarrow> wait_queue \<Rightarrow> endpoint" where
  "set_senders e q = e\<lparr>senders := fst q, senders_len := snd q\<rparr>"

definition set_receivers :: "endpoint \<Rightarrow> wait_queue \<Rightarrow> endpoint" where
  "set_receivers e q = e\<lparr>receivers := fst q, receivers_len := snd q\<rparr>"

definition try_send ::
  "endpoint \<Rightarrow> thread_id \<Rightarrow> small_message \<Rightarrow> bool \<Rightarrow>
     (endpoint_error, send_outcome) res \<times> endpoint" where
  "try_send e sender msg blocking =
     (let (r, q) = q_pop_front (receivers e, receivers_len e) in
      then_do (r, set_receivers e q) (\<lambda>popped e.
        case popped of
          Some recv \<Rightarrow> (Ok (DeliveredTo (w_thread recv)),
              e\<lparr>pending_delivery := Some (w_thread recv, msg)\<rparr>)
        | None \<Rightarrow>
            if \<not> blocking then (Ok SendWouldBlock, e)
            else let (r, q) = q_push \<lparr>w_thread = sender, w_msg = msg\<rparr> (senders e, senders_len e) in
              then_do (r, set_senders e q) (\<lambda>_ e. (Ok SenderQueued, e))))"

definition try_recv ::
  "endpoint \<Rightarrow> thread_id \<Rightarrow> bool \<Rightarrow> (endpoint_error, recv_outcome) res \<times> endpoint" where
  "try_recv e receiver blocking =
     (let (r, q) = q_pop_front (senders e, senders_len e) in
      then_do (r, set_senders e q) (\<lambda>popped e.
        case popped of
          Some send \<Rightarrow> (Ok (Received (w_thread send) (w_msg send)), e)
        | None \<Rightarrow>
            if \<not> blocking then (Ok RecvWouldBlock, e)
            else let (r, q) = q_push \<lparr>w_thread = receiver, w_msg = msg_new 0\<rparr>
                (receivers e, receivers_len e) in
              then_do (r, set_receivers e q) (\<lambda>_ e. (Ok ReceiverQueued, e))))"

definition take_delivered :: "endpoint \<Rightarrow> (thread_id \<times> small_message) option \<times> endpoint" where
  "take_delivered e = (pending_delivery e, e\<lparr>pending_delivery := None\<rparr>)"

section \<open>The fast path\<close>

datatype fast_path_reject = NoBlockedReceiver | MessageTooLarge | UnsupportedMode

datatype fast_path_decision = Take thread_id | Fallback fast_path_reject

definition fast_path_eligible ::
  "endpoint \<Rightarrow> small_message \<Rightarrow> bool \<Rightarrow> (endpoint_error, fast_path_decision) res" where
  "fast_path_eligible e msg blocking =
     (if \<not> blocking then Ok (Fallback UnsupportedMode)
      else if msg_len msg > MSG_MAX_WORDS then Ok (Fallback MessageTooLarge)
      else bind_res (blocked_receiver e) (\<lambda>r. case r of
          Some receiver \<Rightarrow> Ok (Take receiver)
        | None \<Rightarrow> Ok (Fallback NoBlockedReceiver)))"

section \<open>Notifications\<close>

datatype notification_error = NotifQueueFull

record notification =
  signal_word :: u64
  waiters :: "thread_id list"
  waiters_len :: nat

record woken =
  woken_threads :: "thread_id list"
  woken_len :: nat

definition nt_new :: "nat \<Rightarrow> notification" where
  "nt_new W = \<lparr>signal_word = 0, waiters = replicate W 0, waiters_len = 0\<rparr>"

definition woken_slice :: "woken \<Rightarrow> thread_id list" where
  "woken_slice w = take (woken_len w) (woken_threads w)"

text \<open>The slice copy panics if the count exceeds the array.\<close>

definition nt_signal ::
  "notification \<Rightarrow> u64 \<Rightarrow> (notification_error, woken) res \<times> notification" where
  "nt_signal n bits =
     (let n = n\<lparr>signal_word := signal_word n OR bits\<rparr> in
      if waiters_len n > length (waiters n) then (Panic, n)
      else (Ok \<lparr>woken_threads = take (waiters_len n) (waiters n) @
                  replicate (length (waiters n) - waiters_len n) 0,
                woken_len = waiters_len n\<rparr>,
            n\<lparr>waiters_len := 0\<rparr>))"

definition nt_poll :: "notification \<Rightarrow> u64 \<times> notification" where
  "nt_poll n = (signal_word n, n\<lparr>signal_word := 0\<rparr>)"

definition nt_pending :: "notification \<Rightarrow> u64" where "nt_pending n = signal_word n"

definition nt_wait ::
  "notification \<Rightarrow> thread_id \<Rightarrow> (notification_error, unit) res \<times> notification" where
  "nt_wait n t = (if waiters_len n \<ge> length (waiters n) then (Err NotifQueueFull, n)
     else (Ok (), n\<lparr>waiters := (waiters n)[waiters_len n := t],
                   waiters_len := waiters_len n + 1\<rparr>))"

section \<open>Shared regions\<close>

record shared_region =
  sr_phys :: u64
  sr_size :: u64
  sr_max_rights :: rights

definition sr_new :: "u64 \<Rightarrow> u64 \<Rightarrow> rights \<Rightarrow> shared_region" where
  "sr_new p n r = \<lparr>sr_phys = p, sr_size = n, sr_max_rights = r\<rparr>"

definition sr_contains :: "shared_region \<Rightarrow> u64 \<Rightarrow> u64 \<Rightarrow> bool" where
  "sr_contains r off len = (case checked_add off len of
      Some e \<Rightarrow> e \<le> sr_size r | None \<Rightarrow> False)"

definition sr_phys_at :: "shared_region \<Rightarrow> u64 \<Rightarrow> ('e, u64 option) res" where
  "sr_phys_at r off = (if off < sr_size r
     then bind_res (add_or_panic (sr_phys r) off) (\<lambda>p. Ok (Some p)) else Ok None)"

section \<open>A contract for bounded first-in first-out queues\<close>

datatype 'a queue_op = Push 'a | Pop

text \<open>A client makes a sequence of pushes and pops; \<open>queue_run\<close> returns the elements that
  were accepted, the elements that came out, and the queue.\<close>

fun queue_run ::
  "('a \<Rightarrow> 'q \<Rightarrow> ('e, unit) res \<times> 'q) \<Rightarrow> ('q \<Rightarrow> ('e, 'a option) res \<times> 'q) \<Rightarrow>
     'a queue_op list \<Rightarrow> 'q \<Rightarrow> 'a list \<times> 'a list \<times> 'q" where
  "queue_run push pop [] q = ([], [], q)"
| "queue_run push pop (Push x # ops) q = (let (r, q) = push x q;
      (acc, out, q) = queue_run push pop ops q
    in (if r = Ok () then x # acc else acc, out, q))"
| "queue_run push pop (Pop # ops) q = (let (r, q) = pop q;
      (acc, out, q) = queue_run push pop ops q
    in (acc, case r of Ok (Some x) \<Rightarrow> x # out | _ \<Rightarrow> out, q))"

locale fifo_queue =
  fixes inv :: "'q \<Rightarrow> bool"
    and items :: "'q \<Rightarrow> 'a list"
    and bound :: nat
    and push :: "'a \<Rightarrow> 'q \<Rightarrow> ('e, unit) res \<times> 'q"
    and pop :: "'q \<Rightarrow> ('e, 'a option) res \<times> 'q"
    and full_error :: 'e
  assumes bounded: "inv q \<Longrightarrow> length (items q) \<le> bound"
    and push_room: "inv q \<Longrightarrow> length (items q) < bound \<Longrightarrow>
      \<exists>q'. push x q = (Ok (), q') \<and> inv q' \<and> items q' = items q @ [x]"
    and push_full: "inv q \<Longrightarrow> length (items q) = bound \<Longrightarrow> push x q = (Err full_error, q)"
    and pop_empty: "inv q \<Longrightarrow> items q = [] \<Longrightarrow> pop q = (Ok None, q)"
    and pop_cons: "inv q \<Longrightarrow> items q = x # xs \<Longrightarrow>
      \<exists>q'. pop q = (Ok (Some x), q') \<and> inv q' \<and> items q' = xs"
begin

lemma push_cases:
  assumes "inv q"
  obtains (refused) "push x q = (Err full_error, q)" "length (items q) = bound"
  | (pushed) q' where "push x q = (Ok (), q')" "inv q'" "items q' = items q @ [x]"
      "length (items q) < bound"
  using push_room [OF assms] push_full [OF assms] bounded [OF assms] that
  by (metis le_neq_implies_less)

lemma pop_cases:
  assumes "inv q"
  obtains (empty) "pop q = (Ok None, q)" "items q = []"
  | (popped) x q' where "pop q = (Ok (Some x), q')" "inv q'" "items q = x # items q'"
  using pop_empty [OF assms] pop_cons [OF assms] that by (metis list.exhaust)

text \<open>Nothing is lost, duplicated or reordered over any sequence of operations.\<close>

lemma run_fifo:
  assumes "inv q" and "queue_run push pop ops q = (acc, out, q')"
  shows "inv q' \<and> items q @ acc = out @ items q'"
  using assms
proof (induction ops arbitrary: q acc out)
  case Nil
  then show ?case by simp
next
  case (Cons op ops)
  show ?case
  proof (cases op)
    case (Push x)
    from Cons.prems(1) show ?thesis
      by (cases rule: push_cases [where x = x])
        (use Cons Push in \<open>fastforce simp: Let_def split: prod.splits\<close>)+
  next
    case Pop
    from Cons.prems(1) show ?thesis
      by (cases rule: pop_cases)
        (use Cons Pop in \<open>fastforce simp: Let_def split: prod.splits\<close>)+
  qed
qed

end

section \<open>The array queues of an endpoint meet the contract\<close>

definition q_ok :: "nat \<Rightarrow> wait_queue \<Rightarrow> bool" where
  "q_ok Q q \<longleftrightarrow> length (fst q) = Q \<and> snd q \<le> Q \<and>
     (\<forall>i < Q. fst q ! i \<noteq> None \<longleftrightarrow> i < snd q)"

definition q_items :: "wait_queue \<Rightarrow> waiter list" where
  "q_items q = map the (take (snd q) (fst q))"

lemma q_items_length: "q_ok Q q \<Longrightarrow> length (q_items q) = snd q"
  by (simp add: q_ok_def q_items_def)

lemma shift_loop_spec:
  assumes "1 \<le> k" and "k \<le> n" and "n \<le> length qs" and "qs ! (k - 1) = None"
  shows "\<exists>rs. shift_loop [k ..< n] qs = (Ok rs :: ('e, _) res) \<and> length rs = length qs \<and>
    (\<forall>j < length qs. rs ! j = (if j < k - 1 then qs ! j else if j < n - 1 then qs ! Suc j
        else if j = n - 1 then None else qs ! j))"
  using assms
proof (induction "n - k" arbitrary: k qs)
  case 0
  then have "k = n" by simp
  with 0 show ?case by auto
next
  case (Suc d)
  then have k: "k < n" "k < length qs" by linarith+
  let ?qs = "qs[k - 1 := qs ! k, k := None]"
  have "\<exists>rs. shift_loop [Suc k ..< n] ?qs = (Ok rs :: ('e, _) res) \<and> length rs = length ?qs \<and>
    (\<forall>j < length ?qs. rs ! j = (if j < Suc k - 1 then ?qs ! j else if j < n - 1 then ?qs ! Suc j
        else if j = n - 1 then None else ?qs ! j))"
    by (rule Suc(1)) (use Suc(2-) k in auto)
  then obtain rs where rs: "shift_loop [Suc k ..< n] ?qs = (Ok rs :: ('e, _) res)" "length rs = length qs"
    "\<And>j. j < length qs \<Longrightarrow> rs ! j = (if j < k then ?qs ! j else if j < n - 1 then ?qs ! Suc j
        else if j = n - 1 then None else ?qs ! j)" by auto
  have "shift_loop [k ..< n] qs = (Ok rs :: ('e, _) res)" using k rs(1) by (simp add: upt_conv_Cons)
  moreover have "rs ! j = (if j < k - 1 then qs ! j else if j < n - 1 then qs ! Suc j
        else if j = n - 1 then None else qs ! j)" if "j < length qs" for j
    using rs(3) [OF that] k Suc(3) that by (auto simp: nth_list_update)
  ultimately show ?case using rs(2) by blast
qed

lemma q_pop_front_spec:
  assumes ok: "q_ok Q q" and items: "q_items q = x # xs"
  shows "\<exists>q'. q_pop_front q = (Ok (Some x), q') \<and> q_ok Q q' \<and> q_items q' = xs"
proof -
  obtain arr n where q: "q = (arr, n)" by (cases q)
  have len: "length arr = Q" "n \<le> Q" and occ: "\<And>i. i < Q \<Longrightarrow> arr ! i \<noteq> None \<longleftrightarrow> i < n"
    using ok by (auto simp: q_ok_def q)
  have n: "0 < n" "n = Suc (length xs)"
    using q_items_length [OF ok] items by (simp_all add: q)
  have nth: "arr ! i = Some ((x # xs) ! i)" if "i < n" for i
  proof -
    have "(x # xs) ! i = the (arr ! i)" using that len items [symmetric] by (simp add: q_items_def q)
    moreover have "arr ! i \<noteq> None" using occ [of i] that len by simp
    ultimately show ?thesis by auto
  qed
  obtain rs where rs: "shift_loop [1 ..< n] (arr[0 := None]) = (Ok rs :: (endpoint_error, _) res)" "length rs = Q"
    "\<And>j. j < Q \<Longrightarrow> rs ! j = (if j < n - 1 then arr ! Suc j else if j = n - 1 then None else arr ! j)"
  proof -
    have "\<exists>rs. shift_loop [1 ..< n] (arr[0 := None]) = (Ok rs :: (endpoint_error, _) res) \<and>
      length rs = length (arr[0 := None]) \<and>
      (\<forall>j < length (arr[0 := None]). rs ! j = (if j < 1 - 1 then (arr[0 := None]) ! j
        else if j < n - 1 then (arr[0 := None]) ! Suc j
        else if j = n - 1 then None else (arr[0 := None]) ! j))"
      by (rule shift_loop_spec) (use len n in auto)
    then obtain rs where r: "shift_loop [1 ..< n] (arr[0 := None]) = (Ok rs :: (endpoint_error, _) res)"
      "length rs = length arr"
      "\<forall>j < length arr. rs ! j = (if j < 1 - 1 then (arr[0 := None]) ! j
        else if j < n - 1 then (arr[0 := None]) ! Suc j
        else if j = n - 1 then None else (arr[0 := None]) ! j)" by auto
    show thesis by (rule that [OF r(1)]) (use r(2,3) len n in \<open>auto simp: nth_list_update\<close>)
  qed
  have pop: "q_pop_front q = (Ok (Some x), (rs, n - 1))"
    using n(1) len nth [of 0] rs(1) by (simp add: q_pop_front_def q nth_opt_def)
  have "q_ok Q (rs, n - 1)"
    unfolding q_ok_def fst_conv snd_conv
  proof (intro conjI allI impI)
    show "length rs = Q" "n - 1 \<le> Q" using rs(2) len by simp_all
    fix i assume i: "i < Q"
    have "Suc i < Q" if "i < n - 1" using that len by simp
    then show "rs ! i \<noteq> None \<longleftrightarrow> i < n - 1"
      using rs(3) [OF i] occ [of "Suc i"] occ [OF i] by (cases "i < n - 1") auto
  qed
  moreover have "q_items (rs, n - 1) = xs"
  proof (rule nth_equalityI)
    show "length (q_items (rs, n - 1)) = length xs" using rs(2) len n by (simp add: q_items_def)
    fix i assume i: "i < length (q_items (rs, n - 1))"
    then have "i < n - 1" "i < Q" using rs(2) len by (auto simp: q_items_def)
    then show "q_items (rs, n - 1) ! i = xs ! i"
      using rs(2) rs(3) [of i] nth [of "Suc i"] by (simp add: q_items_def)
  qed
  ultimately show ?thesis using pop by blast
qed

lemma q_push_spec:
  assumes ok: "q_ok Q q" and room: "length (q_items q) < Q"
  shows "\<exists>q'. q_push x q = (Ok (), q') \<and> q_ok Q q' \<and> q_items q' = q_items q @ [x]"
proof -
  have "snd q < Q" "length (fst q) = Q"
    using room q_items_length [OF ok] ok by (simp_all add: q_ok_def)
  then show ?thesis using ok
    by (auto simp: q_push_def q_ok_def q_items_def nth_list_update take_Suc_conv_app_nth)
qed

interpretation wq: fifo_queue "q_ok Q" q_items Q q_push q_pop_front QueueFull for Q
proof unfold_locales
  fix q :: wait_queue
  assume ok: "q_ok Q q"
  note len = q_items_length [OF ok]
  show "length (q_items q) \<le> Q" using ok len by (simp add: q_ok_def)
  show "\<exists>q'. q_push x q = (Ok (), q') \<and> q_ok Q q' \<and> q_items q' = q_items q @ [x]"
    if "length (q_items q) < Q" for x
    using q_push_spec [OF ok that] .
  show "q_push x q = (Err QueueFull, q)" if "length (q_items q) = Q" for x
    using that len ok by (simp add: q_push_def q_ok_def)
  show "q_pop_front q = (Ok None, q)" if "q_items q = []"
    using that len by (simp add: q_pop_front_def)
  show "\<exists>q'. q_pop_front q = (Ok (Some x), q') \<and> q_ok Q q' \<and> q_items q' = xs"
    if "q_items q = x # xs" for x xs
    using q_pop_front_spec [OF ok that] .
qed

lemma q_ok_new: "q_ok Q (replicate Q None, 0)" "q_items (replicate Q None, 0) = []"
  by (simp_all add: q_ok_def q_items_def)

section \<open>The endpoint as a pair of waiting lists\<close>

definition ep_senders :: "endpoint \<Rightarrow> wait_queue" where
  "ep_senders e = (senders e, senders_len e)"

definition ep_receivers :: "endpoint \<Rightarrow> wait_queue" where
  "ep_receivers e = (receivers e, receivers_len e)"

definition ep_wf :: "nat \<Rightarrow> endpoint \<Rightarrow> bool" where
  "ep_wf Q e \<longleftrightarrow> q_ok Q (ep_senders e) \<and> q_ok Q (ep_receivers e) \<and>
     (senders_len e = 0 \<or> receivers_len e = 0)"

text \<open>The abstract state: the waiting senders with their messages, the waiting receivers, the
  pending delivery.\<close>

record rendezvous =
  waiting_senders :: "(thread_id \<times> small_message) list"
  waiting_receivers :: "thread_id list"
  delivery :: "(thread_id \<times> small_message) option"

definition sender_of :: "waiter \<Rightarrow> thread_id \<times> small_message" where
  "sender_of w = (w_thread w, w_msg w)"

definition ep_abs :: "endpoint \<Rightarrow> rendezvous" where
  "ep_abs e = \<lparr>waiting_senders = map sender_of (q_items (ep_senders e)),
     waiting_receivers = map w_thread (q_items (ep_receivers e)),
     delivery = pending_delivery e\<rparr>"

datatype ep_op = Send thread_id small_message bool | Recv thread_id bool | Deliver

datatype ep_reply = Sent send_outcome | Got recv_outcome | Delivered "(thread_id \<times> small_message) option"
  | Refused endpoint_error | Crashed

definition ep_step :: "ep_op \<Rightarrow> endpoint \<Rightarrow> ep_reply \<times> endpoint" where
  "ep_step op e = (case op of
      Send t m b \<Rightarrow> (case try_send e t m b of
          (Ok x, e) \<Rightarrow> (Sent x, e) | (Err x, e) \<Rightarrow> (Refused x, e) | (Panic, e) \<Rightarrow> (Crashed, e))
    | Recv t b \<Rightarrow> (case try_recv e t b of
          (Ok x, e) \<Rightarrow> (Got x, e) | (Err x, e) \<Rightarrow> (Refused x, e) | (Panic, e) \<Rightarrow> (Crashed, e))
    | Deliver \<Rightarrow> (let (x, e) = take_delivered e in (Delivered x, e)))"

text \<open>The rendezvous as the documentation describes it, on lists.\<close>

fun rv_step :: "nat \<Rightarrow> ep_op \<Rightarrow> rendezvous \<Rightarrow> ep_reply \<times> rendezvous" where
  "rv_step Q (Send t m b) a = (case waiting_receivers a of
      r # rs \<Rightarrow> (Sent (DeliveredTo r), a\<lparr>waiting_receivers := rs, delivery := Some (r, m)\<rparr>)
    | [] \<Rightarrow> if \<not> b then (Sent SendWouldBlock, a)
        else if length (waiting_senders a) < Q
        then (Sent SenderQueued, a\<lparr>waiting_senders := waiting_senders a @ [(t, m)]\<rparr>)
        else (Refused QueueFull, a))"
| "rv_step Q (Recv t b) a = (case waiting_senders a of
      (u, m) # ws \<Rightarrow> (Got (Received u m), a\<lparr>waiting_senders := ws\<rparr>)
    | [] \<Rightarrow> if \<not> b then (Got RecvWouldBlock, a)
        else if length (waiting_receivers a) < Q
        then (Got ReceiverQueued, a\<lparr>waiting_receivers := waiting_receivers a @ [t]\<rparr>)
        else (Refused QueueFull, a))"
| "rv_step Q Deliver a = (Delivered (delivery a), a\<lparr>delivery := None\<rparr>)"

lemma ep_views [simp]:
  "ep_senders (set_senders e q) = q" "ep_receivers (set_senders e q) = ep_receivers e"
  "ep_receivers (set_receivers e q) = q" "ep_senders (set_receivers e q) = ep_senders e"
  "ep_senders (e\<lparr>pending_delivery := d\<rparr>) = ep_senders e"
  "ep_receivers (e\<lparr>pending_delivery := d\<rparr>) = ep_receivers e"
  "pending_delivery (set_senders e q) = pending_delivery e"
  "pending_delivery (set_receivers e q) = pending_delivery e"
  by (simp_all add: ep_senders_def ep_receivers_def set_senders_def set_receivers_def)

lemma set_same [simp]:
  "set_senders e (ep_senders e) = e" "set_receivers e (ep_receivers e) = e"
  by (simp_all add: ep_senders_def ep_receivers_def set_senders_def set_receivers_def)

lemma ep_wf_alt:
  "ep_wf Q e \<longleftrightarrow> q_ok Q (ep_senders e) \<and> q_ok Q (ep_receivers e) \<and>
     (q_items (ep_senders e) = [] \<or> q_items (ep_receivers e) = [])"
proof -
  have "senders_len e = length (q_items (ep_senders e))" if "q_ok Q (ep_senders e)"
    using q_items_length [OF that] by (simp add: ep_senders_def)
  moreover have "receivers_len e = length (q_items (ep_receivers e))" if "q_ok Q (ep_receivers e)"
    using q_items_length [OF that] by (simp add: ep_receivers_def)
  ultimately show ?thesis by (auto simp: ep_wf_def)
qed

lemma try_send_refines:
  assumes wf: "ep_wf Q e"
  shows "ep_wf Q (snd (ep_step (Send t m b) e)) \<and>
    rv_step Q (Send t m b) (ep_abs e) =
      (fst (ep_step (Send t m b) e), ep_abs (snd (ep_step (Send t m b) e)))"
proof -
  have ok: "q_ok Q (ep_senders e)" "q_ok Q (ep_receivers e)" using wf by (simp_all add: ep_wf_alt)
  from ok(2) show ?thesis
  proof (cases rule: wq.pop_cases)
    case pop: empty
    show ?thesis
    proof (cases b)
      case False
      then show ?thesis using pop wf
        by (simp add: ep_step_def try_send_def ep_receivers_def [symmetric] Let_def ep_abs_def)
    next
      case True
      from ok(1) show ?thesis
      proof (cases rule: wq.push_cases [where x = "\<lparr>w_thread = t, w_msg = m\<rparr>"])
        case refused
        then show ?thesis using pop wf True
          by (simp add: ep_step_def try_send_def ep_receivers_def [symmetric]
              ep_senders_def [symmetric] Let_def ep_abs_def)
      next
        case (pushed q')
        then show ?thesis using pop wf True
          by (simp add: ep_step_def try_send_def ep_receivers_def [symmetric]
              ep_senders_def [symmetric] Let_def ep_abs_def ep_wf_alt sender_of_def)
      qed
    qed
  next
    case (popped x q')
    then show ?thesis using wf
      by (simp add: ep_step_def try_send_def ep_receivers_def [symmetric] Let_def ep_abs_def
          ep_wf_alt)
  qed
qed

lemma try_recv_refines:
  assumes wf: "ep_wf Q e"
  shows "ep_wf Q (snd (ep_step (Recv t b) e)) \<and>
    rv_step Q (Recv t b) (ep_abs e) =
      (fst (ep_step (Recv t b) e), ep_abs (snd (ep_step (Recv t b) e)))"
proof -
  have ok: "q_ok Q (ep_senders e)" "q_ok Q (ep_receivers e)" using wf by (simp_all add: ep_wf_alt)
  from ok(1) show ?thesis
  proof (cases rule: wq.pop_cases)
    case pop: empty
    show ?thesis
    proof (cases b)
      case False
      then show ?thesis using pop wf
        by (simp add: ep_step_def try_recv_def ep_senders_def [symmetric] Let_def ep_abs_def)
    next
      case True
      from ok(2) show ?thesis
      proof (cases rule: wq.push_cases [where x = "\<lparr>w_thread = t, w_msg = msg_new 0\<rparr>"])
        case refused
        then show ?thesis using pop wf True
          by (simp add: ep_step_def try_recv_def ep_receivers_def [symmetric]
              ep_senders_def [symmetric] Let_def ep_abs_def)
      next
        case (pushed q')
        then show ?thesis using pop wf True
          by (simp add: ep_step_def try_recv_def ep_receivers_def [symmetric]
              ep_senders_def [symmetric] Let_def ep_abs_def ep_wf_alt)
      qed
    qed
  next
    case (popped x q')
    then show ?thesis using wf
      by (simp add: ep_step_def try_recv_def ep_senders_def [symmetric] Let_def ep_abs_def
          ep_wf_alt sender_of_def)
  qed
qed

lemma ep_step_refines:
  assumes wf: "ep_wf Q e"
  shows "ep_wf Q (snd (ep_step op e)) \<and>
    rv_step Q op (ep_abs e) = (fst (ep_step op e), ep_abs (snd (ep_step op e)))"
proof (cases op)
  case Deliver
  then show ?thesis using wf
    by (simp add: ep_step_def take_delivered_def ep_abs_def ep_wf_alt)
qed (use try_send_refines [OF wf] try_recv_refines [OF wf] in simp_all)

lemma ep_wf_new: "ep_wf Q (ep_new Q)"
  by (simp add: ep_wf_alt ep_senders_def ep_receivers_def ep_new_def q_ok_new)

section \<open>Notifications as a word and a waiting list\<close>

definition nt_wf :: "nat \<Rightarrow> notification \<Rightarrow> bool" where
  "nt_wf W n \<longleftrightarrow> length (waiters n) = W \<and> waiters_len n \<le> W"

definition nt_waiting :: "notification \<Rightarrow> thread_id list" where
  "nt_waiting n = take (waiters_len n) (waiters n)"

lemma nt_wf_new: "nt_wf W (nt_new W)"
  by (simp add: nt_wf_def nt_new_def)

lemma nt_signal_wf:
  assumes "nt_wf W n"
  obtains w n' where "nt_signal n bits = (Ok w, n')" and "nt_wf W n'"
    and "woken_slice w = nt_waiting n" and "nt_waiting n' = []"
    and "signal_word n' = signal_word n OR bits" and "woken_len w = length (nt_waiting n)"
  using assms that
  by (auto simp: nt_signal_def nt_wf_def nt_waiting_def woken_slice_def Let_def)

lemma nt_poll_wf:
  "nt_wf W n \<Longrightarrow> nt_wf W (snd (nt_poll n)) \<and> nt_waiting (snd (nt_poll n)) = nt_waiting n \<and>
     signal_word (snd (nt_poll n)) = 0"
  by (simp add: nt_wf_def nt_waiting_def nt_poll_def)

lemma nt_wait_cases:
  assumes "nt_wf W n"
  obtains (full) "nt_wait n t = (Err NotifQueueFull, n)" "length (nt_waiting n) = W"
  | (ok) n' where "nt_wait n t = (Ok (), n')" "nt_wf W n'"
      "nt_waiting n' = nt_waiting n @ [t]" "signal_word n' = signal_word n"
proof (cases "waiters_len n < W")
  case True
  then show thesis using assms
    by (intro ok [of "snd (nt_wait n t)"])
      (auto simp: nt_wait_def nt_wf_def nt_waiting_def take_Suc_conv_app_nth)
next
  case False
  then show thesis using assms by (intro full) (auto simp: nt_wait_def nt_wf_def nt_waiting_def)
qed

datatype nt_op = Signal u64 | Wait thread_id | Poll

text \<open>What a sequence of operations did: the OR of the bits signalled, the OR of the words
  polled, the threads whose wait was accepted, the threads woken.\<close>

record nt_trace =
  signalled :: u64
  polled :: u64
  waited :: "thread_id list"
  woke :: "thread_id list"

fun nt_run :: "nt_op list \<Rightarrow> notification \<Rightarrow> nt_trace \<times> notification" where
  "nt_run [] n = (\<lparr>signalled = 0, polled = 0, waited = [], woke = []\<rparr>, n)"
| "nt_run (Signal b # ops) n = (let (r, n) = nt_signal n b; (tr, n) = nt_run ops n
     in (tr\<lparr>signalled := b OR signalled tr,
            woke := (case r of Ok w \<Rightarrow> woken_slice w | _ \<Rightarrow> []) @ woke tr\<rparr>, n))"
| "nt_run (Wait t # ops) n = (let (r, n) = nt_wait n t; (tr, n) = nt_run ops n
     in (if r = Ok () then tr\<lparr>waited := t # waited tr\<rparr> else tr, n))"
| "nt_run (Poll # ops) n = (let (b, n) = nt_poll n; (tr, n) = nt_run ops n
     in (tr\<lparr>polled := b OR polled tr\<rparr>, n))"

lemma nt_run_law:
  assumes "nt_wf W n" and "nt_run ops n = (tr, n')"
  shows "nt_wf W n' \<and> nt_waiting n @ waited tr = woke tr @ nt_waiting n' \<and>
    signal_word n OR signalled tr = polled tr OR signal_word n'"
  using assms
proof (induction ops n arbitrary: tr rule: nt_run.induct)
  case (1 n)
  then show ?case by auto
next
  case (2 b ops n)
  from 2(2) obtain w n1 where s:
      "nt_signal n b = (Ok w, n1)" "nt_wf W n1"
      "woken_slice w = nt_waiting n" "nt_waiting n1 = []" "signal_word n1 = signal_word n OR b"
    by (rule nt_signal_wf [where bits = b])
  obtain tr1 where r: "nt_run ops n1 = (tr1, n')"
      "tr = tr1\<lparr>signalled := b OR signalled tr1, woke := woken_slice w @ woke tr1\<rparr>"
    using 2(3) s(1) by (auto simp: Let_def split: prod.splits)
  from 2(1) [OF s(1) [symmetric] refl s(2) r(1)] s r(2) show ?case
    by (simp add: or.assoc)
next
  case (3 t ops n)
  from 3(2) show ?case
  proof (cases rule: nt_wait_cases [where t = t])
    case full
    then show ?thesis using 3 by (auto simp: Let_def split: prod.splits)
  next
    case (ok n1)
    obtain tr1 where r: "nt_run ops n1 = (tr1, n')" "tr = tr1\<lparr>waited := t # waited tr1\<rparr>"
      using 3(3) ok(1) by (auto simp: Let_def split: prod.splits)
    from 3(1) [OF ok(1) [symmetric] refl ok(2) r(1)] ok r(2) show ?thesis by simp
  qed
next
  case (4 ops n)
  obtain tr1 where r: "nt_run ops (snd (nt_poll n)) = (tr1, n')"
      "tr = tr1\<lparr>polled := signal_word n OR polled tr1\<rparr>"
    using 4(3) by (auto simp: Let_def nt_poll_def split: prod.splits)
  note p = nt_poll_wf [OF 4(2)]
  from 4(1) [of "nt_poll n" "signal_word n" "snd (nt_poll n)"] p r
  have "nt_wf W n' \<and> nt_waiting (snd (nt_poll n)) @ waited tr1 = woke tr1 @ nt_waiting n' \<and>
    signal_word (snd (nt_poll n)) OR signalled tr1 = polled tr1 OR signal_word n'"
    by (simp add: nt_poll_def)
  then show ?case using p r(2) by (simp add: or.assoc)
qed

section \<open>Messages\<close>

definition msg_wf :: "small_message \<Rightarrow> bool" where
  "msg_wf m \<longleftrightarrow> length (mwords m) = MSG_MAX_WORDS \<and> unat (mlen m) \<le> MSG_MAX_WORDS"

lemma from_words_Ok:
  assumes "from_words l data = Ok m"
  shows "msg_wf m" and "label m = l" and "(msg_words m :: ('e, _) res) = Ok data"
    and "msg_len m = length data"
proof -
  have len: "length data \<le> 6" and m: "m = \<lparr>label = l,
      mwords = data @ drop (length data) (replicate 6 0), mlen = of_nat (length data)\<rparr>"
    using assms by (auto simp: from_words_def MSG_MAX_WORDS_def split: if_splits)
  have u: "unat (of_nat (length data) :: u8) = length data"
    using len by (intro unat_of_nat_small) simp
  show "msg_wf m" "label m = l" "(msg_words m :: ('e, _) res) = Ok data" "msg_len m = length data"
    using len by (simp_all add: m msg_wf_def msg_words_def msg_len_def u MSG_MAX_WORDS_def)
qed

lemma msg_push_cases:
  assumes "msg_wf m"
  obtains (full) "msg_push m w = (Err MessageTooLong, m)" "msg_len m = MSG_MAX_WORDS"
  | (ok) m' where "msg_push m w = (Ok (), m')" "msg_wf m'" "label m' = label m"
      "mlen m' = mlen m + 1" "mwords m' = (mwords m)[msg_len m := w]" "msg_len m' = Suc (msg_len m)"
      "msg_len m < MSG_MAX_WORDS"
proof (cases "unat (mlen m) \<ge> MSG_MAX_WORDS")
  case True
  then show thesis using assms by (intro full) (auto simp: msg_push_def msg_wf_def msg_len_def)
next
  case False
  then have l: "unat (mlen m) < 6" by (simp add: MSG_MAX_WORDS_def)
  then have a: "(add_or_panic (mlen m) 1 :: (ipc_error, u8) res) = Ok (mlen m + 1)"
    "unat (mlen m + 1) = Suc (unat (mlen m))"
    by (simp_all add: add_or_panic_Ok unat_add_exact)
  show thesis using assms False l
    by (intro ok [of "m\<lparr>mwords := (mwords m)[unat (mlen m) := w], mlen := mlen m + 1\<rparr>"])
      (auto simp: msg_push_def Let_def a msg_wf_def msg_len_def MSG_MAX_WORDS_def)
qed

section \<open>Shared regions\<close>

lemma sr_contains_iff:
  "sr_contains r off len \<longleftrightarrow> unat off + unat len \<le> unat (sr_size r)"
proof (cases "checked_add off len")
  case None
  then show ?thesis using unat_bound [of "sr_size r"] None [unfolded checked_add_None]
    by (simp add: sr_contains_def)
next
  case (Some e)
  then show ?thesis
    by (simp add: sr_contains_def Some)
      (use Some in \<open>auto simp: checked_add_Some word_le_nat_alt unat_add_exact\<close>)
qed

section \<open>Properties\<close>

text \<open>C15: The endpoint, with its two shifting array queues, implements the documented
  rendezvous on lists: every send, receive and delivery gives the outcome and the next state
  the list model gives, with errors exactly when the relevant list is at capacity; no operation
  panics, and the two sides are never both waiting.\<close>

theorem endpoint_refines:
  assumes "ep_wf Q e"
  shows "ep_wf Q (snd (ep_step op e)) \<and> fst (ep_step op e) \<noteq> Crashed \<and>
    (fst (ep_step op e), ep_abs (snd (ep_step op e))) = rv_step Q op (ep_abs e) \<and>
    (waiting_senders (ep_abs (snd (ep_step op e))) = [] \<or>
     waiting_receivers (ep_abs (snd (ep_step op e))) = [])"
proof -
  note r = ep_step_refines [OF assms, of op]
  have "fst (rv_step Q op (ep_abs e)) \<noteq> Crashed"
    by (cases op) (auto split: list.splits)
  then show ?thesis using r by (auto simp: ep_wf_alt ep_abs_def)
qed

theorem endpoint_refines_witness:
  "fst (ep_step (Send 3 (msg_new 9) True) (snd (ep_step (Recv 4 True) (ep_new 2)))) =
     Sent (DeliveredTo 4) \<and>
   ep_wf 2 (snd (ep_step (Recv 4 True) (ep_new 2)))"
proof
  show "fst (ep_step (Send 3 (msg_new 9) True) (snd (ep_step (Recv 4 True) (ep_new 2)))) =
     Sent (DeliveredTo 4)" by code_simp
  show "ep_wf 2 (snd (ep_step (Recv 4 True) (ep_new 2)))"
    using endpoint_refines [OF ep_wf_new, of 2 "Recv 4 True"] by blast
qed

fun queued_by :: "ep_op \<Rightarrow> ep_reply \<Rightarrow> (thread_id \<times> small_message) list" where
  "queued_by (Send t m b) (Sent SenderQueued) = [(t, m)]"
| "queued_by _ _ = []"

fun received_by :: "ep_reply \<Rightarrow> (thread_id \<times> small_message) list" where
  "received_by (Got (Received t m)) = [(t, m)]"
| "received_by _ = []"

fun ep_run :: "ep_op list \<Rightarrow> endpoint \<Rightarrow>
    (thread_id \<times> small_message) list \<times> (thread_id \<times> small_message) list \<times> endpoint" where
  "ep_run [] e = ([], [], e)"
| "ep_run (op # ops) e = (let (r, e1) = ep_step op e; (queued, got, e2) = ep_run ops e1
     in (queued_by op r @ queued, received_by r @ got, e2))"

lemma rv_step_queue:
  "rv_step Q op a = (r, a') \<Longrightarrow>
     waiting_senders a @ queued_by op r = received_by r @ waiting_senders a'"
  by (cases op) (auto split: list.splits if_splits)

text \<open>C16: Messages that had to queue come out in order, each exactly once: over any sequence of
  operations, the senders waiting at the start followed by those queued since are the ones
  received since followed by those still waiting.\<close>

theorem endpoint_fifo:
  assumes "ep_wf Q e"
  shows "case ep_run ops e of (queued, got, e') \<Rightarrow>
    ep_wf Q e' \<and> waiting_senders (ep_abs e) @ queued = got @ waiting_senders (ep_abs e')"
  using assms
proof (induction ops arbitrary: e)
  case Nil
  then show ?case by simp
next
  case (Cons op ops)
  obtain p e1 where p: "ep_step op e = (p, e1)" by (metis prod.collapse)
  obtain queued got e2 where run: "ep_run ops e1 = (queued, got, e2)" by (metis prod_cases3)
  from ep_step_refines [OF Cons.prems, of op]
  have r: "ep_wf Q e1" "rv_step Q op (ep_abs e) = (p, ep_abs e1)" by (simp_all add: p)
  from Cons.IH [OF r(1)] run
  have ih: "ep_wf Q e2" "waiting_senders (ep_abs e1) @ queued = got @ waiting_senders (ep_abs e2)"
    by simp_all
  from ih(2) rv_step_queue [OF r(2)]
  have "waiting_senders (ep_abs e) @ queued_by op p @ queued =
      (received_by p @ got) @ waiting_senders (ep_abs e2)"
    by (metis append.assoc)
  then show ?case using ih(1) by (simp add: p run)
qed

theorem endpoint_fifo_witness:
  "fst (snd (ep_run [Send 1 (msg_new 10) True, Send 2 (msg_new 20) True, Recv 7 True, Recv 8 True]
     (ep_new 2))) = [(1, msg_new 10), (2, msg_new 20)] \<and>
   (case ep_run [Send 1 (msg_new 10) True, Recv 7 True] (ep_new 2) of (queued, got, e') \<Rightarrow>
      waiting_senders (ep_abs (ep_new 2)) @ queued = got @ waiting_senders (ep_abs e'))"
proof
  show "fst (snd (ep_run [Send 1 (msg_new 10) True, Send 2 (msg_new 20) True, Recv 7 True,
     Recv 8 True] (ep_new 2))) = [(1, msg_new 10), (2, msg_new 20)]" by code_simp
  show "case ep_run [Send 1 (msg_new 10) True, Recv 7 True] (ep_new 2) of (queued, got, e') \<Rightarrow>
      waiting_senders (ep_abs (ep_new 2)) @ queued = got @ waiting_senders (ep_abs e')"
    using endpoint_fifo [OF ep_wf_new, of 2 "[Send 1 (msg_new 10) True, Recv 7 True]"]
    by (auto split: prod.splits)
qed

text \<open>The fast-path predicate against the outcome of the send.\<close>

lemma fast_path_eq:
  assumes "ep_wf Q e" and "msg_wf m"
  shows "case fst (try_send e s m True) of
      Ok (DeliveredTo r) \<Rightarrow> fast_path_eligible e m True = Ok (Take r)
    | _ \<Rightarrow> fast_path_eligible e m True = Ok (Fallback NoBlockedReceiver)"
proof -
  have len: "\<not> msg_len m > MSG_MAX_WORDS" using assms(2) by (simp add: msg_wf_def msg_len_def)
  have ok: "q_ok Q (ep_receivers e)" using assms(1) by (simp add: ep_wf_alt)
  note n = q_items_length [OF ok]
  from ok show ?thesis
  proof (cases rule: wq.pop_cases)
    case empty
    then have "receivers_len e = 0" using n by (simp add: ep_receivers_def)
    then have f: "fast_path_eligible e m True = Ok (Fallback NoBlockedReceiver)"
      using len by (simp add: fast_path_eligible_def blocked_receiver_def)
    have "fst (try_send e s m True) \<noteq> Ok (DeliveredTo r)" for r
      using empty by (auto simp: try_send_def ep_receivers_def [symmetric] Let_def then_do_def
          split: prod.splits res.splits)
    then show ?thesis by (auto simp: f split: res.splits send_outcome.splits)
  next
    case (popped w q')
    then have pos: "0 < receivers_len e" "0 < length (receivers e)"
      using n ok by (auto simp: ep_receivers_def q_ok_def)
    have "w = the (receivers e ! 0)"
      using popped(3) pos by (auto simp: q_items_def ep_receivers_def take_Suc_conv_app_nth
          hd_conv_nth [symmetric] dest: arg_cong [where f = hd] simp: hd_map hd_take)
    moreover have "receivers e ! 0 \<noteq> None"
      using ok pos by (auto simp: q_ok_def ep_receivers_def)
    ultimately have "receivers e ! 0 = Some w" by auto
    then have f: "fast_path_eligible e m True = Ok (Take (w_thread w))"
      using len pos by (simp add: fast_path_eligible_def blocked_receiver_def nth_opt_def)
    have "fst (try_send e s m True) = Ok (DeliveredTo (w_thread w))"
      using popped by (simp add: try_send_def ep_receivers_def [symmetric] Let_def)
    then show ?thesis by (simp add: f)
  qed
qed

text \<open>C17: The fast path agrees with the slow path. For a well-formed message the predicate never
  panics and never says the message is too large; it says \<open>Take\<close> for exactly the receiver the
  blocking send would deliver to, and a fallback exactly when the blocking send would not
  deliver.\<close>

theorem fast_path_agrees:
  assumes "ep_wf Q e" and "msg_wf m"
  shows "case fst (try_send e s m True) of
      Ok (DeliveredTo r) \<Rightarrow> fast_path_eligible e m True = Ok (Take r)
    | _ \<Rightarrow> fast_path_eligible e m True = Ok (Fallback NoBlockedReceiver)"
  using fast_path_eq [OF assms] .

theorem fast_path_agrees_witness:
  "fast_path_eligible (snd (try_recv (ep_new 2) 4 True)) (msg_new 9) True =
     Ok (Take 4) \<and>
   fast_path_eligible (ep_new 2) (msg_new 9) True =
     Ok (Fallback NoBlockedReceiver)"
proof
  show "fast_path_eligible (snd (try_recv (ep_new 2) 4 True)) (msg_new 9) True =
     Ok (Take 4)" by code_simp
  have "msg_wf (msg_new 9)" by code_simp
  moreover have "fst (try_send (ep_new 2) 1 (msg_new 9) True) = Ok SenderQueued" by code_simp
  ultimately show "fast_path_eligible (ep_new 2) (msg_new 9) True =
     Ok (Fallback NoBlockedReceiver)"
    using fast_path_agrees [OF ep_wf_new, of "msg_new 9" 2 1] by simp
qed



text \<open>A message carries its words. \<open>from_words\<close> accepts exactly the slices of at most
  six words; the message then has that label, that length and those words, word by word, and
  pushing one more gives the message of the longer slice's words or \<open>MessageTooLong\<close> at six,
  changing nothing.\<close>

theorem message_roundtrip:
  "case from_words l data of
      Ok m \<Rightarrow> length data \<le> MSG_MAX_WORDS \<and> msg_wf m \<and> label m = l \<and> msg_len m = length data \<and>
        (msg_words m :: (ipc_error, _) res) = Ok data \<and>
        (\<forall>i. (msg_word m i :: (ipc_error, _) res) =
           Ok (if i < length data then Some (data ! i) else None)) \<and>
        (if length data < MSG_MAX_WORDS
         then fst (msg_push m w) = Ok () \<and>
           (msg_words (snd (msg_push m w)) :: (ipc_error, _) res) = Ok (data @ [w])
         else msg_push m w = (Err MessageTooLong, m))
    | Err e \<Rightarrow> e = MessageTooLong \<and> MSG_MAX_WORDS < length data
    | Panic \<Rightarrow> False"
proof (cases "from_words l data")
  case (Ok m)
  note f = from_words_Ok [OF Ok]
  have len: "length data \<le> 6" using f(1,4) by (simp add: msg_wf_def msg_len_def MSG_MAX_WORDS_def)
  have m: "m = \<lparr>label = l, mwords = data @ drop (length data) (replicate 6 0),
      mlen = of_nat (length data)\<rparr>"
    using Ok by (auto simp: from_words_def MSG_MAX_WORDS_def split: if_splits)
  have u: "unat (mlen m) = length data" using f(4) by (simp add: msg_len_def)
  have word: "(msg_word m i :: (ipc_error, _) res) =
      Ok (if i < length data then Some (data ! i) else None)" for i
    by (simp add: msg_word_def u) (simp add: m nth_append)
  have "if length data < MSG_MAX_WORDS
         then fst (msg_push m w) = Ok () \<and>
           (msg_words (snd (msg_push m w)) :: (ipc_error, _) res) = Ok (data @ [w])
         else msg_push m w = (Err MessageTooLong, m)"
    using f(1)
  proof (cases rule: msg_push_cases [where w = w])
    case full
    then show ?thesis using f(4) by simp
  next
    case (ok m')
    have "mwords m' = (mwords m)[length data := w]" using ok(5) f(4) by simp
    moreover have "unat (mlen m') = Suc (length data)" using ok(6) f(4) by (simp add: msg_len_def)
    ultimately have "(msg_words m' :: (ipc_error, _) res) = Ok (data @ [w])"
      using len ok(7) f(4) by (simp add: msg_words_def m take_Suc_conv_app_nth nth_append
          list_update_append MSG_MAX_WORDS_def)
    then show ?thesis using ok(1,7) f(4) by simp
  qed
  then show ?thesis using Ok f word len by (simp add: MSG_MAX_WORDS_def)
qed (auto simp: from_words_def split: if_splits)

end
