(* ===== verification/Sched.thy ===== *)
theory Sched
  imports Caps "HOL-Library.Product_Lexorder"
begin

text \<open>
  \<open>kernel/kernel-sched\<close>: the fixed-point weights and virtual run time (\<open>weight.rs\<close>), IPC
  chain groups (\<open>chain_group.rs\<close>), the two disciplines (\<open>mode.rs\<close>) and the scheduler's
  account, pick and dispatch cycle (\<open>sched.rs\<close>). Plain additions and products panic on overflow;
  the proofs show none of them overflows. The comparison of selection keys is the lexicographic
  order of the tuples.
\<close>

datatype chain_group_error = GroupFull | NotAMember

datatype sched_error = TableFull | NoSuchThread | NoSuchGroup | GroupTableFull
  | ChainGroupError chain_group_error

section \<open>Weights\<close>

definition WEIGHT_FRAC_BITS :: nat where "WEIGHT_FRAC_BITS = 10"
definition WEIGHT_ONE :: u64 where "WEIGHT_ONE = 1024"
definition AGING_FACTOR_FP :: u64 where "AGING_FACTOR_FP = 20"
definition AGING_CAP_MS :: u64 where "AGING_CAP_MS = 50"
definition NUMA_LOCALITY_BONUS_FP :: u64 where "NUMA_LOCALITY_BONUS_FP = 1138"
definition NUMA_NEUTRAL_FP :: u64 where "NUMA_NEUTRAL_FP = WEIGHT_ONE"
definition MAX_PRIORITY :: u8 where "MAX_PRIORITY = 39"

definition base_priority_weight_fp :: "u8 \<Rightarrow> (sched_error, u64) res" where
  "base_priority_weight_fp priority =
     (let p = (ucast (min priority MAX_PRIORITY) :: u64) in
      bind_res (mul_or_panic 3 WEIGHT_ONE) (\<lambda>w3.
      bind_res (mul_or_panic p w3) (\<lambda>pw.
      add_or_panic WEIGHT_ONE (pw div ucast MAX_PRIORITY))))"

definition effective_weight_fp :: "u64 \<Rightarrow> u64 \<Rightarrow> bool \<Rightarrow> (sched_error, u64) res" where
  "effective_weight_fp base_fp wait_time_ms numa_local =
     (let capped_wait = min wait_time_ms AGING_CAP_MS;
          numa_fp = (if numa_local then NUMA_LOCALITY_BONUS_FP else NUMA_NEUTRAL_FP) in
      bind_res (mul_or_panic AGING_FACTOR_FP capped_wait) (\<lambda>a.
      bind_res (add_or_panic WEIGHT_ONE a) (\<lambda>aging_mul_fp.
      bind_res (mul_or_panic (ucast base_fp :: u128) (ucast aging_mul_fp)) (\<lambda>e.
      let e = drop_bit WEIGHT_FRAC_BITS e in
      bind_res (mul_or_panic e (ucast numa_fp)) (\<lambda>e.
      let e = drop_bit WEIGHT_FRAC_BITS e in
      Ok (max (ucast e) 1))))))"

definition vruntime_next :: "u64 \<Rightarrow> u64 \<Rightarrow> u64 \<Rightarrow> (sched_error, u64) res" where
  "vruntime_next vruntime_current actual_runtime_ns weight =
     (let w = (ucast (max weight 1) :: u128) in
      bind_res (mul_or_panic (ucast actual_runtime_ns :: u128) (ucast WEIGHT_ONE)) (\<lambda>n.
      Ok (saturating_add vruntime_current (ucast (n div w)))))"

section \<open>Chain groups\<close>

definition MAX_CHAIN_MEMBERS :: nat where "MAX_CHAIN_MEMBERS = 8"

record chain_group =
  cg_id :: chain_group_id
  member_threads :: "thread_id list"
  cg_len :: nat
  group_vruntime :: u64

definition cg_new :: "chain_group_id \<Rightarrow> chain_group" where
  "cg_new g = \<lparr>cg_id = g, member_threads = replicate MAX_CHAIN_MEMBERS 0, cg_len = 0,
     group_vruntime = 0\<rparr>"

definition cg_members :: "chain_group \<Rightarrow> (chain_group_error, thread_id list) res" where
  "cg_members g = (if cg_len g \<le> length (member_threads g)
     then Ok (take (cg_len g) (member_threads g)) else Panic)"

definition cg_is_empty :: "chain_group \<Rightarrow> bool" where "cg_is_empty g \<longleftrightarrow> cg_len g = 0"

definition add_member ::
  "chain_group \<Rightarrow> thread_id \<Rightarrow> (chain_group_error, unit) res \<times> chain_group" where
  "add_member g t = try_in g (cg_members g) (\<lambda>ms.
     if t \<in> set ms then (Ok (), g)
     else if cg_len g \<ge> MAX_CHAIN_MEMBERS then (Err GroupFull, g)
     else if cg_len g \<ge> length (member_threads g) then (Panic, g)
     else (Ok (), g\<lparr>member_threads := (member_threads g)[cg_len g := t],
                   cg_len := cg_len g + 1\<rparr>))"

fun shift_members :: "nat list \<Rightarrow> thread_id list \<Rightarrow> (chain_group_error, thread_id list) res" where
  "shift_members [] ts = Ok ts"
| "shift_members (i # is) ts = (if i < length ts
     then shift_members is (ts[i - 1 := ts ! i]) else Panic)"

definition remove_member ::
  "chain_group \<Rightarrow> thread_id \<Rightarrow> (chain_group_error, unit) res \<times> chain_group" where
  "remove_member g t = try_in g (cg_members g) (\<lambda>ms.
     try_in g (ok_or (find_index (\<lambda>u. u = t) ms) NotAMember) (\<lambda>idx.
     try_in g (shift_members [idx + 1 ..< cg_len g] (member_threads g)) (\<lambda>ts.
       (Ok (), g\<lparr>member_threads := ts, cg_len := cg_len g - 1\<rparr>))))"

definition charge :: "chain_group \<Rightarrow> u64 \<Rightarrow> chain_group" where
  "charge g inc = g\<lparr>group_vruntime := saturating_add (group_vruntime g) inc\<rparr>"

section \<open>Entities\<close>

datatype scheduler_mode = Interactive | Throughput

fun preference_class :: "scheduler_mode \<Rightarrow> u8" where
  "preference_class Interactive = 0"
| "preference_class Throughput = 1"

datatype run_state = Ready | Running | Blocked

record sched_entity =
  e_thread :: thread_id
  e_mode :: scheduler_mode
  base_priority :: u8
  effective_priority :: u8
  base_weight_fp :: u64
  vruntime :: u64
  chain_grp :: "chain_group_id option"
  run_state :: run_state
  became_ready_ns :: u64
  last_wait_ms :: u64
  numa_local :: bool

definition entity_new ::
  "thread_id \<Rightarrow> scheduler_mode \<Rightarrow> u8 \<Rightarrow> chain_group_id option \<Rightarrow> (sched_error, sched_entity) res" where
  "entity_new t mode priority grp =
     (let p = min priority MAX_PRIORITY in
      bind_res (base_priority_weight_fp p) (\<lambda>w.
      Ok \<lparr>e_thread = t, e_mode = mode, base_priority = p, effective_priority = p,
          base_weight_fp = w, vruntime = 0, chain_grp = grp, run_state = Blocked,
          became_ready_ns = 0, last_wait_ms = 0, numa_local = False\<rparr>))"

section \<open>The scheduler\<close>

record scheduler =
  entities :: "sched_entity option list"
  groups :: "chain_group option list"
  running :: "thread_id option"
  running_since_ns :: u64
  quantum_ns :: u64

definition sched_new :: "nat \<Rightarrow> nat \<Rightarrow> u64 \<Rightarrow> scheduler" where
  "sched_new NT NCG quantum = \<lparr>entities = replicate NT None, groups = replicate NCG None,
     running = None, running_since_ns = 0, quantum_ns = quantum\<rparr>"

definition entity :: "scheduler \<Rightarrow> thread_id \<Rightarrow> sched_entity option" where
  "entity s t = slot_at (entities s) (as_usize t)"

definition sched_group :: "scheduler \<Rightarrow> chain_group_id \<Rightarrow> chain_group option" where
  "sched_group s g = slot_at (groups s) (as_usize g)"

definition set_entity :: "scheduler \<Rightarrow> thread_id \<Rightarrow> sched_entity option \<Rightarrow> scheduler" where
  "set_entity s t e = s\<lparr>entities := (entities s)[as_usize t := e]\<rparr>"

definition set_group :: "scheduler \<Rightarrow> chain_group_id \<Rightarrow> chain_group option \<Rightarrow> scheduler" where
  "set_group s g v = s\<lparr>groups := (groups s)[as_usize g := v]\<rparr>"

text \<open>\<open>let e = self.slot_mut(t).ok_or(NoSuchThread)?;\<close> and an update of \<open>e\<close>.\<close>

definition slot_mut ::
  "scheduler \<Rightarrow> thread_id \<Rightarrow> (sched_entity \<Rightarrow> sched_entity) \<Rightarrow> (sched_error, unit) res \<times> scheduler" where
  "slot_mut s t f = (case entity s t of
      None \<Rightarrow> (Err NoSuchThread, s)
    | Some e \<Rightarrow> (Ok (), set_entity s t (Some (f e))))"

definition admit ::
  "scheduler \<Rightarrow> thread_id \<Rightarrow> scheduler_mode \<Rightarrow> u8 \<Rightarrow> chain_group_id option \<Rightarrow>
     (sched_error, unit) res \<times> scheduler" where
  "admit s t mode priority grp =
     (if as_usize t \<ge> length (entities s) then (Err TableFull, s)
      else try_in s (entity_new t mode priority grp) (\<lambda>e. (Ok (), set_entity s t (Some e))))"

definition remove :: "scheduler \<Rightarrow> thread_id \<Rightarrow> scheduler" where
  "remove s t =
     (let s = (if entity s t \<noteq> None then set_entity s t None else s)
      in if running s = Some t then s\<lparr>running := None\<rparr> else s)"

definition note_ready :: "scheduler \<Rightarrow> thread_id \<Rightarrow> u64 \<Rightarrow> (sched_error, unit) res \<times> scheduler" where
  "note_ready s t now = slot_mut s t (\<lambda>e. e\<lparr>run_state := Ready, became_ready_ns := now\<rparr>)"

definition note_blocked :: "scheduler \<Rightarrow> thread_id \<Rightarrow> (sched_error, unit) res \<times> scheduler" where
  "note_blocked s t = then_do (slot_mut s t (\<lambda>e. e\<lparr>run_state := Blocked\<rparr>)) (\<lambda>_ s.
     (Ok (), if running s = Some t then s\<lparr>running := None\<rparr> else s))"

definition set_numa_local :: "scheduler \<Rightarrow> thread_id \<Rightarrow> bool \<Rightarrow> (sched_error, unit) res \<times> scheduler" where
  "set_numa_local s t b = slot_mut s t (\<lambda>e. e\<lparr>numa_local := b\<rparr>)"

definition inherit_priority ::
  "scheduler \<Rightarrow> thread_id \<Rightarrow> u8 \<Rightarrow> (sched_error, unit) res \<times> scheduler" where
  "inherit_priority s holder donor = slot_mut s holder (\<lambda>e.
     e\<lparr>effective_priority := max (effective_priority e) (min donor MAX_PRIORITY)\<rparr>)"

definition restore_priority :: "scheduler \<Rightarrow> thread_id \<Rightarrow> (sched_error, unit) res \<times> scheduler" where
  "restore_priority s holder = slot_mut s holder (\<lambda>e.
     e\<lparr>effective_priority := base_priority e\<rparr>)"

definition create_group :: "scheduler \<Rightarrow> chain_group_id \<Rightarrow> (sched_error, unit) res \<times> scheduler" where
  "create_group s g =
     (if as_usize g \<ge> length (groups s) then (Err GroupTableFull, s)
      else (Ok (), set_group s g (Some (cg_new g))))"

definition join_group ::
  "scheduler \<Rightarrow> thread_id \<Rightarrow> chain_group_id \<Rightarrow> (sched_error, unit) res \<times> scheduler" where
  "join_group s t gid = (case sched_group s gid of
      None \<Rightarrow> (Err NoSuchGroup, s)
    | Some g \<Rightarrow> (let (r, g) = add_member g t in
        then_do (map_err ChainGroupError r, set_group s gid (Some g)) (\<lambda>_ s.
          slot_mut s t (\<lambda>e. e\<lparr>chain_grp := Some gid\<rparr>))))"

definition leave_group :: "scheduler \<Rightarrow> thread_id \<Rightarrow> (sched_error, unit) res \<times> scheduler" where
  "leave_group s t = (case Option.bind (entity s t) chain_grp of
      None \<Rightarrow> (Ok (), s)
    | Some gid \<Rightarrow> then_do (case sched_group s gid of
          None \<Rightarrow> (Ok (), s)
        | Some g \<Rightarrow> (let (r, g) = remove_member g t in
            if r = Panic then (Panic, s)
            else (Ok (), set_group s gid (if cg_is_empty g then None else Some g))))
        (\<lambda>_ s. slot_mut s t (\<lambda>e. e\<lparr>chain_grp := None\<rparr>)))"

definition account :: "scheduler \<Rightarrow> u64 \<Rightarrow> (sched_error, unit) res \<times> scheduler" where
  "account s now = (case running s of
      None \<Rightarrow> (Ok (), s)
    | Some cur \<Rightarrow> (case entity s cur of
        None \<Rightarrow> (Ok (), s\<lparr>running := None\<rparr>)
      | Some e \<Rightarrow>
          let ran = saturating_sub now (running_since_ns s) in
          try_in s (effective_weight_fp (base_weight_fp e) (last_wait_ms e) (numa_local e)) (\<lambda>w.
          try_in s (vruntime_next (vruntime e) ran w) (\<lambda>newv.
          try_in s (sub_or_panic newv (vruntime e)) (\<lambda>inc.
            let e' = e\<lparr>vruntime := newv\<rparr>;
                e' = (if run_state e = Running
                      then e'\<lparr>run_state := Ready, became_ready_ns := now\<rparr> else e');
                s = set_entity s cur (Some e');
                s = (case chain_grp e of
                    None \<Rightarrow> s
                  | Some gid \<Rightarrow> (case sched_group s gid of
                      None \<Rightarrow> s
                    | Some g \<Rightarrow> set_group s gid (Some (charge g inc))))
            in (Ok (), s\<lparr>running := None\<rparr>))))))"

type_synonym pick_key = "u8 \<times> u8 \<times> u64 \<times> u32"

definition pick_key :: "scheduler \<Rightarrow> sched_entity \<Rightarrow> (sched_error, pick_key) res" where
  "pick_key s e =
     bind_res (case e_mode e of
         Interactive \<Rightarrow> sub_or_panic MAX_PRIORITY (effective_priority e)
       | Throughput \<Rightarrow> Ok 0) (\<lambda>prio_key.
     let effective_v = (case (e_mode e, chain_grp e) of
           (Throughput, Some gid) \<Rightarrow> (case sched_group s gid of
               Some g \<Rightarrow> group_vruntime g | None \<Rightarrow> vruntime e)
         | _ \<Rightarrow> vruntime e)
     in Ok (preference_class (e_mode e), prio_key, effective_v, e_thread e))"

fun pick_loop ::
  "scheduler \<Rightarrow> sched_entity list \<Rightarrow> pick_key option \<Rightarrow> thread_id option \<Rightarrow>
     (sched_error, thread_id option) res" where
  "pick_loop s [] best best_thread = Ok best_thread"
| "pick_loop s (e # es) best best_thread =
     (if run_state e \<noteq> Ready then pick_loop s es best best_thread
      else bind_res (pick_key s e) (\<lambda>key.
        if (case best of None \<Rightarrow> True | Some b \<Rightarrow> key < b)
        then pick_loop s es (Some key) (Some (e_thread e))
        else pick_loop s es best best_thread))"

definition pick_next :: "scheduler \<Rightarrow> u64 \<Rightarrow> (sched_error, thread_id option) res" where
  "pick_next s now = pick_loop s (flatten (entities s)) None None"

definition dispatch_thread :: "scheduler \<Rightarrow> thread_id \<Rightarrow> u64 \<Rightarrow> (sched_error, unit) res \<times> scheduler" where
  "dispatch_thread s t now =
     then_do (slot_mut s t (\<lambda>e.
       e\<lparr>last_wait_ms := saturating_sub now (became_ready_ns e) div 1000000,
         run_state := Running\<rparr>)) (\<lambda>_ s.
       (Ok (), s\<lparr>running := Some t, running_since_ns := now\<rparr>))"

section \<open>The arithmetic never overflows\<close>

lemma sched_consts:
  "unat WEIGHT_ONE = 1024" "unat AGING_FACTOR_FP = 20" "unat AGING_CAP_MS = 50"
  "unat MAX_PRIORITY = 39" "unat NUMA_LOCALITY_BONUS_FP = 1138" "unat NUMA_NEUTRAL_FP = 1024"
  by (simp_all add: WEIGHT_ONE_def AGING_FACTOR_FP_def AGING_CAP_MS_def MAX_PRIORITY_def
      NUMA_LOCALITY_BONUS_FP_def NUMA_NEUTRAL_FP_def)

lemma unat_min: "unat (min x y) = min (unat x) (unat (y :: 'a::len word))"
  by (simp add: min_def word_le_nat_alt)

lemma unat_max: "unat (max x y) = max (unat x) (unat (y :: 'a::len word))"
  by (simp add: max_def word_le_nat_alt)

lemma base_priority_weight_Ok:
  obtains w where "base_priority_weight_fp p = Ok w"
    and "unat w = 1024 + min (unat p) 39 * 3072 div 39"
    and "1024 \<le> unat w" and "unat w \<le> 4096"
proof -
  let ?p = "ucast (min p MAX_PRIORITY) :: u64"
  have p: "unat ?p = min (unat p) 39" by (simp add: unat_ucast_up unat_min sched_consts)
  have w3: "(mul_or_panic 3 WEIGHT_ONE :: (sched_error, u64) res) = Ok 3072"
    by (simp add: mul_or_panic_Ok sched_consts) (simp add: WEIGHT_ONE_def)
  have u: "unat (?p * 3072) = min (unat p) 39 * 3072"
    by (subst unat_mult_exact) (simp_all add: p)
  have pw: "(mul_or_panic ?p 3072 :: (sched_error, u64) res) = Ok (?p * 3072)"
    by (simp add: mul_or_panic_Ok p)
  let ?q = "?p * 3072 div ucast MAX_PRIORITY"
  have q: "unat ?q = min (unat p) 39 * 3072 div 39"
    by (simp add: unat_div_distrib u unat_ucast_up sched_consts)
  have le: "min (unat p) 39 * 3072 div 39 \<le> 3072"
  proof -
    have "min (unat p) 39 * 3072 div 39 \<le> 39 * 3072 div 39" by (intro div_le_mono) simp
    then show ?thesis by simp
  qed
  have s: "(add_or_panic WEIGHT_ONE ?q :: (sched_error, u64) res) = Ok (WEIGHT_ONE + ?q)"
    "unat (WEIGHT_ONE + ?q) = 1024 + min (unat p) 39 * 3072 div 39"
    using le by (simp_all add: add_or_panic_Ok unat_add_exact q sched_consts)
  show thesis
  proof (rule that)
    show "base_priority_weight_fp p = Ok (WEIGHT_ONE + ?q)"
      by (simp add: base_priority_weight_fp_def Let_def w3 pw s(1))
  qed (use s(2) le in simp_all)
qed

definition aging :: "nat \<Rightarrow> nat" where "aging wait = 1024 + 20 * min wait 50"

definition numa :: "bool \<Rightarrow> nat" where "numa b = (if b then 1138 else 1024)"

lemma unat_ucast_down:
  fixes x :: "'a::len word"
  assumes "LENGTH('b::len) \<le> LENGTH('a)"
  shows "unat (ucast x :: 'b word) = unat x mod 2 ^ LENGTH('b)"
  by (simp add: unsigned_ucast_eq take_bit_eq_mod)

lemma effective_weight_Ok:
  obtains w where "effective_weight_fp base wait n = Ok w"
    and "unat w = max (unat base * aging (unat wait) div 1024 * numa n div 1024 mod 2 ^ 64) 1"
proof -
  let ?c = "min wait AGING_CAP_MS"
  let ?a = "WEIGHT_ONE + AGING_FACTOR_FP * ?c"
  have c: "unat ?c = min (unat wait) 50" by (simp add: unat_min sched_consts)
  have m: "unat (AGING_FACTOR_FP * ?c) = 20 * min (unat wait) 50"
    by (subst unat_mult_exact) (simp_all add: c sched_consts)
  have a: "unat ?a = aging (unat wait)"
    by (subst unat_add_exact) (simp_all add: m sched_consts aging_def)
  have ag: "aging (unat wait) \<le> 2024" by (simp add: aging_def)
  let ?n = "if n then NUMA_LOCALITY_BONUS_FP else NUMA_NEUTRAL_FP"
  have n: "unat ?n = numa n" by (simp add: numa_def sched_consts)
  have n2: "numa n \<le> 1138" by (simp add: numa_def)
  let ?e1 = "(ucast base :: u128) * ucast ?a"
  have b1: "unat base * aging (unat wait) < 2 ^ 64 * 2025"
    using unat_bound [of base] ag by (intro mult_strict_mono) simp_all
  have e1: "unat ?e1 = unat base * aging (unat wait)"
    using b1 by (subst unat_mult_exact) (simp_all add: unat_ucast_up a)
  let ?e2 = "drop_bit WEIGHT_FRAC_BITS ?e1"
  have e2: "unat ?e2 = unat base * aging (unat wait) div 1024"
    by (simp only: unat_drop_bit_eq e1) (simp add: drop_bit_eq_div WEIGHT_FRAC_BITS_def)
  have b2: "unat base * aging (unat wait) div 1024 * numa n < 2 ^ 64 * 2025 * 1139"
    using b1 n2 by (intro mult_strict_mono) (simp_all add: le_less_trans [OF div_le_dividend])
  let ?e3 = "?e2 * ucast ?n"
  have e3: "unat ?e3 = unat base * aging (unat wait) div 1024 * numa n"
    using b2 by (subst unat_mult_exact) (simp_all add: unat_ucast_up n e2)
  let ?e4 = "drop_bit WEIGHT_FRAC_BITS ?e3"
  have e4: "unat ?e4 = unat base * aging (unat wait) div 1024 * numa n div 1024"
    by (simp only: unat_drop_bit_eq e3) (simp add: drop_bit_eq_div WEIGHT_FRAC_BITS_def)
  have ok: "(mul_or_panic AGING_FACTOR_FP ?c :: (sched_error, u64) res) = Ok (AGING_FACTOR_FP * ?c)"
    "(add_or_panic WEIGHT_ONE (AGING_FACTOR_FP * ?c) :: (sched_error, u64) res) = Ok ?a"
    "(mul_or_panic (ucast base :: u128) (ucast ?a) :: (sched_error, u128) res) = Ok ?e1"
    "(mul_or_panic ?e2 (ucast ?n) :: (sched_error, u128) res) = Ok ?e3"
    using b1 b2 by (simp_all only: mul_or_panic_Ok add_or_panic_Ok unat_ucast_up)
      (simp_all add: c m a e2 n sched_consts unat_ucast_up)
  show thesis
  proof (rule that)
    show "effective_weight_fp base wait n = Ok (max (ucast ?e4) 1)"
      unfolding effective_weight_fp_def Let_def ok bind_res_simps ..
    show "unat (max (ucast ?e4 :: u64) 1) =
        max (unat base * aging (unat wait) div 1024 * numa n div 1024 mod 2 ^ 64) 1"
      by (simp add: unat_max unat_ucast_down e4)
  qed
qed

lemma vruntime_next_Ok:
  obtains v where "vruntime_next cur rt w = Ok v"
    and "unat v = min (unat cur + unat rt * 1024 div max (unat w) 1 mod 2 ^ 64) (2 ^ 64 - 1)"
    and "cur \<le> v"
proof -
  let ?n = "(ucast rt :: u128) * ucast WEIGHT_ONE" and ?w = "ucast (max w 1) :: u128"
  have n: "unat ?n = unat rt * 1024"
    using unat_bound [of rt] by (subst unat_mult_exact) (simp_all add: unat_ucast_up sched_consts)
  have ok: "(mul_or_panic (ucast rt :: u128) (ucast WEIGHT_ONE) :: (sched_error, u128) res) = Ok ?n"
    using unat_bound [of rt] by (simp add: mul_or_panic_Ok unat_ucast_up sched_consts)
  have d: "unat (?n div ?w) = unat rt * 1024 div max (unat w) 1"
    by (simp add: unat_div_distrib n unat_ucast_up unat_max)
  show thesis
  proof (rule that)
    show "vruntime_next cur rt w = Ok (saturating_add cur (ucast (?n div ?w)))"
      unfolding vruntime_next_def Let_def ok bind_res_simps ..
    show "unat (saturating_add cur (ucast (?n div ?w))) =
        min (unat cur + unat rt * 1024 div max (unat w) 1 mod 2 ^ 64) (2 ^ 64 - 1)"
      by (simp add: unat_saturating_add unat_ucast_down d)
    show "cur \<le> saturating_add cur (ucast (?n div ?w))" by (rule saturating_add_ge)
  qed
qed

section \<open>The scheduler's invariant\<close>

definition entity_ok :: "thread_id \<Rightarrow> sched_entity \<Rightarrow> bool" where
  "entity_ok t e \<longleftrightarrow> e_thread e = t \<and> base_priority e \<le> effective_priority e \<and>
     effective_priority e \<le> MAX_PRIORITY \<and>
     1024 \<le> unat (base_weight_fp e) \<and> unat (base_weight_fp e) \<le> 4096"

definition cg_ok :: "chain_group \<Rightarrow> bool" where
  "cg_ok g \<longleftrightarrow> length (member_threads g) = MAX_CHAIN_MEMBERS \<and> cg_len g \<le> MAX_CHAIN_MEMBERS \<and>
     distinct (take (cg_len g) (member_threads g))"

definition sched_wf :: "scheduler \<Rightarrow> bool" where
  "sched_wf s \<longleftrightarrow> length (entities s) \<le> 2 ^ 32 \<and>
     (\<forall>t e. entity s t = Some e \<longrightarrow> entity_ok t e) \<and>
     (\<forall>g v. sched_group s g = Some v \<longrightarrow> cg_ok v)"

definition single_running :: "scheduler \<Rightarrow> bool" where
  "single_running s \<longleftrightarrow> (\<forall>t e. entity s t = Some e \<and> run_state e = Running \<longrightarrow> running s = Some t)"

lemma entity_set_entity [simp]:
  "entity (set_entity s t v) u =
     (if u = t \<and> as_usize t < length (entities s) then v else entity s u)"
  by (auto simp: entity_def set_entity_def slot_at_update)

lemma group_set_group [simp]:
  "sched_group (set_group s g v) h =
     (if h = g \<and> as_usize g < length (groups s) then v else sched_group s h)"
  by (auto simp: sched_group_def set_group_def slot_at_update)

lemma set_entity_simps [simp]:
  "groups (set_entity s t v) = groups s" "running (set_entity s t v) = running s"
  "sched_group (set_entity s t v) = sched_group s" "length (entities (set_entity s t v)) = length (entities s)"
  "entities (set_group s g w) = entities s" "running (set_group s g w) = running s"
  "entity (set_group s g w) = entity s" "length (groups (set_group s g w)) = length (groups s)"
  "running_since_ns (set_entity s t v) = running_since_ns s"
  by (simp_all add: set_entity_def set_group_def sched_group_def entity_def fun_eq_iff)

lemma running_upd_simps [simp]:
  "entity (s\<lparr>running := r\<rparr>) = entity s" "sched_group (s\<lparr>running := r\<rparr>) = sched_group s"
  "entity (s\<lparr>running_since_ns := n\<rparr>) = entity s"
  "sched_group (s\<lparr>running_since_ns := n\<rparr>) = sched_group s"
  by (simp_all add: entity_def sched_group_def fun_eq_iff)

lemma entity_bound: "entity s t = Some e \<Longrightarrow> as_usize t < length (entities s)"
  unfolding entity_def by (rule slot_at_length)

lemma group_bound: "sched_group s g = Some v \<Longrightarrow> as_usize g < length (groups s)"
  unfolding sched_group_def by (rule slot_at_length)

lemma slot_mut_cases:
  obtains (none) "slot_mut s t f = (Err NoSuchThread, s)" "entity s t = None"
  | (some) e where "slot_mut s t f = (Ok (), set_entity s t (Some (f e)))" "entity s t = Some e"
      "as_usize t < length (entities s)"
  by (cases "entity s t") (auto simp: slot_mut_def dest: entity_bound)

text \<open>What every operation but a careless \<open>dispatch\<close> keeps, and what no operation but
  \<open>admit\<close> of the same thread lowers.\<close>

definition vr_le :: "scheduler \<Rightarrow> scheduler \<Rightarrow> bool" where
  "vr_le s s' \<longleftrightarrow> (\<forall>t e e'. entity s t = Some e \<and> entity s' t = Some e' \<longrightarrow> vruntime e \<le> vruntime e')"

definition step_ok :: "scheduler \<Rightarrow> (sched_error, unit) res \<times> scheduler \<Rightarrow> bool" where
  "step_ok s m \<longleftrightarrow> fst m \<noteq> Panic \<and> sched_wf (snd m) \<and> vr_le s (snd m) \<and>
     (single_running s \<longrightarrow> single_running (snd m)) \<and>
     length (entities (snd m)) = length (entities s)"

lemma step_ok_refl: "sched_wf s \<Longrightarrow> r \<noteq> Panic \<Longrightarrow> step_ok s (r, s)"
  by (auto simp: step_ok_def vr_le_def)

lemma step_ok_set_entity:
  assumes "sched_wf s" and "entity s t = Some e" and "entity_ok t e \<Longrightarrow> entity_ok t e'"
    and "vruntime e \<le> vruntime e'" and "run_state e' = Running \<Longrightarrow> run_state e = Running"
  shows "step_ok s (Ok (), set_entity s t (Some e'))"
  using assms
  by (auto simp: step_ok_def sched_wf_def vr_le_def single_running_def)

lemma slot_mut_ok:
  assumes "sched_wf s" and "\<And>e. entity_ok t e \<Longrightarrow> entity_ok t (f e)"
    and "\<And>e. vruntime (f e) = vruntime e"
    and "\<And>e. run_state (f e) = Running \<Longrightarrow> run_state e = Running"
  shows "step_ok s (slot_mut s t f)"
proof (cases rule: slot_mut_cases [of s t f])
  case none
  then show ?thesis using assms(1) by (simp add: step_ok_refl)
next
  case (some e)
  show ?thesis unfolding some(1)
    by (rule step_ok_set_entity [OF assms(1) some(2)]) (use assms in auto)
qed

lemma entity_new_ok:
  obtains e where "entity_new t mode p g = Ok e" and "entity_ok t e" and "run_state e = Blocked"
    and "vruntime e = 0" and "base_priority e = min p MAX_PRIORITY" and "e_mode e = mode"
proof (rule base_priority_weight_Ok [of "min p MAX_PRIORITY"])
  fix w
  assume w: "base_priority_weight_fp (min p MAX_PRIORITY) = Ok w" "1024 \<le> unat w" "unat w \<le> 4096"
  show thesis
    by (rule that, simp add: entity_new_def Let_def w(1), simp_all add: entity_ok_def w)
qed

text \<open>Chain groups keep their members distinct.\<close>

lemma cg_ok_new: "cg_ok (cg_new g)"
  by (simp add: cg_ok_def cg_new_def)

lemma cg_ok_charge: "cg_ok (charge g i) = cg_ok g"
  by (simp add: cg_ok_def charge_def)

lemma cg_members_Ok: "cg_ok g \<Longrightarrow> cg_members g = Ok (take (cg_len g) (member_threads g))"
  by (simp add: cg_ok_def cg_members_def)

lemma add_member_ok:
  assumes "cg_ok g"
  obtains r g' where "add_member g t = (r, g')" and "r \<noteq> Panic" and "cg_ok g'"
proof (cases "t \<in> set (take (cg_len g) (member_threads g)) \<or> cg_len g \<ge> MAX_CHAIN_MEMBERS")
  case True
  then have "snd (add_member g t) = g \<and> fst (add_member g t) \<noteq> Panic"
    using cg_members_Ok [OF assms] by (auto simp: add_member_def)
  then show thesis using assms that [of "fst (add_member g t)" g] by (simp add: prod_eq_iff)
next
  case False
  let ?g = "g\<lparr>member_threads := (member_threads g)[cg_len g := t], cg_len := cg_len g + 1\<rparr>"
  have "cg_ok ?g"
    using False assms by (auto simp: cg_ok_def take_Suc_conv_app_nth distinct_append)
  moreover have "add_member g t = (Ok (), ?g)"
    using False assms cg_members_Ok [OF assms] by (auto simp: add_member_def cg_ok_def)
  ultimately show thesis using that by blast
qed

lemma shift_members_spec:
  assumes "k \<le> n" and "n \<le> length ts" and "1 \<le> k"
  shows "\<exists>rs. shift_members [k ..< n] ts = Ok rs \<and> length rs = length ts \<and>
    (\<forall>j < length ts. rs ! j = (if j < k - 1 then ts ! j else if j < n - 1 then ts ! Suc j
        else ts ! j))"
  using assms
proof (induction "n - k" arbitrary: k ts)
  case 0
  then show ?case by auto
next
  case (Suc d)
  then have k: "k < n" "k < length ts" by linarith+
  have "\<exists>rs. shift_members [Suc k ..< n] (ts[k - 1 := ts ! k]) = Ok rs \<and>
    length rs = length (ts[k - 1 := ts ! k]) \<and>
    (\<forall>j < length (ts[k - 1 := ts ! k]). rs ! j =
      (if j < Suc k - 1 then (ts[k - 1 := ts ! k]) ! j
       else if j < n - 1 then (ts[k - 1 := ts ! k]) ! Suc j else (ts[k - 1 := ts ! k]) ! j))"
    by (rule Suc(1)) (use Suc(2-) k in auto)
  then obtain rs where rs: "shift_members [Suc k ..< n] (ts[k - 1 := ts ! k]) = Ok rs"
    "length rs = length ts"
    "\<And>j. j < length ts \<Longrightarrow> rs ! j =
      (if j < k then (ts[k - 1 := ts ! k]) ! j
       else if j < n - 1 then (ts[k - 1 := ts ! k]) ! Suc j else (ts[k - 1 := ts ! k]) ! j)" by auto
  have "shift_members [k ..< n] ts = Ok rs" using k rs(1) by (simp add: upt_conv_Cons)
  moreover have "rs ! j = (if j < k - 1 then ts ! j else if j < n - 1 then ts ! Suc j else ts ! j)"
    if "j < length ts" for j
    using rs(3) [OF that] k Suc(5) that by (auto simp: nth_list_update)
  ultimately show ?case using rs(2) by blast
qed

lemma remove_member_ok:
  assumes ok: "cg_ok g"
  obtains r g' where "remove_member g t = (r, g')" and "r \<noteq> Panic" and "cg_ok g'"
proof (cases "find_index (\<lambda>u. u = t) (take (cg_len g) (member_threads g))")
  case None
  then show thesis using that ok cg_members_Ok [OF ok] by (simp add: remove_member_def)
next
  case (Some i)
  let ?n = "cg_len g" and ?ts = "member_threads g"
  have i: "i < ?n" "?n \<le> length ?ts"
    using find_index_Some [OF Some] ok by (auto simp: cg_ok_def)
  have "\<exists>rs. shift_members [i + 1 ..< ?n] ?ts = Ok rs \<and> length rs = length ?ts \<and>
    (\<forall>j < length ?ts. rs ! j = (if j < i + 1 - 1 then ?ts ! j else if j < ?n - 1 then ?ts ! Suc j
        else ?ts ! j))"
    by (rule shift_members_spec) (use i in auto)
  then obtain rs where rs: "shift_members [i + 1 ..< ?n] ?ts = Ok rs" "length rs = length ?ts"
    "\<And>j. j < length ?ts \<Longrightarrow> rs ! j = (if j < i then ?ts ! j else if j < ?n - 1 then ?ts ! Suc j
        else ?ts ! j)" by auto
  have "distinct (take ?n ?ts)" using ok by (simp add: cg_ok_def)
  then have d: "?ts ! a \<noteq> ?ts ! b" if "a < ?n" "b < ?n" "a \<noteq> b" for a b
    using that i(2) nth_eq_iff_index_eq [of "take ?n ?ts" a b] by simp
  have "distinct (take (?n - 1) rs)"
    unfolding distinct_conv_nth
  proof (intro allI impI)
    fix a b
    assume "a < length (take (?n - 1) rs)" "b < length (take (?n - 1) rs)" "a \<noteq> b"
    then have ab: "a < ?n - 1" "b < ?n - 1" "a < length ?ts" "b < length ?ts" "a \<noteq> b"
      using rs(2) by simp_all
    define f where "f j = (if j < i then j else Suc j)" for j
    have "rs ! a = ?ts ! f a" "rs ! b = ?ts ! f b"
      using rs(3) [OF ab(3)] rs(3) [OF ab(4)] ab(1,2) by (simp_all add: f_def)
    moreover have "f a < ?n" "f b < ?n" "f a \<noteq> f b" using ab by (auto simp: f_def)
    ultimately show "take (?n - 1) rs ! a \<noteq> take (?n - 1) rs ! b"
      using d [of "f a" "f b"] ab by simp
  qed
  then have "cg_ok (g\<lparr>member_threads := rs, cg_len := ?n - 1\<rparr>)"
    using ok rs(2) by (auto simp: cg_ok_def)
  moreover have "remove_member g t = (Ok (), g\<lparr>member_threads := rs, cg_len := ?n - 1\<rparr>)"
    using Some rs(1) cg_members_Ok [OF ok] by (simp add: remove_member_def)
  ultimately show thesis using that by blast
qed

section \<open>Every operation keeps the invariant\<close>

lemma sched_wf_parts:
  assumes "sched_wf s"
  shows "length (entities s) \<le> 2 ^ 32" and "entity s t = Some e \<Longrightarrow> entity_ok t e"
    and "sched_group s g = Some v \<Longrightarrow> cg_ok v"
  using assms by (simp_all add: sched_wf_def)

lemma sched_wf_set_group:
  assumes "sched_wf s" and "\<And>g. v = Some g \<Longrightarrow> cg_ok g"
  shows "sched_wf (set_group s gid v)"
  using assms by (auto simp: sched_wf_def)

lemma step_ok_set_group:
  assumes "sched_wf s" and "\<And>g. v = Some g \<Longrightarrow> cg_ok g" and "r \<noteq> Panic"
  shows "step_ok s (r, set_group s gid v)"
  using assms sched_wf_set_group [OF assms(1,2)]
  by (auto simp: step_ok_def vr_le_def single_running_def)

lemma step_ok_running_None:
  assumes "step_ok s (Ok (), s')"
    and "\<And>t e. entity s' t = Some e \<Longrightarrow> run_state e = Running \<Longrightarrow> running s' \<noteq> Some t"
  shows "step_ok s (Ok (), s'\<lparr>running := None\<rparr>)"
proof -
  have "sched_wf (s'\<lparr>running := None\<rparr>) = sched_wf s'" by (simp add: sched_wf_def)
  moreover have "vr_le s (s'\<lparr>running := None\<rparr>) = vr_le s s'" by (simp add: vr_le_def)
  moreover have "single_running (s'\<lparr>running := None\<rparr>)" if "single_running s'"
    using that assms(2) unfolding single_running_def by simp
  ultimately show ?thesis using assms(1) by (simp add: step_ok_def)
qed

lemma note_blocked_ok:
  assumes "sched_wf s"
  shows "step_ok s (note_blocked s t)"
proof (cases rule: slot_mut_cases [of s t "\<lambda>e. e\<lparr>run_state := Blocked\<rparr>"])
  case none
  then show ?thesis using assms by (simp add: note_blocked_def step_ok_refl)
next
  case (some e)
  have "step_ok s (slot_mut s t (\<lambda>e. e\<lparr>run_state := Blocked\<rparr>))"
    using assms by (intro slot_mut_ok) (auto simp: entity_ok_def)
  then show ?thesis unfolding some(1)
    using some by (auto simp: note_blocked_def some(1) intro!: step_ok_running_None)
qed

lemma admit_ok:
  assumes "sched_wf s"
  shows "fst (admit s t m p g) \<noteq> Panic" and "sched_wf (snd (admit s t m p g))"
    and "single_running s \<Longrightarrow> single_running (snd (admit s t m p g))"
    and "u \<noteq> t \<Longrightarrow> entity (snd (admit s t m p g)) u = entity s u"
    and "length (entities (snd (admit s t m p g))) = length (entities s)"
    and "as_usize t < length (entities s) \<Longrightarrow>
      \<exists>e. admit s t m p g = (Ok (), set_entity s t (Some e)) \<and> run_state e = Blocked"
  by (rule entity_new_ok [of t m p g];
    use assms in \<open>auto simp: admit_def sched_wf_def single_running_def\<close>)+

lemma join_group_ok:
  assumes "sched_wf s"
  shows "step_ok s (join_group s t gid)"
proof (cases "sched_group s gid")
  case None
  then show ?thesis using assms by (simp add: join_group_def step_ok_refl)
next
  case (Some g)
  then have "cg_ok g" using assms by (auto dest: sched_wf_parts)
  then obtain r g' where a: "add_member g t = (r, g')" "r \<noteq> Panic" "cg_ok g'"
    by (rule add_member_ok [where t = t])
  let ?s = "set_group s gid (Some g')"
  have grp: "step_ok s (x, ?s)" if "x \<noteq> Panic" for x
    using assms a(3) that by (intro step_ok_set_group) auto
  then have wf': "sched_wf ?s" by (auto simp: step_ok_def)
  have "step_ok ?s (slot_mut ?s t (\<lambda>e. e\<lparr>chain_grp := Some gid\<rparr>))"
    using wf' by (intro slot_mut_ok) (auto simp: entity_ok_def)
  then have "step_ok s (slot_mut ?s t (\<lambda>e. e\<lparr>chain_grp := Some gid\<rparr>))"
    by (auto simp: step_ok_def vr_le_def single_running_def)
  then show ?thesis using Some a grp
    by (cases r) (auto simp: join_group_def Let_def)
qed

lemma leave_group_ok:
  assumes "sched_wf s"
  shows "step_ok s (leave_group s t)"
proof (cases "Option.bind (entity s t) chain_grp")
  case None
  then show ?thesis using assms by (simp add: leave_group_def step_ok_refl)
next
  case gid: (Some gid)
  have upd: "step_ok s (slot_mut s' t (\<lambda>e. e\<lparr>chain_grp := None\<rparr>))"
    if "sched_wf s'" "entity s' = entity s" "running s' = running s"
      "length (entities s') = length (entities s)" for s'
  proof -
    have "step_ok s' (slot_mut s' t (\<lambda>e. e\<lparr>chain_grp := None\<rparr>))"
      using that(1) by (intro slot_mut_ok) (auto simp: entity_ok_def)
    then show ?thesis using that(2-)
      by (auto simp: step_ok_def vr_le_def single_running_def)
  qed
  show ?thesis
  proof (cases "sched_group s gid")
    case None
    then show ?thesis using gid upd [of s] assms by (simp add: leave_group_def)
  next
    case (Some g)
    then have "cg_ok g" using assms by (auto dest: sched_wf_parts)
    then obtain r g' where r: "remove_member g t = (r, g')" "r \<noteq> Panic" "cg_ok g'"
      by (rule remove_member_ok [where t = t])
    let ?v = "if cg_is_empty g' then None else Some g'"
    have "sched_wf (set_group s gid ?v)"
      using assms r(3) by (intro sched_wf_set_group) (auto split: if_splits)
    then show ?thesis using gid Some r upd [of "set_group s gid ?v"]
      by (simp add: leave_group_def Let_def)
  qed
qed

text \<open>\<open>account\<close>: the outcome, and why it cannot panic.\<close>

lemma account_cases:
  assumes "sched_wf s"
  obtains (idle) "account s now = (Ok (), s)" "running s = None"
  | (gone) t where "account s now = (Ok (), s\<lparr>running := None\<rparr>)" "running s = Some t"
      "entity s t = None"
  | (charged) t e e' s1 where "account s now = (Ok (), s1\<lparr>running := None\<rparr>)"
      "running s = Some t" "entity s t = Some e"
      "entity s1 = (entity s)(t \<mapsto> e')" "vruntime e \<le> vruntime e'"
      "e' = e\<lparr>vruntime := vruntime e'\<rparr> \<and> run_state e \<noteq> Running \<or>
       e' = e\<lparr>vruntime := vruntime e', run_state := Ready, became_ready_ns := now\<rparr> \<and>
         run_state e = Running"
      "running s1 = running s" "\<And>g v. sched_group s1 g = Some v \<Longrightarrow> cg_ok v"
      "length (entities s1) = length (entities s)"
      "\<And>g. sched_group s1 g = map_option (\<lambda>v. if chain_grp e = Some g
          then charge v (vruntime e' - vruntime e) else v) (sched_group s g)"
      "\<exists>w. effective_weight_fp (base_weight_fp e) (last_wait_ms e) (numa_local e) = Ok w \<and>
         vruntime_next (vruntime e) (saturating_sub now (running_since_ns s)) w = Ok (vruntime e')"
proof (cases "running s")
  case None
  then show thesis using idle by (simp add: account_def)
next
  case run: (Some t)
  show thesis
  proof (cases "entity s t")
    case None
    then show thesis using gone run by (simp add: account_def)
  next
    case (Some e)
    obtain w where w: "effective_weight_fp (base_weight_fp e) (last_wait_ms e) (numa_local e) = Ok w"
      by (rule effective_weight_Ok)
    obtain v where v: "vruntime_next (vruntime e) (saturating_sub now (running_since_ns s)) w = Ok v"
        "vruntime e \<le> v"
      by (rule vruntime_next_Ok)
    define e' where "e' = (let e' = e\<lparr>vruntime := v\<rparr> in if run_state e = Running
        then e'\<lparr>run_state := Ready, became_ready_ns := now\<rparr> else e')"
    define s0 where "s0 = set_entity s t (Some e')"
    define s1 where "s1 = (case chain_grp e of None \<Rightarrow> s0 | Some gid \<Rightarrow>
        (case sched_group s0 gid of None \<Rightarrow> s0
         | Some g \<Rightarrow> set_group s0 gid (Some (charge g (v - vruntime e)))))"
    have eq: "account s now = (Ok (), s1\<lparr>running := None\<rparr>)"
      unfolding account_def Let_def s1_def s0_def e'_def
      using v(2) by (simp only: run Some option.case w v(1) try_in_simps sub_or_panic_def if_True)
    note b = entity_bound [OF Some]
    have v': "vruntime e' = v" by (simp add: e'_def Let_def)
    have ent: "entity s1 = (entity s)(t \<mapsto> e')"
      using b by (auto simp: s1_def s0_def fun_eq_iff split: option.splits)
    have grp: "sched_group s1 g = map_option (\<lambda>v. if chain_grp e = Some g
          then charge v (vruntime e' - vruntime e) else v) (sched_group s g)" for g
      using group_bound [of s g]
      by (cases "chain_grp e"; cases "sched_group s g")
        (auto simp: s1_def s0_def v' split: option.splits)
    show thesis
    proof (rule charged [OF eq run Some ent])
      show "cg_ok x" if "sched_group s1 g = Some x" for g x
        using that assms by (auto simp: grp cg_ok_charge sched_wf_def split: if_splits)
      show "running s1 = running s" "length (entities s1) = length (entities s)"
        by (auto simp: s1_def s0_def split: option.splits)
      show "vruntime e \<le> vruntime e'" using v(2) v' by simp
      show "\<exists>w. effective_weight_fp (base_weight_fp e) (last_wait_ms e) (numa_local e) = Ok w \<and>
         vruntime_next (vruntime e) (saturating_sub now (running_since_ns s)) w = Ok (vruntime e')"
        using w v(1) v' by blast
    qed (use grp in \<open>auto simp: v' e'_def Let_def\<close>)
  qed
qed

lemma account_ok:
  assumes "sched_wf s"
  shows "step_ok s (account s now)" and "running (snd (account s now)) = None"
proof -
  from assms have "step_ok s (account s now) \<and> running (snd (account s now)) = None"
  proof (cases rule: account_cases [where now = now])
    case idle
    then show ?thesis using assms by (simp add: step_ok_refl)
  next
    case (gone t)
    have "step_ok s (Ok (), s)" using assms by (simp add: step_ok_refl)
    then have "step_ok s (Ok (), s\<lparr>running := None\<rparr>)"
      by (rule step_ok_running_None) (use gone in auto)
    then show ?thesis using gone(1) by simp
  next
    case (charged t e e' s1)
    have "entity_ok t e" using sched_wf_parts(2) [OF assms charged(3)] .
    moreover have "e_thread e' = e_thread e \<and> base_priority e' = base_priority e \<and>
        effective_priority e' = effective_priority e \<and> base_weight_fp e' = base_weight_fp e"
      using charged(6) by (elim disjE conjE) (erule ssubst, simp)+
    ultimately have ok: "entity_ok t e'" by (simp add: entity_ok_def)
    have idle: "run_state e' \<noteq> Running"
      using charged(6) by (elim disjE conjE) (erule ssubst, simp)+
    have "sched_wf s1"
      using assms ok charged(8) unfolding sched_wf_def charged(4,9) by simp
    moreover have "vr_le s s1" using charged(3,5) unfolding vr_le_def charged(4) by auto
    moreover have "single_running s1" if "single_running s"
      using that idle unfolding single_running_def charged(4,7) by simp
    ultimately have "step_ok s (Ok (), s1)" using charged(9) by (simp add: step_ok_def)
    then have "step_ok s (Ok (), s1\<lparr>running := None\<rparr>)"
      by (rule step_ok_running_None) (use charged(2,4,7) idle in auto)
    then show ?thesis using charged(1) by simp
  qed
  then show "step_ok s (account s now)" and "running (snd (account s now)) = None" by simp_all
qed

lemma dispatch_cases:
  obtains (none) "dispatch_thread s t now = (Err NoSuchThread, s)" "entity s t = None"
  | (some) e e' s' where "dispatch_thread s t now = (Ok (), s')" "entity s t = Some e"
      "entity s' = (entity s)(t \<mapsto> e')"
      "e' = e\<lparr>last_wait_ms := saturating_sub now (became_ready_ns e) div 1000000,
        run_state := Running\<rparr>"
      "running s' = Some t" "running_since_ns s' = now" "sched_group s' = sched_group s"
      "length (entities s') = length (entities s)"
proof (cases "entity s t")
  case None
  then show thesis using none by (simp add: dispatch_thread_def slot_mut_def)
next
  case (Some e)
  then show thesis using entity_bound [OF Some]
    by (intro some [where e = e and s' = "snd (dispatch_thread s t now)"])
      (auto simp: dispatch_thread_def slot_mut_def fun_eq_iff)
qed

lemma dispatch_ok:
  assumes "sched_wf s"
  shows "fst (dispatch_thread s t now) \<noteq> Panic" and "sched_wf (snd (dispatch_thread s t now))"
    and "vr_le s (snd (dispatch_thread s t now))"
    and "single_running s \<Longrightarrow> running s = None \<or> running s = Some t \<Longrightarrow>
      single_running (snd (dispatch_thread s t now))"
    and "length (entities (snd (dispatch_thread s t now))) = length (entities s)"
proof -
  have "fst (dispatch_thread s t now) \<noteq> Panic \<and> sched_wf (snd (dispatch_thread s t now)) \<and>
    vr_le s (snd (dispatch_thread s t now)) \<and>
    (single_running s \<longrightarrow> running s = None \<or> running s = Some t \<longrightarrow>
      single_running (snd (dispatch_thread s t now))) \<and>
    length (entities (snd (dispatch_thread s t now))) = length (entities s)"
  proof (cases rule: dispatch_cases [of s t now])
    case none
    then show ?thesis using assms by (auto simp: vr_le_def)
  next
    case (some e e' s')
    have "entity_ok t e'" using sched_wf_parts(2) [OF assms some(2)]
      by (simp add: some(4) entity_ok_def)
    then have "sched_wf s'"
      using assms unfolding sched_wf_def some(3,7,8) by simp
    moreover have "vr_le s s'" using some(2) unfolding vr_le_def some(3) by (auto simp: some(4))
    moreover have "single_running s'" if "single_running s" "running s = None \<or> running s = Some t"
      using that unfolding single_running_def some(3,5) by auto
    ultimately show ?thesis using some(1,8) by simp
  qed
  then show "fst (dispatch_thread s t now) \<noteq> Panic" "sched_wf (snd (dispatch_thread s t now))"
    "vr_le s (snd (dispatch_thread s t now))"
    "single_running s \<Longrightarrow> running s = None \<or> running s = Some t \<Longrightarrow>
      single_running (snd (dispatch_thread s t now))"
    "length (entities (snd (dispatch_thread s t now))) = length (entities s)"
    by simp_all
qed

datatype sched_op = Admit thread_id scheduler_mode u8 "chain_group_id option" | Remove thread_id
  | NoteReady thread_id u64 | NoteBlocked thread_id | SetNuma thread_id bool
  | Inherit thread_id u8 | Restore thread_id | CreateGroup chain_group_id
  | JoinGroup thread_id chain_group_id | LeaveGroup thread_id | Account u64
  | Dispatch thread_id u64

fun sched_step :: "sched_op \<Rightarrow> scheduler \<Rightarrow> (sched_error, unit) res \<times> scheduler" where
  "sched_step (Admit t m p g) s = admit s t m p g"
| "sched_step (Remove t) s = (Ok (), remove s t)"
| "sched_step (NoteReady t now) s = note_ready s t now"
| "sched_step (NoteBlocked t) s = note_blocked s t"
| "sched_step (SetNuma t b) s = set_numa_local s t b"
| "sched_step (Inherit t p) s = inherit_priority s t p"
| "sched_step (Restore t) s = restore_priority s t"
| "sched_step (CreateGroup g) s = create_group s g"
| "sched_step (JoinGroup t g) s = join_group s t g"
| "sched_step (LeaveGroup t) s = leave_group s t"
| "sched_step (Account now) s = account s now"
| "sched_step (Dispatch t now) s = dispatch_thread s t now"

text \<open>The discipline the callers keep: \<open>dispatch\<close> comes after \<open>account\<close>, that is with no
  other thread running.\<close>

fun disciplined :: "sched_op \<Rightarrow> scheduler \<Rightarrow> bool" where
  "disciplined (Dispatch t now) s \<longleftrightarrow> running s = None \<or> running s = Some t"
| "disciplined _ s \<longleftrightarrow> True"

fun admits :: "sched_op \<Rightarrow> thread_id \<Rightarrow> bool" where
  "admits (Admit t m p g) u \<longleftrightarrow> u = t"
| "admits _ u \<longleftrightarrow> False"

lemma remove_ok:
  assumes "sched_wf s"
  shows "step_ok s (Ok (), remove s t)"
proof -
  let ?s = "if entity s t \<noteq> None then set_entity s t None else s"
  have ent: "entity ?s u = (if u = t then None else entity s u)" for u
    using entity_bound [of s t] by auto
  have run: "running ?s = running s" and len: "length (entities ?s) = length (entities s)"
    and grp: "sched_group ?s = sched_group s" by simp_all
  have "sched_wf ?s" using assms unfolding sched_wf_def ent grp len by simp
  moreover have "vr_le s ?s" unfolding vr_le_def ent by auto
  moreover have "single_running ?s" if "single_running s"
    using that unfolding single_running_def ent run by simp
  ultimately have ok: "step_ok s (Ok (), ?s)" using len by (simp add: step_ok_def)
  show ?thesis
  proof (cases "running s = Some t")
    case True
    have "step_ok s (Ok (), ?s\<lparr>running := None\<rparr>)"
    proof (rule step_ok_running_None [OF ok])
      fix u e
      assume "entity ?s u = Some e"
      then show "running ?s \<noteq> Some u" using True unfolding ent run by (auto split: if_splits)
    qed
    then show ?thesis using True run by (simp add: remove_def Let_def)
  next
    case False
    then show ?thesis using ok run by (simp add: remove_def Let_def)
  qed
qed

lemma sched_step_ok:
  assumes "sched_wf s" and "\<And>t m p g. op \<noteq> Admit t m p g" and "\<And>t now. op \<noteq> Dispatch t now"
  shows "step_ok s (sched_step op s)"
proof (cases op)
  case (CreateGroup g)
  have "step_ok s (create_group s g)"
    using assms(1) cg_ok_new
    by (auto simp: create_group_def intro!: step_ok_refl step_ok_set_group)
  then show ?thesis using CreateGroup by simp
next
  case (NoteReady t now)
  have "step_ok s (note_ready s t now)" unfolding note_ready_def
    using assms(1) by (rule slot_mut_ok) (auto simp: entity_ok_def)
  then show ?thesis using NoteReady by simp
next
  case (SetNuma t b)
  have "step_ok s (set_numa_local s t b)" unfolding set_numa_local_def
    using assms(1) by (rule slot_mut_ok) (auto simp: entity_ok_def)
  then show ?thesis using SetNuma by simp
next
  case (Inherit t p)
  have "step_ok s (inherit_priority s t p)" unfolding inherit_priority_def
    using assms(1) by (rule slot_mut_ok) (auto simp: entity_ok_def intro: le_max_iff_disj [THEN iffD2])
  then show ?thesis using Inherit by simp
next
  case (Restore t)
  have "step_ok s (restore_priority s t)" unfolding restore_priority_def
    using assms(1) by (rule slot_mut_ok) (auto simp: entity_ok_def)
  then show ?thesis using Restore by simp
qed (use assms remove_ok note_blocked_ok join_group_ok leave_group_ok account_ok(1) in auto)

section \<open>Picking the next thread\<close>

definition ready_entities :: "scheduler \<Rightarrow> sched_entity set" where
  "ready_entities s = {e. \<exists>t. entity s t = Some e \<and> run_state e = Ready}"

definition key_of :: "scheduler \<Rightarrow> sched_entity \<Rightarrow> pick_key" where
  "key_of s e = (case pick_key s e of Ok k \<Rightarrow> k | _ \<Rightarrow> (0, 0, 0, 0))"

lemma pick_key_Ok:
  assumes "effective_priority e \<le> MAX_PRIORITY"
  shows "pick_key s e = Ok (key_of s e)"
proof -
  have "\<exists>k. pick_key s e = Ok k"
    using assms by (cases "e_mode e") (simp_all add: pick_key_def sub_or_panic_def Let_def)
  then show ?thesis by (auto simp: key_of_def)
qed

lemma pick_loop_spec:
  assumes "\<forall>e \<in> set es. effective_priority e \<le> MAX_PRIORITY" and "best = None \<longleftrightarrow> bt = None"
  shows "case pick_loop s es best bt of
      Ok None \<Rightarrow> bt = None \<and> (\<forall>e \<in> set es. run_state e \<noteq> Ready)
    | Ok (Some t) \<Rightarrow>
        (bt = Some t \<and> (\<forall>e \<in> set es. run_state e = Ready \<longrightarrow> the best \<le> key_of s e)) \<or>
        (\<exists>e \<in> set es. run_state e = Ready \<and> e_thread e = t \<and>
          (best \<noteq> None \<longrightarrow> key_of s e < the best) \<and>
          (\<forall>e' \<in> set es. run_state e' = Ready \<longrightarrow> key_of s e \<le> key_of s e'))
    | _ \<Rightarrow> False"
  using assms
proof (induction es arbitrary: best bt)
  case Nil
  then show ?case by (auto split: option.splits)
next
  case (Cons e es)
  show ?case
  proof (cases "run_state e = Ready")
    case False
    then show ?thesis using Cons.IH [of best bt] Cons.prems
      by (auto split: res.splits option.splits)
  next
    case True
    have k: "pick_key s e = Ok (key_of s e)" using Cons.prems by (intro pick_key_Ok) simp
    show ?thesis
    proof (cases "best = None \<or> key_of s e < the best")
      case better: True
      have eq: "pick_loop s (e # es) best bt = pick_loop s es (Some (key_of s e)) (Some (e_thread e))"
        using True better by (cases best) (simp_all add: k)
      have "\<forall>x \<in> set es. effective_priority x \<le> MAX_PRIORITY" using Cons.prems by simp
      from Cons.IH [OF this, of "Some (key_of s e)" "Some (e_thread e)"] show ?thesis
        unfolding eq using True better
        by (auto split: res.splits option.splits intro: less_imp_le dest: less_trans less_le_trans)
    next
      case worse: False
      then obtain b where b: "best = Some b" "b \<le> key_of s e" by (auto simp: not_less)
      have eq: "pick_loop s (e # es) best bt = pick_loop s es best bt"
        using True b(1) leD [OF b(2)] by (simp add: k)
      have "\<forall>x \<in> set es. effective_priority x \<le> MAX_PRIORITY" using Cons.prems by simp
      from Cons.IH [OF this Cons.prems(2)] show ?thesis
        unfolding eq using True b Cons.prems(2)
        by (auto split: res.splits option.splits dest: less_le_trans)
    qed
  qed
qed

lemma mem_entities:
  assumes "sched_wf s"
  shows "e \<in> set (flatten (entities s)) \<longleftrightarrow> (\<exists>t. entity s t = Some e)"
proof
  assume "e \<in> set (flatten (entities s))"
  then obtain i where i: "slot_at (entities s) i = Some e" by (auto simp: mem_flatten_iff)
  have "i < 2 ^ 32" using slot_at_length [OF i] assms by (simp add: sched_wf_def)
  then show "\<exists>t. entity s t = Some e" using i as_usize_of_nat by (metis entity_def)
next
  assume "\<exists>t. entity s t = Some e"
  then show "e \<in> set (flatten (entities s))" by (auto simp: mem_flatten_iff entity_def)
qed

lemma pick_next_spec:
  assumes "sched_wf s"
  obtains (none) "pick_next s now = Ok None" "ready_entities s = {}"
  | (some) t e where "pick_next s now = Ok (Some t)" "entity s t = Some e" "e_thread e = t"
      "run_state e = Ready" "\<And>e'. e' \<in> ready_entities s \<Longrightarrow> key_of s e \<le> key_of s e'"
proof -
  let ?es = "flatten (entities s)"
  have "\<forall>e \<in> set ?es. effective_priority e \<le> MAX_PRIORITY"
    using assms by (auto simp: mem_entities [OF assms] sched_wf_def entity_ok_def)
  note spec = pick_loop_spec [OF this, of None None s]
  have ready: "ready_entities s = {e \<in> set ?es. run_state e = Ready}"
    by (auto simp: ready_entities_def mem_entities [OF assms])
  show thesis
  proof (cases "pick_next s now")
    case (Ok r)
    show thesis
    proof (cases r)
      case None
      then show thesis using Ok spec ready none by (auto simp: pick_next_def)
    next
      case (Some t)
      then obtain e where e: "e \<in> set ?es" "run_state e = Ready" "e_thread e = t"
          "\<forall>e' \<in> set ?es. run_state e' = Ready \<longrightarrow> key_of s e \<le> key_of s e'"
        using Ok spec by (auto simp: pick_next_def)
      then obtain u where "entity s u = Some e" by (auto simp: mem_entities [OF assms])
      then have "entity s t = Some e" using assms e(3) by (auto simp: sched_wf_def entity_ok_def)
      then show thesis using some [of t e] Ok Some e ready by auto
    qed
  qed (use spec in \<open>auto simp: pick_next_def\<close>)
qed

lemma sched_wf_new: "NT \<le> 2 ^ 32 \<Longrightarrow> sched_wf (sched_new NT NCG q)"
  by (simp add: sched_wf_def sched_new_def entity_def sched_group_def)

lemma single_running_new: "single_running (sched_new NT NCG q)"
  by (simp add: single_running_def sched_new_def entity_def)

section \<open>Properties\<close>

text \<open>The scheduler of the witnesses: two interactive threads of priorities 5 and 9 and a
  throughput thread, all ready.\<close>

definition demo_ops :: "sched_op list" where
  "demo_ops = [Admit 0 Interactive 5 None, Admit 1 Interactive 9 None, Admit 2 Throughput 39 None,
     NoteReady 0 10, NoteReady 1 10, NoteReady 2 10]"

definition demo_sched :: scheduler where
  "demo_sched = fold (\<lambda>op s. snd (sched_step op s)) demo_ops (sched_new 4 2 1000000)"

lemma sched_steps_wf:
  "sched_wf s \<Longrightarrow> (\<And>op. op \<in> set ops \<Longrightarrow> \<forall>t now. op \<noteq> Dispatch t now) \<Longrightarrow>
     sched_wf (fold (\<lambda>op s. snd (sched_step op s)) ops s)"
proof (induction ops arbitrary: s)
  case (Cons op ops)
  have "sched_wf (snd (sched_step op s))"
  proof (cases "\<exists>t m p g. op = Admit t m p g")
    case True
    then show ?thesis using admit_ok(2) [OF Cons.prems(1)] by auto
  next
    case False
    then show ?thesis using sched_step_ok [OF Cons.prems(1), of op] Cons.prems(2)
      by (auto simp: step_ok_def)
  qed
  then show ?case using Cons by simp
qed simp

lemma demo_sched_wf: "sched_wf demo_sched"
  unfolding demo_sched_def demo_ops_def
  by (rule sched_steps_wf) (auto intro: sched_wf_new)



text \<open>C20: The scheduler's invariants hold over every operation. None panics; entities stay at
  the index of their thread, effective priority stays between the base priority and the
  maximum, chain groups keep distinct members; a thread's virtual runtime never decreases unless
  it is admitted anew; and at most one thread is marked running, the one \<open>running\<close> names,
  provided \<open>dispatch\<close> is called with no other thread running.\<close>

theorem scheduler_invariant:
  assumes "sched_wf s"
  shows "fst (sched_step op s) \<noteq> Panic \<and> sched_wf (snd (sched_step op s)) \<and>
    (single_running s \<and> disciplined op s \<longrightarrow> single_running (snd (sched_step op s))) \<and>
    (\<forall>t e e'. entity s t = Some e \<and> entity (snd (sched_step op s)) t = Some e' \<and> \<not> admits op t \<longrightarrow>
       vruntime e \<le> vruntime e')"
proof -
  have ?thesis if "step_ok s (sched_step op s)"
    using that by (auto simp: step_ok_def vr_le_def)
  moreover have ?thesis if "op = Admit t m p g" for t m p g
  proof -
    have "vruntime e \<le> vruntime e'" if "entity s u = Some e"
      "entity (snd (admit s t m p g)) u = Some e'" "u \<noteq> t" for u e e'
      using that admit_ok(4) [OF assms that(3)] by simp
    then show ?thesis using admit_ok(1,2,3) [OF assms] that by auto
  qed
  moreover have ?thesis if "op = Dispatch t now" for t now
    using dispatch_ok(1,2,3,4) [OF assms, of t now] that by (auto simp: vr_le_def)
  ultimately show ?thesis using sched_step_ok [OF assms, of op] by blast
qed

theorem scheduler_invariant_witness:
  "sched_wf (snd (sched_step (Dispatch 1 20) demo_sched)) \<and>
   single_running (snd (sched_step (Dispatch 1 20) demo_sched))"
proof -
  have s: "single_running demo_sched"
  proof -
    have "list_all (\<lambda>x. case x of None \<Rightarrow> True | Some e \<Rightarrow> run_state e \<noteq> Running)
        (entities demo_sched)" by code_simp
    then show ?thesis
      by (auto simp: single_running_def entity_def slot_at_Some_iff list_all_length)
  qed
  have "disciplined (Dispatch 1 20) demo_sched" by code_simp
  with s scheduler_invariant [OF demo_sched_wf, of "Dispatch 1 20"] show ?thesis by blast
qed

definition slice_weight :: "sched_entity \<Rightarrow> nat" where
  "slice_weight e = unat (base_weight_fp e) * aging (unat (last_wait_ms e)) div 1024 *
     numa (numa_local e) div 1024"

lemma slice_weight_bounds:
  assumes "entity_ok t e"
  shows "1024 \<le> slice_weight e" and "slice_weight e \<le> 8997"
proof -
  have b: "1024 \<le> unat (base_weight_fp e)" "unat (base_weight_fp e) \<le> 4096"
    using assms by (simp_all add: entity_ok_def)
  have a: "1024 \<le> aging (unat (last_wait_ms e))" "aging (unat (last_wait_ms e)) \<le> 2024"
    by (simp_all add: aging_def)
  have n: "1024 \<le> numa (numa_local e)" "numa (numa_local e) \<le> 1138" by (simp_all add: numa_def)
  let ?x = "unat (base_weight_fp e) * aging (unat (last_wait_ms e))"
  have "1024 * 1024 \<le> ?x" using b(1) a(1) by (intro mult_le_mono)
  then have x1: "1024 \<le> ?x div 1024" using div_le_mono [of "1024 * 1024" ?x 1024] by simp
  have "?x \<le> 4096 * 2024" using b(2) a(2) by (intro mult_le_mono)
  then have x2: "?x div 1024 \<le> 8096" using div_le_mono [of ?x "4096 * 2024" 1024] by simp
  have "1024 * 1024 \<le> ?x div 1024 * numa (numa_local e)" using x1 n(1) by (intro mult_le_mono)
  then show "1024 \<le> slice_weight e"
    using div_le_mono [of "1024 * 1024" _ 1024] by (simp add: slice_weight_def)
  have "?x div 1024 * numa (numa_local e) \<le> 8096 * 1138" using x2 n(2) by (intro mult_le_mono)
  then show "slice_weight e \<le> 8997"
    using div_le_mono [of _ "8096 * 1138" 1024] by (simp add: slice_weight_def)
qed

lemma quotient_small:
  assumes "1024 \<le> w" and "n < (2 :: nat) ^ 64"
  shows "n * 1024 div w < 2 ^ 64"
proof -
  have "n * 1024 div w \<le> n * 1024 div 1024" by (rule div_le_mono2) (use assms in simp_all)
  then show ?thesis using assms(2) by simp
qed

lemma slice_weight_Ok:
  assumes "entity_ok t e"
  obtains w where "effective_weight_fp (base_weight_fp e) (last_wait_ms e) (numa_local e) = Ok w"
    and "unat w = slice_weight e"
proof (rule effective_weight_Ok [of "base_weight_fp e" "last_wait_ms e" "numa_local e"])
  fix w
  assume w: "effective_weight_fp (base_weight_fp e) (last_wait_ms e) (numa_local e) = Ok w"
    "unat w = max (unat (base_weight_fp e) * aging (unat (last_wait_ms e)) div 1024 *
      numa (numa_local e) div 1024 mod 2 ^ 64) 1"
  show thesis
    by (rule that [OF w(1)])
      (use w(2) slice_weight_bounds [OF assms] in \<open>simp add: slice_weight_def [symmetric]\<close>)
qed

lemma vruntime_next_exact:
  assumes "1024 \<le> unat w"
  obtains v where "vruntime_next cur rt w = Ok v"
    and "unat v = min (unat cur + unat rt * 1024 div unat w) (2 ^ 64 - 1)"
proof (rule vruntime_next_Ok [of cur rt w])
  fix v
  assume v: "vruntime_next cur rt w = Ok v"
    "unat v = min (unat cur + unat rt * 1024 div max (unat w) 1 mod 2 ^ 64) (2 ^ 64 - 1)"
  have "unat rt < 2 ^ 64" using unat_bound [of rt] by simp
  with assms have "unat rt * 1024 div unat w < 2 ^ 64" by (rule quotient_small)
  then show thesis using that [OF v(1)] v(2) assms by (simp add: max_absorb1)
qed

text \<open>What a run slice costs. For a weight of at least 1.0 the next virtual runtime is the
  exact quotient \<open>runtime * 1024 / weight\<close> added with saturation; below 1.0 the quotient is
  truncated to 64 bits before the saturating addition, so a long slice can cost nothing. The
  weights of admitted threads lie between 1.0 and 8.8, so the truncation is never reached from
  \<open>account\<close>, and waiting longer never lowers a weight.\<close>

theorem slice_cost:
  "(vruntime_next 0 0x8000000000000000 1 = Ok 0) \<and>
   (WEIGHT_ONE \<le> w \<longrightarrow> (case vruntime_next cur rt w of
      Ok v \<Rightarrow> unat v = min (unat cur + unat rt * 1024 div unat w) (2 ^ 64 - 1)
    | _ \<Rightarrow> False)) \<and>
   (entity_ok t e \<longrightarrow> (case effective_weight_fp (base_weight_fp e) (last_wait_ms e) (numa_local e) of
      Ok w \<Rightarrow> unat w = slice_weight e \<and> WEIGHT_ONE \<le> w \<and> unat w \<le> 8997
    | _ \<Rightarrow> False))"
proof (intro conjI impI)
  show "vruntime_next 0 0x8000000000000000 1 = Ok 0" by code_simp
next
  assume "WEIGHT_ONE \<le> w"
  then have "1024 \<le> unat w" using sched_consts(1) by (simp add: word_le_nat_alt)
  then show "case vruntime_next cur rt w of
      Ok v \<Rightarrow> unat v = min (unat cur + unat rt * 1024 div unat w) (2 ^ 64 - 1) | _ \<Rightarrow> False"
    by (rule vruntime_next_exact [of w cur rt]) simp
next
  assume ok: "entity_ok t e"
  then obtain w where "effective_weight_fp (base_weight_fp e) (last_wait_ms e) (numa_local e) = Ok w"
      "unat w = slice_weight e" by (rule slice_weight_Ok)
  then show "case effective_weight_fp (base_weight_fp e) (last_wait_ms e) (numa_local e) of
      Ok w \<Rightarrow> unat w = slice_weight e \<and> WEIGHT_ONE \<le> w \<and> unat w \<le> 8997 | _ \<Rightarrow> False"
    using slice_weight_bounds [OF ok] by (simp add: word_le_nat_alt sched_consts)
qed

theorem slice_cost_witness:
  "(case vruntime_next 7 1000000 2048 of Ok v \<Rightarrow> unat v = 500007 | _ \<Rightarrow> False) \<and>
   WEIGHT_ONE \<le> 2048"
proof -
  have w: "WEIGHT_ONE \<le> 2048" by code_simp
  then show ?thesis
    using slice_cost [of 2048 7 1000000 0 undefined] by (auto split: res.splits)
qed

text \<open>The exact effect of \<open>account\<close> on the running thread.\<close>

lemma account_exact:
  assumes "sched_wf s" and "running s = Some t" and "entity s t = Some e"
  shows "\<exists>s' e'. account s now = (Ok (), s') \<and> entity s' = (entity s)(t \<mapsto> e') \<and>
    running s' = None \<and>
    unat (vruntime e') = min (unat (vruntime e) +
      (unat now - unat (running_since_ns s)) * 1024 div slice_weight e) (2 ^ 64 - 1) \<and>
    run_state e' = (if run_state e = Running then Ready else run_state e) \<and>
    (run_state e = Running \<longrightarrow> became_ready_ns e' = now) \<and>
    (\<forall>g. sched_group s' g = map_option (\<lambda>v. if chain_grp e = Some g
        then charge v (vruntime e' - vruntime e) else v) (sched_group s g))"
  using assms(1)
proof (cases rule: account_cases [where now = now])
  case (charged t' e0 e' s1)
  have eq: "t' = t" "e0 = e" using charged(2,3) assms by auto
  have ok: "entity_ok t e" using assms by (simp add: sched_wf_def)
  note b = slice_weight_bounds [OF ok]
  let ?rt = "saturating_sub now (running_since_ns s)"
  obtain w where w: "effective_weight_fp (base_weight_fp e) (last_wait_ms e) (numa_local e) = Ok w"
      "vruntime_next (vruntime e) ?rt w = Ok (vruntime e')"
    using charged(11) eq by blast
  have uw: "unat w = slice_weight e"
    using w(1) by (rule_tac slice_weight_Ok [OF ok]) simp
  have "unat (vruntime e') = min (unat (vruntime e) + unat ?rt * 1024 div slice_weight e)
      (2 ^ 64 - 1)"
    using vruntime_next_exact [of w "vruntime e" ?rt] w(2) b(1) unfolding uw by auto
  moreover have "run_state e' = (if run_state e = Running then Ready else run_state e) \<and>
    (run_state e = Running \<longrightarrow> became_ready_ns e' = now)"
    using charged(6) unfolding eq by (elim disjE conjE) (erule ssubst, simp)+
  ultimately show ?thesis
    using charged(1,4,10) unfolding eq
    by (intro exI [of _ "s1\<lparr>running := None\<rparr>"] exI [of _ e']) (simp add: unat_saturating_sub)
qed (use assms in auto)

text \<open>\<open>account\<close> charges the running thread exactly. Its virtual runtime grows by the time
  since it was dispatched divided by its weight, saturating; the same increment goes to its
  chain group and to no other group; a thread still marked running goes back to ready and starts
  waiting now, a blocked one stays blocked; no other entity changes and nothing is running
  afterwards.\<close>

theorem account_charges:
  assumes "sched_wf s" and "running s = Some t" and "entity s t = Some e"
  shows "\<exists>s' e'. account s now = (Ok (), s') \<and> entity s' = (entity s)(t \<mapsto> e') \<and>
    running s' = None \<and>
    unat (vruntime e') = min (unat (vruntime e) +
      (unat now - unat (running_since_ns s)) * 1024 div slice_weight e) (2 ^ 64 - 1) \<and>
    run_state e' = (if run_state e = Running then Ready else run_state e) \<and>
    (run_state e = Running \<longrightarrow> became_ready_ns e' = now) \<and>
    (\<forall>g. sched_group s' g = map_option (\<lambda>v. if chain_grp e = Some g
        then charge v (vruntime e' - vruntime e) else v) (sched_group s g))"
  using account_exact [OF assms] .

theorem account_charges_witness:
  "running (snd (account (snd (dispatch_thread demo_sched 1 20)) 1020)) = None \<and>
   map_option vruntime (entity (snd (account (snd (dispatch_thread demo_sched 1 20)) 1020)) 1) =
     Some 591"
proof -
  let ?s = "snd (dispatch_thread demo_sched 1 20)"
  have wf: "sched_wf ?s" using dispatch_ok(2) [OF demo_sched_wf] .
  have r: "running ?s = Some 1" by code_simp
  obtain e where e: "entity ?s 1 = Some e"
    by (cases "entity ?s 1") (simp_all add: demo_sched_def, code_simp)
  have "running (snd (account ?s 1020)) = None"
    using account_charges [OF wf r e, of 1020] by auto
  moreover have "map_option vruntime (entity (snd (account ?s 1020)) 1) = Some 591" by code_simp
  ultimately show ?thesis ..
qed

end
