(* ===== verification/HwManifest.thy ===== *)
theory HwManifest
  imports Untyped
begin

text \<open>
  \<open>hal/hal-manifest/src/raw.rs\<close>: the fixed-capacity tables of the hardware manifest, with
  the push and slice operations of the discovery code, and \<open>hal/hal-core/src/boot.rs\<close>: the
  boot structure handed to the microkernel and its validation. Padding fields, which nothing
  reads, are left out. The four tables meet one contract, \<open>bounded_table\<close>.
\<close>

definition MAX_MEMORY_REGIONS :: nat where "MAX_MEMORY_REGIONS = 256"
definition MAX_COMPUTE_DEVICES :: nat where "MAX_COMPUTE_DEVICES = 32"
definition MAX_POWER_DOMAINS :: nat where "MAX_POWER_DOMAINS = 16"
definition MAX_PERIPHERAL_DEVICES :: nat where "MAX_PERIPHERAL_DEVICES = 32"
definition SHORT_NAME_MAX_LEN :: nat where "SHORT_NAME_MAX_LEN = 32"

section \<open>Records\<close>

datatype memory_region_kind = Usable | Reserved | AcpiReclaimable | AcpiNvs | MmioKind
  | KernelImage | BootReserved

record memory_region =
  base_addr :: u64
  length_bytes :: u64
  region_kind :: memory_region_kind
  behind_iommu :: bool

definition memory_region_new :: "u64 \<Rightarrow> u64 \<Rightarrow> memory_region_kind \<Rightarrow> bool \<Rightarrow> memory_region" where
  "memory_region_new b n k i =
     \<lparr>base_addr = b, length_bytes = n, region_kind = k, behind_iommu = i\<rparr>"

definition ZERO_REGION :: memory_region where
  "ZERO_REGION = memory_region_new 0 0 Reserved False"

datatype compute_kind = Cpu | Gpu | Npu | Tpu | Fpga

record compute_device =
  cd_kind :: compute_kind
  vendor :: u32
  has_dedicated_memory :: bool
  dedicated_memory_bytes :: u64
  unified_memory_capable :: bool
  bandwidth_to_cpu_mbps :: u64
  short_name :: "u8 list"
  short_name_len :: u8
  cd_index :: u32

definition ZERO_COMPUTE :: compute_device where
  "ZERO_COMPUTE = \<lparr>cd_kind = Cpu, vendor = 0, has_dedicated_memory = False,
     dedicated_memory_bytes = 0, unified_memory_capable = False, bandwidth_to_cpu_mbps = 0,
     short_name = replicate SHORT_NAME_MAX_LEN 0, short_name_len = 0, cd_index = 0\<rparr>"

datatype peripheral_kind = UnknownDev | BlockDev | NetworkDev | GpuDev | ConsoleDev

record peripheral_device =
  pd_kind :: peripheral_kind
  mmio_base :: u64
  mmio_size :: u64
  pd_irq :: u32
  pd_index :: u32
  pd_config_space_base :: u64

definition peripheral_new :: "peripheral_kind \<Rightarrow> u64 \<Rightarrow> u64 \<Rightarrow> u32 \<Rightarrow> peripheral_device" where
  "peripheral_new k b n irq = \<lparr>pd_kind = k, mmio_base = b, mmio_size = n, pd_irq = irq,
     pd_index = 0, pd_config_space_base = 0\<rparr>"

definition peripheral_new_pci ::
  "peripheral_kind \<Rightarrow> u64 \<Rightarrow> u64 \<Rightarrow> u32 \<Rightarrow> u64 \<Rightarrow> peripheral_device" where
  "peripheral_new_pci k b n irq cfg = (peripheral_new k b n irq)\<lparr>pd_config_space_base := cfg\<rparr>"

definition ZERO_PERIPHERAL :: peripheral_device where
  "ZERO_PERIPHERAL = peripheral_new UnknownDev 0 0 0"

datatype interrupt_controller_kind = ApicXapic | ApicX2apic | Gicv3 | Gicv4 | PlicClic

record interrupt_controller_info =
  ic_kind :: interrupt_controller_kind
  primary_base :: u64
  has_secondary :: bool
  secondary_base :: u64
  irq_line_count :: u32
  ipi_target_core_count :: u32

definition ZERO_IC :: interrupt_controller_info where
  "ZERO_IC = \<lparr>ic_kind = ApicXapic, primary_base = 0, has_secondary = False, secondary_base = 0,
     irq_line_count = 0, ipi_target_core_count = 0\<rparr>"

datatype timer_kind = Tsc | Hpet | ArmGenericTimer | RiscvSbiTimer

record timer_info =
  tm_kind :: timer_kind
  frequency_hz :: u64
  supports_tickless :: bool

definition timer_new :: "timer_kind \<Rightarrow> u64 \<Rightarrow> bool \<Rightarrow> timer_info" where
  "timer_new k f s = \<lparr>tm_kind = k, frequency_hz = f, supports_tickless = s\<rparr>"

definition ZERO_TIMER :: timer_info where "ZERO_TIMER = timer_new Tsc 0 False"

record power_domain =
  domain_id :: u32
  associated_compute_device_index :: u32
  supports_dvfs :: bool
  has_thermal_sensor :: bool

definition NO_ASSOCIATED_DEVICE :: u32 where "NO_ASSOCIATED_DEVICE = - 1"

definition power_domain_new :: "u32 \<Rightarrow> u32 \<Rightarrow> bool \<Rightarrow> bool \<Rightarrow> power_domain" where
  "power_domain_new i a d t = \<lparr>domain_id = i, associated_compute_device_index = a,
     supports_dvfs = d, has_thermal_sensor = t\<rparr>"

definition ZERO_DOMAIN :: power_domain where
  "ZERO_DOMAIN = power_domain_new 0 NO_ASSOCIATED_DEVICE False False"

record hw_manifest =
  cpu_core_count :: u32
  cpu_feature_flags :: u64
  memory_region_count :: u32
  memory_region_table :: "memory_region list"
  compute_device_count :: u32
  compute_device_table :: "compute_device list"
  peripheral_device_count :: u32
  peripheral_device_table :: "peripheral_device list"
  interrupt_controller :: interrupt_controller_info
  timer :: timer_info
  power_domain_count :: u32
  power_domain_table :: "power_domain list"
  truncated_memory_regions :: u32
  truncated_compute_devices :: u32
  truncated_peripheral_devices :: u32
  truncated_power_domains :: u32

definition zeroed_manifest :: hw_manifest where
  "zeroed_manifest = \<lparr>cpu_core_count = 0, cpu_feature_flags = 0,
     memory_region_count = 0, memory_region_table = replicate MAX_MEMORY_REGIONS ZERO_REGION,
     compute_device_count = 0, compute_device_table = replicate MAX_COMPUTE_DEVICES ZERO_COMPUTE,
     peripheral_device_count = 0,
     peripheral_device_table = replicate MAX_PERIPHERAL_DEVICES ZERO_PERIPHERAL,
     interrupt_controller = ZERO_IC, timer = ZERO_TIMER,
     power_domain_count = 0, power_domain_table = replicate MAX_POWER_DOMAINS ZERO_DOMAIN,
     truncated_memory_regions = 0, truncated_compute_devices = 0,
     truncated_peripheral_devices = 0, truncated_power_domains = 0\<rparr>"

definition has_truncation :: "hw_manifest \<Rightarrow> bool" where
  "has_truncation m \<longleftrightarrow> truncated_memory_regions m > 0 \<or> truncated_compute_devices m > 0 \<or>
     truncated_peripheral_devices m > 0 \<or> truncated_power_domains m > 0"

section \<open>Slices and pushes\<close>

text \<open>\<open>&table[..count]\<close> panics when the count exceeds the array.\<close>

definition prefix_slice :: "'a list \<Rightarrow> u32 \<Rightarrow> ('e, 'a list) res" where
  "prefix_slice xs n = (if unat n \<le> length xs then Ok (take (unat n) xs) else Panic)"

definition memory_regions :: "hw_manifest \<Rightarrow> ('e, memory_region list) res" where
  "memory_regions m = prefix_slice (memory_region_table m) (memory_region_count m)"

definition compute_devices :: "hw_manifest \<Rightarrow> ('e, compute_device list) res" where
  "compute_devices m = prefix_slice (compute_device_table m) (compute_device_count m)"

definition peripheral_devices :: "hw_manifest \<Rightarrow> ('e, peripheral_device list) res" where
  "peripheral_devices m = prefix_slice (peripheral_device_table m) (peripheral_device_count m)"

definition power_domains :: "hw_manifest \<Rightarrow> ('e, power_domain list) res" where
  "power_domains m = prefix_slice (power_domain_table m) (power_domain_count m)"

definition push_memory_region :: "hw_manifest \<Rightarrow> memory_region \<Rightarrow> (unit, unit) res \<times> hw_manifest" where
  "push_memory_region m region =
     (let idx = unat (memory_region_count m) in
      if idx \<ge> MAX_MEMORY_REGIONS
      then try_in m (add_or_panic (truncated_memory_regions m) 1) (\<lambda>n.
        (Err (), m\<lparr>truncated_memory_regions := n\<rparr>))
      else if idx \<ge> length (memory_region_table m) then (Panic, m)
      else try_in m (add_or_panic (memory_region_count m) 1) (\<lambda>n.
        (Ok (), m\<lparr>memory_region_table := (memory_region_table m)[idx := region],
                 memory_region_count := n\<rparr>)))"

definition push_compute_device :: "hw_manifest \<Rightarrow> compute_device \<Rightarrow> (unit, unit) res \<times> hw_manifest" where
  "push_compute_device m device =
     (let idx = unat (compute_device_count m) in
      if idx \<ge> MAX_COMPUTE_DEVICES
      then try_in m (add_or_panic (truncated_compute_devices m) 1) (\<lambda>n.
        (Err (), m\<lparr>truncated_compute_devices := n\<rparr>))
      else let device = device\<lparr>cd_index := of_nat idx\<rparr> in
      if idx \<ge> length (compute_device_table m) then (Panic, m)
      else try_in m (add_or_panic (compute_device_count m) 1) (\<lambda>n.
        (Ok (), m\<lparr>compute_device_table := (compute_device_table m)[idx := device],
                 compute_device_count := n\<rparr>)))"

definition push_peripheral_device ::
  "hw_manifest \<Rightarrow> peripheral_device \<Rightarrow> (unit, unit) res \<times> hw_manifest" where
  "push_peripheral_device m device =
     (let idx = unat (peripheral_device_count m) in
      if idx \<ge> MAX_PERIPHERAL_DEVICES
      then try_in m (add_or_panic (truncated_peripheral_devices m) 1) (\<lambda>n.
        (Err (), m\<lparr>truncated_peripheral_devices := n\<rparr>))
      else let device = device\<lparr>pd_index := of_nat idx\<rparr> in
      if idx \<ge> length (peripheral_device_table m) then (Panic, m)
      else try_in m (add_or_panic (peripheral_device_count m) 1) (\<lambda>n.
        (Ok (), m\<lparr>peripheral_device_table := (peripheral_device_table m)[idx := device],
                 peripheral_device_count := n\<rparr>)))"

definition push_power_domain :: "hw_manifest \<Rightarrow> power_domain \<Rightarrow> (unit, unit) res \<times> hw_manifest" where
  "push_power_domain m domain =
     (let idx = unat (power_domain_count m) in
      if idx \<ge> MAX_POWER_DOMAINS
      then try_in m (add_or_panic (truncated_power_domains m) 1) (\<lambda>n.
        (Err (), m\<lparr>truncated_power_domains := n\<rparr>))
      else if idx \<ge> length (power_domain_table m) then (Panic, m)
      else try_in m (add_or_panic (power_domain_count m) 1) (\<lambda>n.
        (Ok (), m\<lparr>power_domain_table := (power_domain_table m)[idx := domain],
                 power_domain_count := n\<rparr>)))"

section \<open>The boot structure\<close>

datatype boot_protocol = Uefi | SbiDeviceTree

datatype hal_error = MalformedBootInfo

record boot_info =
  bi_magic :: u64
  bi_version :: u32
  protocol :: boot_protocol
  hardware_manifest :: hw_manifest
  initial_page_table_phys :: u64
  kernel_image_phys_start :: u64
  kernel_image_phys_end :: u64
  boot_reserved_phys_start :: u64
  boot_reserved_phys_end :: u64
  boot_core_id :: u32

definition BOOT_INFO_MAGIC :: u64 where "BOOT_INFO_MAGIC = 0x48414C424F4F5431"
definition BOOT_INFO_VERSION :: u32 where "BOOT_INFO_VERSION = 1"

definition boot_info_new ::
  "boot_protocol \<Rightarrow> hw_manifest \<Rightarrow> u64 \<Rightarrow> u64 \<times> u64 \<Rightarrow> u64 \<times> u64 \<Rightarrow> u32 \<Rightarrow> boot_info" where
  "boot_info_new proto m pt img reserved core =
     \<lparr>bi_magic = BOOT_INFO_MAGIC, bi_version = BOOT_INFO_VERSION, protocol = proto,
      hardware_manifest = m, initial_page_table_phys = pt,
      kernel_image_phys_start = fst img, kernel_image_phys_end = snd img,
      boot_reserved_phys_start = fst reserved, boot_reserved_phys_end = snd reserved,
      boot_core_id = core\<rparr>"

definition boot_validate :: "boot_info \<Rightarrow> (hal_error, unit) res" where
  "boot_validate b =
     (if bi_magic b \<noteq> BOOT_INFO_MAGIC then Err MalformedBootInfo
      else if bi_version b \<noteq> BOOT_INFO_VERSION then Err MalformedBootInfo
      else if kernel_image_phys_end b < kernel_image_phys_start b then Err MalformedBootInfo
      else if boot_reserved_phys_end b < boot_reserved_phys_start b then Err MalformedBootInfo
      else if memory_region_count (hardware_manifest b) = 0 then Err MalformedBootInfo
      else if frequency_hz (timer (hardware_manifest b)) = 0 then Err MalformedBootInfo
      else Ok ())"

definition overlaps_kernel_image :: "boot_info \<Rightarrow> u64 \<Rightarrow> bool" where
  "overlaps_kernel_image b a \<longleftrightarrow> a \<ge> kernel_image_phys_start b \<and> a < kernel_image_phys_end b"

definition overlaps_boot_reserved :: "boot_info \<Rightarrow> u64 \<Rightarrow> bool" where
  "overlaps_boot_reserved b a \<longleftrightarrow> a \<ge> boot_reserved_phys_start b \<and> a < boot_reserved_phys_end b"

section \<open>A contract for bounded tables\<close>

text \<open>Pushing a sequence of records; \<open>None\<close> if some push panicked.\<close>

fun push_all :: "('m \<Rightarrow> 'r \<Rightarrow> (unit, unit) res \<times> 'm) \<Rightarrow> 'r list \<Rightarrow> 'm \<Rightarrow> 'm option" where
  "push_all push [] m = Some m"
| "push_all push (r # rs) m = (case push m r of (Panic, _) \<Rightarrow> None
     | (Ok _, m') \<Rightarrow> push_all push rs m' | (Err _, m') \<Rightarrow> push_all push rs m')"

text \<open>The records with their position stamped in.\<close>

fun stamped :: "(nat \<Rightarrow> 'r \<Rightarrow> 'r) \<Rightarrow> nat \<Rightarrow> 'r list \<Rightarrow> 'r list" where
  "stamped st n [] = []"
| "stamped st n (r # rs) = st n r # stamped st (Suc n) rs"

lemma length_stamped [simp]: "length (stamped st n rs) = length rs"
  by (induction rs arbitrary: n) auto

locale bounded_table =
  fixes bound :: nat
    and inv :: "'m \<Rightarrow> bool"
    and items :: "'m \<Rightarrow> 'r list"
    and dropped :: "'m \<Rightarrow> u32"
    and push :: "'m \<Rightarrow> 'r \<Rightarrow> (unit, unit) res \<times> 'm"
    and stamp :: "nat \<Rightarrow> 'r \<Rightarrow> 'r"
  assumes bounded: "inv m \<Longrightarrow> length (items m) \<le> bound"
    and push_room: "inv m \<Longrightarrow> length (items m) < bound \<Longrightarrow>
      \<exists>m'. push m r = (Ok (), m') \<and> inv m' \<and> dropped m' = dropped m \<and>
        items m' = items m @ [stamp (length (items m)) r]"
    and push_full: "inv m \<Longrightarrow> length (items m) = bound \<Longrightarrow> unat (dropped m) + 1 < 2 ^ 32 \<Longrightarrow>
      \<exists>m'. push m r = (Err (), m') \<and> inv m' \<and> items m' = items m \<and>
        unat (dropped m') = unat (dropped m) + 1"
begin

text \<open>The table keeps the first records, in order, and counts the rest.\<close>

lemma push_all_exact:
  assumes "inv m" and "unat (dropped m) + length rs < 2 ^ 32"
  shows "\<exists>m'. push_all push rs m = Some m' \<and> inv m' \<and>
    items m' = items m @ take (bound - length (items m)) (stamped stamp (length (items m)) rs) \<and>
    unat (dropped m') = unat (dropped m) + (length rs - (bound - length (items m)))"
  using assms
proof (induction rs arbitrary: m)
  case Nil
  then show ?case by simp
next
  case (Cons r rs)
  show ?case
  proof (cases "length (items m) < bound")
    case True
    obtain m1 where m1: "push m r = (Ok (), m1)" "inv m1" "dropped m1 = dropped m"
      "items m1 = items m @ [stamp (length (items m)) r]"
      using push_room [OF Cons.prems(1) True] by blast
    have d: "bound - length (items m) = Suc (bound - length (items m1))"
      using True by (simp add: m1(4))
    from Cons.IH [OF m1(2)] Cons.prems(2) show ?thesis
      unfolding d by (simp add: m1)
  next
    case False
    then have full: "length (items m) = bound" using bounded [OF Cons.prems(1)] by simp
    obtain m1 where m1: "push m r = (Err (), m1)" "inv m1" "items m1 = items m"
      "unat (dropped m1) = unat (dropped m) + 1"
      using push_full [OF Cons.prems(1) full] Cons.prems(2) by auto
    from Cons.IH [OF m1(2)] Cons.prems(2) show ?thesis by (simp add: m1 full)
  qed
qed

end

definition manifest_wf :: "hw_manifest \<Rightarrow> bool" where
  "manifest_wf m \<longleftrightarrow>
     length (memory_region_table m) = MAX_MEMORY_REGIONS \<and>
     unat (memory_region_count m) \<le> MAX_MEMORY_REGIONS \<and>
     length (compute_device_table m) = MAX_COMPUTE_DEVICES \<and>
     unat (compute_device_count m) \<le> MAX_COMPUTE_DEVICES \<and>
     length (peripheral_device_table m) = MAX_PERIPHERAL_DEVICES \<and>
     unat (peripheral_device_count m) \<le> MAX_PERIPHERAL_DEVICES \<and>
     length (power_domain_table m) = MAX_POWER_DOMAINS \<and>
     unat (power_domain_count m) \<le> MAX_POWER_DOMAINS"

lemma prefix_slice_Ok: "unat n \<le> length xs \<Longrightarrow> prefix_slice xs n = Ok (take (unat n) xs)"
  by (simp add: prefix_slice_def)

lemma manifest_slices:
  assumes "manifest_wf m"
  shows "memory_regions m = Ok (take (unat (memory_region_count m)) (memory_region_table m))"
    and "compute_devices m = Ok (take (unat (compute_device_count m)) (compute_device_table m))"
    and "peripheral_devices m =
      Ok (take (unat (peripheral_device_count m)) (peripheral_device_table m))"
    and "power_domains m = Ok (take (unat (power_domain_count m)) (power_domain_table m))"
  using assms by (simp_all add: manifest_wf_def prefix_slice_Ok memory_regions_def
      compute_devices_def peripheral_devices_def power_domains_def)

lemma u32_incr:
  "unat (n :: u32) + 1 < 2 ^ 32 \<Longrightarrow>
     (add_or_panic n 1 :: (unit, u32) res) = Ok (n + 1) \<and> unat (n + 1) = unat n + 1"
  by (simp add: add_or_panic_Ok unat_add_exact)

lemmas manifest_bounds = MAX_MEMORY_REGIONS_def MAX_COMPUTE_DEVICES_def
  MAX_PERIPHERAL_DEVICES_def MAX_POWER_DOMAINS_def

lemmas push_defs = push_memory_region_def push_compute_device_def push_peripheral_device_def
  push_power_domain_def

lemma take_Suc_update:
  "i < length xs \<Longrightarrow> take (Suc i) (xs[i := x]) = take i xs @ [x]"
  by (simp add: take_Suc_conv_app_nth)

interpretation mem: bounded_table MAX_MEMORY_REGIONS manifest_wf
  "\<lambda>m. take (unat (memory_region_count m)) (memory_region_table m)"
  truncated_memory_regions push_memory_region "\<lambda>i r. r"
proof (unfold_locales, goal_cases)
  case (2 m r)
  then show ?case using u32_incr [of "memory_region_count m"]
    by (auto simp: push_defs manifest_wf_def manifest_bounds take_Suc_update)
next
  case (3 m r)
  then show ?case using u32_incr [of "truncated_memory_regions m"]
    by (auto simp: push_defs manifest_wf_def manifest_bounds)
qed (simp add: manifest_wf_def)

interpretation dev: bounded_table MAX_PERIPHERAL_DEVICES manifest_wf
  "\<lambda>m. take (unat (peripheral_device_count m)) (peripheral_device_table m)"
  truncated_peripheral_devices push_peripheral_device "\<lambda>i r. r\<lparr>pd_index := of_nat i\<rparr>"
proof (unfold_locales, goal_cases)
  case (2 m r)
  then show ?case using u32_incr [of "peripheral_device_count m"]
    by (auto simp: push_defs manifest_wf_def manifest_bounds take_Suc_update)
next
  case (3 m r)
  then show ?case using u32_incr [of "truncated_peripheral_devices m"]
    by (auto simp: push_defs manifest_wf_def manifest_bounds)
qed (simp add: manifest_wf_def)

interpretation cdev: bounded_table MAX_COMPUTE_DEVICES manifest_wf
  "\<lambda>m. take (unat (compute_device_count m)) (compute_device_table m)"
  truncated_compute_devices push_compute_device "\<lambda>i r. r\<lparr>cd_index := of_nat i\<rparr>"
proof (unfold_locales, goal_cases)
  case (2 m r)
  then show ?case using u32_incr [of "compute_device_count m"]
    by (auto simp: push_defs manifest_wf_def manifest_bounds take_Suc_update)
next
  case (3 m r)
  then show ?case using u32_incr [of "truncated_compute_devices m"]
    by (auto simp: push_defs manifest_wf_def manifest_bounds)
qed (simp add: manifest_wf_def)

interpretation pow: bounded_table MAX_POWER_DOMAINS manifest_wf
  "\<lambda>m. take (unat (power_domain_count m)) (power_domain_table m)"
  truncated_power_domains push_power_domain "\<lambda>i r. r"
proof (unfold_locales, goal_cases)
  case (2 m r)
  then show ?case using u32_incr [of "power_domain_count m"]
    by (auto simp: push_defs manifest_wf_def manifest_bounds take_Suc_update)
next
  case (3 m r)
  then show ?case using u32_incr [of "truncated_power_domains m"]
    by (auto simp: push_defs manifest_wf_def manifest_bounds)
qed (simp add: manifest_wf_def)

lemma manifest_wf_zeroed: "manifest_wf zeroed_manifest"
  by (simp add: manifest_wf_def zeroed_manifest_def)

section \<open>Property\<close>

text \<open>Pushing regions touches no other table.\<close>

lemma push_memory_region_rest:
  assumes "push_memory_region m r = (x, m')"
  shows "peripheral_device_table m' = peripheral_device_table m \<and>
    peripheral_device_count m' = peripheral_device_count m \<and>
    truncated_peripheral_devices m' = truncated_peripheral_devices m \<and>
    truncated_compute_devices m' = truncated_compute_devices m \<and>
    truncated_power_domains m' = truncated_power_domains m"
  using assms by (auto simp: push_memory_region_def Let_def try_in_def
      split: if_splits res.splits)

lemma push_memory_regions_rest:
  "push_all push_memory_region rs m = Some m' \<Longrightarrow>
    peripheral_device_table m' = peripheral_device_table m \<and>
    peripheral_device_count m' = peripheral_device_count m \<and>
    truncated_peripheral_devices m' = truncated_peripheral_devices m \<and>
    truncated_compute_devices m' = truncated_compute_devices m \<and>
    truncated_power_domains m' = truncated_power_domains m"
proof (induction rs arbitrary: m)
  case (Cons r rs)
  obtain x m1 where m1: "push_memory_region m r = (x, m1)" by fastforce
  with Cons.prems have "push_all push_memory_region rs m1 = Some m'"
    by (cases x) auto
  from Cons.IH [OF this] push_memory_region_rest [OF m1] show ?case by simp
qed simp

text \<open>Discovery loses nothing silently. Pushing any sequence of fewer than 2^32 memory
  regions, and then of peripherals, into a fresh manifest never panics; the slices handed to the
  kernel are the first 256 regions and the first 32 peripherals, in discovery order, each
  peripheral carrying its own position as index; everything beyond is counted, so
  \<open>has_truncation\<close> holds after the regions exactly when one was dropped.\<close>
theorem manifest_records:
  assumes "length rs < 2 ^ 32" and "length ds < 2 ^ 32"
  shows "\<exists>m m'. push_all push_memory_region rs zeroed_manifest = Some m \<and>
    push_all push_peripheral_device ds m = Some m' \<and>
    (memory_regions m :: (unit, _) res) = Ok (take MAX_MEMORY_REGIONS rs) \<and>
    (peripheral_devices m' :: (unit, _) res) =
      Ok (take MAX_PERIPHERAL_DEVICES (stamped (\<lambda>i d. d\<lparr>pd_index := of_nat i\<rparr>) 0 ds)) \<and>
    unat (truncated_memory_regions m) = length rs - MAX_MEMORY_REGIONS \<and>
    (has_truncation m \<longleftrightarrow> length rs > MAX_MEMORY_REGIONS) \<and>
    unat (truncated_peripheral_devices m') = length ds - MAX_PERIPHERAL_DEVICES"
proof -
  have z: "memory_region_count zeroed_manifest = 0" "truncated_memory_regions zeroed_manifest = 0"
    "peripheral_device_count zeroed_manifest = 0" "truncated_peripheral_devices zeroed_manifest = 0"
    "truncated_compute_devices zeroed_manifest = 0" "truncated_power_domains zeroed_manifest = 0"
    by (simp_all add: zeroed_manifest_def)
  have st: "stamped (\<lambda>i r. r) n xs = xs" for n and xs :: "memory_region list"
    by (induction xs arbitrary: n) auto
  obtain m where m: "push_all push_memory_region rs zeroed_manifest = Some m" "manifest_wf m"
    "take (unat (memory_region_count m)) (memory_region_table m) = take MAX_MEMORY_REGIONS rs"
    "unat (truncated_memory_regions m) = length rs - MAX_MEMORY_REGIONS"
    using mem.push_all_exact [OF manifest_wf_zeroed, of rs] assms(1) by (auto simp: z st)
  note r = push_memory_regions_rest [OF m(1)]
  obtain m' where m': "push_all push_peripheral_device ds m = Some m'" "manifest_wf m'"
    "take (unat (peripheral_device_count m')) (peripheral_device_table m') =
       take MAX_PERIPHERAL_DEVICES (stamped (\<lambda>i d. d\<lparr>pd_index := of_nat i\<rparr>) 0 ds)"
    "unat (truncated_peripheral_devices m') = length ds - MAX_PERIPHERAL_DEVICES"
    using dev.push_all_exact [OF m(2), of ds] assms(2) by (auto simp: r z)
  have "truncated_memory_regions m > 0 \<longleftrightarrow> length rs > MAX_MEMORY_REGIONS"
    using m(4) by (simp add: word_less_nat_alt)
  then have "has_truncation m \<longleftrightarrow> length rs > MAX_MEMORY_REGIONS"
    using r by (simp add: has_truncation_def z)
  then show ?thesis
    using m m' manifest_slices(1) [OF m(2)] manifest_slices(3) [OF m'(2)] by auto
qed

theorem manifest_records_witness:
  "\<exists>m. push_all push_memory_region [memory_region_new 0 4096 Usable False] zeroed_manifest = Some m \<and>
    (memory_regions m :: (unit, _) res) = Ok [memory_region_new 0 4096 Usable False]"
proof -
  have "length [memory_region_new 0 4096 Usable False] < 2 ^ 32"
    "length [] < (2 ^ 32 :: nat)" by simp_all
  from manifest_records [OF this] show ?thesis by (auto simp: manifest_bounds)
qed

end
