(* ===== verification/KState.thy ===== *)
theory KState
  imports Cdt AddrSpace Ipc Sched HwManifest
begin

text \<open>
  \<open>kernel/kernel-core/src/config.rs\<close>, \<open>tcb.rs\<close> and \<open>state.rs\<close>: the
  capacities, the thread control block, the aggregate of every object table, the slot
  allocators and accessors, and the construction of the initial state from the boot structure.

  An object table is a list of options of the configured length. Register contexts are opaque
  byte arrays, as in the source. A \<open>*_mut\<close> accessor hands out a mutable borrow; here it is
  the read of the slot, and the write back is the record update of the caller. The allocators
  return their \<open>Option\<close> next to the state.
\<close>

section \<open>Configuration\<close>

definition CONTEXT_BYTES :: nat where "CONTEXT_BYTES = 160"
definition MAX_THREADS :: nat where "MAX_THREADS = 96"
definition MAX_CHAIN_GROUPS :: nat where "MAX_CHAIN_GROUPS = 24"
definition MAX_CAP_SPACES :: nat where "MAX_CAP_SPACES = 16"
definition CAP_SLOTS_PER_SPACE :: nat where "CAP_SLOTS_PER_SPACE = 96"
definition MAX_ADDR_SPACES :: nat where "MAX_ADDR_SPACES = 24"
definition MAPPINGS_PER_SPACE :: nat where "MAPPINGS_PER_SPACE = 32"
definition MAX_UNTYPED :: nat where "MAX_UNTYPED = 80"
definition MAX_ENDPOINTS :: nat where "MAX_ENDPOINTS = 48"
definition MAX_NOTIFICATIONS :: nat where "MAX_NOTIFICATIONS = 48"
definition MAX_SHARED_REGIONS :: nat where "MAX_SHARED_REGIONS = 32"
definition MAX_MMIO_REGIONS :: nat where "MAX_MMIO_REGIONS = MAX_PERIPHERAL_DEVICES"
definition MAX_IRQ_BINDINGS :: nat where "MAX_IRQ_BINDINGS = 64"
definition ENDPOINT_QUEUE :: nat where "ENDPOINT_QUEUE = 8"
definition NOTIF_WAITERS :: nat where "NOTIF_WAITERS = 8"
definition INTERACTIVE_QUANTUM_NS :: u64 where "INTERACTIVE_QUANTUM_NS = 3000000"

lemmas config_defs = MAX_THREADS_def MAX_CHAIN_GROUPS_def MAX_CAP_SPACES_def
  CAP_SLOTS_PER_SPACE_def MAX_ADDR_SPACES_def MAPPINGS_PER_SPACE_def MAX_UNTYPED_def
  MAX_ENDPOINTS_def MAX_NOTIFICATIONS_def MAX_SHARED_REGIONS_def MAX_MMIO_REGIONS_def
  MAX_IRQ_BINDINGS_def ENDPOINT_QUEUE_def NOTIF_WAITERS_def MAX_PERIPHERAL_DEVICES_def

section \<open>Thread control blocks\<close>

datatype thread_state = Inactive | Runnable | BlockedOnSend | BlockedOnRecv | BlockedOnReply
  | BlockedOnNotification | Exited

definition is_blocked :: "thread_state \<Rightarrow> bool" where
  "is_blocked s \<longleftrightarrow> s \<in> {BlockedOnSend, BlockedOnRecv, BlockedOnReply, BlockedOnNotification}"

type_synonym cpu_context = "u8 list"

definition zeroed_context :: cpu_context where
  "zeroed_context = replicate CONTEXT_BYTES 0"

record tcb =
  t_id :: thread_id
  t_context :: cpu_context
  user_context :: cpu_context
  t_cap_space :: cap_space_id
  t_addr_space :: page_table_id
  t_entry :: virt_addr
  t_state :: thread_state
  pending_msg :: "small_message option"
  pending_from :: "thread_id option"

definition new_inactive :: "thread_id \<Rightarrow> cap_space_id \<Rightarrow> page_table_id \<Rightarrow> tcb" where
  "new_inactive t cs as = \<lparr>t_id = t, t_context = zeroed_context, user_context = zeroed_context,
     t_cap_space = cs, t_addr_space = as, t_entry = 0, t_state = Inactive,
     pending_msg = None, pending_from = None\<rparr>"

section \<open>The kernel state\<close>

datatype kernel_init_error = BadBootInfo | NoUsableMemory | CapacityExhausted | AlreadyInitialised

record mmio_descriptor =
  phys_base :: u64
  md_size :: u64
  md_irq :: u32
  config_space_base :: u64

record kernel_state =
  cap_tables :: cap_spaces
  untyped :: "untyped_memory option list"
  addr_spaces :: "address_space option list"
  endpoints :: "endpoint option list"
  notifications :: "notification option list"
  shared_regions :: "shared_region option list"
  mmio_regions :: "mmio_descriptor option list"
  irq_bindings :: "(u32 \<times> notification_id) option list"
  tcbs :: "tcb option list"
  sched :: scheduler
  root_thread :: thread_id
  root_cap_space :: cap_space_id
  root_addr_space :: page_table_id
  root_page_table_cap :: cap_id
  root_mmio_blk_cap :: cap_id
  root_mmio_net_cap :: cap_id
  untyped_count :: u32
  map_pool_base :: u64
  map_pool_len :: u32
  map_pool_used :: u32

definition NO_CAP :: cap_id where "NO_CAP = - 1"

definition EMPTY :: kernel_state where
  "EMPTY = \<lparr>cap_tables = replicate MAX_CAP_SPACES None,
     untyped = replicate MAX_UNTYPED None,
     addr_spaces = replicate MAX_ADDR_SPACES None,
     endpoints = replicate MAX_ENDPOINTS None,
     notifications = replicate MAX_NOTIFICATIONS None,
     shared_regions = replicate MAX_SHARED_REGIONS None,
     mmio_regions = replicate MAX_MMIO_REGIONS None,
     irq_bindings = replicate MAX_IRQ_BINDINGS None,
     tcbs = replicate MAX_THREADS None,
     sched = sched_new MAX_THREADS MAX_CHAIN_GROUPS INTERACTIVE_QUANTUM_NS,
     root_thread = 0, root_cap_space = 0, root_addr_space = 0,
     root_page_table_cap = NO_CAP, root_mmio_blk_cap = NO_CAP, root_mmio_net_cap = NO_CAP,
     untyped_count = 0, map_pool_base = 0, map_pool_len = 0, map_pool_used = 0\<rparr>"

section \<open>Slot allocation\<close>

definition alloc_cap_space :: "kernel_state \<Rightarrow> cap_space_id option \<times> kernel_state" where
  "alloc_cap_space st = (case first_none (cap_tables st) of
      None \<Rightarrow> (None, st)
    | Some i \<Rightarrow> let id = of_nat i in
        (Some id, st\<lparr>cap_tables := (cap_tables st)[i := Some (ct_new CAP_SLOTS_PER_SPACE id)]\<rparr>))"

definition alloc_addr_space :: "kernel_state \<Rightarrow> u64 \<Rightarrow> page_table_id option \<times> kernel_state" where
  "alloc_addr_space st root = (case first_none (addr_spaces st) of
      None \<Rightarrow> (None, st)
    | Some i \<Rightarrow> (Some (of_nat i),
        st\<lparr>addr_spaces := (addr_spaces st)[i := Some (as_new MAPPINGS_PER_SPACE root)]\<rparr>))"

definition alloc_untyped :: "kernel_state \<Rightarrow> u64 \<Rightarrow> u64 \<Rightarrow> untyped_id option \<times> kernel_state" where
  "alloc_untyped st base bytes = (case first_none (untyped st) of
      None \<Rightarrow> (None, st)
    | Some i \<Rightarrow> (Some (of_nat i), st\<lparr>untyped := (untyped st)[i := Some (ut_new base bytes)]\<rparr>))"

definition alloc_tcb ::
  "kernel_state \<Rightarrow> cap_space_id \<Rightarrow> page_table_id \<Rightarrow> thread_id option \<times> kernel_state" where
  "alloc_tcb st cs as = (case first_none (tcbs st) of
      None \<Rightarrow> (None, st)
    | Some i \<Rightarrow> let id = of_nat i in
        (Some id, st\<lparr>tcbs := (tcbs st)[i := Some (new_inactive id cs as)]\<rparr>))"

definition alloc_endpoint :: "kernel_state \<Rightarrow> endpoint_id option \<times> kernel_state" where
  "alloc_endpoint st = (case first_none (endpoints st) of
      None \<Rightarrow> (None, st)
    | Some i \<Rightarrow> (Some (of_nat i),
        st\<lparr>endpoints := (endpoints st)[i := Some (ep_new ENDPOINT_QUEUE)]\<rparr>))"

definition alloc_notification :: "kernel_state \<Rightarrow> notification_id option \<times> kernel_state" where
  "alloc_notification st = (case first_none (notifications st) of
      None \<Rightarrow> (None, st)
    | Some i \<Rightarrow> (Some (of_nat i),
        st\<lparr>notifications := (notifications st)[i := Some (nt_new NOTIF_WAITERS)]\<rparr>))"

definition alloc_shared_region ::
  "kernel_state \<Rightarrow> shared_region \<Rightarrow> shared_region_id option \<times> kernel_state" where
  "alloc_shared_region st region = (case first_none (shared_regions st) of
      None \<Rightarrow> (None, st)
    | Some i \<Rightarrow> (Some (of_nat i),
        st\<lparr>shared_regions := (shared_regions st)[i := Some region]\<rparr>))"

definition alloc_mmio_region_direct ::
  "kernel_state \<Rightarrow> mmio_descriptor \<Rightarrow> mmio_region_id option \<times> kernel_state" where
  "alloc_mmio_region_direct st descriptor = (case first_none (mmio_regions st) of
      None \<Rightarrow> (None, st)
    | Some i \<Rightarrow> (Some (of_nat i),
        st\<lparr>mmio_regions := (mmio_regions st)[i := Some descriptor]\<rparr>))"

definition bound_to :: "u32 \<Rightarrow> (u32 \<times> notification_id) option \<Rightarrow> bool" where
  "bound_to irq s = (case s of Some (i, _) \<Rightarrow> i = irq | None \<Rightarrow> False)"

definition bind_irq :: "kernel_state \<Rightarrow> u32 \<Rightarrow> notification_id \<Rightarrow> bool \<times> kernel_state" where
  "bind_irq st irq n = (case find_index (bound_to irq) (irq_bindings st) of
      Some i \<Rightarrow> (True, st\<lparr>irq_bindings := (irq_bindings st)[i := Some (irq, n)]\<rparr>)
    | None \<Rightarrow> (case first_none (irq_bindings st) of
          Some i \<Rightarrow> (True, st\<lparr>irq_bindings := (irq_bindings st)[i := Some (irq, n)]\<rparr>)
        | None \<Rightarrow> (False, st)))"

definition notification_for_irq :: "kernel_state \<Rightarrow> u32 \<Rightarrow> notification_id option" where
  "notification_for_irq st irq =
     map_option snd (find (\<lambda>b. fst b = irq) (flatten (irq_bindings st)))"

section \<open>Accessors\<close>

definition cap_space :: "kernel_state \<Rightarrow> cap_space_id \<Rightarrow> cap_table option" where
  "cap_space st i = slot_at (cap_tables st) (as_usize i)"

definition set_cap_space :: "kernel_state \<Rightarrow> cap_space_id \<Rightarrow> cap_table \<Rightarrow> kernel_state" where
  "set_cap_space st i t = st\<lparr>cap_tables := (cap_tables st)[as_usize i := Some t]\<rparr>"

definition cap_space_pair_mut ::
  "kernel_state \<Rightarrow> cap_space_id \<Rightarrow> cap_space_id \<Rightarrow> (cap_table \<times> cap_table) option" where
  "cap_space_pair_mut st src dst =
     (let si = as_usize src; di = as_usize dst in
      if si = di \<or> si \<ge> length (cap_tables st) \<or> di \<ge> length (cap_tables st) then None
      else Option.bind (slot_at (cap_tables st) si) (\<lambda>s.
        Option.bind (slot_at (cap_tables st) di) (\<lambda>d. Some (s, d))))"

definition untyped_mut :: "kernel_state \<Rightarrow> untyped_id \<Rightarrow> untyped_memory option" where
  "untyped_mut st i = slot_at (untyped st) (as_usize i)"

definition addr_space_mut :: "kernel_state \<Rightarrow> page_table_id \<Rightarrow> address_space option" where
  "addr_space_mut st i = slot_at (addr_spaces st) (as_usize i)"

definition endpoint_mut :: "kernel_state \<Rightarrow> endpoint_id \<Rightarrow> endpoint option" where
  "endpoint_mut st i = slot_at (endpoints st) (as_usize i)"

definition notification_mut :: "kernel_state \<Rightarrow> notification_id \<Rightarrow> notification option" where
  "notification_mut st i = slot_at (notifications st) (as_usize i)"

definition shared_region :: "kernel_state \<Rightarrow> shared_region_id \<Rightarrow> shared_region option" where
  "shared_region st i = slot_at (shared_regions st) (as_usize i)"

definition mmio_region :: "kernel_state \<Rightarrow> mmio_region_id \<Rightarrow> mmio_descriptor option" where
  "mmio_region st i = slot_at (mmio_regions st) (as_usize i)"

definition tcb_at :: "kernel_state \<Rightarrow> thread_id \<Rightarrow> tcb option" where
  "tcb_at st i = slot_at (tcbs st) (as_usize i)"

text \<open>\<open>if let Some(t) = self.tcb_mut(id) { ... }\<close>.\<close>

definition tcb_mut :: "kernel_state \<Rightarrow> thread_id \<Rightarrow> (tcb \<Rightarrow> tcb) \<Rightarrow> kernel_state" where
  "tcb_mut st i f = (case tcb_at st i of
      None \<Rightarrow> st
    | Some t \<Rightarrow> st\<lparr>tcbs := (tcbs st)[as_usize i := Some (f t)]\<rparr>)"

section \<open>The page-table frame pool\<close>

definition install_map_pool :: "kernel_state \<Rightarrow> u64 \<Rightarrow> u32 \<Rightarrow> kernel_state" where
  "install_map_pool st base len =
     st\<lparr>map_pool_base := base, map_pool_len := len, map_pool_used := 0\<rparr>"

definition map_pool_remaining :: "kernel_state \<Rightarrow> ('e, u64 \<times> u64) res" where
  "map_pool_remaining st =
     bind_res (mul_or_panic (ucast (map_pool_used st)) PAGE_SIZE) (\<lambda>off.
     bind_res (add_or_panic (map_pool_base st) off) (\<lambda>base.
     bind_res (sub_or_panic (map_pool_len st) (map_pool_used st)) (\<lambda>free.
     Ok (base, ucast free))))"

definition map_pool_advance :: "kernel_state \<Rightarrow> u32 \<Rightarrow> ('e, unit) res \<times> kernel_state" where
  "map_pool_advance st consumed =
     try_in st (add_or_panic (map_pool_used st) consumed) (\<lambda>n.
       (Ok (), st\<lparr>map_pool_used := n\<rparr>))"

section \<open>Carving holes out of a region\<close>

text \<open>\<open>while i > 0 && hs[i - 1].0 > a { hs[i] = hs[i - 1]; i -= 1; }\<close>\<close>

fun sift :: "nat \<Rightarrow> (u64 \<times> u64) list \<Rightarrow> u64 \<Rightarrow> nat \<times> (u64 \<times> u64) list" where
  "sift 0 hs a = (0, hs)"
| "sift (Suc i) hs a =
     (if fst (hs ! i) > a then sift i (hs[Suc i := hs ! i]) a else (Suc i, hs))"

fun collect_holes ::
  "u64 \<Rightarrow> u64 \<Rightarrow> (u64 \<times> u64) list \<Rightarrow> nat \<Rightarrow> (u64 \<times> u64) list \<Rightarrow> nat \<times> (u64 \<times> u64) list" where
  "collect_holes start fin [] n hs = (n, hs)"
| "collect_holes start fin ((a, b) # holes) n hs =
     (let a = max a start; b = min b fin in
      if a \<ge> b \<or> n \<ge> length hs then collect_holes start fin holes n hs
      else let (i, hs) = sift n hs a in collect_holes start fin holes (n + 1) (hs[i := (a, b)]))"

fun sweep ::
  "(u64 \<times> u64) list \<Rightarrow> u64 \<Rightarrow> nat \<Rightarrow> (u64 \<times> u64) list \<Rightarrow> u64 \<times> nat \<times> (u64 \<times> u64) list" where
  "sweep [] cur k out = (cur, k, out)"
| "sweep ((a, b) # hs) cur k out =
     (let (k, out) = (if a > cur \<and> k < length out then (k + 1, out[k := (cur, a)]) else (k, out))
      in sweep hs (if b > cur then b else cur) k out)"

definition subtract_holes ::
  "u64 \<Rightarrow> u64 \<Rightarrow> (u64 \<times> u64) list \<Rightarrow> (u64 \<times> u64) list \<Rightarrow> nat \<times> (u64 \<times> u64) list" where
  "subtract_holes start fin holes out =
     (let (n, hs) = collect_holes start fin holes 0 (replicate 8 (0, 0));
          (cur, k, out) = sweep (take n hs) start 0 out
      in if cur < fin \<and> k < length out then (k + 1, out[k := (cur, fin)]) else (k, out))"

section \<open>Boot\<close>

text \<open>The inner loop over the fragments of one region. The boolean is false after
  \<open>break 'regions\<close>.\<close>

fun seed_frags ::
  "cap_space_id \<Rightarrow> (u64 \<times> u64) list \<Rightarrow> u32 \<Rightarrow> kernel_state \<Rightarrow>
     (kernel_init_error, bool \<times> u32) res \<times> kernel_state" where
  "seed_frags cs [] made st = (Ok (True, made), st)"
| "seed_frags cs ((fs, fe) # frags) made st =
     (if saturating_sub fe fs < PAGE_SIZE then seed_frags cs frags made st
      else try_in st (sub_or_panic fe fs) (\<lambda>n.
        case alloc_untyped st fs n of
          (None, st) \<Rightarrow> (Ok (False, made), st)
        | (Some uid, st) \<Rightarrow> (case cap_space st cs of
              None \<Rightarrow> (Panic, st)
            | Some t \<Rightarrow> (case insert_root t (full (ObjectRef UntypedMemory uid)) of
                  (Ok _, t) \<Rightarrow> try_in (set_cap_space st cs t) (add_or_panic made 1) (\<lambda>made.
                    seed_frags cs frags made (set_cap_space st cs t))
                | (Err _, t) \<Rightarrow> (Ok (False, made), set_cap_space st cs t)
                | (Panic, t) \<Rightarrow> (Panic, set_cap_space st cs t)))))"

fun seed_regions ::
  "cap_space_id \<Rightarrow> (u64 \<times> u64) list \<Rightarrow> memory_region list \<Rightarrow> u32 \<Rightarrow> kernel_state \<Rightarrow>
     (kernel_init_error, u32) res \<times> kernel_state" where
  "seed_regions cs holes [] made st = (Ok made, st)"
| "seed_regions cs holes (r # rs) made st =
     (if region_kind r \<noteq> Usable \<or> length_bytes r < PAGE_SIZE
      then seed_regions cs holes rs made st
      else let (nfrags, frags) = subtract_holes (base_addr r)
               (saturating_add (base_addr r) (length_bytes r)) holes (replicate 8 (0, 0))
        in then_do (seed_frags cs (take nfrags frags) made st) (\<lambda>(go, made) st.
             if go then seed_regions cs holes rs made st else (Ok made, st)))"

text \<open>\<open>self.cap_space_mut(cs).expect(..).insert_root(cap)\<close>, with \<open>CapId::new(u32::MAX)\<close>
  for a refusal.\<close>

definition insert_or_none ::
  "kernel_state \<Rightarrow> cap_space_id \<Rightarrow> capability \<Rightarrow> (kernel_init_error, cap_id) res \<times> kernel_state" where
  "insert_or_none st cs cap = (case cap_space st cs of
      None \<Rightarrow> (Panic, st)
    | Some t \<Rightarrow> (case insert_root t cap of
          (Ok c, t) \<Rightarrow> (Ok c, set_cap_space st cs t)
        | (Err _, t) \<Rightarrow> (Ok NO_CAP, set_cap_space st cs t)
        | (Panic, t) \<Rightarrow> (Panic, set_cap_space st cs t)))"

definition seed_mmio ::
  "kernel_state \<Rightarrow> cap_space_id \<Rightarrow> peripheral_kind \<Rightarrow> peripheral_device list \<Rightarrow>
     (kernel_init_error, cap_id) res \<times> kernel_state" where
  "seed_mmio st cs kind devs = (case find (\<lambda>d. pd_kind d = kind) devs of
      None \<Rightarrow> (Ok NO_CAP, st)
    | Some d \<Rightarrow> (case alloc_mmio_region_direct st
          \<lparr>phys_base = mmio_base d, md_size = mmio_size d, md_irq = pd_irq d,
           config_space_base = pd_config_space_base d\<rparr> of
        (None, st) \<Rightarrow> (Ok NO_CAP, st)
      | (Some mid, st) \<Rightarrow> insert_or_none st cs (full (ObjectRef MmioRegion mid))))"

definition boot_holes :: "boot_info \<Rightarrow> (u64 \<times> u64) list" where
  "boot_holes b = [(kernel_image_phys_start b, kernel_image_phys_end b),
     (boot_reserved_phys_start b, boot_reserved_phys_end b), (0, kernel_image_phys_start b)]"

definition lift_sched ::
  "kernel_state \<Rightarrow> (sched_error, 'a) res \<times> scheduler \<Rightarrow> (sched_error, 'a) res \<times> kernel_state" where
  "lift_sched st m = (fst m, st\<lparr>sched := snd m\<rparr>)"

definition map_fst :: "('a \<Rightarrow> 'b) \<Rightarrow> 'a \<times> 's \<Rightarrow> 'b \<times> 's" where
  "map_fst f m = (f (fst m), snd m)"

definition exhausted :: "'a option \<times> kernel_state \<Rightarrow> (kernel_init_error, 'a) res \<times> kernel_state" where
  "exhausted = map_fst (\<lambda>x. ok_or x CapacityExhausted)"

definition populate_from_boot_info ::
  "kernel_state \<Rightarrow> boot_info \<Rightarrow> (kernel_init_error, unit) res \<times> kernel_state" where
  "populate_from_boot_info st boot =
     try_in st (map_err (\<lambda>_. BadBootInfo) (boot_validate boot)) (\<lambda>_.
     then_do (exhausted (alloc_cap_space st)) (\<lambda>root_cs st.
     then_do (exhausted (alloc_addr_space st (initial_page_table_phys boot))) (\<lambda>root_as st.
     then_do (exhausted (alloc_tcb st root_cs root_as)) (\<lambda>root_tid st.
     try_in st (memory_regions (hardware_manifest boot)) (\<lambda>regions.
     then_do (seed_regions root_cs (boot_holes boot) regions 0 st) (\<lambda>made st.
     if made = 0 then (Err NoUsableMemory, st) else
     then_do (insert_or_none st root_cs (full (ObjectRef PageTable root_as))) (\<lambda>pt_cap st.
     try_in st (peripheral_devices (hardware_manifest boot)) (\<lambda>devs.
     then_do (seed_mmio st root_cs BlockDev devs) (\<lambda>blk_cap st.
     then_do (seed_mmio st root_cs NetworkDev devs) (\<lambda>net_cap st.
     then_do (map_fst (map_err (\<lambda>_. CapacityExhausted))
       (lift_sched st (admit (sched st) root_tid Interactive MAX_PRIORITY None))) (\<lambda>_ st.
     then_do (map_fst (map_err (\<lambda>_. CapacityExhausted))
       (lift_sched st (note_ready (sched st) root_tid 0))) (\<lambda>_ st.
     let st = tcb_mut st root_tid (\<lambda>t. t\<lparr>t_entry := 0, t_state := Runnable\<rparr>) in
     (Ok (), st\<lparr>root_thread := root_tid, root_cap_space := root_cs, root_addr_space := root_as,
        root_page_table_cap := pt_cap, root_mmio_blk_cap := blk_cap,
        root_mmio_net_cap := net_cap, untyped_count := made\<rparr>)))))))))))))"

definition from_boot_info :: "boot_info \<Rightarrow> (kernel_init_error, kernel_state) res" where
  "from_boot_info boot = (case populate_from_boot_info EMPTY boot of
      (Ok _, st) \<Rightarrow> Ok st | (Err e, _) \<Rightarrow> Err e | (Panic, _) \<Rightarrow> Panic)"

text \<open>The two statics of \<open>init_global\<close>.\<close>

definition init_global ::
  "bool \<times> kernel_state \<Rightarrow> boot_info \<Rightarrow> (kernel_init_error, unit) res \<times> (bool \<times> kernel_state)" where
  "init_global g boot =
     (if fst g then (Err AlreadyInitialised, g)
      else (case populate_from_boot_info (snd g) boot of
          (Ok _, st) \<Rightarrow> (Ok (), (True, st))
        | (Err e, st) \<Rightarrow> (Err e, (False, st))
        | (Panic, st) \<Rightarrow> (Panic, (False, st))))"

fun sum_sizes :: "untyped_memory list \<Rightarrow> u64 \<Rightarrow> ('e, u64) res" where
  "sum_sizes [] acc = Ok acc"
| "sum_sizes (u # us) acc = bind_res (add_or_panic acc (ut_size u)) (sum_sizes us)"

definition total_untyped_bytes :: "kernel_state \<Rightarrow> ('e, u64) res" where
  "total_untyped_bytes st = sum_sizes (flatten (untyped st)) 0"

end
