(* ===== verification/KInv.thy ===== *)
theory KInv
  imports KState
begin

text \<open>
  The invariant of the kernel state, \<open>kwf\<close>, and the facts every handler proof uses: the
  allocators meet the contract of an object table, and writing a well-formed object into a slot
  of any table keeps the invariant. The invariant says that the tables have their configured
  capacities and their objects satisfy the invariants of their components, that every
  capability names a live object of its kind, that a thread's capability space and address
  space are live, that an interrupt is bound once and to a live notification, and that the
  frame pool is within its bounds.
\<close>

definition occ :: "'a option list \<Rightarrow> u32 \<Rightarrow> bool" where
  "occ tab i \<longleftrightarrow> slot_at tab (as_usize i) \<noteq> None"

fun object_live :: "kernel_state \<Rightarrow> object_ref \<Rightarrow> bool" where
  "object_live st r = (case obj_kind r of
      UntypedMemory \<Rightarrow> occ (untyped st) (obj_id r)
    | PageTable \<Rightarrow> occ (addr_spaces st) (obj_id r)
    | ThreadControlBlock \<Rightarrow> occ (tcbs st) (obj_id r)
    | Endpoint \<Rightarrow> occ (endpoints st) (obj_id r)
    | Notification \<Rightarrow> occ (notifications st) (obj_id r)
    | CapabilitySpace \<Rightarrow> occ (cap_tables st) (obj_id r)
    | SharedRegion \<Rightarrow> occ (shared_regions st) (obj_id r)
    | MmioRegion \<Rightarrow> occ (mmio_regions st) (obj_id r))"

declare object_live.simps [simp del]

definition caps_live :: "kernel_state \<Rightarrow> bool" where
  "caps_live st \<longleftrightarrow> (\<forall>g c. cap_at (cap_tables st) g = Some c \<longrightarrow> object_live st (cap_object c))"

definition shape :: "kernel_state \<Rightarrow> bool" where
  "shape st \<longleftrightarrow> length (cap_tables st) = MAX_CAP_SPACES \<and> length (untyped st) = MAX_UNTYPED \<and>
     length (addr_spaces st) = MAX_ADDR_SPACES \<and> length (endpoints st) = MAX_ENDPOINTS \<and>
     length (notifications st) = MAX_NOTIFICATIONS \<and>
     length (shared_regions st) = MAX_SHARED_REGIONS \<and>
     length (mmio_regions st) = MAX_MMIO_REGIONS \<and>
     length (irq_bindings st) = MAX_IRQ_BINDINGS \<and> length (tcbs st) = MAX_THREADS \<and>
     length (entities (sched st)) = MAX_THREADS"

definition slots_all :: "('a \<Rightarrow> bool) \<Rightarrow> 'a option list \<Rightarrow> bool" where
  "slots_all P tab \<longleftrightarrow> (\<forall>i x. slot_at tab i = Some x \<longrightarrow> P x)"

definition tcb_wf :: "kernel_state \<Rightarrow> nat \<Rightarrow> tcb \<Rightarrow> bool" where
  "tcb_wf st i t \<longleftrightarrow> t_id t = of_nat i \<and> occ (cap_tables st) (t_cap_space t) \<and>
     occ (addr_spaces st) (t_addr_space t)"

definition tcbs_wf :: "kernel_state \<Rightarrow> bool" where
  "tcbs_wf st \<longleftrightarrow> (\<forall>i t. slot_at (tcbs st) i = Some t \<longrightarrow> tcb_wf st i t)"

definition irqs_wf :: "kernel_state \<Rightarrow> bool" where
  "irqs_wf st \<longleftrightarrow>
     (\<forall>i b. slot_at (irq_bindings st) i = Some b \<longrightarrow> occ (notifications st) (snd b)) \<and>
     (\<forall>i j b c. slot_at (irq_bindings st) i = Some b \<longrightarrow> slot_at (irq_bindings st) j = Some c \<longrightarrow>
        fst b = fst c \<longrightarrow> i = j)"

definition pool_wf :: "kernel_state \<Rightarrow> bool" where
  "pool_wf st \<longleftrightarrow> unat (map_pool_used st) \<le> unat (map_pool_len st) \<and>
     unat (map_pool_base st) + unat (map_pool_len st) * 4096 < 2 ^ 64"

definition kwf :: "kernel_state \<Rightarrow> bool" where
  "kwf st \<longleftrightarrow> shape st \<and> cdt_wf CAP_SLOTS_PER_SPACE (cap_tables st) \<and> caps_live st \<and>
     slots_all ut_wf (untyped st) \<and>
     slots_all (\<lambda>s. as_wf MAPPINGS_PER_SPACE s \<and> as_fits s) (addr_spaces st) \<and>
     slots_all (ep_wf ENDPOINT_QUEUE) (endpoints st) \<and>
     slots_all (nt_wf NOTIF_WAITERS) (notifications st) \<and>
     tcbs_wf st \<and> irqs_wf st \<and> pool_wf st \<and> sched_wf (sched st) \<and> single_running (sched st)"

text \<open>No operation destroys an object: the set of live objects only grows.\<close>

definition live_le :: "kernel_state \<Rightarrow> kernel_state \<Rightarrow> bool" where
  "live_le st st' \<longleftrightarrow> (\<forall>r. object_live st r \<longrightarrow> object_live st' r)"

section \<open>Slots\<close>

lemma occ_update:
  "occ (xs[as_usize i := Some x]) j \<longleftrightarrow> occ xs j \<or> i = j \<and> as_usize i < length xs"
  by (auto simp: occ_def slot_at_update)

lemma occ_update_nat: "occ xs j \<Longrightarrow> occ (xs[i := Some x]) j"
  by (auto simp: occ_def slot_at_update)

lemma occ_replicate [simp]: "\<not> occ (replicate n None) i"
  by (simp add: occ_def)

lemma slots_all_update: "slots_all P tab \<Longrightarrow> P x \<Longrightarrow> slots_all P (tab[i := Some x])"
  by (auto simp: slots_all_def slot_at_update)

lemma slots_all_replicate [simp]: "slots_all P (replicate n None)"
  by (simp add: slots_all_def)

lemma slots_allD: "slots_all P tab \<Longrightarrow> slot_at tab i = Some x \<Longrightarrow> P x"
  by (simp add: slots_all_def)

lemma live_le_refl [simp]: "live_le st st"
  by (simp add: live_le_def)

lemma live_le_trans: "live_le a b \<Longrightarrow> live_le b c \<Longrightarrow> live_le a c"
  by (simp add: live_le_def)

lemma live_leI:
  assumes "\<And>i. occ (untyped st) i \<Longrightarrow> occ (untyped st') i"
    and "\<And>i. occ (addr_spaces st) i \<Longrightarrow> occ (addr_spaces st') i"
    and "\<And>i. occ (tcbs st) i \<Longrightarrow> occ (tcbs st') i"
    and "\<And>i. occ (endpoints st) i \<Longrightarrow> occ (endpoints st') i"
    and "\<And>i. occ (notifications st) i \<Longrightarrow> occ (notifications st') i"
    and "\<And>i. occ (cap_tables st) i \<Longrightarrow> occ (cap_tables st') i"
    and "\<And>i. occ (shared_regions st) i \<Longrightarrow> occ (shared_regions st') i"
    and "\<And>i. occ (mmio_regions st) i \<Longrightarrow> occ (mmio_regions st') i"
  shows "live_le st st'"
  using assms by (auto simp: live_le_def object_live.simps split: object_kind.splits)

text \<open>Writing into any table keeps every object live.\<close>

lemma live_le_put [simp]:
  "live_le st (st\<lparr>untyped := (untyped st)[i := Some u]\<rparr>)"
  "live_le st (st\<lparr>addr_spaces := (addr_spaces st)[i := Some a]\<rparr>)"
  "live_le st (st\<lparr>tcbs := (tcbs st)[i := Some t]\<rparr>)"
  "live_le st (st\<lparr>endpoints := (endpoints st)[i := Some e]\<rparr>)"
  "live_le st (st\<lparr>notifications := (notifications st)[i := Some n]\<rparr>)"
  "live_le st (st\<lparr>cap_tables := (cap_tables st)[i := Some c]\<rparr>)"
  "live_le st (st\<lparr>shared_regions := (shared_regions st)[i := Some r]\<rparr>)"
  "live_le st (st\<lparr>mmio_regions := (mmio_regions st)[i := Some m]\<rparr>)"
  "live_le st (st\<lparr>irq_bindings := b\<rparr>)" "live_le st (st\<lparr>sched := s\<rparr>)"
  "live_le st (st\<lparr>map_pool_used := k\<rparr>)"
  by (rule live_leI; simp add: occ_update_nat)+

lemma caps_live_mono:
  "caps_live st \<Longrightarrow> cap_tables st' = cap_tables st \<Longrightarrow> live_le st st' \<Longrightarrow> caps_live st'"
  by (auto simp: caps_live_def live_le_def)

section \<open>Writing one slot keeps the invariant\<close>

lemma kwf_put_untyped:
  "kwf st \<Longrightarrow> ut_wf u \<Longrightarrow> kwf (st\<lparr>untyped := (untyped st)[i := Some u]\<rparr>)"
  by (auto simp: kwf_def shape_def tcbs_wf_def tcb_wf_def irqs_wf_def pool_wf_def
      intro: slots_all_update caps_live_mono)

lemma kwf_put_addr_space:
  "kwf st \<Longrightarrow> as_wf MAPPINGS_PER_SPACE a \<Longrightarrow> as_fits a \<Longrightarrow>
     kwf (st\<lparr>addr_spaces := (addr_spaces st)[i := Some a]\<rparr>)"
  by (auto simp: kwf_def shape_def tcbs_wf_def tcb_wf_def irqs_wf_def pool_wf_def occ_update_nat
      intro: slots_all_update caps_live_mono)

lemma kwf_put_endpoint:
  "kwf st \<Longrightarrow> ep_wf ENDPOINT_QUEUE e \<Longrightarrow> kwf (st\<lparr>endpoints := (endpoints st)[i := Some e]\<rparr>)"
  by (auto simp: kwf_def shape_def tcbs_wf_def tcb_wf_def irqs_wf_def pool_wf_def
      intro: slots_all_update caps_live_mono)

lemma kwf_put_notification:
  "kwf st \<Longrightarrow> nt_wf NOTIF_WAITERS n \<Longrightarrow>
     kwf (st\<lparr>notifications := (notifications st)[i := Some n]\<rparr>)"
  by (auto simp: kwf_def shape_def tcbs_wf_def tcb_wf_def irqs_wf_def pool_wf_def occ_update_nat
      intro: slots_all_update caps_live_mono)

lemma kwf_put_shared_region:
  "kwf st \<Longrightarrow> kwf (st\<lparr>shared_regions := (shared_regions st)[i := Some r]\<rparr>)"
  by (auto simp: kwf_def shape_def tcbs_wf_def tcb_wf_def irqs_wf_def pool_wf_def
      intro: caps_live_mono)

lemma kwf_put_mmio_region:
  "kwf st \<Longrightarrow> kwf (st\<lparr>mmio_regions := (mmio_regions st)[i := Some m]\<rparr>)"
  by (auto simp: kwf_def shape_def tcbs_wf_def tcb_wf_def irqs_wf_def pool_wf_def
      intro: caps_live_mono)

lemma kwf_put_tcb:
  assumes "kwf st" and "tcb_wf st i t"
  shows "kwf (st\<lparr>tcbs := (tcbs st)[i := Some t]\<rparr>)"
  using assms
  by (auto simp: kwf_def shape_def tcbs_wf_def tcb_wf_def irqs_wf_def pool_wf_def slot_at_update
      intro: caps_live_mono)

lemma kwf_put_sched:
  "kwf st \<Longrightarrow> sched_wf s \<Longrightarrow> single_running s \<Longrightarrow> length (entities s) = MAX_THREADS \<Longrightarrow>
     kwf (st\<lparr>sched := s\<rparr>)"
  by (auto simp: kwf_def shape_def tcbs_wf_def tcb_wf_def irqs_wf_def pool_wf_def
      intro: caps_live_mono)

lemma kwf_put_pool:
  "kwf st \<Longrightarrow> unat k \<le> unat (map_pool_len st) \<Longrightarrow> kwf (st\<lparr>map_pool_used := k\<rparr>)"
  by (auto simp: kwf_def shape_def tcbs_wf_def tcb_wf_def irqs_wf_def pool_wf_def
      intro: caps_live_mono)

text \<open>A capability table: the derivation forest must be well formed again and every capability
  of it must name a live object.\<close>

lemma kwf_put_caps:
  assumes "kwf st" and "cdt_wf CAP_SLOTS_PER_SPACE tabs" and "length tabs = length (cap_tables st)"
    and "\<And>i. occ (cap_tables st) i \<Longrightarrow> occ tabs i"
    and "\<And>g c. cap_at tabs g = Some c \<Longrightarrow> cap_at (cap_tables st) g = Some c \<or>
      object_live st (cap_object c)"
  shows "kwf (st\<lparr>cap_tables := tabs\<rparr>)" and "live_le st (st\<lparr>cap_tables := tabs\<rparr>)"
proof -
  show le: "live_le st (st\<lparr>cap_tables := tabs\<rparr>)" using assms(4) by (intro live_leI) auto
  have "caps_live (st\<lparr>cap_tables := tabs\<rparr>)"
    using assms(1,5) le by (fastforce simp: kwf_def caps_live_def live_le_def)
  then show "kwf (st\<lparr>cap_tables := tabs\<rparr>)"
    using assms by (auto simp: kwf_def shape_def tcbs_wf_def tcb_wf_def irqs_wf_def pool_wf_def)
qed

section \<open>The allocators meet the contract of an object table\<close>

locale object_table =
  fixes tab :: "'s \<Rightarrow> 'o option list"
    and put :: "'o option list \<Rightarrow> 's \<Rightarrow> 's"
    and alloc :: "'s \<Rightarrow> 'p \<Rightarrow> u32 option \<times> 's"
    and mk :: "'p \<Rightarrow> u32 \<Rightarrow> 'o"
  assumes tab_put: "tab (put xs s) = xs"
    and alloc_full: "first_none (tab s) = None \<Longrightarrow> alloc s p = (None, s)"
    and alloc_room: "first_none (tab s) = Some i \<Longrightarrow>
      alloc s p = (Some (of_nat i), put ((tab s)[i := Some (mk p (of_nat i))]) s)"
begin

text \<open>An allocation refuses only a full table; otherwise it fills the first free slot with
  the fresh object, and the id it returns names that slot.\<close>

lemma alloc_cases:
  assumes "length (tab s) \<le> 2 ^ 32"
  obtains (full) "alloc s p = (None, s)" "\<And>i. as_usize i < length (tab s) \<Longrightarrow> occ (tab s) i"
  | (room) k where "alloc s p = (Some k, put ((tab s)[as_usize k := Some (mk p k)]) s)"
      "as_usize k < length (tab s)" "\<not> occ (tab s) k"
      "\<And>j. as_usize j < as_usize k \<Longrightarrow> occ (tab s) j"
proof (cases "first_none (tab s)")
  case None
  then show thesis using alloc_full [OF None] first_none_full [OF None]
    by (intro full) (force simp: occ_def)+
next
  case (Some i)
  note f = first_none_Some [OF Some]
  have i: "as_usize (of_nat i) = i" using f assms by (intro as_usize_of_nat) simp
  show thesis
    by (rule room [of "of_nat i"]) (use alloc_room [OF Some] f i in \<open>auto simp: occ_def slot_at_def\<close>)
qed

lemma alloc_room_occ:
  assumes "as_usize k < length (tab s)"
  shows "occ (tab (put ((tab s)[as_usize k := Some x]) s)) k"
  using assms by (simp add: tab_put occ_update)

end

interpretation cs: object_table cap_tables "\<lambda>xs st. st\<lparr>cap_tables := xs\<rparr>"
  "\<lambda>st (_ :: unit). alloc_cap_space st" "\<lambda>_. ct_new CAP_SLOTS_PER_SPACE"
  by unfold_locales (simp_all add: alloc_cap_space_def Let_def)

interpretation as: object_table addr_spaces "\<lambda>xs st. st\<lparr>addr_spaces := xs\<rparr>"
  alloc_addr_space "\<lambda>root _. as_new MAPPINGS_PER_SPACE root"
  by unfold_locales (simp_all add: alloc_addr_space_def)

interpretation ut: object_table untyped "\<lambda>xs st. st\<lparr>untyped := xs\<rparr>"
  "\<lambda>st p. alloc_untyped st (fst p) (snd p)" "\<lambda>p _. ut_new (fst p) (snd p)"
  by unfold_locales (simp_all add: alloc_untyped_def)

interpretation th: object_table tcbs "\<lambda>xs st. st\<lparr>tcbs := xs\<rparr>"
  "\<lambda>st p. alloc_tcb st (fst p) (snd p)" "\<lambda>p i. new_inactive i (fst p) (snd p)"
  by unfold_locales (simp_all add: alloc_tcb_def Let_def)

interpretation ep: object_table endpoints "\<lambda>xs st. st\<lparr>endpoints := xs\<rparr>"
  "\<lambda>st (_ :: unit). alloc_endpoint st" "\<lambda>_ _. ep_new ENDPOINT_QUEUE"
  by unfold_locales (simp_all add: alloc_endpoint_def)

interpretation nt: object_table notifications "\<lambda>xs st. st\<lparr>notifications := xs\<rparr>"
  "\<lambda>st (_ :: unit). alloc_notification st" "\<lambda>_ _. nt_new NOTIF_WAITERS"
  by unfold_locales (simp_all add: alloc_notification_def)

interpretation sr: object_table shared_regions "\<lambda>xs st. st\<lparr>shared_regions := xs\<rparr>"
  alloc_shared_region "\<lambda>r _. r"
  by unfold_locales (simp_all add: alloc_shared_region_def)

interpretation mm: object_table mmio_regions "\<lambda>xs st. st\<lparr>mmio_regions := xs\<rparr>"
  alloc_mmio_region_direct "\<lambda>d _. d"
  by unfold_locales (simp_all add: alloc_mmio_region_direct_def)

lemma kwf_lengths:
  assumes "kwf st"
  shows "length (cap_tables st) \<le> 2 ^ 32" "length (untyped st) \<le> 2 ^ 32"
    "length (addr_spaces st) \<le> 2 ^ 32" "length (tcbs st) \<le> 2 ^ 32"
    "length (endpoints st) \<le> 2 ^ 32" "length (notifications st) \<le> 2 ^ 32"
    "length (shared_regions st) \<le> 2 ^ 32" "length (mmio_regions st) \<le> 2 ^ 32"
    "length (irq_bindings st) \<le> 2 ^ 32"
  using assms by (simp_all add: kwf_def shape_def config_defs)

end
