(* ===== verification/Syscall.thy ===== *)
theory Syscall
  imports KInv
begin

text \<open>
  \<open>kernel/kernel-core/src/syscall.rs\<close>: the system-call set and \<open>KernelState::dispatch\<close>
  with every handler. A handler returns its result next to the state it leaves, also when it
  returns an error, so what the source leaves behind after an early return is visible.

  Of the \<open>HalInterface\<close> argument the handlers call two function pointers that return
  something, \<open>map_range\<close> and \<open>register_irq\<close>; they are the fields of the record
  \<open>hal_interface\<close>, a parameter of every call, so nothing is assumed about their behaviour
  from one call to the next. \<open>flush_tlb\<close> has no effect on this state.
\<close>

type_synonym irq_handler = u64

datatype syscall_op =
    Sys_Send cap_id small_message
  | Sys_Recv cap_id
  | Sys_Call cap_id small_message
  | Sys_Reply thread_id small_message
  | Sys_Yield
  | Sys_CapGrant cap_id cap_id rights
  | Sys_CapRevoke cap_id
  | Sys_Retype cap_id kernel_object_type u32
  | Sys_Map cap_id cap_id virt_addr map_permissions
  | Sys_Signal cap_id u64
  | Sys_Wait cap_id
  | Sys_Poll cap_id
  | Sys_IrqBind cap_id cap_id irq_handler

datatype syscall_return = Done | Value u64 | NewCaps cap_id u32 | Revoked u32 | Granted cap_id
  | Mapped | BlockedR | Delivered thread_id | Message thread_id small_message
  | Reschedule "thread_id option"

datatype syscall_error = NoCaller | BadCap | WrongObjectKind | InsufficientRights
  | ObjectTableFull | CapErr cap_table_error | MmErr mm_error | IpcErr ipc_error
  | SchedErr sched_error | NotBlockedOnReply | NotifyErr notification_error
  | IrqRegistrationFailed | Unsupported

type_synonym 'a sys = "(syscall_error, 'a) res \<times> kernel_state"

fun from_endpoint_error :: "endpoint_error \<Rightarrow> syscall_error" where
  "from_endpoint_error QueueFull = IpcErr IpcQueueFull"

record hal_interface =
  hal_map_range :: "u64 \<Rightarrow> u64 \<Rightarrow> u64 \<Rightarrow> u64 \<Rightarrow> u64 \<Rightarrow> u64 \<Rightarrow> u64 \<Rightarrow> u32"
  hal_register_irq :: "u32 \<Rightarrow> irq_handler \<Rightarrow> bool"

section \<open>Calls of the scheduler\<close>

text \<open>\<open>self.sched.op(..)?\<close>, \<open>let _ = self.sched.op(..);\<close> and \<open>pick_next\<close>.\<close>

definition sched_try ::
  "kernel_state \<Rightarrow> (scheduler \<Rightarrow> (sched_error, unit) res \<times> scheduler) \<Rightarrow> unit sys" where
  "sched_try st f = map_fst (map_err SchedErr) (lift_sched st (f (sched st)))"

definition sched_do ::
  "kernel_state \<Rightarrow> (scheduler \<Rightarrow> (sched_error, unit) res \<times> scheduler) \<Rightarrow>
     ('e, unit) res \<times> kernel_state" where
  "sched_do st f = (let (r, s) = f (sched st)
     in (if r = Panic then Panic else Ok (), st\<lparr>sched := s\<rparr>))"

definition wake_blocked :: "kernel_state \<Rightarrow> thread_id \<Rightarrow> u64 \<Rightarrow> ('e, unit) res \<times> kernel_state" where
  "wake_blocked st t now = sched_do st (\<lambda>s. note_ready s t now)"

definition reschedule :: "kernel_state \<Rightarrow> u64 \<Rightarrow> syscall_return sys" where
  "reschedule st now = try_in st (map_err SchedErr (pick_next (sched st) now)) (\<lambda>next.
     (Ok (Reschedule next), st))"

section \<open>Resolving a capability\<close>

definition resolve ::
  "kernel_state \<Rightarrow> thread_id \<Rightarrow> cap_id \<Rightarrow> object_kind \<Rightarrow> rights \<Rightarrow> (syscall_error, capability) res" where
  "resolve st caller cap kind needed =
     bind_res (ok_or (tcb_at st caller) NoCaller) (\<lambda>t.
     bind_res (ok_or (cap_space st (t_cap_space t)) NoCaller) (\<lambda>cs.
     bind_res (ok_or (ct_lookup cs cap) BadCap) (\<lambda>c.
     if obj_kind (cap_object c) \<noteq> kind then Err WrongObjectKind
     else if \<not> allows c needed then Err InsufficientRights
     else Ok c)))"

definition caller_cap_space :: "kernel_state \<Rightarrow> thread_id \<Rightarrow> (syscall_error, cap_space_id) res" where
  "caller_cap_space st caller =
     bind_res (ok_or (tcb_at st caller) NoCaller) (\<lambda>t. Ok (t_cap_space t))"

definition cap_kind_of :: "kernel_state \<Rightarrow> thread_id \<Rightarrow> cap_id \<Rightarrow> (syscall_error, object_kind) res" where
  "cap_kind_of st caller cap =
     bind_res (ok_or (tcb_at st caller) NoCaller) (\<lambda>t.
     bind_res (ok_or (cap_space st (t_cap_space t)) NoCaller) (\<lambda>cs.
     bind_res (ok_or (ct_lookup cs cap) BadCap) (\<lambda>c.
     Ok (obj_kind (cap_object c)))))"

section \<open>Retype\<close>

definition table_full :: "'a option \<times> kernel_state \<Rightarrow> 'a sys" where
  "table_full = map_fst (\<lambda>x. ok_or x ObjectTableFull)"

text \<open>The object-table slot for one retyped object.\<close>

fun alloc_object ::
  "kernel_state \<Rightarrow> thread_id \<Rightarrow> u64 \<Rightarrow> u64 \<Rightarrow> kernel_object_type \<Rightarrow> (object_kind \<times> u32) sys" where
  "alloc_object st caller obj_phys per Endpoint_T =
     then_do (table_full (alloc_endpoint st)) (\<lambda>i st. (Ok (Endpoint, i), st))"
| "alloc_object st caller obj_phys per Notification_T =
     then_do (table_full (alloc_notification st)) (\<lambda>i st. (Ok (Notification, i), st))"
| "alloc_object st caller obj_phys per PageTable_T =
     then_do (table_full (alloc_addr_space st obj_phys)) (\<lambda>i st. (Ok (PageTable, i), st))"
| "alloc_object st caller obj_phys per CapabilitySpace_T =
     then_do (table_full (alloc_cap_space st)) (\<lambda>i st. (Ok (CapabilitySpace, i), st))"
| "alloc_object st caller obj_phys per ThreadControlBlock_T =
     try_in st (ok_or (tcb_at st caller) NoCaller) (\<lambda>t.
       then_do (table_full (alloc_tcb st (t_cap_space t) (t_addr_space t))) (\<lambda>i st.
         (Ok (ThreadControlBlock, i), st)))"
| "alloc_object st caller obj_phys per Untyped_T =
     then_do (table_full (alloc_untyped st obj_phys per)) (\<lambda>i st. (Ok (UntypedMemory, i), st))"
| "alloc_object st caller obj_phys per SharedRegion_T =
     then_do (table_full (alloc_shared_region st (sr_new obj_phys per RW))) (\<lambda>i st.
       (Ok (SharedRegion, i), st))"

text \<open>\<open>for i in 0..grant.count\<close>, with the accumulators \<open>first\<close> and \<open>made\<close>.\<close>

fun retype_loop ::
  "kernel_state \<Rightarrow> thread_id \<Rightarrow> cap_space_id \<Rightarrow> u64 \<Rightarrow> u64 \<Rightarrow> kernel_object_type \<Rightarrow> nat list \<Rightarrow>
     cap_id option \<Rightarrow> u32 \<Rightarrow> (cap_id option \<times> u32) sys" where
  "retype_loop st caller cs phys per ty [] first made = (Ok (first, made), st)"
| "retype_loop st caller cs phys per ty (i # is) first made =
     try_in st (mul_or_panic (of_nat i) per) (\<lambda>off.
     try_in st (add_or_panic phys off) (\<lambda>obj_phys.
     then_do (alloc_object st caller obj_phys per ty) (\<lambda>(kind, obj_id) st.
     try_in st (ok_or (cap_space st cs) NoCaller) (\<lambda>t.
     let (r, t) = insert_root t (full (ObjectRef kind obj_id)) in
     then_do (map_err CapErr r, set_cap_space st cs t) (\<lambda>slot st.
     try_in st (add_or_panic made 1) (\<lambda>made.
       retype_loop st caller cs phys per ty is
         (case first of None \<Rightarrow> Some slot | Some f \<Rightarrow> Some f) made))))))"

definition do_retype ::
  "kernel_state \<Rightarrow> thread_id \<Rightarrow> cap_id \<Rightarrow> kernel_object_type \<Rightarrow> u32 \<Rightarrow> syscall_return sys" where
  "do_retype st caller untyped_cap target_type cnt =
     try_in st (resolve st caller untyped_cap UntypedMemory WRITE) (\<lambda>ucap.
     let uid = obj_id (cap_object ucap) in
     try_in st (ok_or (untyped_mut st uid) BadCap) (\<lambda>u.
     let (r, u) = retype u target_type cnt in
     then_do (map_err MmErr r, st\<lparr>untyped := (untyped st)[as_usize uid := Some u]\<rparr>) (\<lambda>grant st.
     try_in st (caller_cap_space st caller) (\<lambda>cs_id.
     let per = object_size_bytes target_type in
     then_do (retype_loop st caller cs_id (grant_phys grant) per target_type
         [0 ..< unat (grant_count grant)] None 0) (\<lambda>(first, made) st.
     try_in st (ok_or first (MmErr ZeroCount)) (\<lambda>c. (Ok (NewCaps c made), st)))))))"

section \<open>Capability grant and revocation\<close>

definition do_cap_revoke :: "kernel_state \<Rightarrow> thread_id \<Rightarrow> cap_id \<Rightarrow> syscall_return sys" where
  "do_cap_revoke st caller cap =
     try_in st (cap_kind_of st caller cap) (\<lambda>kind.
     try_in st (resolve st caller cap kind REVOKE) (\<lambda>_.
     try_in st (caller_cap_space st caller) (\<lambda>cs_id.
     let (r, tabs) = revoke_cross_space CAP_SLOTS_PER_SPACE (cap_tables st) (GlobalCapId cs_id cap) in
     then_do (map_err CapErr r, st\<lparr>cap_tables := tabs\<rparr>) (\<lambda>freed st.
     (Ok (Revoked freed), st)))))"

definition do_cap_grant ::
  "kernel_state \<Rightarrow> thread_id \<Rightarrow> cap_id \<Rightarrow> cap_id \<Rightarrow> rights \<Rightarrow> syscall_return sys" where
  "do_cap_grant st caller target_thread cap rights =
     try_in st (resolve st caller target_thread ThreadControlBlock WRITE) (\<lambda>tcap.
     try_in st (ok_or (tcb_at st (obj_id (cap_object tcap))) BadCap) (\<lambda>dst_tcb.
     let dst_cs = t_cap_space dst_tcb in
     try_in st (cap_kind_of st caller cap) (\<lambda>kind.
     try_in st (resolve st caller cap kind GRANT) (\<lambda>_.
     try_in st (caller_cap_space st caller) (\<lambda>src_cs.
     try_in st (ok_or (cap_space_pair_mut st src_cs dst_cs) BadCap) (\<lambda>(src, dst).
     let (r, dst) = derive_child_cross_space src src_cs cap dst rights 0 in
     then_do (map_err CapErr r, set_cap_space st dst_cs dst) (\<lambda>dst_slot st.
     (Ok (Granted dst_slot), st))))))))"

section \<open>Map\<close>

definition map_need :: "map_permissions \<Rightarrow> rights" where
  "map_need perms = (if executable perms then READ OR EXECUTE
     else if writable perms then READ OR WRITE else READ)"

definition perm_bits :: "map_permissions \<Rightarrow> u64" where
  "perm_bits perms = (if readable perms then 1 else 0)
     OR push_bit 1 (if writable perms then 1 else 0)
     OR push_bit 2 (if executable perms then 1 else 0) OR push_bit 3 1"

definition frame_phys :: "kernel_state \<Rightarrow> object_ref \<Rightarrow> (syscall_error, phys_addr) res" where
  "frame_phys st r = (case obj_kind r of
      UntypedMemory \<Rightarrow> bind_res (ok_or (untyped_mut st (obj_id r)) BadCap) (\<lambda>u. Ok (ut_base u))
    | MmioRegion \<Rightarrow> bind_res (ok_or (mmio_region st (obj_id r)) BadCap) (\<lambda>m. Ok (phys_base m))
    | _ \<Rightarrow> Err WrongObjectKind)"

definition do_map ::
  "kernel_state \<Rightarrow> thread_id \<Rightarrow> cap_id \<Rightarrow> cap_id \<Rightarrow> virt_addr \<Rightarrow> map_permissions \<Rightarrow>
     hal_interface \<Rightarrow> syscall_return sys" where
  "do_map st caller page_table frame vaddr perms hal =
     try_in st (resolve st caller page_table PageTable WRITE) (\<lambda>pt.
     try_in st (ok_or (tcb_at st caller) NoCaller) (\<lambda>t.
     try_in st (ok_or (cap_space st (t_cap_space t)) NoCaller) (\<lambda>cs.
     try_in st (ok_or (ct_lookup cs frame) BadCap) (\<lambda>fr.
     if \<not> allows fr (map_need perms) then (Err InsufficientRights, st) else
     try_in st (frame_phys st (cap_object fr)) (\<lambda>paddr.
     let as_id = obj_id (cap_object pt) in
     try_in st (ok_or (addr_space_mut st as_id) BadCap) (\<lambda>space.
     let (r, space) = as_map space vaddr paddr PAGE_SIZE perms in
     then_do (map_err MmErr r, st\<lparr>addr_spaces := (addr_spaces st)[as_usize as_id := Some space]\<rparr>)
       (\<lambda>_ st.
     if map_pool_base st = 0 then (Ok Mapped, st) else
     try_in st (map_pool_remaining st) (\<lambda>(pool_base, pool_len).
     let consumed = hal_map_range hal (root_phys space) vaddr paddr PAGE_SIZE (perm_bits perms)
           pool_base pool_len in
     if consumed = - 1
     then (case addr_space_mut st as_id of
         None \<Rightarrow> (Err (MmErr HardwareMapFailed), st)
       | Some space \<Rightarrow> (let (r, space) = as_unmap space vaddr;
             st = st\<lparr>addr_spaces := (addr_spaces st)[as_usize as_id := Some space]\<rparr>
           in (if r = Panic then Panic else Err (MmErr HardwareMapFailed), st)))
     else then_do (map_pool_advance st consumed) (\<lambda>_ st. (Ok Mapped, st))))))))))"

section \<open>Notifications and interrupts\<close>

definition put_notification :: "kernel_state \<Rightarrow> notification_id \<Rightarrow> notification \<Rightarrow> kernel_state" where
  "put_notification st i n = st\<lparr>notifications := (notifications st)[as_usize i := Some n]\<rparr>"

fun wake_all :: "thread_id list \<Rightarrow> u64 \<Rightarrow> kernel_state \<Rightarrow> unit sys" where
  "wake_all [] now st = (Ok (), st)"
| "wake_all (t # ts) now st = then_do (wake_blocked st t now) (\<lambda>_ st. wake_all ts now st)"

definition do_signal :: "kernel_state \<Rightarrow> thread_id \<Rightarrow> cap_id \<Rightarrow> u64 \<Rightarrow> u64 \<Rightarrow> syscall_return sys" where
  "do_signal st caller notif bits now =
     try_in st (resolve st caller notif Notification WRITE) (\<lambda>cap.
     let nid = obj_id (cap_object cap) in
     try_in st (ok_or (notification_mut st nid) BadCap) (\<lambda>n.
     let (r, n) = nt_signal n bits in
     then_do (map_err NotifyErr r, put_notification st nid n) (\<lambda>woken st.
     then_do (wake_all (woken_slice woken) now st) (\<lambda>_ st. (Ok Done, st)))))"

definition do_wait :: "kernel_state \<Rightarrow> thread_id \<Rightarrow> cap_id \<Rightarrow> u64 \<Rightarrow> syscall_return sys" where
  "do_wait st caller notif now =
     try_in st (resolve st caller notif Notification READ) (\<lambda>cap.
     let nid = obj_id (cap_object cap) in
     try_in st (ok_or (notification_mut st nid) BadCap) (\<lambda>n.
     let (bits, n) = nt_poll n in
     if bits \<noteq> 0 then (Ok (Value bits), put_notification st nid n) else
     let (r, n) = nt_wait n caller in
     then_do (map_err NotifyErr r, put_notification st nid n) (\<lambda>_ st.
     then_do (sched_do st (\<lambda>s. account s now)) (\<lambda>_ st.
     then_do (sched_do st (\<lambda>s. note_blocked s caller)) (\<lambda>_ st. (Ok BlockedR, st))))))"

definition do_poll :: "kernel_state \<Rightarrow> thread_id \<Rightarrow> cap_id \<Rightarrow> syscall_return sys" where
  "do_poll st caller notif =
     try_in st (resolve st caller notif Notification READ) (\<lambda>cap.
     let nid = obj_id (cap_object cap) in
     try_in st (ok_or (notification_mut st nid) BadCap) (\<lambda>n.
     let (bits, n) = nt_poll n in (Ok (Value bits), put_notification st nid n)))"

definition do_irq_bind ::
  "kernel_state \<Rightarrow> thread_id \<Rightarrow> cap_id \<Rightarrow> cap_id \<Rightarrow> irq_handler \<Rightarrow> hal_interface \<Rightarrow>
     syscall_return sys" where
  "do_irq_bind st caller mmio notif handler hal =
     try_in st (resolve st caller mmio MmioRegion WRITE) (\<lambda>mmio_cap.
     try_in st (ok_or (mmio_region st (obj_id (cap_object mmio_cap))) BadCap) (\<lambda>m.
     let irq = md_irq m in
     try_in st (resolve st caller notif Notification WRITE) (\<lambda>notif_cap.
     let nid = obj_id (cap_object notif_cap); (bound, st) = bind_irq st irq nid in
     if \<not> bound then (Err ObjectTableFull, st)
     else if \<not> hal_register_irq hal irq handler then (Err IrqRegistrationFailed, st)
     else (Ok Done, st))))"

section \<open>Synchronous IPC\<close>

definition put_endpoint :: "kernel_state \<Rightarrow> endpoint_id \<Rightarrow> endpoint \<Rightarrow> kernel_state" where
  "put_endpoint st i e = st\<lparr>endpoints := (endpoints st)[as_usize i := Some e]\<rparr>"

definition set_state :: "kernel_state \<Rightarrow> thread_id \<Rightarrow> thread_state \<Rightarrow> kernel_state" where
  "set_state st t s = tcb_mut st t (\<lambda>x. x\<lparr>t_state := s\<rparr>)"

text \<open>\<open>let delivered = endpoint.take_delivered(); if let Some((rx2, m)) = delivered { .. }\<close>\<close>

definition deliver :: "kernel_state \<Rightarrow> thread_id \<Rightarrow> endpoint_id \<Rightarrow> u64 \<Rightarrow> unit sys" where
  "deliver st caller eid now = (case endpoint_mut st eid of
      None \<Rightarrow> (Ok (), st)
    | Some ep \<Rightarrow> (let (d, ep) = take_delivered ep; st = put_endpoint st eid ep in
        case d of
          None \<Rightarrow> (Ok (), st)
        | Some (rx2, m) \<Rightarrow> sched_try
            (tcb_mut st rx2 (\<lambda>t. t\<lparr>pending_msg := Some m, pending_from := Some caller,
               t_state := Runnable\<rparr>)) (\<lambda>s. note_ready s rx2 now)))"

definition fast_path_taken ::
  "kernel_state \<Rightarrow> endpoint_id \<Rightarrow> small_message \<Rightarrow> bool \<Rightarrow> (syscall_error, bool) res" where
  "fast_path_taken st eid msg is_call = (if \<not> is_call then Ok False
     else (case endpoint_mut st eid of
         None \<Rightarrow> Ok False
       | Some ep \<Rightarrow> bind_res (map_err from_endpoint_error (fast_path_eligible ep msg is_call)) (\<lambda>d.
           Ok (case d of Take _ \<Rightarrow> True | Fallback _ \<Rightarrow> False))))"

definition do_send ::
  "kernel_state \<Rightarrow> thread_id \<Rightarrow> cap_id \<Rightarrow> small_message \<Rightarrow> bool \<Rightarrow> u64 \<Rightarrow> syscall_return sys" where
  "do_send st caller endpoint msg is_call now =
     try_in st (resolve st caller endpoint Endpoint WRITE) (\<lambda>ep_cap.
     let eid = obj_id (cap_object ep_cap) in
     try_in st (fast_path_taken st eid msg is_call) (\<lambda>fast_path.
     try_in st (ok_or (endpoint_mut st eid) BadCap) (\<lambda>ep.
     let (r, ep) = try_send ep caller msg True in
     then_do (map_err from_endpoint_error r, put_endpoint st eid ep) (\<lambda>outcome st.
     case outcome of
       DeliveredTo rx \<Rightarrow>
         then_do (deliver st caller eid now) (\<lambda>_ st.
         if is_call
         then then_do (sched_try (set_state st caller BlockedOnReply) (\<lambda>s. note_blocked s caller))
           (\<lambda>_ st. if fast_path then (Ok (Reschedule (Some rx)), st) else reschedule st now)
         else (Ok (Delivered rx), st))
     | SenderQueued \<Rightarrow>
         then_do (sched_try (set_state st caller (if is_call then BlockedOnReply else BlockedOnSend))
           (\<lambda>s. note_blocked s caller)) (\<lambda>_ st. reschedule st now)
     | SendWouldBlock \<Rightarrow> (Ok BlockedR, st)))))"

definition do_recv :: "kernel_state \<Rightarrow> thread_id \<Rightarrow> cap_id \<Rightarrow> u64 \<Rightarrow> syscall_return sys" where
  "do_recv st caller endpoint now =
     try_in st (resolve st caller endpoint Endpoint READ) (\<lambda>ep_cap.
     let eid = obj_id (cap_object ep_cap) in
     try_in st (ok_or (endpoint_mut st eid) BadCap) (\<lambda>ep.
     let (r, ep) = try_recv ep caller True in
     then_do (map_err from_endpoint_error r, put_endpoint st eid ep) (\<lambda>outcome st.
     case outcome of
       Received from msg \<Rightarrow>
         (let st = tcb_mut st from (\<lambda>t.
              if t_state t \<noteq> BlockedOnReply then t\<lparr>t_state := Runnable\<rparr> else t)
          in then_do (sched_do st (\<lambda>s. note_ready s from now)) (\<lambda>_ st.
               (Ok (Message from msg), st)))
     | ReceiverQueued \<Rightarrow>
         then_do (sched_try (set_state st caller BlockedOnRecv) (\<lambda>s. note_blocked s caller))
           (\<lambda>_ st. reschedule st now)
     | RecvWouldBlock \<Rightarrow> (Ok BlockedR, st))))"

definition do_reply ::
  "kernel_state \<Rightarrow> thread_id \<Rightarrow> thread_id \<Rightarrow> small_message \<Rightarrow> u64 \<Rightarrow> syscall_return sys" where
  "do_reply st caller to msg now =
     (if caller = to then (Err NotBlockedOnReply, st)
      else if \<not> (case tcb_at st to of Some t \<Rightarrow> t_state t = BlockedOnReply | None \<Rightarrow> False)
      then (Err NotBlockedOnReply, st)
      else then_do (sched_try (tcb_mut st to (\<lambda>t. t\<lparr>pending_msg := Some msg, t_state := Runnable\<rparr>))
          (\<lambda>s. note_ready s to now)) (\<lambda>_ st.
        then_do (sched_try st (\<lambda>s. note_ready s caller now)) (\<lambda>_ st.
          (Ok (Reschedule (Some to)), st))))"

section \<open>Dispatch\<close>

definition do_yield :: "kernel_state \<Rightarrow> u64 \<Rightarrow> syscall_return sys" where
  "do_yield st now = then_do (sched_do st (\<lambda>s. account s now)) (\<lambda>_ st. reschedule st now)"

fun sys_dispatch ::
  "kernel_state \<Rightarrow> thread_id \<Rightarrow> u64 \<Rightarrow> syscall_op \<Rightarrow> hal_interface \<Rightarrow> syscall_return sys" where
  "sys_dispatch st caller now Sys_Yield hal = do_yield st now"
| "sys_dispatch st caller now (Sys_CapRevoke cap) hal = do_cap_revoke st caller cap"
| "sys_dispatch st caller now (Sys_Retype u ty n) hal = do_retype st caller u ty n"
| "sys_dispatch st caller now (Sys_CapGrant t cap r) hal = do_cap_grant st caller t cap r"
| "sys_dispatch st caller now (Sys_Map pt fr v perms) hal = do_map st caller pt fr v perms hal"
| "sys_dispatch st caller now (Sys_Send e msg) hal = do_send st caller e msg False now"
| "sys_dispatch st caller now (Sys_Call e msg) hal = do_send st caller e msg True now"
| "sys_dispatch st caller now (Sys_Recv e) hal = do_recv st caller e now"
| "sys_dispatch st caller now (Sys_Reply t msg) hal = do_reply st caller t msg now"
| "sys_dispatch st caller now (Sys_Signal n bits) hal = do_signal st caller n bits now"
| "sys_dispatch st caller now (Sys_Wait n) hal = do_wait st caller n now"
| "sys_dispatch st caller now (Sys_Poll n) hal = do_poll st caller n"
| "sys_dispatch st caller now (Sys_IrqBind m n h) hal = do_irq_bind st caller m n h hal"

end
