(* ===== verification/SysInv.thy ===== *)
theory SysInv
  imports Syscall
begin

text \<open>
  Every system call keeps the kernel invariant and none panics: one lemma per handler, each a
  composition of the \<open>keeps\<close> rules with the facts about the component the handler calls. The
  two hypotheses are the contract of the HAL's page-table walk and one address at the very top
  of the virtual address space, where \<open>Map\<close> does panic (shown at the end).
\<close>

section \<open>The scheduler and the thread table\<close>

lemma kwf_parts:
  assumes "kwf st"
  shows "sched_wf (sched st)" "length (entities (sched st)) = MAX_THREADS"
    "cdt_wf CAP_SLOTS_PER_SPACE (cap_tables st)" "pool_wf st" "tcbs_wf st" "caps_live st"
    "slots_all ut_wf (untyped st)" "irqs_wf st" "shape st"
    "slots_all (\<lambda>s. as_wf MAPPINGS_PER_SPACE s \<and> as_fits s) (addr_spaces st)"
    "slots_all (ep_wf ENDPOINT_QUEUE) (endpoints st)"
    "slots_all (nt_wf NOTIF_WAITERS) (notifications st)" "single_running (sched st)"
  using assms by (simp_all add: kwf_def shape_def)

lemma kwf_step_ok:
  assumes "kwf st" and "step_ok (sched st) m"
  shows "kwf (st\<lparr>sched := snd m\<rparr>)"
  using assms kwf_parts(2,13) [OF assms(1)] by (intro kwf_put_sched) (auto simp: step_ok_def)

lemma keeps_sched_try:
  assumes "kwf st" and "step_ok (sched st) (f (sched st))"
  shows "keeps kwf (sched_try st f)"
  using kwf_step_ok [OF assms] assms(2)
  by (cases "f (sched st)")
    (auto simp: sched_try_def map_fst_def lift_sched_def keeps_def step_ok_def)

lemma keeps_sched_do:
  assumes "kwf st" and "step_ok (sched st) (f (sched st))"
  shows "keeps kwf (sched_do st f)"
  using kwf_step_ok [OF assms] assms(2)
  by (cases "f (sched st)") (auto simp: sched_do_def keeps_def step_ok_def)

lemma sched_calls_ok:
  assumes "kwf st"
  shows "step_ok (sched st) (note_ready (sched st) t now)"
    and "step_ok (sched st) (note_blocked (sched st) t)"
    and "step_ok (sched st) (account (sched st) now)"
  using sched_step_ok [OF kwf_parts(1) [OF assms], of "NoteReady t now"]
    note_blocked_ok [OF kwf_parts(1) [OF assms]] account_ok(1) [OF kwf_parts(1) [OF assms]]
  by simp_all

lemma keeps_reschedule: "kwf st \<Longrightarrow> keeps kwf (reschedule st now)"
  using kwf_parts(1) [of st]
  by (auto simp: reschedule_def elim!: pick_next_spec [where now = now])

lemma keeps_wake_blocked: "kwf st \<Longrightarrow> keeps kwf (wake_blocked st t now)"
  unfolding wake_blocked_def by (intro keeps_sched_do sched_calls_ok)

lemma keeps_wake_all: "kwf st \<Longrightarrow> keeps kwf (wake_all ts now st)"
proof (induction ts arbitrary: st)
  case (Cons t ts)
  have k: "keeps kwf (wake_blocked st t now :: unit sys)" using Cons.prems
    by (rule keeps_wake_blocked)
  show ?case unfolding wake_all.simps
    by (rule keeps_then_do [OF k]) (use Cons.IH k in \<open>auto simp: keeps_def\<close>)
qed simp

lemma kwf_tcb_mut:
  assumes "kwf st"
    and "\<And>t. t_id (f t) = t_id t \<and> t_cap_space (f t) = t_cap_space t \<and>
      t_addr_space (f t) = t_addr_space t"
  shows "kwf (tcb_mut st i f)"
proof (cases "tcb_at st i")
  case None
  then show ?thesis using assms(1) by (simp add: tcb_mut_def)
next
  case (Some t)
  then have "tcb_wf st (as_usize i) t"
    using kwf_parts(5) [OF assms(1)] by (simp add: tcbs_wf_def tcb_at_def)
  then show ?thesis using assms Some
    by (auto simp: tcb_mut_def tcb_wf_def intro!: kwf_put_tcb)
qed

lemma kwf_set_state: "kwf st \<Longrightarrow> kwf (set_state st t s)"
  unfolding set_state_def by (rule kwf_tcb_mut) simp_all

section \<open>Capabilities\<close>

text \<open>What a successful \<open>resolve\<close> establishes.\<close>

lemma resolve_cases:
  obtains (ok) t cs c where "resolve st caller cap kind needed = Ok c"
      "tcb_at st caller = Some t" "cap_space st (t_cap_space t) = Some cs"
      "ct_lookup cs cap = Some c" "cap_at (cap_tables st) (GlobalCapId (t_cap_space t) cap) = Some c"
      "obj_kind (cap_object c) = kind" "allows c needed"
  | (err) e where "resolve st caller cap kind needed = Err e"
proof (cases "resolve st caller cap kind needed")
  case (Ok c)
  then obtain t cs where t: "tcb_at st caller = Some t" "cap_space st (t_cap_space t) = Some cs"
      "ct_lookup cs cap = Some c" "obj_kind (cap_object c) = kind" "allows c needed"
    by (auto simp: resolve_def bind_res_Ok_iff split: if_splits)
  then show thesis using Ok ok by (auto simp: cap_at_def table_at_def cap_space_def)
next
  case Panic
  then show thesis by (auto simp: resolve_def bind_res_def split: res.splits if_splits)
qed (use err in blast)

lemma resolve_live:
  assumes "kwf st" and "cap_at (cap_tables st) g = Some c"
  shows "object_live st (cap_object c)"
  using kwf_parts(6) [OF assms(1)] assms(2) by (auto simp: caps_live_def)

lemma keeps_resolve:
  assumes "I st" and "\<And>t cs c. resolve st caller cap kind needed = Ok c \<Longrightarrow>
      tcb_at st caller = Some t \<Longrightarrow> cap_space st (t_cap_space t) = Some cs \<Longrightarrow>
      ct_lookup cs cap = Some c \<Longrightarrow>
      cap_at (cap_tables st) (GlobalCapId (t_cap_space t) cap) = Some c \<Longrightarrow>
      obj_kind (cap_object c) = kind \<Longrightarrow> allows c needed \<Longrightarrow> keeps I (f c)"
  shows "keeps I (try_in st (resolve st caller cap kind needed) f)"
  using assms by (cases rule: resolve_cases [of st caller cap kind needed]) auto

lemma lookups_no_panic [simp]:
  "caller_cap_space st caller \<noteq> Panic" "cap_kind_of st caller cap \<noteq> Panic"
  by (auto simp: caller_cap_space_def cap_kind_of_def bind_res_def split: res.splits)

lemma caller_cap_space_Ok:
  "caller_cap_space st caller = Ok cs \<longleftrightarrow> (\<exists>t. tcb_at st caller = Some t \<and> cs = t_cap_space t)"
  by (auto simp: caller_cap_space_def bind_res_Ok_iff)

lemma keeps_ok_or:
  assumes "I st" and "\<And>x. r = Some x \<Longrightarrow> keeps I (f x)"
  shows "keeps I (try_in st (ok_or r e) f)"
  using assms by (cases r) auto

lemma set_cap_space_kwf:
  assumes "kwf st" and "cap_space st i = Some t"
    and "cdt_wf CAP_SLOTS_PER_SPACE ((cap_tables st)[as_usize i := Some t'])"
    and "\<And>g c. cap_at ((cap_tables st)[as_usize i := Some t']) g = Some c \<Longrightarrow>
      cap_at (cap_tables st) g = Some c \<or> object_live st (cap_object c)"
  shows "kwf (set_cap_space st i t')"
  unfolding set_cap_space_def
  by (rule kwf_put_caps(1) [OF assms(1,3)]) (use assms in \<open>auto simp: occ_update\<close>)

text \<open>Inserting a root capability for a live object.\<close>

lemma insert_root_kwf:
  assumes "kwf st" and "cap_space st i = Some t" and "object_live st (cap_object c)"
  shows "fst (insert_root t c) \<noteq> Panic"
    and "kwf (set_cap_space st i (snd (insert_root t c)))"
    and "cap_at (cap_tables (set_cap_space st i (snd (insert_root t c)))) g = Some x \<Longrightarrow>
      cap_at (cap_tables st) g = Some x \<or>
      x = c \<and> cap_at (cap_tables st) g = None \<and> gc_space g = i \<and>
        fst (insert_root t c) = Ok (gc_cap g)"
proof -
  have s: "slot_at (cap_tables st) (as_usize i) = Some t" using assms(2) by (simp add: cap_space_def)
  note wf = kwf_parts(3) [OF assms(1)]
  have ct: "ct_wf t" using tables_wfD(1) [OF cdt_wf_tables [OF wf] s] .
  show "fst (insert_root t c) \<noteq> Panic" by (rule insert_root_wf(1) [OF wf s])
  have caps: "cap_at ((cap_tables st)[as_usize i := Some (snd (insert_root t c))]) g = Some x \<Longrightarrow>
      cap_at (cap_tables st) g = Some x \<or>
      x = c \<and> cap_at (cap_tables st) g = None \<and> gc_space g = i \<and>
        fst (insert_root t c) = Ok (gc_cap g)" for g x
    using ct
  proof (cases rule: insert_root_cases [where cap = c])
    case full
    then show "cap_at ((cap_tables st)[as_usize i := Some (snd (insert_root t c))]) g = Some x \<Longrightarrow>
      ?thesis" using list_update_slot_same [OF s] by simp
  next
    case (ok k t' z)
    have "cap_at (cap_tables st) (GlobalCapId i k) = None"
      using s ok(3,4) by (auto simp: cap_at_def table_at_def ct_lookup_def nth_opt_def)
    then show "cap_at ((cap_tables st)[as_usize i := Some (snd (insert_root t c))]) g = Some x \<Longrightarrow>
      ?thesis" using table_update_views(1) [OF s ok(5,3)] ok(1,6)
      by (auto split: if_splits)
  qed
  show "kwf (set_cap_space st i (snd (insert_root t c)))"
    using assms(1,2) insert_root_wf(2) [OF wf s]
    by (rule set_cap_space_kwf) (use caps assms(3) in blast)
  show "cap_at (cap_tables (set_cap_space st i (snd (insert_root t c)))) g = Some x \<Longrightarrow>
      cap_at (cap_tables st) g = Some x \<or>
      x = c \<and> cap_at (cap_tables st) g = None \<and> gc_space g = i \<and>
        fst (insert_root t c) = Ok (gc_cap g)"
    using caps by (simp add: set_cap_space_def)
qed

section \<open>Retype\<close>

text \<open>The state after the object table of \<open>ty\<close> received a fresh object in slot \<open>i\<close>.\<close>

fun with_object ::
  "kernel_state \<Rightarrow> tcb \<Rightarrow> u64 \<Rightarrow> u64 \<Rightarrow> kernel_object_type \<Rightarrow> u32 \<Rightarrow> kernel_state" where
  "with_object st t p n Endpoint_T i =
     st\<lparr>endpoints := (endpoints st)[as_usize i := Some (ep_new ENDPOINT_QUEUE)]\<rparr>"
| "with_object st t p n Notification_T i =
     st\<lparr>notifications := (notifications st)[as_usize i := Some (nt_new NOTIF_WAITERS)]\<rparr>"
| "with_object st t p n PageTable_T i =
     st\<lparr>addr_spaces := (addr_spaces st)[as_usize i := Some (as_new MAPPINGS_PER_SPACE p)]\<rparr>"
| "with_object st t p n CapabilitySpace_T i =
     st\<lparr>cap_tables := (cap_tables st)[as_usize i := Some (ct_new CAP_SLOTS_PER_SPACE i)]\<rparr>"
| "with_object st t p n ThreadControlBlock_T i =
     st\<lparr>tcbs := (tcbs st)[as_usize i := Some (new_inactive i (t_cap_space t) (t_addr_space t))]\<rparr>"
| "with_object st t p n Untyped_T i =
     st\<lparr>untyped := (untyped st)[as_usize i := Some (ut_new p n)]\<rparr>"
| "with_object st t p n SharedRegion_T i =
     st\<lparr>shared_regions := (shared_regions st)[as_usize i := Some (sr_new p n RW)]\<rparr>"

lemma table_full_simps [simp]:
  "table_full (Some i, st) = (Ok i, st)" "table_full (None, st) = (Err ObjectTableFull, st)"
  by (simp_all add: table_full_def map_fst_def)

lemma alloc_object_cases:
  assumes "kwf st"
  obtains (err) e where "alloc_object st caller p n ty = (Err e, st)"
  | (ok) i t where "alloc_object st caller p n ty =
        (Ok (as_object_kind ty, i), with_object st t p n ty i)"
      "\<not> object_live st (ObjectRef (as_object_kind ty) i)"
      "object_live (with_object st t p n ty i) (ObjectRef (as_object_kind ty) i)"
      "ty = ThreadControlBlock_T \<Longrightarrow> tcb_at st caller = Some t"
proof -
  note len = kwf_lengths [OF assms]
  show thesis
  proof (cases ty)
    case Endpoint_T
    then show thesis
      by (cases rule: ep.alloc_cases [OF len(5)])
        (auto simp: object_live.simps occ_update intro: err ok)
  next
    case Notification_T
    then show thesis
      by (cases rule: nt.alloc_cases [OF len(6)])
        (auto simp: object_live.simps occ_update intro: err ok)
  next
    case PageTable_T
    then show thesis
      by (cases rule: as.alloc_cases [OF len(3), where p = p])
        (auto simp: object_live.simps occ_update intro: err ok)
  next
    case CapabilitySpace_T
    then show thesis
      by (cases rule: cs.alloc_cases [OF len(1)])
        (auto simp: object_live.simps occ_update intro: err ok)
  next
    case ThreadControlBlock_T
    show thesis
    proof (cases "tcb_at st caller")
      case None
      then show thesis using ThreadControlBlock_T err by simp
    next
      case (Some t)
      then show thesis using ThreadControlBlock_T
        by (cases rule: th.alloc_cases [OF len(4), where p = "(t_cap_space t, t_addr_space t)"])
          (auto simp: object_live.simps occ_update intro: err ok)
    qed
  next
    case Untyped_T
    then show thesis
      by (cases rule: ut.alloc_cases [OF len(2), where p = "(p, n)"])
        (auto simp: object_live.simps occ_update intro: err ok)
  next
    case SharedRegion_T
    then show thesis
      by (cases rule: sr.alloc_cases [OF len(7), where p = "sr_new p n RW"])
        (auto simp: object_live.simps occ_update intro: err ok)
  qed
qed

lemma with_object_live_le [simp]: "live_le st (with_object st t p n ty i)"
  by (cases ty) simp_all

lemma with_object_kwf:
  assumes "kwf st" and "\<not> object_live st (ObjectRef (as_object_kind ty) i)"
    and "ty = ThreadControlBlock_T \<Longrightarrow> tcb_at st caller = Some t"
  shows "kwf (with_object st t p n ty i)"
    and "cap_at (cap_tables (with_object st t p n ty i)) = cap_at (cap_tables st)"
    and "cap_space st cs = Some ct \<Longrightarrow> cap_space (with_object st t p n ty i) cs = Some ct"
proof -
  have "kwf (with_object st t p n ty i) \<and>
    cap_at (cap_tables (with_object st t p n ty i)) = cap_at (cap_tables st) \<and>
    (cap_space st cs = Some ct \<longrightarrow> cap_space (with_object st t p n ty i) cs = Some ct)"
  proof (cases ty)
    case CapabilitySpace_T
    then have free: "slot_at (cap_tables st) (as_usize i) = None"
      using assms(2) by (simp add: object_live.simps occ_def)
    let ?tabs = "(cap_tables st)[as_usize i := Some (ct_new CAP_SLOTS_PER_SPACE i)]"
    have "cdt_wf CAP_SLOTS_PER_SPACE ?tabs"
      using cdt_wf_add_space [OF kwf_parts(3) [OF assms(1)] free] by (simp add: config_defs)
    then have "kwf (st\<lparr>cap_tables := ?tabs\<rparr>)"
      using assms(1) by (intro kwf_put_caps) (auto simp: occ_update add_space_views [OF free])
    then show ?thesis using CapabilitySpace_T free
      by (auto simp: add_space_views [OF free] cap_space_def slot_at_update)
  next
    case ThreadControlBlock_T
    have "tcb_wf st (as_usize i) (new_inactive i (t_cap_space t) (t_addr_space t))"
      using kwf_parts(5) [OF assms(1)] assms(3) ThreadControlBlock_T
      by (auto simp: tcbs_wf_def tcb_wf_def tcb_at_def new_inactive_def)
    then show ?thesis using ThreadControlBlock_T assms(1)
      by (simp add: kwf_put_tcb cap_space_def)
  qed (use assms(1) in \<open>simp_all add: kwf_put_untyped kwf_put_addr_space kwf_put_endpoint
      kwf_put_notification kwf_put_shared_region ut_wf_new as_wf_new as_fits_new ep_wf_new
      nt_wf_new cap_space_def\<close>)
  then show "kwf (with_object st t p n ty i)"
    "cap_at (cap_tables (with_object st t p n ty i)) = cap_at (cap_tables st)"
    "cap_space st cs = Some ct \<Longrightarrow> cap_space (with_object st t p n ty i) cs = Some ct"
    by simp_all
qed

text \<open>One round of the loop: a fresh object, and a root capability for it.\<close>

lemma keeps_retype_loop:
  assumes "kwf st"
    and "\<And>i. i \<in> set ks \<Longrightarrow> i < 2 ^ 32 \<and> i * unat per + unat phys < 2 ^ 64"
    and "unat made + length ks < 2 ^ 32"
  shows "keeps kwf (retype_loop st caller cs phys per ty ks first made)"
  using assms
proof (induction ks arbitrary: st first made)
  case (Cons i ks)
  have i: "i < 2 ^ 32" "i * unat per + unat phys < 2 ^ 64" using Cons.prems(2) by simp_all
  then have u: "unat (of_nat i :: u64) = i" by (intro unat_of_nat_small) simp
  have off: "(mul_or_panic (of_nat i) per :: (syscall_error, u64) res) = Ok (of_nat i * per)"
    using i u by (simp add: mul_or_panic_Ok)
  have "unat (of_nat i * per) = i * unat per" using i u by (simp add: unat_mult_exact)
  then have obj: "(add_or_panic phys (of_nat i * per) :: (syscall_error, u64) res) =
      Ok (phys + of_nat i * per)"
    using i by (simp add: add_or_panic_Ok)
  from Cons.prems(1) show ?case
  proof (cases rule: alloc_object_cases
      [where caller = caller and p = "phys + of_nat i * per" and n = per and ty = ty])
    case (err e)
    then show ?thesis using Cons.prems(1) by (simp add: off obj)
  next
    case (ok k t)
    let ?st = "with_object st t (phys + of_nat i * per) per ty k"
      and ?c = "full (ObjectRef (as_object_kind ty) k)"
    have wf: "kwf ?st" using Cons.prems(1) ok(2,4) by (rule with_object_kwf(1))
    show ?thesis
    proof (cases "cap_space ?st cs")
      case None
      then show ?thesis using wf by (simp add: off obj ok(1))
    next
      case (Some tb)
      note ins = insert_root_kwf [OF wf Some, of ?c]
      have wf2: "kwf (set_cap_space ?st cs (snd (insert_root tb ?c)))"
        using ins(2) ok(3) by simp
      show ?thesis
      proof (cases "fst (insert_root tb ?c)")
        case (Ok slot)
        have m: "(add_or_panic made 1 :: (syscall_error, u32) res) = Ok (made + 1)"
          and mu: "unat (made + 1) = unat made + 1"
          using Cons.prems(3) by (simp_all add: add_or_panic_Ok unat_add_exact)
        have "keeps kwf (retype_loop (set_cap_space ?st cs (snd (insert_root tb ?c))) caller cs phys
            per ty ks (case first of None \<Rightarrow> Some slot | Some f \<Rightarrow> Some f) (made + 1))"
          using Cons.prems(2,3) mu by (intro Cons.IH [OF wf2]) auto
        then show ?thesis using Ok m
          by (cases "insert_root tb ?c") (simp add: off obj ok(1) Some)
      next
        case (Err e)
        then show ?thesis using wf2
          by (cases "insert_root tb ?c") (simp add: off obj ok(1) Some)
      next
        case Panic
        then show ?thesis using ins(1) ok(3) by simp
      qed
    qed
  qed
qed simp

text \<open>The frames of a grant lie within a region that does not wrap.\<close>

lemma retype_frames:
  assumes "retype u ty cnt = (Ok g, u')"
  shows "unat (grant_phys g) + 4096 * unat cnt < 2 ^ 64" and "grant_count g = cnt"
    and "i < unat cnt \<Longrightarrow> i * 4096 + unat (grant_phys g) < 2 ^ 64"
proof -
  note r = retype_Ok [OF assms]
  show lim: "unat (grant_phys g) + 4096 * unat cnt < 2 ^ 64"
    using page_alloc_Ok(5,6) [OF r(1)] r(2) by simp
  show "grant_count g = cnt" by (rule r(5))
  show "i * 4096 + unat (grant_phys g) < 2 ^ 64" if "i < unat cnt" using that lim by linarith
qed

lemma keeps_do_retype:
  assumes "kwf st"
  shows "keeps kwf (do_retype st caller uc ty cnt)"
  unfolding do_retype_def Let_def
proof (rule keeps_resolve, rule assms, rule keeps_ok_or, rule assms, goal_cases)
  case (1 t cs c u)
  note u = 1(8)
  let ?i = "obj_id (cap_object c)"
  have wu: "ut_wf u"
    using kwf_parts(7) [OF assms] u by (auto simp: untyped_mut_def dest: slots_allD)
  obtain r u' where r: "retype u ty cnt = (r, u')" by fastforce
  let ?st = "st\<lparr>untyped := (untyped st)[as_usize ?i := Some u']\<rparr>"
  have wf: "kwf ?st" using retype_wf [OF wu, of ty cnt] r assms by (simp add: kwf_put_untyped)
  have "keeps kwf (then_do (map_err MmErr r, ?st) (\<lambda>grant st.
     try_in st (caller_cap_space st caller) (\<lambda>cs_id.
     then_do (retype_loop st caller cs_id (grant_phys grant) (object_size_bytes ty) ty
         [0 ..< unat (grant_count grant)] None 0) (\<lambda>(first, made) st.
     try_in st (ok_or first (MmErr ZeroCount)) (\<lambda>c. (Ok (NewCaps c made), st))))))"
  proof (cases r)
    case (Ok g)
    note fr = retype_frames [OF r [unfolded Ok]]
    have loop: "keeps kwf (retype_loop ?st caller cs (grant_phys g) (object_size_bytes ty) ty
         [0 ..< unat (grant_count g)] None 0)" for cs
      using fr(3) unat_bound [of cnt] wf
      by (intro keeps_retype_loop) (auto simp: fr(2) object_size_page unat_page_size)
    show ?thesis unfolding Ok map_err.simps then_do_simps
    proof (intro keeps_try_in wf lookups_no_panic keeps_then_do loop)
      fix cs x
      have k: "kwf (snd (retype_loop ?st caller cs (grant_phys g) (object_size_bytes ty) ty
         [0 ..< unat (grant_count g)] None 0))" (is "kwf ?s")
        using loop [of cs] by (simp add: keeps_def)
      show "keeps kwf ((case x of (first, made) \<Rightarrow> \<lambda>st.
          try_in st (ok_or first (MmErr ZeroCount)) (\<lambda>c. (Ok (NewCaps c made), st))) ?s)"
        using k by (cases x; cases "fst x") auto
    qed
  next
    case (Err e)
    then show ?thesis using wf by simp
  next
    case Panic
    then show ?thesis using retype_not_Ok(1) [of u ty cnt] r by simp
  qed
  then show ?case by (simp add: r)
qed

section \<open>Revocation and grant\<close>

lemma keeps_do_cap_revoke:
  assumes "kwf st"
  shows "keeps kwf (do_cap_revoke st caller cap)"
  unfolding do_cap_revoke_def
proof (rule keeps_try_in, rule assms, rule lookups_no_panic, rule keeps_resolve, rule assms,
    rule keeps_try_in, rule assms, rule lookups_no_panic, goal_cases)
  case (1 kind t cs c cs_id)
  let ?g = "GlobalCapId cs_id cap" and ?N = CAP_SLOTS_PER_SPACE
  show ?case
  proof (cases "cap_at (cap_tables st) ?g = None")
    case True
    then show ?thesis using assms by (simp add: revoke_empty_slot)
  next
    case False
    with kwf_parts(3) [OF assms] show ?thesis
    proof (rule revoke_outcome)
      fix n tabs'
      assume r: "revoke_cross_space ?N (cap_tables st) ?g = (Ok n, tabs')"
        "cdt_wf ?N tabs'" "length tabs' = length (cap_tables st)"
        "\<And>g. cap_at tabs' g = (if g = ?g \<or> descends (cap_tables st) g ?g then None
          else cap_at (cap_tables st) g)"
        "\<And>i. slot_at tabs' i = None \<longleftrightarrow> slot_at (cap_tables st) i = None"
      have "kwf (st\<lparr>cap_tables := tabs'\<rparr>)"
        using assms r(2,3) by (rule kwf_put_caps(1)) (auto simp: r(4,5) occ_def split: if_splits)
      then show ?thesis by (simp add: r(1))
    qed
  qed
qed

text \<open>The one capability a derivation adds.\<close>

lemma derive_cross_caps:
  assumes wf: "cdt_wf N tabs" and src: "table_at tabs ss = Some src"
    and dst: "slot_at tabs (as_usize ds) = Some dst"
    and new: "cap_at (tabs[as_usize ds := Some (snd (derive_child_cross_space src ss p dst r b))]) g
      = Some x"
  shows "cap_at tabs g = Some x \<or>
    (\<exists>pc. cap_at tabs (GlobalCapId ss p) = Some pc \<and> derived_ok pc x \<and> cap_rights x = r \<and>
      cap_at tabs g = None \<and> gc_space g = ds)"
proof (cases "ct_lookup src p")
  case None
  then show ?thesis using new list_update_slot_same [OF dst]
    by (simp add: derive_child_cross_space_def)
next
  case (Some pc)
  have pc: "cap_at tabs (GlobalCapId ss p) = Some pc" using Some src by (simp add: cap_at_def)
  have "ct_wf dst" using tables_wfD(1) [OF cdt_wf_tables [OF wf] dst] .
  then show ?thesis
  proof (cases rule: insert_derived_cases
      [where pc = pc and pg = "GlobalCapId ss p" and r = r and b = b])
    case (ok c t' s v)
    have "cap_at tabs (GlobalCapId ds c) = None"
      using dst ok(5,6) by (auto simp: cap_at_def table_at_def ct_lookup_def nth_opt_def)
    moreover have "g = GlobalCapId ds c \<and> x = v \<or> cap_at tabs g = Some x"
      using new table_update_views(1) [OF dst ok(7,5)] Some ok(1,8)
      by (auto simp: derive_child_cross_space_def split: if_splits)
    ultimately show ?thesis using pc ok(10,11) by auto
  qed (use new list_update_slot_same [OF dst] Some in \<open>auto simp: derive_child_cross_space_def\<close>)
qed

lemma cap_space_pair_Some:
  "cap_space_pair_mut st a b = Some (s, d) \<longleftrightarrow>
     a \<noteq> b \<and> cap_space st a = Some s \<and> cap_space st b = Some d"
  by (auto simp: cap_space_pair_mut_def cap_space_def Let_def bind_eq_Some_conv
      dest: slot_at_length)

lemma keeps_do_cap_grant:
  assumes "kwf st"
  shows "keeps kwf (do_cap_grant st caller target cap rs)"
  unfolding do_cap_grant_def Let_def
proof (rule keeps_resolve, rule assms, rule keeps_ok_or, rule assms, rule keeps_try_in,
    rule assms, rule lookups_no_panic, rule keeps_resolve, rule assms, rule keeps_try_in,
    rule assms, rule lookups_no_panic, rule keeps_ok_or, rule assms, goal_cases)
  case (1 t cs c x kind t' cs' c' src_cs pair)
  obtain s d where p: "pair = (s, d)" by fastforce
  let ?ds = "t_cap_space x"
  have sd: "cap_space st src_cs = Some s" "cap_space st ?ds = Some d"
    using 1 p by (auto simp: cap_space_pair_Some)
  then have tab: "table_at (cap_tables st) src_cs = Some s"
    "slot_at (cap_tables st) (as_usize ?ds) = Some d"
    by (simp_all add: cap_space_def table_at_def)
  let ?m = "derive_child_cross_space s src_cs cap d rs 0"
  note wf = derive_cross_wf [OF kwf_parts(3) [OF assms] tab, of cap rs 0]
  have "kwf (set_cap_space st ?ds (snd ?m))"
    using assms sd(2) wf(2)
  proof (rule set_cap_space_kwf)
    fix g y
    assume "cap_at ((cap_tables st)[as_usize ?ds := Some (snd ?m)]) g = Some y"
    from derive_cross_caps [OF kwf_parts(3) [OF assms] tab this]
    show "cap_at (cap_tables st) g = Some y \<or> object_live st (cap_object y)"
      using resolve_live [OF assms] by (auto simp: derived_ok_def)
  qed
  then show ?case using wf(1) by (cases ?m; cases "fst ?m") (auto simp: p)
qed

section \<open>Map\<close>

text \<open>The documented contract of \<open>map_range\<close>: it returns the number of frames it drew from
  the pool it was given, or \<open>u32::MAX\<close>.\<close>

definition hal_ok :: "hal_interface \<Rightarrow> bool" where
  "hal_ok hal \<longleftrightarrow> (\<forall>root v p n pb base len.
     hal_map_range hal root v p n pb base len = - 1 \<or>
     unat (hal_map_range hal root v p n pb base len) \<le> unat len)"

text \<open>The one page whose end is not representable.\<close>

definition TOP_PAGE :: virt_addr where "TOP_PAGE = 0xFFFFFFFFFFFFF000"

lemma page_aligned_unat:
  assumes "p mod PAGE_SIZE = 0"
  obtains k where "unat p = 4096 * k" and "k < 2 ^ 52"
proof -
  have "unat (p mod PAGE_SIZE) = 0" using assms by simp
  then have "unat p mod 4096 = 0" by (simp only: unat_mod unat_page_size)
  then obtain k where k: "unat p = 4096 * k" by (auto simp: mod_eq_0_iff_dvd)
  moreover have "unat p < 2 ^ 64" using unat_bound [of p] by simp
  ultimately have "4096 * k < 4096 * 2 ^ 52" by simp
  then have "k < 2 ^ 52" by (simp only: nat_mult_less_cancel1)
  then show thesis using k that by blast
qed

lemma below_top:
  assumes "v \<noteq> TOP_PAGE" and "v mod PAGE_SIZE = 0"
  shows "unat v + unat PAGE_SIZE < 2 ^ 64"
proof (rule page_aligned_unat [OF assms(2)])
  fix k :: nat
  assume k: "unat v = 4096 * k" "k < 2 ^ 52"
  have "k \<noteq> 2 ^ 52 - 1"
  proof
    assume "k = 2 ^ 52 - 1"
    then have "unat v = 0xFFFFFFFFFFFFF000" using k(1) by simp
    moreover have "v = of_nat (unat v)" by simp
    ultimately have "v = of_nat 0xFFFFFFFFFFFFF000" by simp
    then show False using assms(1) by (simp add: TOP_PAGE_def)
  qed
  then have "k + 1 < 2 ^ 52" using k(2) by linarith
  then show ?thesis using k(1) by (simp add: unat_page_size)
qed

lemma page_fits: "p mod PAGE_SIZE = 0 \<Longrightarrow> unat p + unat PAGE_SIZE \<le> 2 ^ 64"
  by (erule page_aligned_unat) (simp add: unat_page_size)

lemma as_map_page:
  assumes "as_wf M s" and "as_fits s" and "v \<noteq> TOP_PAGE"
  obtains (err) e where "as_map s v p PAGE_SIZE pr = (Err e, s)"
  | (ok) s' where "as_map s v p PAGE_SIZE pr = (Ok (), s')" "as_wf M s'" "as_fits s'"
      "root_phys s' = root_phys s" "v mod PAGE_SIZE = 0" "p mod PAGE_SIZE = 0"
      "vmap s' = (\<lambda>w. if unat v \<le> unat w \<and> unat w < unat v + 4096
         then Some (p + (w - v), pr) else vmap s w)"
      "\<And>w. unat v \<le> unat w \<Longrightarrow> unat w < unat v + 4096 \<Longrightarrow> vmap s w = None"
      "\<not> (writable pr \<and> executable pr)"
proof (cases "v mod PAGE_SIZE = 0 \<and> p mod PAGE_SIZE = 0")
  case False
  then have "as_map s v p PAGE_SIZE pr = (Err Unaligned, s)" by (auto simp: as_map_def)
  then show thesis by (rule err)
next
  case True
  then have rf: "range_fits v p PAGE_SIZE"
    using below_top [OF assms(3)] page_fits [of p] by (simp add: range_fits_def)
  have lim: "unat v + unat PAGE_SIZE < 2 ^ 64" using rf by (simp add: range_fits_def)
  from assms(2) lim show thesis
  proof (cases rule: as_map_cases [where p = p and pr = pr])
    case (ok s')
    note o = as_map_Ok [OF assms(1,2) rf ok]
    have "vmap s w = None" if "unat v \<le> unat w" "unat w < unat v + 4096" for w
      using o(5) that by (fastforce simp: vmap_None_iff apart_def covers_def unat_page_size)
    then show thesis
      using that(2) [OF ok o(1,2,7)] True o(4,6)
      by (simp add: covers_def unat_page_size mapping_ok_def)
  qed (use err in blast)+
qed

lemma kwf_addr_space:
  assumes "kwf st" and "addr_space_mut st i = Some s"
  shows "as_wf MAPPINGS_PER_SPACE s" and "as_fits s" and "as_usize i < length (addr_spaces st)"
  using kwf_parts(10) [OF assms(1)] assms(2)
  by (auto simp: addr_space_mut_def dest: slots_allD slot_at_length)

lemma pool_remaining_Ok:
  assumes "pool_wf st"
  obtains base len where "map_pool_remaining st = Ok (base, len)"
    and "unat len = unat (map_pool_len st) - unat (map_pool_used st)"
    and "unat base = unat (map_pool_base st) + unat (map_pool_used st) * 4096"
proof -
  let ?u = "ucast (map_pool_used st) :: u64"
  have uu: "unat ?u = unat (map_pool_used st)" by (simp add: unat_ucast_up)
  have lim: "unat (map_pool_base st) + unat (map_pool_used st) * 4096 < 2 ^ 64"
    and le: "map_pool_used st \<le> map_pool_len st"
    using assms by (auto simp: pool_wf_def word_le_nat_alt)
  have m: "unat ?u * unat PAGE_SIZE < 2 ^ 64" using lim by (simp add: uu unat_page_size)
  then have mu: "unat (?u * PAGE_SIZE) = unat (map_pool_used st) * 4096"
    by (simp add: unat_mult_exact uu unat_page_size)
  show thesis
  proof
    show "map_pool_remaining st =
        Ok (map_pool_base st + ?u * PAGE_SIZE, ucast (map_pool_len st - map_pool_used st))"
      using m mu lim le
      by (simp add: map_pool_remaining_def bind_res_Ok_iff mul_or_panic_Ok add_or_panic_Ok
          sub_or_panic_Ok)
    show "unat (ucast (map_pool_len st - map_pool_used st) :: u64) =
        unat (map_pool_len st) - unat (map_pool_used st)"
      using le by (simp add: unat_ucast_up unat_sub_exact)
    show "unat (map_pool_base st + ?u * PAGE_SIZE) =
        unat (map_pool_base st) + unat (map_pool_used st) * 4096"
      using mu lim by (simp add: unat_add_exact)
  qed
qed

lemma as_unmap_wf:
  assumes "as_wf M s" and "as_fits s"
  shows "fst (as_unmap s v) \<noteq> Panic" and "as_wf M (snd (as_unmap s v))"
    and "as_fits (snd (as_unmap s v))"
  using assms(2) by (cases rule: as_unmap_cases [OF assms(1), of v];
      use assms(1) in \<open>auto simp: as_fits_def\<close>)+

lemma frame_phys_no_panic: "frame_phys st r \<noteq> Panic"
  by (auto simp: frame_phys_def bind_res_def split: object_kind.splits res.splits)

lemma keeps_do_map:
  assumes "kwf st" and "hal_ok hal" and "v \<noteq> TOP_PAGE"
  shows "keeps kwf (do_map st caller pt fr v perms hal)"
  unfolding do_map_def Let_def
proof (rule keeps_resolve, rule assms(1), rule keeps_ok_or, rule assms(1), rule keeps_ok_or,
    rule assms(1), rule keeps_ok_or, rule assms(1), goal_cases)
  case (1 t cs c x y z)
  let ?i = "obj_id (cap_object c)"
  have "keeps kwf (try_in st (frame_phys st (cap_object z)) (\<lambda>paddr.
     try_in st (ok_or (addr_space_mut st ?i) BadCap) (\<lambda>space.
     case as_map space v paddr PAGE_SIZE perms of (r, space) \<Rightarrow>
     then_do (map_err MmErr r, st\<lparr>addr_spaces := (addr_spaces st)[as_usize ?i := Some space]\<rparr>)
       (\<lambda>_ st.
     if map_pool_base st = 0 then (Ok Mapped, st) else
     try_in st (map_pool_remaining st) (\<lambda>(pool_base, pool_len).
     if hal_map_range hal (root_phys space) v paddr PAGE_SIZE (perm_bits perms)
           pool_base pool_len = - 1
     then (case addr_space_mut st ?i of
         None \<Rightarrow> (Err (MmErr HardwareMapFailed), st)
       | Some space \<Rightarrow> (case as_unmap space v of (r, space) \<Rightarrow>
             (if r = Panic then Panic else Err (MmErr HardwareMapFailed),
              st\<lparr>addr_spaces := (addr_spaces st)[as_usize ?i := Some space]\<rparr>)))
     else then_do (map_pool_advance st (hal_map_range hal (root_phys space) v paddr PAGE_SIZE
       (perm_bits perms) pool_base pool_len)) (\<lambda>_ st. (Ok Mapped, st)))))))"
  proof (rule keeps_try_in, rule assms(1), rule frame_phys_no_panic, rule keeps_ok_or,
      rule assms(1), goal_cases)
    case (1 p s)
    note sp = kwf_addr_space [OF assms(1) 1(2)]
    from sp(1,2) assms(3) show ?case
    proof (cases rule: as_map_page [where p = p and pr = perms])
      case (err e)
      have "st\<lparr>addr_spaces := (addr_spaces st)[as_usize ?i := Some s]\<rparr> = st"
        using list_update_slot_same [of "addr_spaces st" "as_usize ?i" s] 1(2)
        by (simp add: addr_space_mut_def)
      then show ?thesis using assms(1) by (simp add: err)
    next
      case (ok s')
      let ?st = "st\<lparr>addr_spaces := (addr_spaces st)[as_usize ?i := Some s']\<rparr>"
      have wf: "kwf ?st" using assms(1) ok(2,3) by (rule kwf_put_addr_space)
      have at: "addr_space_mut ?st ?i = Some s'"
        using sp(3) by (simp add: addr_space_mut_def slot_at_update)
      obtain base len where
        pool: "(map_pool_remaining ?st :: (syscall_error, _) res) = Ok (base, len)"
        "unat len = unat (map_pool_len ?st) - unat (map_pool_used ?st)"
        using pool_remaining_Ok [OF kwf_parts(4) [OF wf]] by metis
      let ?n = "hal_map_range hal (root_phys s') v p PAGE_SIZE (perm_bits perms) base len"
      have adv: "keeps kwf (map_pool_advance ?st ?n :: unit sys)" if "?n \<noteq> - 1"
      proof -
        have le: "unat (map_pool_used ?st) + unat ?n \<le> unat (map_pool_len ?st)"
          using assms(2) that pool(2) kwf_parts(4) [OF wf]
          by (fastforce simp: hal_ok_def pool_wf_def)
        then have lt: "unat (map_pool_used ?st) + unat ?n < 2 ^ 32"
          using unat_bound [of "map_pool_len ?st"] by simp
        then have a: "(add_or_panic (map_pool_used ?st) ?n :: (syscall_error, u32) res) =
            Ok (map_pool_used ?st + ?n)" by (simp add: add_or_panic_Ok)
        show ?thesis
          using le lt kwf_put_pool [OF wf, of "map_pool_used ?st + ?n"]
          unfolding map_pool_advance_def a by (simp add: unat_add_exact)
      qed
      have roll: "keeps kwf ((case as_unmap s' v of (r, space) \<Rightarrow>
             (if r = Panic then Panic else Err (MmErr HardwareMapFailed),
              ?st\<lparr>addr_spaces := (addr_spaces ?st)[as_usize ?i := Some space]\<rparr>))
           :: syscall_return sys)"
        using as_unmap_wf [OF ok(2,3), of v]
          kwf_put_addr_space [OF wf, of "snd (as_unmap s' v)" "as_usize ?i"]
        by (cases "as_unmap s' v") auto
      have fin: "keeps kwf (then_do (map_pool_advance ?st ?n)
          (\<lambda>_ st. (Ok Mapped, st)) :: syscall_return sys)" if "?n \<noteq> - 1"
        by (rule keeps_then_do [OF adv [OF that]]) (use adv [OF that] in \<open>simp add: keeps_def\<close>)
      show ?thesis
        unfolding ok(1) prod.case map_err.simps then_do_simps
        using wf at pool(1) fin roll by simp
    qed
  qed
  then show ?case using assms(1) by (cases "allows z (map_need perms)") simp_all
qed

section \<open>Notifications and interrupts\<close>

lemma kwf_notification:
  assumes "kwf st" and "notification_mut st i = Some n"
  shows "nt_wf NOTIF_WAITERS n"
  using kwf_parts(12) [OF assms(1)] assms(2)
  by (auto simp: notification_mut_def dest: slots_allD)

lemma kwf_put_nt: "kwf st \<Longrightarrow> nt_wf NOTIF_WAITERS n \<Longrightarrow> kwf (put_notification st i n)"
  by (simp add: put_notification_def kwf_put_notification)

lemma keeps_do_signal:
  assumes "kwf st"
  shows "keeps kwf (do_signal st caller cap bits now)"
  unfolding do_signal_def Let_def
proof (rule keeps_resolve, rule assms, rule keeps_ok_or, rule assms, goal_cases)
  case (1 t cs c n)
  from kwf_notification [OF assms 1(8)] show ?case
  proof (rule nt_signal_wf [where bits = bits])
    fix w n'
    assume w: "nt_signal n bits = (Ok w, n')" "nt_wf NOTIF_WAITERS n'"
    let ?st = "put_notification st (obj_id (cap_object c)) n'"
    have k: "keeps kwf (wake_all (woken_slice w) now ?st)"
      using kwf_put_nt [OF assms w(2)] by (rule keeps_wake_all)
    show ?case unfolding w(1) prod.case map_err.simps then_do_simps
      by (rule keeps_then_do [OF k]) (use k in \<open>simp add: keeps_def\<close>)
  qed
qed

text \<open>Charging the running thread and blocking one: the tail of \<open>Wait\<close>.\<close>

lemma keeps_do_then:
  assumes "kwf st" and "step_ok (sched st) (f (sched st))"
    and "\<And>s. kwf s \<Longrightarrow> keeps kwf (g s)"
  shows "keeps kwf (then_do (sched_do st f) (\<lambda>_ s. g s))"
proof -
  have d: "keeps kwf (sched_do st f :: ('a, unit) res \<times> kernel_state)"
    using assms(1,2) by (rule keeps_sched_do)
  show ?thesis by (rule keeps_then_do [OF d]) (use d assms(3) in \<open>simp add: keeps_def\<close>)
qed

lemma keeps_try_then:
  assumes "kwf st" and "step_ok (sched st) (f (sched st))"
    and "\<And>s. kwf s \<Longrightarrow> keeps kwf (g s)"
  shows "keeps kwf (then_do (sched_try st f) (\<lambda>_ s. g s))"
proof -
  have t: "keeps kwf (sched_try st f)" using assms(1,2) by (rule keeps_sched_try)
  show ?thesis by (rule keeps_then_do [OF t]) (use t assms(3) in \<open>simp add: keeps_def\<close>)
qed

lemma keeps_do_wait:
  assumes "kwf st"
  shows "keeps kwf (do_wait st caller cap now)"
  unfolding do_wait_def Let_def
proof (rule keeps_resolve, rule assms, rule keeps_ok_or, rule assms, goal_cases)
  case (1 t cs c n)
  note n = kwf_notification [OF assms 1(8)]
  obtain bits n1 where p: "nt_poll n = (bits, n1)" by fastforce
  have n1: "nt_wf NOTIF_WAITERS n1" using nt_poll_wf [OF n] p by simp
  show ?case
  proof (cases "bits = 0")
    case False
    then show ?thesis using p kwf_put_nt [OF assms n1] by simp
  next
    case True
    from n1 show ?thesis
    proof (cases rule: nt_wait_cases [where t = caller])
      case full
      then show ?thesis using p True kwf_put_nt [OF assms n1] by simp
    next
      case (ok n2)
      have "keeps kwf (then_do (sched_do (put_notification st (obj_id (cap_object c)) n2)
          (\<lambda>s. account s now)) (\<lambda>_ st.
        then_do (sched_do st (\<lambda>s. note_blocked s caller)) (\<lambda>_ st. (Ok BlockedR, st)))
          :: syscall_return sys)"
        using kwf_put_nt [OF assms ok(2)]
        by (intro keeps_do_then sched_calls_ok) simp_all
      then show ?thesis using p True ok(1) by simp
    qed
  qed
qed

lemma keeps_do_poll:
  assumes "kwf st"
  shows "keeps kwf (do_poll st caller cap)"
  unfolding do_poll_def Let_def
proof (rule keeps_resolve, rule assms, rule keeps_ok_or, rule assms, goal_cases)
  case (1 t cs c n)
  then show ?case
    using kwf_put_nt [OF assms] nt_poll_wf [OF kwf_notification [OF assms 1(8)]]
    by (cases "nt_poll n") simp
qed

text \<open>Binding an interrupt line rebinds its slot or takes a free one.\<close>

lemma bind_irq_cases:
  obtains (bound) i where "bind_irq st irq n =
        (True, st\<lparr>irq_bindings := (irq_bindings st)[i := Some (irq, n)]\<rparr>)"
      "i < length (irq_bindings st)"
      "slot_at (irq_bindings st) i = None \<and>
         (\<forall>j b. slot_at (irq_bindings st) j = Some b \<longrightarrow> fst b \<noteq> irq) \<or>
       (\<exists>b. slot_at (irq_bindings st) i = Some b \<and> fst b = irq)"
  | (full) "bind_irq st irq n = (False, st)" "first_none (irq_bindings st) = None"
      "\<forall>j b. slot_at (irq_bindings st) j = Some b \<longrightarrow> fst b \<noteq> irq"
proof (cases "find_index (bound_to irq) (irq_bindings st)")
  case (Some i)
  note f = find_index_Some [OF Some]
  then obtain b where "irq_bindings st ! i = Some b" "fst b = irq"
    by (auto simp: bound_to_def split: option.splits)
  then show thesis using Some f by (intro bound [of i]) (auto simp: bind_irq_def slot_at_def)
next
  case None
  have no: "\<forall>j b. slot_at (irq_bindings st) j = Some b \<longrightarrow> fst b \<noteq> irq"
  proof (intro allI impI)
    fix j b assume "slot_at (irq_bindings st) j = Some b"
    then have "Some b \<in> set (irq_bindings st)" by (auto simp: slot_at_Some_iff in_set_conv_nth)
    then have "\<not> bound_to irq (Some b)" using None by (simp only: find_index_None) blast
    then show "fst b \<noteq> irq" by (cases b) (simp add: bound_to_def)
  qed
  show thesis
  proof (cases "first_none (irq_bindings st)")
    case None
    then show thesis using \<open>find_index _ _ = None\<close> no by (intro full) (simp_all add: bind_irq_def)
  next
    case (Some i)
    then show thesis using \<open>find_index _ _ = None\<close> no first_none_slot_at [OF Some]
      by (intro bound [of i]) (simp_all add: bind_irq_def)
  qed
qed

lemma bind_irq_kwf:
  assumes "kwf st" and "occ (notifications st) n"
  shows "kwf (snd (bind_irq st irq n))"
proof (cases rule: bind_irq_cases [of st irq n])
  case (bound i)
  let ?bs = "(irq_bindings st)[i := Some (irq, n)]"
  have "irqs_wf (st\<lparr>irq_bindings := ?bs\<rparr>)"
    unfolding irqs_wf_def
  proof (intro conjI allI impI)
    fix j b assume "slot_at (irq_bindings (st\<lparr>irq_bindings := ?bs\<rparr>)) j = Some b"
    then show "occ (notifications (st\<lparr>irq_bindings := ?bs\<rparr>)) (snd b)"
      using kwf_parts(8) [OF assms(1)] assms(2)
      by (cases b) (auto simp: irqs_wf_def slot_at_update split: if_splits)
  next
    fix j k b c
    assume a: "slot_at (irq_bindings (st\<lparr>irq_bindings := ?bs\<rparr>)) j = Some b"
      "slot_at (irq_bindings (st\<lparr>irq_bindings := ?bs\<rparr>)) k = Some c" "fst b = fst c"
    have other: "l = i" if "slot_at (irq_bindings st) l = Some d" "fst d = irq" for l d
      using bound(3) that kwf_parts(8) [OF assms(1)] unfolding irqs_wf_def by blast
    show "j = k"
      using a other kwf_parts(8) [OF assms(1)] bound(2)
      by (cases b; cases c) (auto simp: slot_at_update irqs_wf_def split: if_splits)
  qed
  then show ?thesis using assms(1) unfolding bound(1)
    by (auto simp: kwf_def shape_def tcbs_wf_def tcb_wf_def pool_wf_def intro: caps_live_mono)
qed (use assms(1) in simp)

lemma keeps_do_irq_bind:
  assumes "kwf st"
  shows "keeps kwf (do_irq_bind st caller mmio cap h hal)"
  unfolding do_irq_bind_def Let_def
proof (rule keeps_resolve, rule assms, rule keeps_ok_or, rule assms, rule keeps_resolve,
    rule assms, goal_cases)
  case (1 t cs c m t' cs' d)
  have "occ (notifications st) (obj_id (cap_object d))"
    using resolve_live [OF assms 1(13)] 1(14) by (simp add: object_live.simps)
  from bind_irq_kwf [OF assms this, of "md_irq m"] show ?case
    by (cases "bind_irq st (md_irq m) (obj_id (cap_object d))") simp
qed

section \<open>Synchronous IPC\<close>

lemma ep_calls_keep:
  assumes "ep_wf Q e"
  shows "keeps (ep_wf Q) (try_send e t m b)" and "keeps (ep_wf Q) (try_recv e t b)"
    and "ep_wf Q (snd (take_delivered e))"
proof -
  have nc: "fst (rv_step Q op a) \<noteq> Crashed" for op a
    by (cases "(Q, op, a)" rule: rv_step.cases) (auto split: list.splits)
  show "keeps (ep_wf Q) (try_send e t m b)"
    using ep_step_refines [OF assms, of "Send t m b"] nc [of "Send t m b" "ep_abs e"]
    by (cases "try_send e t m b"; cases "fst (try_send e t m b)") (auto simp: ep_step_def)
  show "keeps (ep_wf Q) (try_recv e t b)"
    using ep_step_refines [OF assms, of "Recv t b"] nc [of "Recv t b" "ep_abs e"]
    by (cases "try_recv e t b"; cases "fst (try_recv e t b)") (auto simp: ep_step_def)
  show "ep_wf Q (snd (take_delivered e))"
    using ep_step_refines [OF assms, of Deliver] by (simp add: ep_step_def split: prod.splits)
qed

lemma kwf_endpoint:
  assumes "kwf st" and "endpoint_mut st i = Some e"
  shows "ep_wf ENDPOINT_QUEUE e"
  using kwf_parts(11) [OF assms(1)] assms(2)
  by (auto simp: endpoint_mut_def dest: slots_allD)

lemma kwf_put_ep: "kwf st \<Longrightarrow> ep_wf ENDPOINT_QUEUE e \<Longrightarrow> kwf (put_endpoint st i e)"
  by (simp add: put_endpoint_def kwf_put_endpoint)

lemma keeps_deliver: "kwf st \<Longrightarrow> keeps kwf (deliver st caller eid now)"
proof -
  assume wf: "kwf st"
  show ?thesis
  proof (cases "endpoint_mut st eid")
    case None
    then show ?thesis using wf by (simp add: deliver_def)
  next
    case (Some e)
    obtain d e' where d: "take_delivered e = (d, e')" by fastforce
    have wf': "kwf (put_endpoint st eid e')"
      using kwf_put_ep [OF wf] ep_calls_keep(3) [OF kwf_endpoint [OF wf Some]] d by simp
    show ?thesis
    proof (cases d)
      case None
      then show ?thesis using Some d wf' by (simp add: deliver_def)
    next
      case (Some x)
      obtain rx m where x: "x = (rx, m)" by fastforce
      have "keeps kwf (sched_try (tcb_mut (put_endpoint st eid e') rx (\<lambda>t. t\<lparr>pending_msg := Some m,
          pending_from := Some caller, t_state := Runnable\<rparr>)) (\<lambda>s. note_ready s rx now))"
        using wf' by (intro keeps_sched_try sched_calls_ok kwf_tcb_mut) simp_all
      then show ?thesis using \<open>endpoint_mut st eid = Some e\<close> d Some x by (simp add: deliver_def)
    qed
  qed
qed

lemma fast_path_no_panic:
  assumes "kwf st"
  shows "fast_path_taken st eid msg is_call \<noteq> Panic"
proof (cases "endpoint_mut st eid")
  case (Some e)
  have "receivers_len e \<le> length (receivers e)"
    using kwf_endpoint [OF assms Some] by (simp add: ep_wf_def q_ok_def ep_receivers_def)
  then show ?thesis
    by (auto simp: fast_path_taken_def Some fast_path_eligible_def blocked_receiver_def
        bind_res_def nth_opt_def split: res.splits option.splits)
qed (simp add: fast_path_taken_def)

lemma keeps_block_and_pick:
  assumes "kwf st"
  shows "keeps kwf (then_do (sched_try (set_state st t s) (\<lambda>s. note_blocked s t))
    (\<lambda>_ st. reschedule st now))"
  using kwf_set_state [OF assms]
  by (intro keeps_try_then sched_calls_ok keeps_reschedule)
    simp_all

lemma keeps_do_send:
  assumes "kwf st"
  shows "keeps kwf (do_send st caller cap msg is_call now)"
  unfolding do_send_def Let_def
proof (rule keeps_resolve, rule assms, rule keeps_try_in, rule assms,
    rule fast_path_no_panic [OF assms], rule keeps_ok_or, rule assms, goal_cases)
  case (1 t cs c fast ep)
  let ?i = "obj_id (cap_object c)"
  obtain r ep' where s: "try_send ep caller msg True = (r, ep')" by fastforce
  have k: "keeps (ep_wf ENDPOINT_QUEUE) (r, ep')"
    using ep_calls_keep(1) [OF kwf_endpoint [OF assms 1(9)], of caller msg True] s by simp
  then have wf: "kwf (put_endpoint st ?i ep')" using kwf_put_ep [OF assms] by (simp add: keeps_def)
  show ?case
  proof (cases r)
    case (Ok out)
    have dl: "keeps kwf (deliver (put_endpoint st ?i ep') caller ?i now)"
      using wf by (rule keeps_deliver)
    let ?s = "snd (deliver (put_endpoint st ?i ep') caller ?i now)"
    have ws: "kwf ?s" using dl by (simp add: keeps_def)
    have call: "keeps kwf (then_do (sched_try (set_state ?s caller BlockedOnReply)
        (\<lambda>s. note_blocked s caller)) (\<lambda>_ st. if fast then (Ok (Reschedule (Some rx)), st)
          else reschedule st now))" for rx
      using kwf_set_state [OF ws]
      by (intro keeps_try_then sched_calls_ok)
        (simp_all add: keeps_reschedule)
    show ?thesis
    proof (cases out)
      case (DeliveredTo rx)
      have "keeps kwf (then_do (deliver (put_endpoint st ?i ep') caller ?i now) (\<lambda>_ st.
         if is_call
         then then_do (sched_try (set_state st caller BlockedOnReply) (\<lambda>s. note_blocked s caller))
           (\<lambda>_ st. if fast then (Ok (Reschedule (Some rx)), st) else reschedule st now)
         else (Ok (Delivered rx), st)))"
        by (rule keeps_then_do [OF dl]) (use call ws in simp)
      then show ?thesis by (simp add: s Ok DeliveredTo)
    qed (use wf keeps_block_and_pick [OF wf] in \<open>simp_all add: s Ok\<close>)
  qed (use k wf in \<open>simp_all add: s keeps_def\<close>)
qed

lemma keeps_do_recv:
  assumes "kwf st"
  shows "keeps kwf (do_recv st caller cap now)"
  unfolding do_recv_def Let_def
proof (rule keeps_resolve, rule assms, rule keeps_ok_or, rule assms, goal_cases)
  case (1 t cs c ep)
  let ?i = "obj_id (cap_object c)"
  obtain r ep' where s: "try_recv ep caller True = (r, ep')" by fastforce
  have k: "keeps (ep_wf ENDPOINT_QUEUE) (r, ep')"
    using ep_calls_keep(2) [OF kwf_endpoint [OF assms 1(8)], of caller True] s by simp
  then have wf: "kwf (put_endpoint st ?i ep')" using kwf_put_ep [OF assms] by (simp add: keeps_def)
  show ?case
  proof (cases r)
    case (Ok out)
    show ?thesis
    proof (cases out)
      case (Received u m)
      have "keeps kwf (then_do (sched_do (tcb_mut (put_endpoint st ?i ep') u (\<lambda>t.
            if t_state t \<noteq> BlockedOnReply then t\<lparr>t_state := Runnable\<rparr> else t))
          (\<lambda>s. note_ready s u now)) (\<lambda>_ st. (Ok (Message u m), st)) :: syscall_return sys)"
        using wf by (intro keeps_do_then sched_calls_ok kwf_tcb_mut) simp_all
      then show ?thesis by (simp add: s Ok Received)
    qed (use wf keeps_block_and_pick [OF wf] in \<open>simp_all add: s Ok\<close>)
  qed (use k wf in \<open>simp_all add: s keeps_def\<close>)
qed

lemma keeps_do_reply:
  assumes "kwf st"
  shows "keeps kwf (do_reply st caller to msg now)"
proof -
  have "kwf (tcb_mut st to (\<lambda>t. t\<lparr>pending_msg := Some msg, t_state := Runnable\<rparr>))"
    using assms by (rule kwf_tcb_mut) simp
  then have "keeps kwf (then_do (sched_try (tcb_mut st to (\<lambda>t. t\<lparr>pending_msg := Some msg,
        t_state := Runnable\<rparr>)) (\<lambda>s. note_ready s to now)) (\<lambda>_ st.
      then_do (sched_try st (\<lambda>s. note_ready s caller now)) (\<lambda>_ st.
        (Ok (Reschedule (Some to)), st))))"
    by (intro keeps_try_then sched_calls_ok) simp_all
  then show ?thesis using assms by (simp add: do_reply_def)
qed

lemma keeps_do_yield: "kwf st \<Longrightarrow> keeps kwf (do_yield st now)"
  unfolding do_yield_def
  by (intro keeps_do_then sched_calls_ok keeps_reschedule)

lemmas keeps_handlers = keeps_do_yield keeps_do_cap_revoke keeps_do_retype keeps_do_cap_grant
  keeps_do_map keeps_do_send keeps_do_recv keeps_do_reply keeps_do_signal keeps_do_wait
  keeps_do_poll keeps_do_irq_bind

lemma keeps_dispatch:
  assumes "kwf st" and "hal_ok hal" and "\<And>pt fr perms. opn \<noteq> Sys_Map pt fr TOP_PAGE perms"
  shows "keeps kwf (sys_dispatch st caller now opn hal)"
  using assms by (cases opn) (auto intro: keeps_handlers)

end
