(* ===== verification/Boot.thy ===== *)
theory Boot
  imports SysInv
begin

text \<open>
  The construction of the initial kernel state (\<open>state.rs\<close>): \<open>subtract_holes\<close> cuts a
  memory region into exactly the fragments outside the holes, and \<open>populate_from_boot_info\<close>
  turns a validated boot structure into a state that satisfies the kernel invariant and whose
  untyped memory avoids the kernel image, the boot-reserved range and everything below the
  image.
\<close>

section \<open>The insertion sort of \<open>subtract_holes\<close>\<close>

lemma sift_spec:
  assumes "n < length hs" and "sift n hs a = (i, hs')"
  shows "i \<le> n \<and> length hs' = length hs \<and> (\<forall>j > n. hs' ! j = hs ! j) \<and>
    (i = 0 \<or> fst (hs ! (i - 1)) \<le> a) \<and> (\<forall>j. i \<le> j \<longrightarrow> j < n \<longrightarrow> a < fst (hs ! j)) \<and>
    (\<forall>x. take (Suc n) (hs'[i := x]) = take i hs @ x # drop i (take n hs))"
  using assms
proof (induction n arbitrary: hs)
  case 0
  then show ?case by (cases hs) auto
next
  case (Suc n)
  show ?case
  proof (cases "a < fst (hs ! n)")
    case False
    then have "i = Suc n" "hs' = hs" using Suc.prems(2) by auto
    then show ?thesis using False Suc.prems(1)
      by (auto simp: take_Suc_conv_app_nth not_less)
  next
    case True
    let ?hs = "hs[Suc n := hs ! n]"
    have s: "sift n ?hs a = (i, hs')" using True Suc.prems(2) by simp
    note ih = Suc.IH [OF _ s]
    have n: "n < length ?hs" using Suc.prems(1) by simp
    have i: "i \<le> n" and len: "length hs' = length hs" using ih [OF n] by auto
    have last: "hs' ! Suc n = hs ! n" using ih [OF n] Suc.prems(1) by auto
    have tk: "take (Suc (Suc n)) (hs'[i := x]) = take i hs @ x # drop i (take (Suc n) hs)" for x
    proof -
      have "take (Suc (Suc n)) (hs'[i := x]) = take (Suc n) (hs'[i := x]) @ [hs ! n]"
        using Suc.prems(1) len i last by (simp add: take_Suc_conv_app_nth)
      moreover have "take (Suc n) (hs'[i := x]) = take i ?hs @ x # drop i (take n ?hs)"
        using ih [OF n] by blast
      moreover have "take i ?hs = take i hs" "take n ?hs = take n hs" using i by simp_all
      ultimately show ?thesis using Suc.prems(1) i by (simp add: take_Suc_conv_app_nth)
    qed
    have b: "i = 0 \<or> fst (hs ! (i - 1)) \<le> a" using ih [OF n] i by auto
    have g: "a < fst (hs ! j)" if "i \<le> j" "j < Suc n" for j
      using ih [OF n] that True by (cases "j = n") auto
    show ?thesis using i len ih [OF n] Suc.prems(1) tk b g by auto
  qed
qed

lemma sift_sorted:
  assumes "n < length hs" and "sift n hs a = (i, hs')" and "sorted (map fst (take n hs))"
  shows "sorted (map fst (take (Suc n) (hs'[i := (a, b)])))"
    and "set (take (Suc n) (hs'[i := (a, b)])) = insert (a, b) (set (take n hs))"
    and "length hs' = length hs"
proof -
  note s = sift_spec [OF assms(1,2)]
  have tk: "take (Suc n) (hs'[i := (a, b)]) = take i hs @ (a, b) # drop i (take n hs)"
    using s by blast
  have split: "take i hs = take i (take n hs)" using s by (simp add: min_absorb1)
  show "set (take (Suc n) (hs'[i := (a, b)])) = insert (a, b) (set (take n hs))"
    unfolding tk split using append_take_drop_id [of i "take n hs"]
    by (metis Un_insert_right list.simps(15) set_append)
  show "length hs' = length hs" using s by blast
  have le: "fst (hs ! j) \<le> a" if "j < i" for j
  proof -
    have "map fst (take n hs) ! j \<le> map fst (take n hs) ! (i - 1)"
      using assms(1) s that by (intro sorted_nth_mono [OF assms(3)]) auto
    then show ?thesis using s that assms(1) by auto
  qed
  have lo: "\<forall>x \<in> set (map fst (take i hs)). x \<le> a"
  proof
    fix x assume "x \<in> set (map fst (take i hs))"
    then obtain j where "j < length (map fst (take i hs))" "x = map fst (take i hs) ! j"
      by (metis in_set_conv_nth)
    then show "x \<le> a" using le [of j] by simp
  qed
  have hi: "\<forall>x \<in> set (map fst (drop i (take n hs))). a \<le> x"
  proof
    fix x assume "x \<in> set (map fst (drop i (take n hs)))"
    then obtain j where j: "j < length (map fst (drop i (take n hs)))"
      "x = map fst (drop i (take n hs)) ! j"
      by (metis in_set_conv_nth)
    then have "x = fst (hs ! (i + j))" "i + j < n" using assms(1) by simp_all
    then show "a \<le> x" using s by (simp add: less_imp_le)
  qed
  have "sorted (map fst (take i hs))" "sorted (map fst (drop i (take n hs)))"
    using sorted_wrt_take [OF assms(3), of i] sorted_wrt_drop [OF assms(3), of i]
    by (simp_all add: split flip: take_map drop_map)
  then show "sorted (map fst (take (Suc n) (hs'[i := (a, b)])))"
    unfolding tk using lo hi by (fastforce simp: sorted_append)
qed

definition clamped :: "u64 \<Rightarrow> u64 \<Rightarrow> (u64 \<times> u64) list \<Rightarrow> (u64 \<times> u64) set" where
  "clamped s e holes = {(max a s, min b e) |a b. (a, b) \<in> set holes \<and> max a s < min b e}"

lemma clamped_Cons:
  "clamped s e ((a, b) # hs) =
     (if max a s < min b e then insert (max a s, min b e) (clamped s e hs) else clamped s e hs)"
  by (auto simp: clamped_def)

lemma collect_holes_spec:
  assumes "n + length holes \<le> length hs" and "sorted (map fst (take n hs))"
    and "collect_holes s e holes n hs = (n', hs')"
  shows "sorted (map fst (take n' hs')) \<and> n' \<le> n + length holes \<and> length hs' = length hs \<and>
    set (take n' hs') = set (take n hs) \<union> clamped s e holes"
  using assms
proof (induction holes arbitrary: n hs)
  case Nil
  then show ?case by (simp add: clamped_def)
next
  case (Cons h holes)
  obtain a b where h: "h = (a, b)" by fastforce
  show ?case
  proof (cases "max a s < min b e")
    case False
    then have c: "max a s \<ge> min b e \<or> n \<ge> length hs" by (metis not_less)
    have "collect_holes s e holes n hs = (n', hs')"
      using Cons.prems(3) [unfolded h collect_holes.simps Let_def if_P [OF c]] .
    from Cons.IH [OF _ Cons.prems(2) this] show ?thesis
      using Cons.prems(1) unfolding h clamped_Cons if_not_P [OF False] by simp
  next
    case True
    have n: "n < length hs" using Cons.prems(1) by simp
    obtain i hs1 where s: "sift n hs (max a s) = (i, hs1)" by fastforce
    note so = sift_sorted(1,2) [OF n s Cons.prems(2), where b = "min b e"]
      sift_sorted(3) [OF n s Cons.prems(2)]
    have c: "\<not> (max a s \<ge> min b e \<or> n \<ge> length hs)" using True n by (metis not_le)
    have "collect_holes s e holes (Suc n) (hs1[i := (max a s, min b e)]) = (n', hs')"
      using Cons.prems(3) [unfolded h collect_holes.simps Let_def if_not_P [OF c] s prod.case]
      by simp
    from Cons.IH [OF _ so(1) this] show ?thesis
      using Cons.prems(1) so unfolding h clamped_Cons if_P [OF True] by auto
  qed
qed

section \<open>The sweep\<close>

fun gaps :: "(u64 \<times> u64) list \<Rightarrow> u64 \<Rightarrow> u64 \<Rightarrow> (u64 \<times> u64) list" where
  "gaps [] cur fin = (if cur < fin then [(cur, fin)] else [])"
| "gaps ((a, b) # hs) cur fin =
     (if cur < a then [(cur, a)] else []) @ gaps hs (if b > cur then b else cur) fin"

lemma sweep_gaps:
  assumes "k + length hs < length out" and "sweep hs cur k out = (cur', k', out')"
  shows "take k' out' @ (if cur' < fin then [(cur', fin)] else []) = take k out @ gaps hs cur fin \<and>
    k' \<le> k + length hs \<and> length out' = length out"
  using assms
proof (induction hs arbitrary: cur k out)
  case (Cons h hs)
  obtain a b where h: "h = (a, b)" by fastforce
  show ?case
  proof (cases "cur < a")
    case True
    have "sweep hs (if b > cur then b else cur) (k + 1) (out[k := (cur, a)]) = (cur', k', out')"
      using Cons.prems True by (simp add: h Let_def)
    from Cons.IH [OF _ this] show ?thesis
      using Cons.prems(1) True by (simp add: h take_Suc_conv_app_nth)
  next
    case False
    then have "sweep hs (if b > cur then b else cur) k out = (cur', k', out')"
      using Cons.prems by (simp add: h Let_def)
    from Cons.IH [OF _ this] show ?thesis using Cons.prems(1) False by (simp add: h)
  qed
qed simp

lemma subtract_holes_gaps:
  assumes "length holes \<le> 8" and "length holes < length out"
    and "subtract_holes start fin holes out = (k, out')"
  obtains hs where "take k out' = gaps hs start fin" and "sorted (map fst hs)"
    and "set hs = clamped start fin holes" and "k \<le> length out"
proof -
  obtain n hs where c: "collect_holes start fin holes 0 (replicate 8 (0, 0)) = (n, hs)" by fastforce
  have cs: "sorted (map fst (take n hs)) \<and> n \<le> length holes \<and> length hs = 8 \<and>
      set (take n hs) = clamped start fin holes"
    using collect_holes_spec [OF _ _ c] assms(1) by simp
  obtain cur k1 out1 where s: "sweep (take n hs) start 0 out = (cur, k1, out1)" by (metis prod_cases3)
  have "length (take n hs) \<le> n" by simp
  then have "0 + length (take n hs) < length out" using cs assms(2) by linarith
  note sw = sweep_gaps [OF this s, of fin]
  have kl: "k1 < length out" using sw cs assms(2) by simp
  have "k \<le> length out \<and> take k out' = take k1 out1 @ (if cur < fin then [(cur, fin)] else [])"
    using assms(3) c s sw kl
    by (auto simp: subtract_holes_def take_Suc_conv_app_nth split: if_splits)
  then show thesis using that [of "take n hs"] cs sw by simp
qed

definition inside :: "u64 \<Rightarrow> u64 \<times> u64 \<Rightarrow> bool" where
  "inside x h \<longleftrightarrow> fst h \<le> x \<and> x < snd h"

lemma gaps_points:
  assumes "sorted (map fst hs)" and "\<forall>h \<in> set hs. fst h < snd h \<and> snd h \<le> fin"
  shows "(\<exists>g \<in> set (gaps hs cur fin). inside x g) \<longleftrightarrow>
    cur \<le> x \<and> x < fin \<and> (\<forall>h \<in> set hs. \<not> inside x h)"
  using assms
proof (induction hs arbitrary: cur)
  case Nil
  then show ?case by (auto simp: inside_def)
next
  case (Cons h hs)
  obtain a b where h: "h = (a, b)" by fastforce
  have ab: "a < b" "b \<le> fin" using Cons.prems(2) by (auto simp: h)
  have ge: "a \<le> fst g" if "g \<in> set hs" for g using Cons.prems(1) that by (auto simp: h)
  note ih = Cons.IH [of "if b > cur then b else cur"]
  have ih': "(\<exists>g \<in> set (gaps hs (if b > cur then b else cur) fin). inside x g) \<longleftrightarrow>
      (if b > cur then b else cur) \<le> x \<and> x < fin \<and> (\<forall>h \<in> set hs. \<not> inside x h)"
    using Cons.prems by (intro ih) auto
  have low: "\<not> inside x g" if "x < a" "g \<in> set hs" for g
    using ge [OF that(2)] that(1) by (auto simp: inside_def)
  have "(\<exists>g \<in> set (gaps (h # hs) cur fin). inside x g) \<longleftrightarrow> cur \<le> x \<and> x < a \<or>
      (\<exists>g \<in> set (gaps hs (if b > cur then b else cur) fin). inside x g)"
    unfolding h gaps.simps set_append bex_Un by (auto simp: inside_def)
  then show ?case unfolding ih' using ab low by (auto simp: h inside_def)
qed

lemma gaps_ordered:
  assumes "\<forall>h \<in> set hs. fst h < snd h"
  shows "(\<forall>g \<in> set (gaps hs cur fin). cur \<le> fst g \<and> fst g < snd g) \<and>
    sorted_wrt (\<lambda>g h. snd g < fst h) (gaps hs cur fin)"
  using assms
proof (induction hs arbitrary: cur)
  case (Cons h hs)
  obtain a b where h: "h = (a, b)" by fastforce
  have ab: "a < b" using Cons.prems by (simp add: h)
  have ih: "(\<forall>g \<in> set (gaps hs (if b > cur then b else cur) fin).
      (if b > cur then b else cur) \<le> fst g \<and> fst g < snd g) \<and>
    sorted_wrt (\<lambda>g h. snd g < fst h) (gaps hs (if b > cur then b else cur) fin)"
    using Cons.prems by (intro Cons.IH) auto
  have "cur \<le> (if b > cur then b else cur)" "b \<le> (if b > cur then b else cur)" by auto
  then have "cur \<le> fst g \<and> a < fst g" if "g \<in> set (gaps hs (if b > cur then b else cur) fin)" for g
    using ih that ab by (meson less_le_trans order_trans)
  then show ?case using ih by (simp add: h)
qed simp

text \<open>The fragments of a region, as a set of points and as a list.\<close>

lemma subtract_holes_spec:
  assumes "length holes \<le> 8" and "length holes < length out"
    and "subtract_holes start fin holes out = (k, out')"
  shows "(\<exists>g \<in> set (take k out'). inside x g) \<longleftrightarrow>
      start \<le> x \<and> x < fin \<and> (\<forall>h \<in> set holes. \<not> inside x h)"
    and "sorted_wrt (\<lambda>g h. snd g < fst h) (take k out')"
    and "\<forall>g \<in> set (take k out'). fst g < snd g"
    and "k \<le> length out"
proof -
  have "((\<exists>g \<in> set (take k out'). inside x g) \<longleftrightarrow>
      start \<le> x \<and> x < fin \<and> (\<forall>h \<in> set holes. \<not> inside x h)) \<and>
    sorted_wrt (\<lambda>g h. snd g < fst h) (take k out') \<and>
    (\<forall>g \<in> set (take k out'). fst g < snd g) \<and> k \<le> length out"
    using assms
  proof (rule subtract_holes_gaps)
    fix hs
    assume hs: "take k out' = gaps hs start fin" "sorted (map fst hs)"
      "set hs = clamped start fin holes" "k \<le> length out"
    have ok: "\<forall>h \<in> set hs. fst h < snd h \<and> snd h \<le> fin" by (auto simp: hs(3) clamped_def)
    have pts: "(\<forall>h \<in> set hs. \<not> inside x h) \<longleftrightarrow> (\<forall>h \<in> set holes. \<not> inside x h)"
      if "start \<le> x" "x < fin"
      using that by (fastforce simp: hs(3) clamped_def inside_def)
    have ok': "\<forall>h \<in> set hs. fst h < snd h" using ok by blast
    show ?thesis
      unfolding hs(1) gaps_points [OF hs(2) ok]
      using pts gaps_ordered [OF ok', of start fin] hs(4) by blast
  qed
  then show "(\<exists>g \<in> set (take k out'). inside x g) \<longleftrightarrow>
      start \<le> x \<and> x < fin \<and> (\<forall>h \<in> set holes. \<not> inside x h)"
    and "sorted_wrt (\<lambda>g h. snd g < fst h) (take k out')"
    and "\<forall>g \<in> set (take k out'). fst g < snd g" and "k \<le> length out" by blast+
qed

section \<open>Seeding untyped memory\<close>

definition urange :: "untyped_memory \<Rightarrow> u64 set" where
  "urange u = {x. ut_base u \<le> x \<and> unat x < unat (ut_base u) + unat (ut_size u)}"

definition untyped_sep :: "kernel_state \<Rightarrow> bool" where
  "untyped_sep st \<longleftrightarrow> (\<forall>i j a b. slot_at (untyped st) i = Some a \<longrightarrow> slot_at (untyped st) j = Some b \<longrightarrow>
     i \<noteq> j \<longrightarrow> urange a \<inter> urange b = {})"

text \<open>A fresh region of at least a page, every byte of which satisfies \<open>P\<close>.\<close>

definition seed_ok :: "(u64 \<Rightarrow> bool) \<Rightarrow> untyped_memory \<Rightarrow> bool" where
  "seed_ok P u \<longleftrightarrow> watermark u = 0 \<and> PAGE_SIZE \<le> ut_size u \<and>
     unat (ut_base u) + unat (ut_size u) < 2 ^ 64 \<and> (\<forall>x \<in> urange u. P x)"

definition ucaps :: "kernel_state \<Rightarrow> global_cap_id set" where
  "ucaps st = {g. \<exists>c. cap_at (cap_tables st) g = Some c \<and> obj_kind (cap_object c) = UntypedMemory}"

text \<open>The invariant of the seeding loops: \<open>s0\<close> is the state before them, \<open>T\<close> the memory
  still to be seeded, and \<open>D\<close> says whether the regions of the manifest are disjoint.\<close>

definition seeded ::
  "bool \<Rightarrow> (u64 \<Rightarrow> bool) \<Rightarrow> cap_space_id \<Rightarrow> kernel_state \<Rightarrow> u64 set \<Rightarrow> u32 \<Rightarrow> kernel_state \<Rightarrow> bool" where
  "seeded D P cs s0 T made st \<longleftrightarrow> kwf st \<and> cap_space st cs \<noteq> None \<and> tcbs st = tcbs s0 \<and>
     addr_spaces st = addr_spaces s0 \<and> shared_regions st = shared_regions s0 \<and>
     sched st = sched s0 \<and>
     slots_all (seed_ok P) (untyped st) \<and> unat made = card (ucaps st) \<and>
     unat made \<le> length (flatten (untyped st)) \<and>
     (D \<longrightarrow> untyped_sep st \<and> slots_all (\<lambda>u. urange u \<inter> T = {}) (untyped st))"

lemma seeded_less: "seeded D P cs s0 T made st \<Longrightarrow> T' \<subseteq> T \<Longrightarrow> seeded D P cs s0 T' made st"
  unfolding seeded_def slots_all_def by blast

lemma fragment_range:
  assumes "fs < fe" and "\<not> saturating_sub fe fs < PAGE_SIZE"
    and "\<And>x. inside x (fs, fe) \<Longrightarrow> P x"
  shows "urange (ut_new fs (fe - fs)) = {x. inside x (fs, fe)}" and "seed_ok P (ut_new fs (fe - fs))"
proof -
  have n: "unat (fe - fs) = unat fe - unat fs" using assms(1) by (simp add: unat_sub_exact)
  have e: "unat fs + unat (fe - fs) = unat fe" using assms(1) n by (simp add: word_less_nat_alt)
  show r: "urange (ut_new fs (fe - fs)) = {x. inside x (fs, fe)}"
    using e by (auto simp: urange_def ut_new_def inside_def word_less_nat_alt)
  have "PAGE_SIZE \<le> fe - fs"
    using assms(1,2) by (metis less_imp_le not_less saturating_sub_def)
  then show "seed_ok P (ut_new fs (fe - fs))"
    using assms(3) r unat_bound [of fe] by (auto simp: seed_ok_def e) (simp_all add: ut_new_def e)
qed

lemma finite_ucaps: "kwf st \<Longrightarrow> finite (ucaps st)"
  using finite_caps [OF cdt_wf_tables [OF kwf_parts(3)], of st]
  by (rule rev_finite_subset) (auto simp: ucaps_def)

text \<open>One fragment becomes one untyped object with a root capability.\<close>

lemma seed_step:
  assumes sd: "seeded D P cs s0 ({x. inside x (fs, fe)} \<union> T) made st"
    and T: "D \<longrightarrow> {x. inside x (fs, fe)} \<inter> T = {}"
    and u: "fs < fe" "\<not> saturating_sub fe fs < PAGE_SIZE" "\<forall>x. inside x (fs, fe) \<longrightarrow> P x"
    and al: "alloc_untyped st fs (fe - fs) = (Some uid, st1)"
    and cs: "cap_space st1 cs = Some t"
    and ins: "insert_root t (full (ObjectRef UntypedMemory uid)) = (r, t')"
  shows "r \<noteq> Panic" and "r = Ok c \<Longrightarrow> unat made + 1 < 2 ^ 32"
    and "r = Ok c \<Longrightarrow> seeded D P cs s0 T (made + 1) (set_cap_space st1 cs t')"
    and "r = Err e \<Longrightarrow> seeded D P cs s0 T made (set_cap_space st1 cs t')"
proof -
  have wf: "kwf st" using sd by (simp add: seeded_def)
  let ?u = "ut_new fs (fe - fs)"
  have al': "st1 = st\<lparr>untyped := (untyped st)[as_usize uid := Some ?u]\<rparr>"
    "as_usize uid < length (untyped st)" "\<not> occ (untyped st) uid"
    using al by (cases rule: ut.alloc_cases [OF kwf_lengths(2) [OF wf], where p = "(fs, fe - fs)"];
        simp)+
  have wf1: "kwf st1" unfolding al'(1) by (rule kwf_put_untyped [OF wf ut_wf_new])
  have rng: "urange ?u = {x. inside x (fs, fe)}" and ok: "seed_ok P ?u"
    using fragment_range [OF u(1,2), of P] u(3) by blast+
  have live: "object_live st1 (ObjectRef UntypedMemory uid)"
    using al' by (simp add: object_live.simps occ_update)
  note ic = insert_root_kwf [OF wf1 cs, of "full (ObjectRef UntypedMemory uid)", simplified, OF live,
      unfolded ins fst_conv snd_conv]
  show "r \<noteq> Panic" by (rule ic(1))
  have free: "slot_at (untyped st) (as_usize uid) = None" using al'(3) by (simp add: occ_def)
  have fl: "length (flatten (untyped st1)) = Suc (length (flatten (untyped st)))"
    using al'(2) free by (simp add: al'(1) slot_at_def length_flatten_fill)
  have cnt: "length (flatten (untyped st1)) \<le> MAX_UNTYPED"
    using length_flatten_le [of "untyped st1"] kwf_parts(9) [OF wf1] by (simp add: shape_def)
  have made: "unat made = card (ucaps st)" "unat made \<le> length (flatten (untyped st))"
    using sd by (simp_all add: seeded_def)
  show m32: "r = Ok c \<Longrightarrow> unat made + 1 < 2 ^ 32"
    using made(2) fl cnt by (simp add: config_defs)
  have slots: "slots_all (seed_ok P) (untyped st1)"
    using sd ok by (simp add: al'(1) seeded_def slots_all_update)
  have sep: "D \<longrightarrow> untyped_sep st1 \<and> slots_all (\<lambda>u. urange u \<inter> T = {}) (untyped st1)"
  proof
    assume D
    with sd have old: "untyped_sep st"
      "slots_all (\<lambda>u. urange u \<inter> ({x. inside x (fs, fe)} \<union> T) = {}) (untyped st)"
      by (auto simp: seeded_def)
    have new: "urange v \<inter> urange ?u = {}" if "slot_at (untyped st) i = Some v" for i v
      using slots_allD [OF old(2) that] by (auto simp: rng)
    have "urange a \<inter> urange b = {}" if "slot_at (untyped st1) i = Some a"
      "slot_at (untyped st1) j = Some b" "i \<noteq> j" for i j a b
      using that old(1) new [of i a] new [of j b]
      by (auto simp: al'(1) slot_at_update untyped_sep_def split: if_splits)
    then have "untyped_sep st1" unfolding untyped_sep_def by blast
    moreover have "slots_all (\<lambda>u. urange u \<inter> T = {}) (untyped st1)"
    proof -
      have "slots_all (\<lambda>u. urange u \<inter> T = {}) (untyped st)"
        using old(2) unfolding slots_all_def by blast
      then show ?thesis using T \<open>D\<close> by (simp add: al'(1) slots_all_update rng)
    qed
    ultimately show "untyped_sep st1 \<and> slots_all (\<lambda>u. urange u \<inter> T = {}) (untyped st1)" ..
  qed
  let ?st2 = "set_cap_space st1 cs t'"
  have same: "tcbs ?st2 = tcbs s0" "addr_spaces ?st2 = addr_spaces s0" "sched ?st2 = sched s0"
    "shared_regions ?st2 = shared_regions s0"
    "untyped ?st2 = untyped st1" "cap_space ?st2 cs \<noteq> None"
    using sd cs by (simp_all add: set_cap_space_def al'(1) seeded_def cap_space_def slot_at_update
        slot_at_Some_iff)
  have c1: "ucaps st1 = ucaps st" by (simp add: ucaps_def al'(1))
  have tabs: "slot_at (cap_tables st1) (as_usize cs) = Some t" using cs by (simp add: cap_space_def)
  have ct: "ct_wf t" using tables_wfD(1) [OF cdt_wf_tables [OF kwf_parts(3) [OF wf1]] tabs] .
  show "seeded D P cs s0 T (made + 1) ?st2" if "r = Ok c"
  proof -
    have "ucaps ?st2 = insert (GlobalCapId cs c) (ucaps st1) \<and> GlobalCapId cs c \<notin> ucaps st1"
      using ct
    proof (cases rule: insert_root_cases [where cap = "full (ObjectRef UntypedMemory uid)"])
      case (ok k x z)
      have "cap_at (cap_tables st1) (GlobalCapId cs k) = None"
        using tabs ok(3,4) by (auto simp: cap_at_def table_at_def ct_lookup_def nth_opt_def)
      then show ?thesis
        using table_update_views(1) [OF tabs ok(5,3)] ok(1,6) ins that
        by (auto simp: ucaps_def set_cap_space_def)
    qed (use ins that in simp)
    then have "card (ucaps ?st2) = Suc (card (ucaps st))"
      using finite_ucaps [OF wf1] by (simp add: c1)
    moreover have "unat (made + 1) = unat made + 1"
      using m32 [OF that] by (simp add: unat_add_exact)
    ultimately show ?thesis
      using ic(2) same slots sep made fl unfolding seeded_def untyped_sep_def same(5) by simp
  qed
  show "seeded D P cs s0 T made ?st2" if "r = Err e"
  proof -
    have "t' = t" using ct
      by (cases rule: insert_root_cases [where cap = "full (ObjectRef UntypedMemory uid)"])
        (use ins that in auto)
    then have "cap_tables ?st2 = cap_tables st1"
      using list_update_slot_same [OF tabs] by (simp add: set_cap_space_def)
    then have "ucaps ?st2 = ucaps st" using c1 by (simp add: ucaps_def)
    then show ?thesis
      using ic(2) same slots sep made fl unfolding seeded_def untyped_sep_def same(5) by simp
  qed
qed

definition points :: "(u64 \<times> u64) list \<Rightarrow> u64 set" where
  "points fs = {x. \<exists>f \<in> set fs. inside x f}"

lemma points_Cons: "points (f # fs) = {x. inside x f} \<union> points fs"
  by (auto simp: points_def)

lemma seed_frags_seeded:
  assumes "seeded D P cs s0 (points frags \<union> T) made st"
    and "\<forall>f \<in> set frags. fst f < snd f" and "sorted_wrt (\<lambda>g h. snd g < fst h) frags"
    and "\<And>x. x \<in> points frags \<Longrightarrow> P x" and "D \<Longrightarrow> points frags \<inter> T = {}"
  shows "\<exists>go made' st'. seed_frags cs frags made st = (Ok (go, made'), st') \<and>
    seeded D P cs s0 T made' st'"
  using assms
proof (induction frags arbitrary: made st)
  case Nil
  then show ?case by (auto simp: points_def)
next
  case (Cons f frags)
  obtain fs fe where f: "f = (fs, fe)" by fastforce
  have lt: "fs < fe" using Cons.prems(2) by (simp add: f)
  let ?T = "points frags \<union> T"
  have Pf: "\<forall>x. inside x (fs, fe) \<longrightarrow> P x"
    using Cons.prems(4) by (simp add: f points_Cons)
  have sd: "seeded D P cs s0 ({x. inside x (fs, fe)} \<union> ?T) made st"
    using Cons.prems(1) by (simp add: f points_Cons Un_assoc)
  have later: "\<not> inside x g" if "inside x (fs, fe)" "g \<in> set frags" for x g
    using Cons.prems(3) that by (auto simp: f inside_def)
  have T: "D \<longrightarrow> {x. inside x (fs, fe)} \<inter> ?T = {}"
    using later Cons.prems(5) by (auto simp: f points_Cons points_def)
  have rest: "\<forall>f \<in> set frags. fst f < snd f" "sorted_wrt (\<lambda>g h. snd g < fst h) frags"
    "\<And>x. x \<in> points frags \<Longrightarrow> P x" "D \<Longrightarrow> points frags \<inter> T = {}"
    using Cons.prems by (auto simp: points_Cons)
  note ih = Cons.IH [OF _ rest]
  show ?case
  proof (cases "saturating_sub fe fs < PAGE_SIZE")
    case True
    have "seeded D P cs s0 ?T made st" using sd by (rule seeded_less) blast
    from ih [OF this] show ?thesis using True by (simp add: f)
  next
    case big: False
    have sub: "(sub_or_panic fe fs :: (kernel_init_error, u64) res) = Ok (fe - fs)"
      using lt by (simp add: sub_or_panic_Ok less_imp_le)
    have wf: "kwf st" using sd by (simp add: seeded_def)
    show ?thesis
    proof (cases "fst (alloc_untyped st fs (fe - fs))")
      case None
      then have "alloc_untyped st fs (fe - fs) = (None, st)"
        by (auto simp: alloc_untyped_def split: option.splits)
      moreover have "seeded D P cs s0 T made st" using sd by (rule seeded_less) blast
      ultimately show ?thesis using big by (auto simp: f sub)
    next
      case (Some uid)
      then obtain st1 where al: "alloc_untyped st fs (fe - fs) = (Some uid, st1)"
        by (metis prod.collapse)
      then have "cap_space st1 cs = cap_space st cs"
        by (auto simp: alloc_untyped_def cap_space_def split: option.splits)
      then obtain t where t: "cap_space st1 cs = Some t" using sd by (auto simp: seeded_def)
      obtain r t' where ins: "insert_root t (full (ObjectRef UntypedMemory uid)) = (r, t')"
        by fastforce
      note step = seed_step [OF sd T lt big Pf al t ins]
      show ?thesis
      proof (cases r)
        case (Ok c)
        have "(add_or_panic made 1 :: (kernel_init_error, u32) res) = Ok (made + 1)"
          using step(2) [OF Ok] by (simp add: add_or_panic_Ok)
        then show ?thesis using ih [OF step(3) [OF Ok]] big by (simp add: f sub al t ins Ok)
      next
        case (Err e)
        have "seeded D P cs s0 T made (set_cap_space st1 cs t')"
          using step(4) [OF Err] by (rule seeded_less) blast
        then show ?thesis using big by (auto simp: f sub al t ins Err)
      next
        case Panic
        then show ?thesis using step(1) by simp
      qed
    qed
  qed
qed

definition region_range :: "memory_region \<Rightarrow> u64 set" where
  "region_range r = {x. region_kind r = Usable \<and> base_addr r \<le> x \<and>
     x < saturating_add (base_addr r) (length_bytes r)}"

fun disjoint_regions :: "memory_region list \<Rightarrow> bool" where
  "disjoint_regions [] \<longleftrightarrow> True"
| "disjoint_regions (r # rs) \<longleftrightarrow>
     (\<forall>q \<in> set rs. region_range r \<inter> region_range q = {}) \<and> disjoint_regions rs"

definition seedable :: "memory_region list \<Rightarrow> (u64 \<times> u64) list \<Rightarrow> u64 \<Rightarrow> bool" where
  "seedable rs holes x \<longleftrightarrow> (\<exists>r \<in> set rs. x \<in> region_range r) \<and> (\<forall>h \<in> set holes. \<not> inside x h)"

lemma seed_regions_seeded:
  assumes "seeded D (seedable all holes) cs s0 (\<Union> (region_range ` set rs)) made st"
    and "set rs \<subseteq> set all" and "length holes < 8" and "D \<Longrightarrow> disjoint_regions rs"
  shows "\<exists>made' st'. seed_regions cs holes rs made st = (Ok made', st') \<and>
    seeded D (seedable all holes) cs s0 {} made' st'"
  using assms(1,2,4)
proof (induction rs arbitrary: made st)
  case Nil
  then show ?case by simp
next
  case (Cons r rs)
  let ?P = "seedable all holes" and ?T = "\<Union> (region_range ` set rs)"
  show ?case
  proof (cases "region_kind r \<noteq> Usable \<or> length_bytes r < PAGE_SIZE")
    case True
    have "seeded D ?P cs s0 ?T made st" using Cons.prems(1) by (rule seeded_less) auto
    from Cons.IH [OF this] show ?thesis using Cons.prems(2,3) True by auto
  next
    case False
    let ?fin = "saturating_add (base_addr r) (length_bytes r)"
    obtain n out where sh: "subtract_holes (base_addr r) ?fin holes (replicate 8 (0, 0)) = (n, out)"
      by fastforce
    have len: "length holes \<le> 8" "length holes < length (replicate 8 (0 :: u64, 0 :: u64))"
      using assms(3) by simp_all
    note sp = subtract_holes_spec [OF len sh]
    have pts: "points (take n out) = {x \<in> region_range r. \<forall>h \<in> set holes. \<not> inside x h}"
      using sp(1) False by (auto simp: points_def region_range_def)
    have sd: "seeded D ?P cs s0 (points (take n out) \<union> ?T) made st"
      using Cons.prems(1) by (rule seeded_less) (auto simp: pts)
    have "\<exists>go made' st'. seed_frags cs (take n out) made st = (Ok (go, made'), st') \<and>
        seeded D ?P cs s0 ?T made' st'"
      using sd sp(3,2)
    proof (rule seed_frags_seeded)
      show "?P x" if "x \<in> points (take n out)" for x
        using that Cons.prems(2) by (auto simp: pts seedable_def)
      show "points (take n out) \<inter> ?T = {}" if D
        using Cons.prems(3) [OF that] by (auto simp: pts)
    qed
    then obtain go made' st' where g: "seed_frags cs (take n out) made st = (Ok (go, made'), st')"
      "seeded D ?P cs s0 ?T made' st'" by blast
    show ?thesis
    proof (cases go)
      case True
      then show ?thesis using Cons.IH [OF g(2)] Cons.prems(2,3) False g(1) by (simp add: sh)
    next
      case False
      have "seeded D ?P cs s0 {} made' st'" using g(2) by (rule seeded_less) simp
      then show ?thesis using \<open>\<not> (region_kind r \<noteq> Usable \<or> length_bytes r < PAGE_SIZE)\<close> g(1) False
        by (simp add: sh)
    qed
  qed
qed

section \<open>The steps of the boot\<close>

lemma first_none_replicate: "0 < n \<Longrightarrow> first_none (replicate n None) = Some 0"
  by (cases n) simp_all

lemma kwf_EMPTY: "kwf EMPTY"
proof -
  have "cdt_wf CAP_SLOTS_PER_SPACE (replicate MAX_CAP_SPACES None)"
    by (rule cdt_wf_empty) (simp_all add: config_defs)
  moreover have "sched_wf (sched EMPTY)"
    by (simp add: EMPTY_def sched_wf_new config_defs)
  moreover have "single_running (sched EMPTY)" by (simp add: EMPTY_def single_running_new)
  moreover have "length (entities (sched EMPTY)) = MAX_THREADS"
    by (simp add: EMPTY_def sched_new_def)
  ultimately show ?thesis
    by (simp add: kwf_def shape_def EMPTY_def caps_live_def tcbs_wf_def irqs_wf_def pool_wf_def)
qed

text \<open>The state after the Root Task's capability space, address space and thread exist.\<close>

definition root_objects :: "u64 \<Rightarrow> kernel_state" where
  "root_objects pt = EMPTY
     \<lparr>cap_tables := (cap_tables EMPTY)[0 := Some (ct_new CAP_SLOTS_PER_SPACE 0)],
      addr_spaces := (addr_spaces EMPTY)[0 := Some (as_new MAPPINGS_PER_SPACE pt)],
      tcbs := (tcbs EMPTY)[0 := Some (new_inactive 0 0 0)]\<rparr>"

lemma as_usize_0 [simp]: "as_usize 0 = 0"
  by (simp add: as_usize_def)

lemma EMPTY_tables:
  "cap_tables EMPTY = replicate MAX_CAP_SPACES None" "untyped EMPTY = replicate MAX_UNTYPED None"
  "addr_spaces EMPTY = replicate MAX_ADDR_SPACES None" "tcbs EMPTY = replicate MAX_THREADS None"
  "mmio_regions EMPTY = replicate MAX_MMIO_REGIONS None"
  by (simp_all add: EMPTY_def)

lemma kwf_root_objects: "kwf (root_objects pt)"
proof -
  let ?s1 = "EMPTY\<lparr>cap_tables := (cap_tables EMPTY)[0 := Some (ct_new CAP_SLOTS_PER_SPACE 0)]\<rparr>"
  let ?s2 = "?s1\<lparr>addr_spaces := (addr_spaces ?s1)[0 := Some (as_new MAPPINGS_PER_SPACE pt)]\<rparr>"
  have "kwf (with_object EMPTY undefined 0 0 CapabilitySpace_T 0)"
    using kwf_EMPTY by (rule with_object_kwf(1)) (simp_all add: object_live.simps EMPTY_tables)
  then have "kwf ?s1" by simp
  then have "kwf ?s2" by (rule kwf_put_addr_space) (simp_all add: as_wf_new as_fits_new)
  then have "kwf (?s2\<lparr>tcbs := (tcbs ?s2)[0 := Some (new_inactive 0 0 0)]\<rparr>)"
    by (rule kwf_put_tcb)
      (simp add: tcb_wf_def new_inactive_def occ_def slot_at_update EMPTY_tables config_defs)
  then show ?thesis by (simp add: root_objects_def)
qed

lemma root_objects_tables:
  "cap_space (root_objects pt) 0 = Some (ct_new CAP_SLOTS_PER_SPACE 0)"
  "untyped (root_objects pt) = replicate MAX_UNTYPED None"
  "tcb_at (root_objects pt) 0 = Some (new_inactive 0 0 0)"
  "addr_space_mut (root_objects pt) 0 = Some (as_new MAPPINGS_PER_SPACE pt)"
  "cap_at (cap_tables (root_objects pt)) g = None"
  "mmio_regions (root_objects pt) = replicate MAX_MMIO_REGIONS None"
  by (simp_all add: root_objects_def cap_space_def tcb_at_def addr_space_mut_def slot_at_update
      EMPTY_tables config_defs add_space_views(1) [of "replicate 16 None", simplified])

lemma seeded_start: "seeded D P 0 (root_objects pt) T 0 (root_objects pt)"
  by (simp add: seeded_def kwf_root_objects root_objects_tables ucaps_def untyped_sep_def)

text \<open>Inserting one more capability of the Root Task.\<close>

lemma insert_or_none_cases:
  assumes "kwf st" and "cap_space st cs \<noteq> None" and "object_live st (cap_object c)"
  obtains k t' where "insert_or_none st cs c = (Ok k, set_cap_space st cs t')"
    and "kwf (set_cap_space st cs t')" and "cap_space (set_cap_space st cs t') cs \<noteq> None"
    and "obj_kind (cap_object c) \<noteq> UntypedMemory \<Longrightarrow> ucaps (set_cap_space st cs t') = ucaps st"
proof -
  obtain t where t: "cap_space st cs = Some t" using assms(2) by blast
  have s: "slot_at (cap_tables st) (as_usize cs) = Some t" using t by (simp add: cap_space_def)
  note ic = insert_root_kwf [OF assms(1) t assms(3)]
  have ct: "ct_wf t" using tables_wfD(1) [OF cdt_wf_tables [OF kwf_parts(3) [OF assms(1)]] s] .
  have sp: "cap_space (set_cap_space st cs t') cs \<noteq> None" for t'
    using slot_at_length [OF s] by (simp add: set_cap_space_def cap_space_def slot_at_update)
  from ct show thesis
  proof (cases rule: insert_root_cases [where cap = c])
    case full
    have same: "cap_tables (set_cap_space st cs t) = cap_tables st"
      using list_update_slot_same [OF s] by (simp add: set_cap_space_def)
    show thesis
      by (rule that [of NO_CAP t]) (use full ic(2) t sp same in \<open>simp_all add: insert_or_none_def ucaps_def\<close>)
  next
    case (ok k t' z)
    have "cap_at (cap_tables st) (GlobalCapId cs k) = None"
      using s ok(3,4) by (auto simp: cap_at_def table_at_def ct_lookup_def nth_opt_def)
    then have "ucaps (set_cap_space st cs t') = ucaps st" if "obj_kind (cap_object c) \<noteq> UntypedMemory"
      using that table_update_views(1) [OF s ok(5,3)] ok(6)
      by (auto simp: ucaps_def set_cap_space_def)
    then show thesis
      using that [of k t'] ok(1) ic(2) t sp by (simp add: insert_or_none_def)
  qed
qed

text \<open>What the later steps of the boot keep of the seeded state.\<close>

definition boot_frame :: "kernel_state \<Rightarrow> kernel_state \<Rightarrow> bool" where
  "boot_frame s st \<longleftrightarrow> kwf st \<and> cap_space st 0 \<noteq> None \<and> tcbs st = tcbs s \<and>
     addr_spaces st = addr_spaces s \<and> shared_regions st = shared_regions s \<and>
     sched st = sched s \<and> untyped st = untyped s \<and>
     ucaps st = ucaps s"

lemma boot_frame_insert:
  assumes "boot_frame s st" and "object_live st (cap_object c)"
    and "obj_kind (cap_object c) \<noteq> UntypedMemory"
  shows "\<exists>k st'. insert_or_none st 0 c = (Ok k, st') \<and> boot_frame s st'"
proof (rule insert_or_none_cases [of st 0 c])
  fix k t'
  assume "insert_or_none st 0 c = (Ok k, set_cap_space st 0 t')" "kwf (set_cap_space st 0 t')"
    "cap_space (set_cap_space st 0 t') 0 \<noteq> None"
    "obj_kind (cap_object c) \<noteq> UntypedMemory \<Longrightarrow> ucaps (set_cap_space st 0 t') = ucaps st"
  then show ?thesis using assms by (simp add: boot_frame_def) (simp add: set_cap_space_def)
qed (use assms in \<open>simp_all add: boot_frame_def\<close>)

lemma boot_frame_mmio:
  assumes "boot_frame s st"
  shows "\<exists>k st'. seed_mmio st 0 kind devs = (Ok k, st') \<and> boot_frame s st'"
proof (cases "find (\<lambda>d. pd_kind d = kind) devs")
  case None
  then show ?thesis using assms by (simp add: seed_mmio_def)
next
  case (Some d)
  let ?m = "\<lparr>phys_base = mmio_base d, md_size = mmio_size d, md_irq = pd_irq d,
    config_space_base = pd_config_space_base d\<rparr>"
  have wf: "kwf st" using assms by (simp add: boot_frame_def)
  show ?thesis
  proof (cases rule: mm.alloc_cases [OF kwf_lengths(8) [OF wf], where p = ?m])
    case 1
    then show ?thesis using assms Some by (simp add: seed_mmio_def)
  next
    case room: (2 k)
    let ?st = "st\<lparr>mmio_regions := (mmio_regions st)[as_usize k := Some ?m]\<rparr>"
    have "boot_frame s ?st"
      using assms kwf_put_mmio_region [OF wf]
      by (simp add: boot_frame_def cap_space_def ucaps_def)
    moreover have "object_live ?st (ObjectRef MmioRegion k)"
      using room(2) by (simp add: object_live.simps occ_update)
    ultimately show ?thesis
      using boot_frame_insert [of s ?st "full (ObjectRef MmioRegion k)"] Some room(1)
      by (simp add: seed_mmio_def)
  qed
qed

text \<open>The Root Task is admitted and becomes ready.\<close>

lemma admit_root:
  assumes "boot_frame s st"
  shows "\<exists>sc e. admit (sched st) 0 Interactive MAX_PRIORITY None = (Ok (), sc) \<and>
    entity sc 0 = Some e \<and> kwf (st\<lparr>sched := sc\<rparr>)"
proof -
  have wf: "kwf st" using assms by (simp add: boot_frame_def)
  note a = admit_ok [OF kwf_parts(1) [OF wf], where t = 0 and m = Interactive and p = MAX_PRIORITY and g = None]
  have lt: "as_usize 0 < length (entities (sched st))"
    using kwf_parts(2) [OF wf] by (simp add: config_defs)
  obtain e where e: "admit (sched st) 0 Interactive MAX_PRIORITY None =
      (Ok (), set_entity (sched st) 0 (Some e))" using a(6) [OF lt] by blast
  have "kwf (st\<lparr>sched := set_entity (sched st) 0 (Some e)\<rparr>)"
    using a(2,3,5) e kwf_parts(2,13) [OF wf] by (intro kwf_put_sched [OF wf]) simp_all
  then show ?thesis using e lt by auto
qed

lemma kwf_root_fields [simp]:
  "kwf (st\<lparr>root_thread := a, root_cap_space := b, root_addr_space := c, root_page_table_cap := d,
     root_mmio_blk_cap := e, root_mmio_net_cap := f, untyped_count := n\<rparr>) = kwf st"
  by (simp add: kwf_def shape_def caps_live_def object_live.simps tcbs_wf_def tcb_wf_def
      irqs_wf_def pool_wf_def cong: object_kind.case_cong)

text \<open>The last steps, from the admission on: the Root Task's entity becomes \<open>Ready\<close> and its
  control block \<open>Runnable\<close>.\<close>

lemma start_root:
  assumes "boot_frame s st" and "tcb_at s 0 = Some (new_inactive 0 0 0)"
  shows "\<exists>st1 st2. map_fst (map_err (\<lambda>_. CapacityExhausted))
      (lift_sched st (admit (sched st) 0 Interactive MAX_PRIORITY None)) = (Ok (), st1) \<and>
    map_fst (map_err (\<lambda>_. CapacityExhausted)) (lift_sched st1 (note_ready (sched st1) 0 0)) =
      (Ok (), st2) \<and>
    kwf (tcb_mut st2 0 (\<lambda>t. t\<lparr>t_entry := 0, t_state := Runnable\<rparr>)) \<and>
    tcb_at (tcb_mut st2 0 (\<lambda>t. t\<lparr>t_entry := 0, t_state := Runnable\<rparr>)) 0 =
      Some (new_inactive 0 0 0\<lparr>t_entry := 0, t_state := Runnable\<rparr>) \<and>
    (\<exists>e. entity (sched st2) 0 = Some e \<and> run_state e = Ready) \<and>
    untyped st2 = untyped st \<and> cap_tables st2 = cap_tables st \<and> addr_spaces st2 = addr_spaces st \<and>
    shared_regions st2 = shared_regions st"
proof -
  obtain sc e where a: "admit (sched st) 0 Interactive MAX_PRIORITY None = (Ok (), sc)"
    "entity sc 0 = Some e" "kwf (st\<lparr>sched := sc\<rparr>)" using admit_root [OF assms(1)] by blast
  let ?st1 = "st\<lparr>sched := sc\<rparr>"
  let ?sc = "set_entity sc 0 (Some (e\<lparr>run_state := Ready, became_ready_ns := 0\<rparr>))"
  have n: "note_ready sc 0 0 = (Ok (), ?sc)" using a(2) by (simp add: note_ready_def slot_mut_def)
  have wf2: "kwf (?st1\<lparr>sched := ?sc\<rparr>)"
    using kwf_step_ok [OF a(3) sched_calls_ok(1) [OF a(3), of 0 0]] n by simp
  have ent: "\<exists>e. entity ?sc 0 = Some e \<and> run_state e = Ready"
  proof -
    have "as_usize 0 < length (entities sc)" using a(2) by (auto simp: entity_def slot_at_Some_iff)
    then show ?thesis by simp
  qed
  let ?st2 = "?st1\<lparr>sched := ?sc\<rparr>"
  let ?t = "new_inactive 0 0 0\<lparr>t_entry := 0, t_state := Runnable\<rparr>"
  have tcb: "tcb_at ?st2 0 = Some (new_inactive 0 0 0)" "0 < length (tcbs ?st2)"
    using assms by (auto simp: boot_frame_def tcb_at_def slot_at_Some_iff)
  have mut: "tcb_mut ?st2 0 (\<lambda>t. t\<lparr>t_entry := 0, t_state := Runnable\<rparr>) =
      ?st2\<lparr>tcbs := (tcbs ?st2)[0 := Some ?t]\<rparr>"
    using tcb by (simp add: tcb_mut_def)
  have "tcb_wf ?st2 0 (new_inactive 0 0 0)"
    using kwf_parts(5) [OF wf2] tcb(1) by (auto simp: tcbs_wf_def tcb_at_def)
  then have "kwf (tcb_mut ?st2 0 (\<lambda>t. t\<lparr>t_entry := 0, t_state := Runnable\<rparr>))"
    unfolding mut by (intro kwf_put_tcb [OF wf2]) (simp add: tcb_wf_def)
  moreover have "tcb_at (tcb_mut ?st2 0 (\<lambda>t. t\<lparr>t_entry := 0, t_state := Runnable\<rparr>)) 0 = Some ?t"
    using tcb(2) unfolding mut by (simp add: tcb_at_def slot_at_update)
  ultimately show ?thesis
    using a n ent by (intro exI [of _ ?st1] exI [of _ ?st2]) (simp add: map_fst_def lift_sched_def)
qed

text \<open>What a completed boot promises of the state, given the usable regions of the manifest.\<close>

definition booted :: "boot_info \<Rightarrow> memory_region list \<Rightarrow> kernel_state \<Rightarrow> bool" where
  "booted b rs st \<longleftrightarrow> kwf st \<and>
     root_thread st = 0 \<and> root_cap_space st = 0 \<and> root_addr_space st = 0 \<and>
     tcb_at st 0 = Some (new_inactive 0 0 0\<lparr>t_entry := 0, t_state := Runnable\<rparr>) \<and>
     (\<exists>e. entity (sched st) 0 = Some e \<and> run_state e = Ready) \<and>
     addr_spaces st = (replicate MAX_ADDR_SPACES None)
       [0 := Some (as_new MAPPINGS_PER_SPACE (initial_page_table_phys b))] \<and>
     shared_regions st = replicate MAX_SHARED_REGIONS None \<and>
     untyped_count st \<noteq> 0 \<and> unat (untyped_count st) = card (ucaps st) \<and>
     slots_all (seed_ok (seedable rs (boot_holes b))) (untyped st) \<and>
     (disjoint_regions rs \<longrightarrow> untyped_sep st)"

lemma populate_start:
  assumes "boot_validate b = Ok ()"
    and "(memory_regions (hardware_manifest b) :: (kernel_init_error, _) res) = Ok rs"
    and "(peripheral_devices (hardware_manifest b) :: (kernel_init_error, _) res) = Ok devs"
  shows "\<exists>made st. seed_regions 0 (boot_holes b) rs 0 (root_objects (initial_page_table_phys b)) =
      (Ok made, st) \<and> seeded (disjoint_regions rs) (seedable rs (boot_holes b)) 0
        (root_objects (initial_page_table_phys b)) {} made st \<and>
    populate_from_boot_info EMPTY b =
    (if made = 0 then (Err NoUsableMemory, st) else
     then_do (insert_or_none st 0 (full (ObjectRef PageTable 0))) (\<lambda>pt_cap st.
     then_do (seed_mmio st 0 BlockDev devs) (\<lambda>blk_cap st.
     then_do (seed_mmio st 0 NetworkDev devs) (\<lambda>net_cap st.
     then_do (map_fst (map_err (\<lambda>_. CapacityExhausted))
       (lift_sched st (admit (sched st) 0 Interactive MAX_PRIORITY None))) (\<lambda>_ st.
     then_do (map_fst (map_err (\<lambda>_. CapacityExhausted))
       (lift_sched st (note_ready (sched st) 0 0))) (\<lambda>_ st.
     let st = tcb_mut st 0 (\<lambda>t. t\<lparr>t_entry := 0, t_state := Runnable\<rparr>) in
     (Ok (), st\<lparr>root_thread := 0, root_cap_space := 0, root_addr_space := 0,
        root_page_table_cap := pt_cap, root_mmio_blk_cap := blk_cap,
        root_mmio_net_cap := net_cap, untyped_count := made\<rparr>)))))))"
proof -
  let ?s0 = "root_objects (initial_page_table_phys b)"
  let ?s1 = "EMPTY\<lparr>cap_tables := (cap_tables EMPTY)[0 := Some (ct_new CAP_SLOTS_PER_SPACE 0)]\<rparr>"
  let ?s2 = "?s1\<lparr>addr_spaces := (addr_spaces EMPTY)[0 :=
      Some (as_new MAPPINGS_PER_SPACE (initial_page_table_phys b))]\<rparr>"
  have al: "exhausted (alloc_cap_space EMPTY) = (Ok 0, ?s1)"
    "exhausted (alloc_addr_space ?s1 (initial_page_table_phys b)) = (Ok 0, ?s2)"
    "exhausted (alloc_tcb ?s2 0 0) = (Ok 0, ?s0)"
    by (simp_all add: exhausted_def map_fst_def alloc_cap_space_def alloc_addr_space_def
        alloc_tcb_def EMPTY_tables first_none_replicate config_defs root_objects_def)
  have "\<exists>made st. seed_regions 0 (boot_holes b) rs 0 ?s0 = (Ok made, st) \<and>
    seeded (disjoint_regions rs) (seedable rs (boot_holes b)) 0 ?s0 {} made st"
    by (rule seed_regions_seeded [OF seeded_start]) (simp_all add: boot_holes_def)
  then obtain made st where seed: "seed_regions 0 (boot_holes b) rs 0 ?s0 = (Ok made, st)"
    "seeded (disjoint_regions rs) (seedable rs (boot_holes b)) 0 ?s0 {} made st" by blast
  show ?thesis
    by (rule exI [of _ made], rule exI [of _ st])
      (simp add: populate_from_boot_info_def assms al seed)
qed

lemma boot_cases:
  assumes "boot_validate b = Ok ()"
    and "(memory_regions (hardware_manifest b) :: (kernel_init_error, _) res) = Ok rs"
    and "(peripheral_devices (hardware_manifest b) :: (kernel_init_error, _) res) = Ok devs"
  shows "\<exists>st. populate_from_boot_info EMPTY b = (Err NoUsableMemory, st) \<or>
    populate_from_boot_info EMPTY b = (Ok (), st) \<and> booted b rs st"
proof -
  let ?s0 = "root_objects (initial_page_table_phys b)"
  let ?P = "seedable rs (boot_holes b)"
  obtain made s1 where seed: "seeded (disjoint_regions rs) ?P 0 ?s0 {} made s1"
    and pop: "populate_from_boot_info EMPTY b =
    (if made = 0 then (Err NoUsableMemory, s1) else
     then_do (insert_or_none s1 0 (full (ObjectRef PageTable 0))) (\<lambda>pt_cap st.
     then_do (seed_mmio st 0 BlockDev devs) (\<lambda>blk_cap st.
     then_do (seed_mmio st 0 NetworkDev devs) (\<lambda>net_cap st.
     then_do (map_fst (map_err (\<lambda>_. CapacityExhausted))
       (lift_sched st (admit (sched st) 0 Interactive MAX_PRIORITY None))) (\<lambda>_ st.
     then_do (map_fst (map_err (\<lambda>_. CapacityExhausted))
       (lift_sched st (note_ready (sched st) 0 0))) (\<lambda>_ st.
     let st = tcb_mut st 0 (\<lambda>t. t\<lparr>t_entry := 0, t_state := Runnable\<rparr>) in
     (Ok (), st\<lparr>root_thread := 0, root_cap_space := 0, root_addr_space := 0,
        root_page_table_cap := pt_cap, root_mmio_blk_cap := blk_cap,
        root_mmio_net_cap := net_cap, untyped_count := made\<rparr>)))))))"
    using populate_start [OF assms] by blast
  show ?thesis
  proof (cases "made = 0")
    case True
    then show ?thesis by (simp add: pop)
  next
    case False
    have bf: "boot_frame s1 s1" using seed by (simp add: boot_frame_def seeded_def)
    have "addr_spaces s1 = addr_spaces ?s0" using seed by (simp add: seeded_def)
    then have live: "object_live s1 (cap_object (full (ObjectRef PageTable 0)))"
      by (simp add: object_live.simps root_objects_def occ_def slot_at_update EMPTY_tables config_defs)
    obtain k s2 where k: "insert_or_none s1 0 (full (ObjectRef PageTable 0)) = (Ok k, s2)"
      "boot_frame s1 s2" using boot_frame_insert [OF bf live] by auto
    obtain m s3 where m: "seed_mmio s2 0 BlockDev devs = (Ok m, s3)" "boot_frame s1 s3"
      using boot_frame_mmio [OF k(2)] by blast
    obtain n s4 where n: "seed_mmio s3 0 NetworkDev devs = (Ok n, s4)" "boot_frame s1 s4"
      using boot_frame_mmio [OF m(2)] by blast
    have "tcb_at s1 0 = Some (new_inactive 0 0 0)"
      using seed root_objects_tables(3) by (simp add: seeded_def tcb_at_def)
    from start_root [OF n(2) this] obtain s5 s6 where
      s5: "map_fst (map_err (\<lambda>_. CapacityExhausted))
        (lift_sched s4 (admit (sched s4) 0 Interactive MAX_PRIORITY None)) = (Ok (), s5)"
      "map_fst (map_err (\<lambda>_. CapacityExhausted)) (lift_sched s5 (note_ready (sched s5) 0 0)) =
        (Ok (), s6)"
      and wf: "kwf (tcb_mut s6 0 (\<lambda>t. t\<lparr>t_entry := 0, t_state := Runnable\<rparr>))"
      and root: "tcb_at (tcb_mut s6 0 (\<lambda>t. t\<lparr>t_entry := 0, t_state := Runnable\<rparr>)) 0 =
        Some (new_inactive 0 0 0\<lparr>t_entry := 0, t_state := Runnable\<rparr>)"
      and ready: "\<exists>e. entity (sched s6) 0 = Some e \<and> run_state e = Ready"
      and same: "untyped s6 = untyped s4" "cap_tables s6 = cap_tables s4"
        "addr_spaces s6 = addr_spaces s4" "shared_regions s6 = shared_regions s4"
      by blast
    have parts: "untyped s4 = untyped s1" "ucaps s4 = ucaps s1" "addr_spaces s4 = addr_spaces ?s0"
      "shared_regions s4 = shared_regions ?s0"
      using n(2) seed by (simp_all add: boot_frame_def seeded_def)
    have as: "addr_spaces ?s0 = (replicate MAX_ADDR_SPACES None)
        [0 := Some (as_new MAPPINGS_PER_SPACE (initial_page_table_phys b))]"
      by (simp add: root_objects_def EMPTY_tables)
    have sr: "shared_regions ?s0 = replicate MAX_SHARED_REGIONS None"
      by (simp add: root_objects_def EMPTY_def)
    have mut: "tcb_mut s6 0 f = s6\<lparr>tcbs := tcbs (tcb_mut s6 0 f)\<rparr>" for f
      by (simp add: tcb_mut_def split: option.split)
    have mut_same: "untyped (tcb_mut s6 0 f) = untyped s1" "sched (tcb_mut s6 0 f) = sched s6"
      "addr_spaces (tcb_mut s6 0 f) = addr_spaces ?s0"
      "shared_regions (tcb_mut s6 0 f) = shared_regions ?s0" "cap_tables (tcb_mut s6 0 f) = cap_tables s4"
      for f using same parts by (subst mut, simp)+
    have "populate_from_boot_info EMPTY b = (Ok (),
        tcb_mut s6 0 (\<lambda>t. t\<lparr>t_entry := 0, t_state := Runnable\<rparr>)
          \<lparr>root_thread := 0, root_cap_space := 0, root_addr_space := 0,
           root_page_table_cap := k, root_mmio_blk_cap := m,
           root_mmio_net_cap := n, untyped_count := made\<rparr>)"
      using False k m n s5 by (simp add: pop)
    moreover have "booted b rs (tcb_mut s6 0 (\<lambda>t. t\<lparr>t_entry := 0, t_state := Runnable\<rparr>)
          \<lparr>root_thread := 0, root_cap_space := 0, root_addr_space := 0,
           root_page_table_cap := k, root_mmio_blk_cap := m,
           root_mmio_net_cap := n, untyped_count := made\<rparr>)"
      using False seed wf root ready parts as sr
      by (simp add: booted_def seeded_def tcb_at_def addr_space_mut_def mut_same ucaps_def untyped_sep_def)
    ultimately show ?thesis by blast
  qed
qed

section \<open>Properties\<close>

text \<open>C21: Booting from a manifest whose counts lie within its tables never panics. It refuses a
  malformed boot record before touching anything, and otherwise either finds no usable memory or
  reaches a well-formed state: the Root Task exists, is runnable and ready, runs on the page table
  the loader left, and holds one capability per untyped region; every region seeded is at least a
  page of a usable region of the manifest that avoids the kernel image, the boot-reserved range
  and low memory, and regions are pairwise disjoint when the manifest's are.\<close>

theorem boot_establishes:
  assumes "manifest_wf (hardware_manifest b)"
  shows "populate_from_boot_info EMPTY b = (Err BadBootInfo, EMPTY) \<and> boot_validate b \<noteq> Ok () \<or>
    boot_validate b = Ok () \<and>
    (\<exists>st. populate_from_boot_info EMPTY b = (Err NoUsableMemory, st) \<or>
      populate_from_boot_info EMPTY b = (Ok (), st) \<and>
      booted b (take (unat (memory_region_count (hardware_manifest b)))
        (memory_region_table (hardware_manifest b))) st)"
proof (cases "boot_validate b = Ok ()")
  case True
  then show ?thesis
    using boot_cases [OF True manifest_slices(1) [OF assms] manifest_slices(3) [OF assms]] by blast
next
  case False
  then obtain e where "boot_validate b = Err e"
    by (auto simp: boot_validate_def split: if_splits)
  then show ?thesis by (simp add: populate_from_boot_info_def)
qed

text \<open>C22: The fragments that carving leaves of a region are exactly the bytes of the region that lie
  in no hole: they come out in increasing order, separated and non-empty, and never overflow a
  buffer with room for one fragment more than there are holes.\<close>

theorem carve_exact:
  assumes "length holes \<le> 8" and "length holes < length out"
    and "subtract_holes start fin holes out = (k, out')"
  shows "(\<exists>g \<in> set (take k out'). inside x g) = (start \<le> x \<and> x < fin \<and> \<not> (\<exists>h \<in> set holes. inside x h)) \<and>
    sorted_wrt (\<lambda>g h. snd g < fst h) (take k out') \<and>
    list_all (\<lambda>g. fst g < snd g) (take k out') \<and> k \<le> length out"
  using subtract_holes_spec [OF assms] by (simp add: list_all_iff)

theorem carve_exact_witness:
  "(\<exists>g \<in> set (take 2 [(0, 16), (32, 64), (0, 0)]). inside 40 g) =
     (0 \<le> (40 :: u64) \<and> 40 < (64 :: u64) \<and> \<not> (\<exists>h \<in> set [(16, 32)]. inside 40 h))"
proof -
  have "subtract_holes 0 64 [(16, 32)] (replicate 3 (0, 0)) = (2, [(0, 16), (32, 64), (0, 0)])"
    by code_simp
  from carve_exact [OF _ _ this, of 40] show ?thesis by simp
qed

text \<open>A machine with one usable region whose first pages hold the kernel image.\<close>

definition sample_boot :: boot_info where
  "sample_boot = boot_info_new Uefi
     (zeroed_manifest\<lparr>memory_region_count := 1,
        memory_region_table := (replicate MAX_MEMORY_REGIONS ZERO_REGION)
          [0 := memory_region_new 0x200000 0x10000 Usable False],
        timer := timer_new Tsc 1 False\<rparr>)
     0x1000 (0x200000, 0x204000) (0, 0) 0"

lemma sample_manifest: "manifest_wf (hardware_manifest sample_boot)"
  by (simp add: manifest_wf_def sample_boot_def boot_info_new_def zeroed_manifest_def manifest_bounds)

lemma sample_boots: "fst (populate_from_boot_info EMPTY sample_boot) = Ok ()"
  by code_simp

theorem boot_establishes_witness:
  "\<exists>st. populate_from_boot_info EMPTY sample_boot = (Ok (), st) \<and>
    booted sample_boot (take 1 (memory_region_table (hardware_manifest sample_boot))) st"
proof -
  have "unat (memory_region_count (hardware_manifest sample_boot)) = 1"
    by (simp add: sample_boot_def boot_info_new_def)
  then show ?thesis
    using boot_establishes [OF sample_manifest] sample_boots by auto
qed

lemma sample_state: "kwf (snd (populate_from_boot_info EMPTY sample_boot))"
proof -
  have v: "boot_validate sample_boot = Ok ()" by code_simp
  show ?thesis
    using boot_cases [OF v manifest_slices(1) [OF sample_manifest] manifest_slices(3) [OF sample_manifest]]
      sample_boots by (auto simp: booted_def)
qed

end
