(* ===== verification/Preempt.thy ===== *)
theory Preempt
  imports SysInv
begin

text \<open>
  \<open>kernel/kernel-core/src/preempt.rs\<close> and \<open>run.rs\<close>: what happens to the
  kernel state on a timer tick, a voluntary yield, a fault, a block or a direct hand-off, and the
  drive step of the in-kernel Root Task. \<open>wake_blocked\<close> is in theory \<open>Syscall\<close>,
  whose \<open>Signal\<close> handler calls it.

  The functions return no \<open>Result\<close>; the only failure of their models is a panic. A raw
  pointer into the register context of a thread is the index of the thread's slot. What the
  hardware writes into a register context is a parameter, the record \<open>context_hal\<close>; of
  \<open>context_switch\<close> it holds the value left in the buffer of the outgoing thread.
\<close>

datatype preempt_step = Switch thread_id thread_id | Continue | IdleStep

datatype termination_outcome = SwitchedTo thread_id | IdleAfter

datatype schedule_outcome = Switched thread_id | NotStartable thread_id | IdleCore

record context_hal =
  ctx_now_ns :: u64
  ctx_init_context :: "cpu_context \<Rightarrow> u64 \<Rightarrow> u64 \<Rightarrow> cpu_context"
  ctx_init_user_context :: "cpu_context \<Rightarrow> u64 \<Rightarrow> u64 \<Rightarrow> u64 \<Rightarrow> cpu_context"
  ctx_context_switch :: "cpu_context \<Rightarrow> cpu_context \<Rightarrow> cpu_context"

section \<open>Ticks and yields\<close>

definition sched_pick :: "kernel_state \<Rightarrow> u64 \<Rightarrow> thread_id option sys" where
  "sched_pick st now = (map_err SchedErr (pick_next (sched st) now), st)"

definition preempt_tick :: "kernel_state \<Rightarrow> u64 \<Rightarrow> preempt_step sys" where
  "preempt_tick st now = (let outgoing = running (sched st) in
     then_do (sched_do st (\<lambda>s. account s now)) (\<lambda>_ st.
     then_do (sched_pick st now) (\<lambda>next st.
     case (outgoing, next) of
       (Some t, Some n) \<Rightarrow>
         (if n \<noteq> t
          then then_do (sched_do st (\<lambda>s. dispatch_thread s n now)) (\<lambda>_ st. (Ok (Switch t n), st))
          else then_do (sched_do st (\<lambda>s. dispatch_thread s t now)) (\<lambda>_ st. (Ok Continue, st)))
     | (Some t, None) \<Rightarrow>
         then_do (sched_do st (\<lambda>s. note_ready s t now)) (\<lambda>_ st.
         then_do (sched_do st (\<lambda>s. dispatch_thread s t now)) (\<lambda>_ st. (Ok Continue, st)))
     | (None, Some n) \<Rightarrow>
         then_do (sched_do st (\<lambda>s. dispatch_thread s n now)) (\<lambda>_ st. (Ok Continue, st))
     | (None, None) \<Rightarrow> (Ok IdleStep, st))))"

definition cooperative_yield :: "kernel_state \<Rightarrow> u64 \<Rightarrow> preempt_step sys" where
  "cooperative_yield st now = (let outgoing = running (sched st) in
     then_do (sched_do st (\<lambda>s. account s now)) (\<lambda>_ st.
     then_do (case outgoing of
         Some t \<Rightarrow>
           then_do (sched_do st (\<lambda>s. note_blocked s t)) (\<lambda>_ st.
           then_do (sched_pick st now) (\<lambda>n st.
           then_do (sched_do st (\<lambda>s. note_ready s t now)) (\<lambda>_ st. (Ok n, st))))
       | None \<Rightarrow> sched_pick st now) (\<lambda>next st.
     case outgoing of
       Some t \<Rightarrow> (case next of
           Some n \<Rightarrow> (if n \<noteq> t
             then then_do (sched_do st (\<lambda>s. dispatch_thread s n now)) (\<lambda>_ st. (Ok (Switch t n), st))
             else then_do (sched_do st (\<lambda>s. dispatch_thread s t now)) (\<lambda>_ st. (Ok Continue, st)))
         | None \<Rightarrow> then_do (sched_do st (\<lambda>s. dispatch_thread s t now)) (\<lambda>_ st. (Ok Continue, st)))
     | None \<Rightarrow> (case next of
           Some n \<Rightarrow> then_do (sched_do st (\<lambda>s. dispatch_thread s n now)) (\<lambda>_ st. (Ok Continue, st))
         | None \<Rightarrow> (Ok IdleStep, st)))))"

section \<open>Register contexts\<close>

definition user_ctx_switch_ptrs :: "kernel_state \<Rightarrow> thread_id \<Rightarrow> thread_id \<Rightarrow> (nat \<times> nat) option" where
  "user_ctx_switch_ptrs st outgoing incoming =
     (let oi = as_usize outgoing; ii = as_usize incoming in
      if oi = ii \<or> oi \<ge> MAX_THREADS \<or> ii \<ge> MAX_THREADS then None
      else case slot_at (tcbs st) oi of
          None \<Rightarrow> None
        | Some _ \<Rightarrow> (case slot_at (tcbs st) ii of None \<Rightarrow> None | Some _ \<Rightarrow> Some (oi, ii)))"

definition user_context_bytes :: "kernel_state \<Rightarrow> thread_id \<Rightarrow> cpu_context option" where
  "user_context_bytes st t = map_option user_context (tcb_at st t)"

definition init_user_thread ::
  "kernel_state \<Rightarrow> thread_id \<Rightarrow> u64 \<Rightarrow> u64 \<Rightarrow> u64 \<Rightarrow> context_hal \<Rightarrow> unit sys" where
  "init_user_thread st t ent stack_top root_frame hal =
     (let st = tcb_mut st t (\<lambda>x. x\<lparr>user_context :=
            ctx_init_user_context hal (user_context x) ent stack_top root_frame,
            t_entry := ent, t_state := Runnable\<rparr>) in
      then_do (sched_do st (\<lambda>s. admit s t Interactive MAX_PRIORITY None)) (\<lambda>_ st.
      sched_do st (\<lambda>s. note_ready s t (ctx_now_ns hal))))"

section \<open>Faults, blocking and hand-offs\<close>

text \<open>The common start of both terminations.\<close>

definition retire :: "kernel_state \<Rightarrow> thread_id \<Rightarrow> u64 \<Rightarrow> unit sys" where
  "retire st t now =
     then_do (if running (sched st) = Some t then sched_do st (\<lambda>s. account s now) else (Ok (), st))
       (\<lambda>_ st. let st = set_state st t Exited in (Ok (), st\<lparr>sched := remove (sched st) t\<rparr>))"

definition terminate_thread :: "kernel_state \<Rightarrow> thread_id \<Rightarrow> u64 \<Rightarrow> termination_outcome sys" where
  "terminate_thread st t now =
     then_do (retire st t now) (\<lambda>_ st.
     then_do (sched_pick st now) (\<lambda>next st.
     case next of
       Some n \<Rightarrow> then_do (sched_do st (\<lambda>s. dispatch_thread s n now)) (\<lambda>_ st. (Ok (SwitchedTo n), st))
     | None \<Rightarrow> (Ok IdleAfter, st)))"

definition block_thread :: "kernel_state \<Rightarrow> thread_id \<Rightarrow> u64 \<Rightarrow> preempt_step sys" where
  "block_thread st t now =
     then_do (sched_do st (\<lambda>s. account s now)) (\<lambda>_ st.
     then_do (sched_do st (\<lambda>s. note_blocked s t)) (\<lambda>_ st.
     then_do (sched_pick st now) (\<lambda>next st.
     if next \<noteq> None \<and> next \<noteq> Some t
     then then_do (sched_do st (\<lambda>s. dispatch_thread s (the next) now)) (\<lambda>_ st.
       (Ok (Switch t (the next)), st))
     else then_do (sched_do st (\<lambda>s. note_ready s t now)) (\<lambda>_ st.
       then_do (sched_do st (\<lambda>s. dispatch_thread s t now)) (\<lambda>_ st. (Ok Continue, st))))))"

definition terminate_thread_and_handoff ::
  "kernel_state \<Rightarrow> thread_id \<Rightarrow> thread_id \<Rightarrow> u64 \<Rightarrow> unit sys" where
  "terminate_thread_and_handoff st t incoming now =
     then_do (retire st t now) (\<lambda>_ st. sched_do st (\<lambda>s. dispatch_thread s incoming now))"

definition yield_to_thread :: "kernel_state \<Rightarrow> thread_id \<Rightarrow> thread_id \<Rightarrow> u64 \<Rightarrow> preempt_step sys" where
  "yield_to_thread st from to now =
     then_do (sched_do st (\<lambda>s. account s now)) (\<lambda>_ st.
     then_do (sched_do st (\<lambda>s. note_blocked s from)) (\<lambda>_ st.
     then_do (sched_do st (\<lambda>s. dispatch_thread s to now)) (\<lambda>_ st. (Ok (Switch from to), st))))"

section \<open>The drive step\<close>

definition startable :: "kernel_state \<Rightarrow> thread_id \<Rightarrow> bool" where
  "startable st t \<longleftrightarrow> (case tcb_at st t of
      None \<Rightarrow> False | Some x \<Rightarrow> t_state x = Runnable \<and> t_entry x \<noteq> 0)"

text \<open>\<open>unsafe { hal.context_switch(from, &to_bytes) }\<close> with the context of \<open>from\<close>.\<close>

definition save_context ::
  "kernel_state \<Rightarrow> thread_id \<Rightarrow> cpu_context \<Rightarrow> context_hal \<Rightarrow> unit sys" where
  "save_context st from to_bytes hal = (case tcb_at st from of
      None \<Rightarrow> (Panic, st)
    | Some _ \<Rightarrow> (Ok (), tcb_mut st from (\<lambda>x. x\<lparr>t_context :=
        ctx_context_switch hal (t_context x) to_bytes\<rparr>)))"

definition schedule_step :: "kernel_state \<Rightarrow> context_hal \<Rightarrow> schedule_outcome sys" where
  "schedule_step st hal = (let now = ctx_now_ns hal; outgoing = running (sched st) in
     then_do (sched_do st (\<lambda>s. account s now)) (\<lambda>_ st.
     then_do (sched_pick st now) (\<lambda>next st.
     case next of
       None \<Rightarrow> (Ok IdleCore, st)
     | Some n \<Rightarrow>
       (if \<not> startable st n then (Ok (NotStartable n), st)
        else then_do (sched_do st (\<lambda>s. dispatch_thread s n now)) (\<lambda>_ st.
          case tcb_at st n of
            None \<Rightarrow> (Panic, st)
          | Some x \<Rightarrow> then_do (case outgoing of
                Some prev \<Rightarrow> (if prev \<noteq> n then save_context st prev (t_context x) hal else (Ok (), st))
              | None \<Rightarrow> (Ok (), st)) (\<lambda>_ st. (Ok (Switched n), st)))))))"

definition start_thread ::
  "kernel_state \<Rightarrow> thread_id \<Rightarrow> u64 \<Rightarrow> u64 \<Rightarrow> context_hal \<Rightarrow> unit sys" where
  "start_thread st t ent stack_top hal =
     (let st = tcb_mut st t (\<lambda>x. x\<lparr>t_context := ctx_init_context hal (t_context x) ent stack_top,
            t_entry := ent, t_state := Runnable\<rparr>) in
      then_do (sched_do st (\<lambda>s. admit s t Interactive 20 None)) (\<lambda>_ st.
      sched_do st (\<lambda>s. note_ready s t (ctx_now_ns hal))))"

definition yield_to :: "kernel_state \<Rightarrow> thread_id \<Rightarrow> thread_id \<Rightarrow> context_hal \<Rightarrow> unit sys" where
  "yield_to st from to hal =
     (if from = to then (Ok (), st)
      else let now = ctx_now_ns hal;
               from_running = (case entity (sched st) from of
                   None \<Rightarrow> False | Some e \<Rightarrow> run_state e = Running) in
        then_do (if from_running then sched_do st (\<lambda>s. note_ready s from now) else (Ok (), st)) (\<lambda>_ st.
        then_do (sched_do st (\<lambda>s. dispatch_thread s to now)) (\<lambda>_ st.
        case tcb_at st to of
          None \<Rightarrow> (Panic, st)
        | Some x \<Rightarrow> save_context st from (t_context x) hal)))"

section \<open>Keeping the invariant\<close>

text \<open>A call whose result is discarded never fails.\<close>

lemma sched_do_Ok:
  assumes "step_ok (sched st) (f (sched st))"
  shows "sched_do st f = (Ok (), st\<lparr>sched := snd (f (sched st))\<rparr>)"
  using assms by (auto simp: sched_do_def step_ok_def split: prod.splits)

lemma sched_pick_Ok:
  assumes "kwf st"
  obtains r where "sched_pick st now = (Ok r, st)" "pick_next (sched st) now = Ok r"
  using pick_next_spec [OF kwf_parts(1) [OF assms], of now]
  by (metis (no_types, lifting) map_err.simps(1) sched_pick_def)

text \<open>The invariant with no thread on the CPU, as every path has it before it dispatches.\<close>

definition parked :: "kernel_state \<Rightarrow> bool" where
  "parked st \<longleftrightarrow> kwf st \<and> running (sched st) = None"

lemma parked_kwf: "parked st \<Longrightarrow> kwf st"
  by (simp add: parked_def)

lemma running_slot_mut [simp]: "running (snd (slot_mut s t f)) = running s"
  by (auto simp: slot_mut_def split: option.splits)

lemma running_note_blocked: "running s = None \<Longrightarrow> running (snd (note_blocked s t)) = None"
  by (auto simp: note_blocked_def then_do_def slot_mut_def split: option.splits)

lemma park_account:
  assumes "kwf st"
  shows "keeps parked (sched_do st (\<lambda>s. account s now))"
  using sched_calls_ok(3) [OF assms, of now] account_ok(2) [OF kwf_parts(1) [OF assms], of now]
    kwf_step_ok [OF assms sched_calls_ok(3) [OF assms, of now]]
  by (simp add: sched_do_Ok parked_def)

lemma park_note_blocked: "parked st \<Longrightarrow> keeps parked (sched_do st (\<lambda>s. note_blocked s t))"
  using sched_calls_ok(2) [of st t] kwf_step_ok [of st "note_blocked (sched st) t"]
  by (simp add: sched_do_Ok parked_def running_note_blocked)

lemma park_note_ready: "parked st \<Longrightarrow> keeps parked (sched_do st (\<lambda>s. note_ready s t now))"
  using sched_calls_ok(1) [of st t now] kwf_step_ok [of st "note_ready (sched st) t now"]
  by (simp add: sched_do_Ok parked_def) (simp add: note_ready_def)

lemma park_pick: "parked st \<Longrightarrow> keeps parked (sched_pick st now)"
  by (rule sched_pick_Ok [of st now]) (simp_all add: parked_def)

lemma keeps_dispatch_thread:
  assumes "kwf st" and "running (sched st) = None \<or> running (sched st) = Some t"
  shows "keeps kwf (sched_do st (\<lambda>s. dispatch_thread s t now))"
proof -
  note d = dispatch_ok [OF kwf_parts(1) [OF assms(1)], of t now]
  have "kwf (st\<lparr>sched := snd (dispatch_thread (sched st) t now)\<rparr>)"
    using d kwf_parts(2,13) [OF assms(1)] assms(2) by (intro kwf_put_sched [OF assms(1)]) auto
  then show ?thesis using d(1) by (auto simp: sched_do_def keeps_def split: prod.splits)
qed

lemma unpark_dispatch: "parked st \<Longrightarrow> keeps kwf (sched_do st (\<lambda>s. dispatch_thread s t now))"
  by (intro keeps_dispatch_thread) (auto simp: parked_def)

lemmas parking = park_account park_note_blocked park_note_ready park_pick

text \<open>One call after another: \<open>P\<close> holds in between, \<open>Q\<close> at the end.\<close>

lemma keeps_seq:
  assumes "keeps P m" and "\<And>s. P s \<Longrightarrow> Q s" and "\<And>x s. P s \<Longrightarrow> keeps Q (g x s)"
  shows "keeps Q (then_do m g)"
  using assms by (cases "fst m") (auto simp: then_do_def keeps_def)

lemmas park_seq = parking [THEN keeps_seq, where Q = kwf, OF _ parked_kwf]
  and park_again = parking [THEN keeps_seq, where Q = parked]

lemma unpark_seq:
  assumes "parked st" and "\<And>x s. kwf s \<Longrightarrow> keeps kwf (g x s)"
  shows "keeps kwf (then_do (sched_do st (\<lambda>s. dispatch_thread s t now)) g)"
  by (rule keeps_seq [where P = kwf]) (use assms unpark_dispatch in auto)

lemma keeps_preempt_tick:
  assumes "kwf st"
  shows "keeps kwf (preempt_tick st now)"
  unfolding preempt_tick_def Let_def using assms
  by (auto intro!: park_seq unpark_seq split: option.split simp: parked_kwf)

lemma keeps_cooperative_yield:
  assumes "kwf st"
  shows "keeps kwf (cooperative_yield st now)"
proof -
  have pick: "keeps parked (case t of
         Some t \<Rightarrow>
           then_do (sched_do s (\<lambda>s. note_blocked s t)) (\<lambda>_ s.
           then_do (sched_pick s now) (\<lambda>n s.
           then_do (sched_do s (\<lambda>s. note_ready s t now)) (\<lambda>_ s. (Ok n, s))))
       | None \<Rightarrow> sched_pick s now)" if "parked s" for s t
    using that by (auto intro!: park_again park_pick split: option.split)
  show ?thesis
    unfolding cooperative_yield_def Let_def using assms
    by (auto intro!: park_seq unpark_seq keeps_seq [where Q = kwf, OF pick parked_kwf]
        split: option.split simp: parked_kwf)
qed

lemma keeps_block_thread: "kwf st \<Longrightarrow> keeps kwf (block_thread st t now)"
  unfolding block_thread_def by (auto intro!: park_seq unpark_seq)

lemma keeps_yield_to_thread: "kwf st \<Longrightarrow> keeps kwf (yield_to_thread st from to now)"
  unfolding yield_to_thread_def by (auto intro!: park_seq unpark_seq)

lemma sched_set_state [simp]: "sched (set_state st t x) = sched st"
  by (simp add: set_state_def tcb_mut_def split: option.split)

lemma running_remove: "running s = None \<or> running s = Some t \<Longrightarrow> running (remove s t) = None"
  by (auto simp: remove_def Let_def)

lemma keeps_retire:
  assumes "kwf st"
  shows "keeps kwf (retire st t now)"
    and "running (sched st) = None \<or> running (sched st) = Some t \<Longrightarrow> keeps parked (retire st t now)"
proof -
  have fin: "kwf (set_state s t Exited\<lparr>sched := remove (sched (set_state s t Exited)) t\<rparr>)"
    if "kwf s" for s
    using kwf_step_ok [OF kwf_set_state [OF that]] remove_ok [OF kwf_parts(1) [OF that], of t]
    by (metis sched_set_state snd_conv)
  have acc: "keeps kwf (if running (sched st) = Some t then sched_do st (\<lambda>s. account s now)
      else (Ok (), st) :: unit sys)"
    using assms by (simp add: keeps_sched_do sched_calls_ok)
  show "keeps kwf (retire st t now)"
    unfolding retire_def Let_def by (rule keeps_seq [OF acc]) (use fin in auto)
  show "keeps parked (retire st t now)" if "running (sched st) = None \<or> running (sched st) = Some t"
  proof -
    have "keeps parked (if running (sched st) = Some t then sched_do st (\<lambda>s. account s now)
        else (Ok (), st))"
      using assms that park_account by (auto simp: parked_def)
    then show ?thesis unfolding retire_def Let_def
      by (rule keeps_seq) (use fin running_remove in \<open>auto simp: parked_def\<close>)
  qed
qed

lemma keeps_terminate_thread:
  assumes "kwf st" and "running (sched st) = None \<or> running (sched st) = Some t"
  shows "keeps kwf (terminate_thread st t now)"
    and "keeps kwf (terminate_thread_and_handoff st t u now)"
  unfolding terminate_thread_def terminate_thread_and_handoff_def
  by (rule keeps_seq [OF keeps_retire(2) [OF assms] parked_kwf];
    auto intro!: park_seq unpark_seq unpark_dispatch split: option.split simp: parked_kwf)+

lemma kwf_admit:
  assumes "kwf st"
  shows "keeps kwf (sched_do st (\<lambda>s. admit s t m p g))"
proof -
  note a = admit_ok [OF kwf_parts(1) [OF assms], where t = t and m = m and p = p and g = g]
  have "kwf (st\<lparr>sched := snd (admit (sched st) t m p g)\<rparr>)"
    using a(2,3,5) kwf_parts(2,13) [OF assms] by (intro kwf_put_sched [OF assms]) auto
  then show ?thesis using a(1) by (auto simp: sched_do_def keeps_def split: prod.splits)
qed

lemma keeps_init_user_thread: "kwf st \<Longrightarrow> keeps kwf (init_user_thread st t ent sp root hal)"
  unfolding init_user_thread_def Let_def
  by (rule keeps_seq [where P = kwf], rule kwf_admit, rule kwf_tcb_mut)
    (auto intro: keeps_sched_do sched_calls_ok)

lemma keeps_start_thread: "kwf st \<Longrightarrow> keeps kwf (start_thread st t ent sp hal)"
  unfolding start_thread_def Let_def
  by (rule keeps_seq [where P = kwf], rule kwf_admit, rule kwf_tcb_mut)
    (auto intro: keeps_sched_do sched_calls_ok)

lemma keeps_save_context:
  assumes "kwf st" and "tcb_at st from \<noteq> None"
  shows "keeps kwf (save_context st from bs hal)"
  using assms kwf_tcb_mut [OF assms(1), where f = "\<lambda>x. x\<lparr>t_context :=
    ctx_context_switch hal (t_context x) bs\<rparr>"] by (auto simp: save_context_def)

lemma tcb_at_sched [simp]: "tcb_at (st\<lparr>sched := s\<rparr>) t = tcb_at st t"
  by (simp add: tcb_at_def)

text \<open>A discarded call of the scheduler changes nothing but the scheduler.\<close>

lemma sched_do_eq:
  assumes "keeps I (sched_do st f)"
  obtains s where "sched_do st f = (Ok (), st\<lparr>sched := s\<rparr>)" and "I (st\<lparr>sched := s\<rparr>)"
    and "s = snd (f (sched st))"
  using assms by (cases "f (sched st)") (auto simp: sched_do_def keeps_def split: if_splits)

lemma keeps_schedule_step:
  assumes "kwf st" and "\<And>t. running (sched st) = Some t \<Longrightarrow> tcb_at st t \<noteq> None"
  shows "keeps kwf (schedule_step st hal)"
proof -
  let ?now = "ctx_now_ns hal"
  obtain a where a: "(sched_do st (\<lambda>s. account s ?now) :: unit sys) = (Ok (), st\<lparr>sched := a\<rparr>)"
    "parked (st\<lparr>sched := a\<rparr>)" by (rule sched_do_eq [OF park_account [OF assms(1)]]) blast
  obtain r where r: "sched_pick (st\<lparr>sched := a\<rparr>) ?now = (Ok r, st\<lparr>sched := a\<rparr>)"
    using sched_pick_Ok [OF parked_kwf [OF a(2)]] by metis
  show ?thesis
  proof (cases "\<exists>n. r = Some n \<and> startable (st\<lparr>sched := a\<rparr>) n")
    case False
    then show ?thesis using parked_kwf [OF a(2)]
      by (auto simp: schedule_step_def a(1) r Let_def split: option.split)
  next
    case True
    then obtain n x where n: "r = Some n" "startable (st\<lparr>sched := a\<rparr>) n" "tcb_at st n = Some x"
      by (auto simp: startable_def split: option.splits)
    obtain b where b: "(sched_do (st\<lparr>sched := a\<rparr>) (\<lambda>s. dispatch_thread s n ?now) :: unit sys) =
        (Ok (), st\<lparr>sched := b\<rparr>)" "kwf (st\<lparr>sched := b\<rparr>)"
      by (rule sched_do_eq [OF unpark_dispatch [OF a(2)]]) simp
    have "keeps kwf (case running (sched st) of
        Some prev \<Rightarrow> (if prev \<noteq> n then save_context (st\<lparr>sched := b\<rparr>) prev (t_context x) hal
          else (Ok (), st\<lparr>sched := b\<rparr>))
      | None \<Rightarrow> (Ok (), st\<lparr>sched := b\<rparr>))"
      using b(2) assms(2) by (auto intro!: keeps_save_context split: option.split)
    then have "keeps kwf (then_do (case running (sched st) of
        Some prev \<Rightarrow> (if prev \<noteq> n then save_context (st\<lparr>sched := b\<rparr>) prev (t_context x) hal
          else (Ok (), st\<lparr>sched := b\<rparr>))
      | None \<Rightarrow> (Ok (), st\<lparr>sched := b\<rparr>)) (\<lambda>_ st. (Ok (Switched n), st)))"
      by (rule keeps_seq) simp_all
    then show ?thesis using n by (simp add: schedule_step_def a(1) r b(1) Let_def)
  qed
qed

text \<open>A dispatch is safe whenever no entity is marked \<open>Running\<close>, also when the scheduler
  still names a running thread.\<close>

definition none_running :: "scheduler \<Rightarrow> bool" where
  "none_running s \<longleftrightarrow> (\<forall>t e. entity s t = Some e \<longrightarrow> run_state e \<noteq> Running)"

lemma keeps_dispatch_idle:
  assumes "kwf st" and "none_running (sched st)"
  shows "keeps kwf (sched_do st (\<lambda>s. dispatch_thread s t now))"
proof -
  note d = dispatch_ok [OF kwf_parts(1) [OF assms(1)], of t now]
  have "single_running (snd (dispatch_thread (sched st) t now))"
  proof (cases rule: dispatch_cases [of "sched st" t now])
    case none
    then show ?thesis using kwf_parts(13) [OF assms(1)] by simp
  next
    case (some e e' s')
    then show ?thesis using assms(2) unfolding single_running_def none_running_def by auto
  qed
  then have "kwf (st\<lparr>sched := snd (dispatch_thread (sched st) t now)\<rparr>)"
    using d kwf_parts(2) [OF assms(1)] by (intro kwf_put_sched [OF assms(1)]) auto
  then show ?thesis using d(1) by (auto simp: sched_do_def keeps_def split: prod.splits)
qed

lemma keeps_yield_to:
  assumes "kwf st" and "tcb_at st from \<noteq> None" and "tcb_at st to \<noteq> None"
    and "running (sched st) = None \<or> running (sched st) = Some from"
  shows "keeps kwf (yield_to st from to hal)"
proof (cases "from = to")
  case True
  then show ?thesis using assms(1) by (simp add: yield_to_def)
next
  case False
  let ?now = "ctx_now_ns hal"
  let ?on = "case entity (sched st) from of None \<Rightarrow> False | Some e \<Rightarrow> run_state e = Running"
  have single: "run_state e = Running \<Longrightarrow> running (sched st) = Some t"
    if "entity (sched st) t = Some e" for t e
    using that kwf_parts(13) [OF assms(1)] by (auto simp: single_running_def)
  have only: "run_state e = Running \<Longrightarrow> t = from" if "entity (sched st) t = Some e" for t e
    using single [OF that] assms(4) by auto
  have "\<exists>a. (if ?on then sched_do st (\<lambda>s. note_ready s from ?now) else (Ok (), st) :: unit sys) =
      (Ok (), st\<lparr>sched := a\<rparr>) \<and> kwf (st\<lparr>sched := a\<rparr>) \<and> none_running a"
  proof (cases ?on)
    case True
    have k: "keeps kwf (sched_do st (\<lambda>s. note_ready s from ?now) :: unit sys)"
      using assms(1) by (intro keeps_sched_do sched_calls_ok)
    obtain e where e: "entity (sched st) from = Some e" using True by (auto split: option.splits)
    let ?s = "set_entity (sched st) from (Some (e\<lparr>run_state := Ready, became_ready_ns := ?now\<rparr>))"
    have n: "note_ready (sched st) from ?now = (Ok (), ?s)"
      using e by (simp add: note_ready_def slot_mut_def)
    have "none_running ?s"
      unfolding none_running_def entity_set_entity using only entity_bound [OF e]
      by (auto split: if_splits)
    moreover obtain a where "(sched_do st (\<lambda>s. note_ready s from ?now) :: unit sys) =
        (Ok (), st\<lparr>sched := a\<rparr>)" "kwf (st\<lparr>sched := a\<rparr>)" "a = ?s"
      by (rule sched_do_eq [OF k]) (simp add: n)
    ultimately show ?thesis using True by auto
  next
    case off: False
    have "none_running (sched st)" unfolding none_running_def
    proof (intro allI impI notI)
      fix t e
      assume e: "entity (sched st) t = Some e" "run_state e = Running"
      then show False using off only [OF e] by simp
    qed
    then show ?thesis using off assms(1) by (intro exI [of _ "sched st"]) auto
  qed
  then obtain a where a: "(if ?on then sched_do st (\<lambda>s. note_ready s from ?now) else (Ok (), st) :: unit sys) =
      (Ok (), st\<lparr>sched := a\<rparr>)" "kwf (st\<lparr>sched := a\<rparr>)" "none_running a" by blast
  obtain b where b: "(sched_do (st\<lparr>sched := a\<rparr>) (\<lambda>s. dispatch_thread s to ?now) :: unit sys) =
      (Ok (), st\<lparr>sched := b\<rparr>)" "kwf (st\<lparr>sched := b\<rparr>)"
    by (rule sched_do_eq [OF keeps_dispatch_idle [OF a(2)]]) (use a(3) in auto)
  obtain x where x: "tcb_at st to = Some x" using assms(3) by blast
  show ?thesis
    using keeps_save_context [OF b(2), of "from" "t_context x" hal] assms(2) False
    unfolding yield_to_def Let_def by (simp add: a(1) b(1) x)
qed

end
