(* ===== verification/Authority.thy ===== *)
theory Authority
  imports SysInv
begin

text \<open>
  What a system call may do to the objects and capabilities of others: the rules by which a
  handler's effect is followed through its early returns, the effect of every handler on the
  capability tables and on the object tables, and the properties of \<open>dispatch\<close> that
  rest on them (authority, integrity, isolation of memory).
\<close>

section \<open>Following a state through a handler\<close>

lemma leaves_resolve:
  assumes "P st" and "\<And>t c. tcb_at st caller = Some t \<Longrightarrow>
      cap_at (cap_tables st) (GlobalCapId (t_cap_space t) cap) = Some c \<Longrightarrow>
      obj_kind (cap_object c) = kind \<Longrightarrow> allows c needed \<Longrightarrow> leaves P (f c)"
  shows "leaves P (try_in st (resolve st caller cap kind needed) f)"
  using assms by (cases rule: resolve_cases [of st caller cap kind needed]) auto

text \<open>The calls of the scheduler change nothing else.\<close>

definition sched_blind :: "(kernel_state \<Rightarrow> bool) \<Rightarrow> bool" where
  "sched_blind P \<longleftrightarrow> (\<forall>st s. P (st\<lparr>sched := s\<rparr>) = P st)"

lemma leaves_sched:
  assumes "sched_blind P" and "P st"
  shows "leaves P (sched_try st f)" and "leaves P (sched_do st f)" and "leaves P (reschedule st now)"
    and "leaves P (wake_blocked st t now)"
  using assms
  by (auto simp: sched_try_def sched_do_def reschedule_def wake_blocked_def map_fst_def lift_sched_def
      sched_blind_def leaves_def try_in_def split: prod.splits res.splits)

lemma leaves_wake_all:
  assumes "sched_blind P" and "P st"
  shows "leaves P (wake_all ts now st)"
  using assms(2)
proof (induction ts arbitrary: st)
  case (Cons t ts)
  show ?case unfolding wake_all.simps
    by (rule leaves_then_do) (use Cons assms(1) leaves_sched in auto)
qed simp

section \<open>The retype loop\<close>

text \<open>An invariant indexed by the objects still to be made that survives one round survives
  the loop, however it ends.\<close>

lemma retype_loop_leaves:
  assumes wf: "\<And>ks s. I ks s \<Longrightarrow> kwf s"
    and step: "\<And>i ks s t k. I (i # ks) s \<Longrightarrow> \<not> object_live s (ObjectRef (as_object_kind ty) k) \<Longrightarrow>
      object_live (with_object s t (phys + of_nat i * per) per ty k)
        (ObjectRef (as_object_kind ty) k) \<Longrightarrow>
      ty = ThreadControlBlock_T \<longrightarrow> tcb_at s caller = Some t \<Longrightarrow>
      I ks (with_object s t (phys + of_nat i * per) per ty k)"
    and ins: "\<And>ks s k tb. I ks s \<Longrightarrow> object_live s (ObjectRef (as_object_kind ty) k) \<Longrightarrow>
      \<not> object_live st (ObjectRef (as_object_kind ty) k) \<Longrightarrow> cap_space s cs = Some tb \<Longrightarrow>
      I ks (set_cap_space s cs (snd (insert_root tb (full (ObjectRef (as_object_kind ty) k)))))"
    and mono: "\<And>ks s. I ks s \<Longrightarrow> live_le st s"
    and init: "I ks s"
  shows "\<exists>ks'. I ks' (snd (retype_loop s caller cs phys per ty ks first made))"
  using init
proof (induction ks arbitrary: s first made)
  case Nil
  then show ?case by auto
next
  case (Cons i ks)
  let ?off = "mul_or_panic (of_nat i) per :: (syscall_error, u64) res"
  let ?obj = "add_or_panic phys (of_nat i * per) :: (syscall_error, u64) res"
  show ?case
  proof (cases "?off = Ok (of_nat i * per) \<and> ?obj = Ok (phys + of_nat i * per)")
    case False
    then have "(?off = Panic) \<or> (?off = Ok (of_nat i * per) \<and> ?obj = Panic)"
      by (auto simp: mul_or_panic_def add_or_panic_def split: if_splits)
    then show ?thesis using Cons.prems by auto
  next
    case arith: True
    from wf [OF Cons.prems] show ?thesis
    proof (cases rule: alloc_object_cases
        [where caller = caller and p = "phys + of_nat i * per" and n = per and ty = ty])
      case (err e)
      then show ?thesis using Cons.prems arith by auto
    next
      case (ok k t)
      let ?s = "with_object s t (phys + of_nat i * per) per ty k"
        and ?c = "full (ObjectRef (as_object_kind ty) k)"
      have I: "I ks ?s" using Cons.prems ok(2,3,4) by (intro step) auto
      have fresh: "\<not> object_live st (ObjectRef (as_object_kind ty) k)"
        using ok(2) mono [OF Cons.prems] by (auto simp: live_le_def)
      show ?thesis
      proof (cases "cap_space ?s cs")
        case None
        then show ?thesis using I arith by (auto simp: ok(1))
      next
        case (Some tb)
        obtain r tb' where r: "insert_root tb ?c = (r, tb')" by fastforce
        have I2: "I ks (set_cap_space ?s cs tb')" using ins [OF I ok(3) fresh Some] by (simp add: r)
        show ?thesis
        proof (cases r)
          case (Ok slot)
          show ?thesis
            using Cons.IH [OF I2] I2 arith Some
            by (cases "add_or_panic made 1 :: (syscall_error, u32) res")
              (auto simp: ok(1) r Ok)
        qed (use I2 arith Some in \<open>auto simp: ok(1) r\<close>)
      qed
    qed
  qed
qed

section \<open>Capabilities\<close>

definition holds_cap :: "kernel_state \<Rightarrow> thread_id \<Rightarrow> cap_id \<Rightarrow> rights \<Rightarrow> capability \<Rightarrow> bool" where
  "holds_cap st caller cap needed c \<longleftrightarrow> (\<exists>t. tcb_at st caller = Some t \<and>
     cap_at (cap_tables st) (GlobalCapId (t_cap_space t) cap) = Some c \<and> allows c needed)"

text \<open>The capabilities a call may bring into existence and those it may remove.\<close>

fun may_create :: "kernel_state \<Rightarrow> thread_id \<Rightarrow> syscall_op \<Rightarrow> global_cap_id \<Rightarrow> capability \<Rightarrow> bool" where
  "may_create st caller (Sys_Retype u ty n) g c \<longleftrightarrow>
     (\<exists>t i uc. tcb_at st caller = Some t \<and> gc_space g = t_cap_space t \<and>
        holds_cap st caller u WRITE uc \<and> obj_kind (cap_object uc) = UntypedMemory \<and>
        c = full (ObjectRef (as_object_kind ty) i) \<and>
        \<not> object_live st (ObjectRef (as_object_kind ty) i))"
| "may_create st caller (Sys_CapGrant target cap rs) g c \<longleftrightarrow>
     (\<exists>tc dt sc. holds_cap st caller target WRITE tc \<and>
        obj_kind (cap_object tc) = ThreadControlBlock \<and>
        tcb_at st (obj_id (cap_object tc)) = Some dt \<and> gc_space g = t_cap_space dt \<and>
        holds_cap st caller cap GRANT sc \<and> derived_ok sc c \<and> cap_rights c = rs)"
| "may_create st caller _ g c \<longleftrightarrow> False"

fun may_delete :: "kernel_state \<Rightarrow> thread_id \<Rightarrow> syscall_op \<Rightarrow> global_cap_id \<Rightarrow> bool" where
  "may_delete st caller (Sys_CapRevoke cap) g \<longleftrightarrow>
     (\<exists>t c. tcb_at st caller = Some t \<and> holds_cap st caller cap REVOKE c \<and>
        (g = GlobalCapId (t_cap_space t) cap \<or>
         descends (cap_tables st) g (GlobalCapId (t_cap_space t) cap)))"
| "may_delete st caller _ g \<longleftrightarrow> False"

definition caps_confined :: "kernel_state \<Rightarrow> thread_id \<Rightarrow> syscall_op \<Rightarrow> kernel_state \<Rightarrow> bool" where
  "caps_confined st caller opn s \<longleftrightarrow>
     (\<forall>g c. cap_at (cap_tables s) g = Some c \<longrightarrow> cap_at (cap_tables st) g = Some c \<or>
        cap_at (cap_tables st) g = None \<and> may_create st caller opn g c) \<and>
     (\<forall>g c. cap_at (cap_tables st) g = Some c \<longrightarrow> cap_at (cap_tables s) g = Some c \<or>
        may_delete st caller opn g)"

lemma caps_confined_same: "cap_tables s = cap_tables st \<Longrightarrow> caps_confined st caller opn s"
  by (simp add: caps_confined_def)

text \<open>Every handler but three leaves the capability tables alone, and the untyped, shared and
  device regions with them.\<close>

lemma tcb_mut_fields [simp]:
  "cap_tables (tcb_mut st t f) = cap_tables st" "untyped (tcb_mut st t f) = untyped st"
  "addr_spaces (tcb_mut st t f) = addr_spaces st" "endpoints (tcb_mut st t f) = endpoints st"
  "notifications (tcb_mut st t f) = notifications st"
  "shared_regions (tcb_mut st t f) = shared_regions st"
  "mmio_regions (tcb_mut st t f) = mmio_regions st" "irq_bindings (tcb_mut st t f) = irq_bindings st"
  "root_addr_space (tcb_mut st t f) = root_addr_space st"
  by (simp_all add: tcb_mut_def split: option.split)

definition same_caps :: "kernel_state \<Rightarrow> kernel_state \<Rightarrow> bool" where
  "same_caps st s \<longleftrightarrow> cap_tables s = cap_tables st \<and> untyped s = untyped st \<and>
     shared_regions s = shared_regions st \<and> mmio_regions s = mmio_regions st \<and>
     root_addr_space s = root_addr_space st"

lemma same_caps_simps [simp]:
  "same_caps st st" "sched_blind (same_caps st)"
  "same_caps st (put_endpoint s i e) = same_caps st s"
  "same_caps st (put_notification s i w) = same_caps st s"
  "same_caps st (tcb_mut s t f) = same_caps st s" "same_caps st (set_state s t x) = same_caps st s"
  "same_caps st (s\<lparr>addr_spaces := a\<rparr>) = same_caps st s"
  "same_caps st (s\<lparr>map_pool_used := k\<rparr>) = same_caps st s"
  "same_caps st (snd (bind_irq s irq n)) = same_caps st s"
  by (auto simp: same_caps_def sched_blind_def put_endpoint_def put_notification_def set_state_def
      bind_irq_def split: option.splits)

lemmas leaves_rules = leaves_try_in leaves_then_do leaves_sched leaves_wake_all

lemma same_caps_deliver: "same_caps st s \<Longrightarrow> leaves (same_caps st) (deliver s caller eid now)"
  by (auto simp: deliver_def Let_def intro!: leaves_rules split: option.split prod.split)

lemma same_caps_bind_irq: "bind_irq st irq i = (b, s) \<Longrightarrow> same_caps st s"
  using same_caps_simps(1,9) by (metis snd_conv)

lemma same_caps_handlers:
  "leaves (same_caps st) (do_yield st now)"
  "leaves (same_caps st) (do_send st caller e m is_call now)"
  "leaves (same_caps st) (do_recv st caller e now)"
  "leaves (same_caps st) (do_reply st caller t m now)"
  "leaves (same_caps st) (do_signal st caller n bits now)"
  "leaves (same_caps st) (do_wait st caller n now)"
  "leaves (same_caps st) (do_poll st caller n)"
  "leaves (same_caps st) (do_irq_bind st caller mm n h hal)"
  "leaves (same_caps st) (do_map st caller pt fr v perms hal)"
  unfolding do_yield_def do_send_def do_recv_def do_reply_def do_signal_def do_wait_def do_poll_def
    do_irq_bind_def do_map_def Let_def map_pool_advance_def
  by (auto intro!: leaves_rules same_caps_deliver dest: same_caps_bind_irq split: prod.split option.split send_outcome.split recv_outcome.split)

text \<open>The other three. A retype first advances the region; what follows keeps an invariant of
  the loop.\<close>

lemma do_retype_leaves:
  assumes start: "\<And>t c u u' g. tcb_at st caller = Some t \<Longrightarrow> holds_cap st caller uc WRITE c \<Longrightarrow>
      obj_kind (cap_object c) = UntypedMemory \<Longrightarrow> untyped_mut st (obj_id (cap_object c)) = Some u \<Longrightarrow>
      retype u ty cnt = (Ok g, u') \<Longrightarrow>
      \<exists>ks. I ks (snd (retype_loop
          (st\<lparr>untyped := (untyped st)[as_usize (obj_id (cap_object c)) := Some u']\<rparr>) caller
          (t_cap_space t) (grant_phys g) (object_size_bytes ty) ty
          [0 ..< unat (grant_count g)] None 0))"
    and stop: "\<And>ks s. I ks s \<Longrightarrow> P s" and same: "P st"
  shows "leaves P (do_retype st caller uc ty cnt)"
  unfolding do_retype_def Let_def
proof (rule leaves_resolve, rule same, rule leaves_try_in, rule same, goal_cases)
  case (1 t c u)
  let ?i = "obj_id (cap_object c)"
  have u: "untyped_mut st ?i = Some u" using 1(5) by (cases "untyped_mut st ?i") auto
  obtain r u' where r: "retype u ty cnt = (r, u')" by fastforce
  let ?st = "st\<lparr>untyped := (untyped st)[as_usize ?i := Some u']\<rparr>"
  have cs: "caller_cap_space ?st caller = Ok (t_cap_space t)"
    using 1(1) by (simp add: caller_cap_space_def tcb_at_def bind_res_def)
  have keep: "?st = st" if "\<And>g. r \<noteq> Ok g"
  proof -
    have "u' = u" using retype_not_Ok [of u ty cnt] r that by (cases r) auto
    then show ?thesis using u by (simp add: untyped_mut_def list_update_slot_same)
  qed
  show ?case
  proof (cases "\<exists>g. r = Ok g")
    case True
    then obtain g where g: "r = Ok g" ..
    let ?m = "retype_loop ?st caller (t_cap_space t) (grant_phys g) (object_size_bytes ty) ty
        [0 ..< unat (grant_count g)] None 0"
    have "\<exists>ks. I ks (snd ?m)"
      using 1(1-4) u r g by (intro start) (auto simp: holds_cap_def)
    then have "P (snd ?m)" using stop by blast
    then have "leaves P (then_do ?m (\<lambda>(first, made) st.
        try_in st (ok_or first (MmErr ZeroCount)) (\<lambda>c. (Ok (NewCaps c made), st))))"
      by (intro leaves_then_do) (auto simp: leaves_def try_in_def split: res.split)
    then show ?thesis using cs by (simp add: r g split: prod.split)
  next
    case False
    then show ?thesis using keep same by (cases r) (auto simp: r)
  qed
qed

lemma insert_root_keeps:
  assumes "kwf st" and "cap_space st i = Some t" and "cap_at (cap_tables st) g = Some d"
  shows "cap_at (cap_tables (set_cap_space st i (snd (insert_root t c)))) g = Some d"
proof -
  have s: "slot_at (cap_tables st) (as_usize i) = Some t" using assms(2) by (simp add: cap_space_def)
  have ct: "ct_wf t" using tables_wfD(1) [OF cdt_wf_tables [OF kwf_parts(3) [OF assms(1)]] s] .
  from ct show ?thesis
  proof (cases rule: insert_root_cases [where cap = c])
    case full
    then show ?thesis using s assms(3) by (simp add: set_cap_space_def list_update_slot_same)
  next
    case (ok k t' z)
    have "cap_at (cap_tables st) (GlobalCapId i k) = None"
      using s ok(3,4) by (auto simp: cap_at_def table_at_def ct_lookup_def nth_opt_def)
    then show ?thesis using table_update_views(1) [OF s ok(5,3)] ok(1) assms(3)
      by (auto simp: set_cap_space_def)
  qed
qed

lemma confined_extend:
  assumes "\<And>h d. cap_at (cap_tables s) h = Some d \<Longrightarrow> cap_at (cap_tables s') h = Some d"
    and "\<And>h d. cap_at (cap_tables s') h = Some d \<Longrightarrow> cap_at (cap_tables s) h = Some d \<or>
      cap_at (cap_tables s) h = None \<and> may_create st caller opn h d"
    and "caps_confined st caller opn s" and "\<And>h. \<not> may_delete st caller opn h"
  shows "caps_confined st caller opn s'"
proof -
  have "cap_at (cap_tables st) h = Some d \<or>
      cap_at (cap_tables st) h = None \<and> may_create st caller opn h d"
    if "cap_at (cap_tables s') h = Some d" for h d
    using assms(2) [OF that]
  proof
    assume "cap_at (cap_tables s) h = Some d"
    then show ?thesis using assms(3) unfolding caps_confined_def by blast
  next
    assume new: "cap_at (cap_tables s) h = None \<and> may_create st caller opn h d"
    have "cap_at (cap_tables st) h = None"
    proof (rule ccontr)
      assume "cap_at (cap_tables st) h \<noteq> None"
      then obtain e where "cap_at (cap_tables st) h = Some e" by blast
      then have "cap_at (cap_tables s) h = Some e"
        using assms(3,4) unfolding caps_confined_def by blast
      then show False using new by simp
    qed
    then show ?thesis using new by simp
  qed
  then show ?thesis using assms(1,3) unfolding caps_confined_def by blast
qed

lemma do_retype_confined:
  assumes "kwf st"
  shows "leaves (caps_confined st caller (Sys_Retype uc ty cnt)) (do_retype st caller uc ty cnt)"
proof (rule do_retype_leaves
    [where I = "\<lambda>(ks :: nat list) s. kwf s \<and> live_le st s \<and> caps_confined st caller (Sys_Retype uc ty cnt) s"])
  fix t c u u' g
  assume t: "tcb_at st caller = Some t" and c: "holds_cap st caller uc WRITE c"
    "obj_kind (cap_object c) = UntypedMemory" and u: "untyped_mut st (obj_id (cap_object c)) = Some u"
    and r: "retype u ty cnt = (Ok g, u')"
  let ?st = "st\<lparr>untyped := (untyped st)[as_usize (obj_id (cap_object c)) := Some u']\<rparr>"
  let ?I = "\<lambda>(ks :: nat list) s. kwf s \<and> live_le st s \<and> caps_confined st caller (Sys_Retype uc ty cnt) s"
  have "ut_wf u" using kwf_parts(7) [OF assms] u by (auto simp: untyped_mut_def dest: slots_allD)
  then have "kwf ?st" using retype_wf [of u ty cnt] r assms by (simp add: kwf_put_untyped)
  then have start: "?I ks ?st" for ks by (simp add: caps_confined_same)
  show "\<exists>ks. ?I ks (snd (retype_loop ?st caller (t_cap_space t) (grant_phys g) (object_size_bytes ty)
      ty [0 ..< unat (grant_count g)] None 0))"
  proof (rule retype_loop_leaves [where st = st and I = ?I])
    fix i ks s x k
    assume I: "?I (i # ks) s" and fresh: "\<not> object_live s (ObjectRef (as_object_kind ty) k)"
      and tc: "ty = ThreadControlBlock_T \<longrightarrow> tcb_at s caller = Some x"
    let ?s = "with_object s x (grant_phys g + of_nat i * object_size_bytes ty) (object_size_bytes ty) ty k"
    have "kwf s" using I by simp
    note w = with_object_kwf [OF this fresh, where caller = caller and t = x]
    show "?I ks ?s"
      using I w(1,2) tc with_object_live_le live_le_trans by (auto simp: caps_confined_def)
  next
    fix ks s k tb
    assume I: "?I ks s" and live: "object_live s (ObjectRef (as_object_kind ty) k)"
      and fresh: "\<not> object_live st (ObjectRef (as_object_kind ty) k)"
      and tb: "cap_space s (t_cap_space t) = Some tb"
    let ?c = "full (ObjectRef (as_object_kind ty) k)"
    let ?s = "set_cap_space s (t_cap_space t) (snd (insert_root tb ?c))"
    have wf: "kwf s" using I by simp
    note ins = insert_root_kwf [OF wf tb, of ?c]
    have le: "live_le s ?s" unfolding set_cap_space_def by simp
    have grant: "may_create st caller (Sys_Retype uc ty cnt) h ?c" if "gc_space h = t_cap_space t" for h
      using that t c fresh by auto
    have "caps_confined st caller (Sys_Retype uc ty cnt) ?s"
    proof (rule confined_extend)
      show "cap_at (cap_tables ?s) h = Some d" if "cap_at (cap_tables s) h = Some d" for h d
        using insert_root_keeps [OF wf tb that] .
      show "cap_at (cap_tables s) h = Some d \<or>
        cap_at (cap_tables s) h = None \<and> may_create st caller (Sys_Retype uc ty cnt) h d"
        if "cap_at (cap_tables ?s) h = Some d" for h d
        using ins(3) [OF _ that] live grant [of h] by auto
      show "caps_confined st caller (Sys_Retype uc ty cnt) s" using I by simp
      show "\<not> may_delete st caller (Sys_Retype uc ty cnt) h" for h by simp
    qed
    then show "?I ks ?s" using I ins(2) live le live_le_trans by auto
  qed (use start in auto)
qed (use assms in \<open>auto simp: caps_confined_same\<close>)

lemma derive_cross_keeps:
  assumes wf: "cdt_wf N tabs" and dst: "slot_at tabs (as_usize ds) = Some dst"
    and old: "cap_at tabs g = Some x"
  shows "cap_at (tabs[as_usize ds := Some (snd (derive_child_cross_space src ss p dst r b))]) g = Some x"
proof (cases "ct_lookup src p")
  case None
  then show ?thesis using old list_update_slot_same [OF dst]
    by (simp add: derive_child_cross_space_def)
next
  case (Some pc)
  have "ct_wf dst" using tables_wfD(1) [OF cdt_wf_tables [OF wf] dst] .
  then show ?thesis
  proof (cases rule: insert_derived_cases
      [where pc = pc and pg = "GlobalCapId ss p" and r = r and b = b])
    case (ok c t' s v)
    have "cap_at tabs (GlobalCapId ds c) = None"
      using dst ok(5,6) by (auto simp: cap_at_def table_at_def ct_lookup_def nth_opt_def)
    then show ?thesis using table_update_views(1) [OF dst ok(7,5)] Some ok(1) old
      by (auto simp: derive_child_cross_space_def)
  qed (use old list_update_slot_same [OF dst] Some in \<open>auto simp: derive_child_cross_space_def\<close>)
qed

lemma do_cap_grant_confined:
  assumes "kwf st"
  shows "leaves (caps_confined st caller (Sys_CapGrant target cap rs)) (do_cap_grant st caller target cap rs)"
  unfolding do_cap_grant_def Let_def
proof (rule leaves_resolve, goal_cases)
  case 1
  then show ?case by (simp add: caps_confined_same)
next
  case (2 t tc)
  note st = caps_confined_same [OF refl]
  show ?case
  proof (rule leaves_try_in, rule st, rule leaves_try_in, rule st, rule leaves_resolve, rule st,
      rule leaves_try_in, rule st, rule leaves_try_in, rule st, goal_cases)
    case (1 x kind t' sc src_cs pair)
    obtain s d where p: "pair = (s, d)" by fastforce
    let ?ds = "t_cap_space x" and ?m = "derive_child_cross_space s src_cs cap (snd pair) rs 0"
    have x: "tcb_at st (obj_id (cap_object tc)) = Some x"
      using 1(1) by (cases "tcb_at st (obj_id (cap_object tc))") auto
    have cs: "src_cs = t_cap_space t" using 1(7) 2(1) by (simp add: caller_cap_space_Ok)
    have sd: "cap_space st src_cs = Some s" "cap_space st ?ds = Some d"
      using 1(8) p cap_space_pair_Some [of st src_cs ?ds s d]
      by (cases "cap_space_pair_mut st src_cs ?ds"; simp)+
    then have tab: "table_at (cap_tables st) src_cs = Some s"
      "slot_at (cap_tables st) (as_usize ?ds) = Some d"
      by (simp_all add: cap_space_def table_at_def)
    note wf = kwf_parts(3) [OF assms]
    have "caps_confined st caller (Sys_CapGrant target cap rs) (set_cap_space st ?ds (snd ?m))"
    proof (rule confined_extend [where s = st])
      show "cap_at (cap_tables (set_cap_space st ?ds (snd ?m))) h = Some y"
        if "cap_at (cap_tables st) h = Some y" for h y
        using derive_cross_keeps [OF wf tab(2) that] by (simp add: set_cap_space_def p)
      show "cap_at (cap_tables st) h = Some y \<or>
          cap_at (cap_tables st) h = None \<and> may_create st caller (Sys_CapGrant target cap rs) h y"
        if "cap_at (cap_tables (set_cap_space st ?ds (snd ?m))) h = Some y" for h y
      proof -
        have "cap_at ((cap_tables st)[as_usize ?ds :=
            Some (snd (derive_child_cross_space s src_cs cap d rs 0))]) h = Some y"
          using that by (simp add: set_cap_space_def p)
        from derive_cross_caps [OF wf tab this] show ?thesis
        proof (elim disjE exE conjE)
          fix pc
          assume pc: "cap_at (cap_tables st) (GlobalCapId src_cs cap) = Some pc" "derived_ok pc y"
            "cap_rights y = rs" "cap_at (cap_tables st) h = None" "gc_space h = ?ds"
          have "holds_cap st caller target WRITE tc" using 2 by (auto simp: holds_cap_def)
          moreover have "holds_cap st caller cap GRANT pc"
            using 1(3,4,6) 2(1) pc(1) by (auto simp: holds_cap_def cs)
          ultimately show ?thesis using pc x 2(3) by auto
        qed simp
      qed
    qed (simp_all add: caps_confined_same)
    then show ?case by (cases ?m; cases "fst ?m") (auto simp: p)
  qed
qed

lemma do_cap_revoke_confined:
  assumes "kwf st"
  shows "leaves (caps_confined st caller (Sys_CapRevoke cap)) (do_cap_revoke st caller cap)"
  unfolding do_cap_revoke_def
proof (rule leaves_try_in, goal_cases)
  case 1
  then show ?case by (simp add: caps_confined_same)
next
  case (2 kind)
  note st = caps_confined_same [OF refl]
  show ?case
  proof (rule leaves_resolve, rule st, rule leaves_try_in, rule st, goal_cases)
    case (1 t c cs)
    let ?g = "GlobalCapId (t_cap_space t) cap"
    have cs: "cs = t_cap_space t" using 1(1,5) by (simp add: caller_cap_space_Ok)
    have "cap_at (cap_tables st) ?g \<noteq> None" using 1(2) by simp
    with kwf_parts(3) [OF assms] show ?case
    proof (rule revoke_outcome)
      fix n tabs'
      assume r: "revoke_cross_space CAP_SLOTS_PER_SPACE (cap_tables st) ?g = (Ok n, tabs')"
        "\<And>g. cap_at tabs' g = (if g = ?g \<or> descends (cap_tables st) g ?g then None
          else cap_at (cap_tables st) g)"
      have "may_delete st caller (Sys_CapRevoke cap) h" if "h = ?g \<or> descends (cap_tables st) h ?g" for h
        using that 1 by (auto simp: holds_cap_def)
      then have "caps_confined st caller (Sys_CapRevoke cap) (st\<lparr>cap_tables := tabs'\<rparr>)"
        unfolding caps_confined_def by (simp add: r(2) split: if_splits)
      then show ?thesis by (simp add: cs r(1))
    qed
  qed
qed

lemma same_caps_confined:
  fixes m :: "syscall_return sys"
  assumes "leaves (same_caps st) m"
  shows "leaves (caps_confined st caller opn) m"
  using assms by (rule leaves_mono) (simp add: caps_confined_same same_caps_def)

lemma dispatch_confined:
  assumes "kwf st"
  shows "leaves (caps_confined st caller opn) (sys_dispatch st caller now opn hal)"
  by (cases opn) (simp_all add: same_caps_confined same_caps_handlers do_retype_confined
      do_cap_grant_confined do_cap_revoke_confined assms)

section \<open>Integrity of the objects\<close>

text \<open>The contents of an object of the kinds a thread acts on through a capability. Threads are
  also acted upon by their partners, and capability tables have their own property.\<close>

definition same_object :: "kernel_state \<Rightarrow> kernel_state \<Rightarrow> object_ref \<Rightarrow> bool" where
  "same_object st s r \<longleftrightarrow> (let i = as_usize (obj_id r) in case obj_kind r of
      UntypedMemory \<Rightarrow> slot_at (untyped s) i = slot_at (untyped st) i
    | PageTable \<Rightarrow> slot_at (addr_spaces s) i = slot_at (addr_spaces st) i
    | Endpoint \<Rightarrow> slot_at (endpoints s) i = slot_at (endpoints st) i
    | Notification \<Rightarrow> slot_at (notifications s) i = slot_at (notifications st) i
    | SharedRegion \<Rightarrow> slot_at (shared_regions s) i = slot_at (shared_regions st) i
    | MmioRegion \<Rightarrow> slot_at (mmio_regions s) i = slot_at (mmio_regions st) i
    | _ \<Rightarrow> True)"

text \<open>The capability through which a call acts, and the right it needs on it.\<close>

fun acts_through :: "syscall_op \<Rightarrow> (cap_id \<times> rights) option" where
  "acts_through (Sys_Send e m) = Some (e, WRITE)"
| "acts_through (Sys_Call e m) = Some (e, WRITE)"
| "acts_through (Sys_Recv e) = Some (e, READ)"
| "acts_through (Sys_Signal n b) = Some (n, WRITE)"
| "acts_through (Sys_Wait n) = Some (n, READ)"
| "acts_through (Sys_Poll n) = Some (n, READ)"
| "acts_through (Sys_Map pt fr v perms) = Some (pt, WRITE)"
| "acts_through (Sys_Retype u ty n) = Some (u, WRITE)"
| "acts_through _ = None"

definition may_change :: "kernel_state \<Rightarrow> thread_id \<Rightarrow> syscall_op \<Rightarrow> object_ref \<Rightarrow> bool" where
  "may_change st caller opn r \<longleftrightarrow> (\<exists>cap needed c. acts_through opn = Some (cap, needed) \<and>
     holds_cap st caller cap needed c \<and> cap_object c = r)"

text \<open>\<open>elsewhere r st s\<close>: every live object but \<open>r\<close> is as in \<open>st\<close>.\<close>

definition elsewhere :: "object_ref option \<Rightarrow> kernel_state \<Rightarrow> kernel_state \<Rightarrow> bool" where
  "elsewhere r st s \<longleftrightarrow> (\<forall>q. object_live st q \<longrightarrow> Some q \<noteq> r \<longrightarrow> same_object st s q)"

lemma same_object_refl [simp]: "same_object st st q"
  by (simp add: same_object_def Let_def split: object_kind.split)

lemma elsewhere_refl [simp]: "elsewhere r st st"
  by (simp add: elsewhere_def)

lemma same_object_simps [simp]:
  "same_object st (s\<lparr>sched := x\<rparr>) q = same_object st s q"
  "same_object st (tcb_mut s t f) q = same_object st s q"
  "same_object st (set_state s t y) q = same_object st s q"
  "same_object st (s\<lparr>map_pool_used := k\<rparr>) q = same_object st s q"
  "same_object st (s\<lparr>irq_bindings := b\<rparr>) q = same_object st s q"
  "same_object st (s\<lparr>cap_tables := tabs\<rparr>) q = same_object st s q"
  "same_object st (s\<lparr>tcbs := tb\<rparr>) q = same_object st s q"
  by (simp_all add: same_object_def set_state_def cong: object_kind.case_cong)

lemma elsewhere_simps [simp]:
  "sched_blind (elsewhere r st)"
  "elsewhere r st (s\<lparr>cap_tables := tabs\<rparr>) = elsewhere r st s"
  "elsewhere r st (tcb_mut s t f) = elsewhere r st s"
  "elsewhere r st (set_state s t x) = elsewhere r st s"
  "elsewhere r st (s\<lparr>map_pool_used := k\<rparr>) = elsewhere r st s"
  "elsewhere r st (s\<lparr>irq_bindings := b\<rparr>) = elsewhere r st s"
  by (simp_all add: elsewhere_def sched_blind_def)

lemma as_usize_eq: "as_usize i = as_usize j \<longleftrightarrow> i = j"
  unfolding as_usize_def by (metis word_eq_iff_unsigned)

lemma object_ref_eq: "q = ObjectRef k i \<longleftrightarrow> obj_kind q = k \<and> obj_id q = i"
  by (cases q) (simp add: ObjectRef_def)

lemma elsewhere_put:
  "elsewhere (Some (ObjectRef Endpoint i)) st s \<Longrightarrow>
     elsewhere (Some (ObjectRef Endpoint i)) st (put_endpoint s i e)"
  "elsewhere (Some (ObjectRef Notification i)) st s \<Longrightarrow>
     elsewhere (Some (ObjectRef Notification i)) st (put_notification s i w)"
  "elsewhere (Some (ObjectRef PageTable i)) st s \<Longrightarrow>
     elsewhere (Some (ObjectRef PageTable i)) st (s\<lparr>addr_spaces := (addr_spaces s)[as_usize i := Some a]\<rparr>)"
  "elsewhere (Some (ObjectRef UntypedMemory i)) st s \<Longrightarrow>
     elsewhere (Some (ObjectRef UntypedMemory i)) st (s\<lparr>untyped := (untyped s)[as_usize i := Some u]\<rparr>)"
  by (auto simp: elsewhere_def same_object_def Let_def put_endpoint_def put_notification_def
      slot_at_update as_usize_eq object_ref_eq split: object_kind.splits)

definition integrity :: "kernel_state \<Rightarrow> thread_id \<Rightarrow> syscall_op \<Rightarrow> kernel_state \<Rightarrow> bool" where
  "integrity st caller opn s \<longleftrightarrow>
     (\<forall>q. object_live st q \<longrightarrow> may_change st caller opn q \<or> same_object st s q)"

lemma integrity_refl [simp]: "integrity st caller opn st"
  by (simp add: integrity_def)

lemma elsewhere_integrity:
  assumes "elsewhere None st s \<or> (\<exists>r. elsewhere (Some r) st s \<and> may_change st caller opn r)"
  shows "integrity st caller opn s"
  using assms unfolding integrity_def elsewhere_def by (metis option.distinct(1) option.inject)

lemma integrity_resolve:
  assumes "acts_through opn = Some (cap, needed)"
    and "\<And>t c i. tcb_at st caller = Some t \<Longrightarrow> holds_cap st caller cap needed c \<Longrightarrow>
      cap_object c = ObjectRef kind i \<Longrightarrow> leaves (elsewhere (Some (ObjectRef kind i)) st) (f c)"
  shows "leaves (integrity st caller opn) (try_in st (resolve st caller cap kind needed) f)"
proof (rule leaves_resolve)
  fix t c
  assume c: "tcb_at st caller = Some t" "cap_at (cap_tables st) (GlobalCapId (t_cap_space t) cap) = Some c"
    "obj_kind (cap_object c) = kind" "allows c needed"
  then have h: "holds_cap st caller cap needed c" by (auto simp: holds_cap_def)
  have o: "cap_object c = ObjectRef kind (obj_id (cap_object c))" using c(3) by (simp add: object_ref_eq)
  have "may_change st caller opn (ObjectRef kind (obj_id (cap_object c)))"
    unfolding may_change_def using assms(1) h o by metis
  then show "leaves (integrity st caller opn) (f c)"
    by (intro leaves_mono [OF assms(2) [OF c(1) h o] elsewhere_integrity]) blast
qed simp

lemma elsewhere_deliver:
  "elsewhere (Some (ObjectRef Endpoint i)) st s \<Longrightarrow>
     leaves (elsewhere (Some (ObjectRef Endpoint i)) st) (deliver s caller i now)"
  by (auto simp: deliver_def Let_def intro!: leaves_rules elsewhere_put split: option.split prod.split)

lemma bind_irq_elsewhere: "bind_irq st irq i = (b, s) \<Longrightarrow> elsewhere None st s"
  by (auto simp: bind_irq_def split: option.splits)

lemma integrity_send:
  "leaves (integrity st caller (Sys_Send e m)) (do_send st caller e m False now)"
  "leaves (integrity st caller (Sys_Call e m)) (do_send st caller e m True now)"
  unfolding do_send_def Let_def
  by (rule integrity_resolve; auto intro!: leaves_rules elsewhere_put elsewhere_deliver
      split: prod.split option.split send_outcome.split)+

lemma integrity_others:
  "leaves (integrity st caller (Sys_Recv e)) (do_recv st caller e now)"
  "leaves (integrity st caller (Sys_Signal n bits)) (do_signal st caller n bits now)"
  "leaves (integrity st caller (Sys_Wait n)) (do_wait st caller n now)"
  "leaves (integrity st caller (Sys_Poll n)) (do_poll st caller n)"
  "leaves (integrity st caller (Sys_Map pt fr v perms)) (do_map st caller pt fr v perms hal)"
  unfolding do_recv_def do_signal_def do_wait_def do_poll_def do_map_def map_pool_advance_def Let_def
  by (rule integrity_resolve; auto intro!: leaves_rules elsewhere_put
      split: prod.split option.split recv_outcome.split)+

lemma integrity_rest:
  "leaves (integrity st caller Sys_Yield) (do_yield st now)"
  "leaves (integrity st caller (Sys_Reply t m)) (do_reply st caller t m now)"
  "leaves (integrity st caller (Sys_IrqBind mm n h)) (do_irq_bind st caller mm n h hal)"
  "leaves (integrity st caller (Sys_CapRevoke cap)) (do_cap_revoke st caller cap)"
  "leaves (integrity st caller (Sys_CapGrant target cap rs)) (do_cap_grant st caller target cap rs)"
proof -
  have none: "leaves (integrity st caller opn) m" if "leaves (elsewhere None st) m"
    for opn and m :: "syscall_return sys"
    using that by (rule leaves_mono) (simp add: elsewhere_integrity)
  show "leaves (integrity st caller Sys_Yield) (do_yield st now)"
    "leaves (integrity st caller (Sys_Reply t m)) (do_reply st caller t m now)"
    "leaves (integrity st caller (Sys_IrqBind mm n h)) (do_irq_bind st caller mm n h hal)"
    "leaves (integrity st caller (Sys_CapRevoke cap)) (do_cap_revoke st caller cap)"
    "leaves (integrity st caller (Sys_CapGrant target cap rs)) (do_cap_grant st caller target cap rs)"
    unfolding do_yield_def do_reply_def do_irq_bind_def do_cap_revoke_def do_cap_grant_def Let_def
      set_cap_space_def
    by (rule none; auto intro!: leaves_rules dest: bind_irq_elsewhere split: prod.split)+
qed

lemma elsewhere_with_object:
  assumes "elsewhere r st s" and "live_le st s" and "\<not> object_live s (ObjectRef (as_object_kind ty) k)"
  shows "elsewhere r st (with_object s t p n ty k)"
proof -
  have "same_object s (with_object s t p n ty k) q" if "q \<noteq> ObjectRef (as_object_kind ty) k" for q
    using that by (cases ty)
      (auto simp: same_object_def Let_def slot_at_update as_usize_eq object_ref_eq split: object_kind.split)
  moreover have "q \<noteq> ObjectRef (as_object_kind ty) k" if "object_live st q" for q
    using that assms(2,3) by (auto simp: live_le_def)
  moreover have "same_object st u q" if "same_object s u q" "same_object st s q" for u q
    using that by (auto simp: same_object_def Let_def split: object_kind.splits)
  ultimately show ?thesis using assms(1) unfolding elsewhere_def by blast
qed

lemma integrity_retype:
  assumes "kwf st"
  shows "leaves (integrity st caller (Sys_Retype uc ty cnt)) (do_retype st caller uc ty cnt)"
proof (rule do_retype_leaves [where I = "\<lambda>(ks :: nat list) s. kwf s \<and> live_le st s \<and>
    (\<exists>i. may_change st caller (Sys_Retype uc ty cnt) (ObjectRef UntypedMemory i) \<and>
      elsewhere (Some (ObjectRef UntypedMemory i)) st s)"])
  fix t c u u' g
  assume t: "tcb_at st caller = Some t" and c: "holds_cap st caller uc WRITE c"
    "obj_kind (cap_object c) = UntypedMemory" and u: "untyped_mut st (obj_id (cap_object c)) = Some u"
    and r: "retype u ty cnt = (Ok g, u')"
  let ?i = "obj_id (cap_object c)"
  let ?st = "st\<lparr>untyped := (untyped st)[as_usize ?i := Some u']\<rparr>"
  let ?J = "\<lambda>(ks :: nat list) s. kwf s \<and> live_le st s \<and> elsewhere (Some (ObjectRef UntypedMemory ?i)) st s"
  have "ut_wf u" using kwf_parts(7) [OF assms] u by (auto simp: untyped_mut_def dest: slots_allD)
  then have "kwf ?st" using retype_wf [of u ty cnt] r assms by (simp add: kwf_put_untyped)
  moreover have "elsewhere (Some (ObjectRef UntypedMemory ?i)) st ?st" by (rule elsewhere_put) simp
  ultimately have start: "?J ks ?st" for ks by simp
  have "\<exists>ks. ?J ks (snd (retype_loop ?st caller (t_cap_space t) (grant_phys g) (object_size_bytes ty)
      ty [0 ..< unat (grant_count g)] None 0))"
  proof (rule retype_loop_leaves [where st = st and I = ?J])
    fix i ks s x k
    assume I: "?J (i # ks) s" and fresh: "\<not> object_live s (ObjectRef (as_object_kind ty) k)"
      and tc: "ty = ThreadControlBlock_T \<longrightarrow> tcb_at s caller = Some x"
    have "kwf s" using I by simp
    note w = with_object_kwf [OF this fresh, where caller = caller and t = x]
    show "?J ks (with_object s x (grant_phys g + of_nat i * object_size_bytes ty)
        (object_size_bytes ty) ty k)"
      using I w(1) tc fresh with_object_live_le live_le_trans by (auto simp: elsewhere_with_object)
  next
    fix ks s k tb
    assume I: "?J ks s" and live: "object_live s (ObjectRef (as_object_kind ty) k)"
      and tb: "cap_space s (t_cap_space t) = Some tb"
    let ?s = "set_cap_space s (t_cap_space t) (snd (insert_root tb (full (ObjectRef (as_object_kind ty) k))))"
    have "live_le s ?s" unfolding set_cap_space_def by simp
    moreover have "kwf ?s" using I live tb by (intro insert_root_kwf(2)) auto
    ultimately show "?J ks ?s" using I live_le_trans by (auto simp: set_cap_space_def)
  qed (use start in auto)
  moreover have "may_change st caller (Sys_Retype uc ty cnt) (ObjectRef UntypedMemory ?i)"
    using c by (auto simp: may_change_def object_ref_eq)
  ultimately show "\<exists>ks. kwf (snd (retype_loop ?st caller (t_cap_space t) (grant_phys g) (object_size_bytes ty)
      ty [0 ..< unat (grant_count g)] None 0)) \<and>
    live_le st (snd (retype_loop ?st caller (t_cap_space t) (grant_phys g) (object_size_bytes ty)
      ty [0 ..< unat (grant_count g)] None 0)) \<and>
    (\<exists>i. may_change st caller (Sys_Retype uc ty cnt) (ObjectRef UntypedMemory i) \<and>
      elsewhere (Some (ObjectRef UntypedMemory i)) st (snd (retype_loop ?st caller (t_cap_space t)
        (grant_phys g) (object_size_bytes ty) ty [0 ..< unat (grant_count g)] None 0)))" by blast
qed (auto intro: elsewhere_integrity)

lemma dispatch_integrity:
  assumes "kwf st"
  shows "leaves (integrity st caller opn) (sys_dispatch st caller now opn hal)"
  using assms by (cases opn) (simp_all add: integrity_send integrity_others integrity_rest integrity_retype)

end
