(* ===== verification/Isolation.thy ===== *)
theory Isolation
  imports Authority
begin

text \<open>
  Isolation of memory: the frames the kernel hands out never overlap. The frames of an untyped
  region are the part above its watermark, those of a page table and of a shared region the page
  they were retyped from. The page table the loader left for the Root Task was never handed out
  and is not counted.
\<close>

section \<open>Frames\<close>

definition byte_range :: "u64 \<Rightarrow> nat \<Rightarrow> nat set" where
  "byte_range p n = {unat p ..< unat p + n}"

definition free_range :: "untyped_memory \<Rightarrow> nat set" where
  "free_range u = {unat (ut_base u) + unat (watermark u) ..< unat (ut_base u) + unat (ut_size u)}"

definition frames :: "kernel_state \<Rightarrow> object_ref \<Rightarrow> nat set" where
  "frames st r = (let i = as_usize (obj_id r) in case obj_kind r of
      UntypedMemory \<Rightarrow> (case slot_at (untyped st) i of None \<Rightarrow> {} | Some u \<Rightarrow> free_range u)
    | PageTable \<Rightarrow> (if obj_id r = root_addr_space st then {}
        else case slot_at (addr_spaces st) i of None \<Rightarrow> {} | Some a \<Rightarrow> byte_range (root_phys a) 4096)
    | SharedRegion \<Rightarrow> (case slot_at (shared_regions st) i of
        None \<Rightarrow> {} | Some s \<Rightarrow> byte_range (sr_phys s) (unat (sr_size s)))
    | _ \<Rightarrow> {})"

definition isolated :: "kernel_state \<Rightarrow> bool" where
  "isolated st \<longleftrightarrow> (\<forall>q r. q \<noteq> r \<longrightarrow> frames st q \<inter> frames st r = {})"

section \<open>Handlers that hand out nothing\<close>

definition same_frames :: "kernel_state \<Rightarrow> kernel_state \<Rightarrow> bool" where
  "same_frames st s \<longleftrightarrow> frames s = frames st"

lemma frames_simps [simp]:
  "frames (s\<lparr>sched := x\<rparr>) = frames s" "frames (s\<lparr>tcbs := y\<rparr>) = frames s"
  "frames (s\<lparr>endpoints := e\<rparr>) = frames s" "frames (s\<lparr>notifications := n\<rparr>) = frames s"
  "frames (s\<lparr>irq_bindings := b\<rparr>) = frames s" "frames (s\<lparr>map_pool_used := k\<rparr>) = frames s"
  "frames (s\<lparr>cap_tables := c\<rparr>) = frames s" "frames (put_endpoint s i ep) = frames s"
  "frames (put_notification s i w) = frames s" "frames (tcb_mut s t f) = frames s"
  "frames (set_state s t z) = frames s" "frames (set_cap_space s i ct) = frames s"
  by (simp_all add: fun_eq_iff frames_def put_endpoint_def put_notification_def set_state_def
      set_cap_space_def cong: object_kind.case_cong if_cong)

lemma same_frames_simps [simp]:
  "same_frames st st" "sched_blind (same_frames st)"
  "same_frames st (s\<lparr>irq_bindings := b\<rparr>) = same_frames st s"
  "same_frames st (s\<lparr>map_pool_used := k\<rparr>) = same_frames st s"
  "same_frames st (s\<lparr>cap_tables := c\<rparr>) = same_frames st s"
  "same_frames st (put_endpoint s i ep) = same_frames st s"
  "same_frames st (put_notification s i w) = same_frames st s"
  "same_frames st (tcb_mut s t f) = same_frames st s" "same_frames st (set_state s t z) = same_frames st s"
  "same_frames st (set_cap_space s i ct) = same_frames st s"
  by (simp_all add: same_frames_def sched_blind_def)

lemma same_frames_bind_irq: "bind_irq st irq i = (b, s) \<Longrightarrow> same_frames st s"
  by (auto simp: bind_irq_def split: option.splits)

lemma as_root_phys:
  "as_map a v p n pr = (r, a') \<Longrightarrow> root_phys a' = root_phys a"
  "as_unmap a v = (q, a') \<Longrightarrow> root_phys a' = root_phys a"
  by (auto simp: as_map_def as_unmap_def try_in_def split: if_splits res.splits option.splits)

lemma same_frames_put_space:
  assumes "same_frames st s" and "addr_space_mut s i = Some a" and "root_phys a' = root_phys a"
  shows "same_frames st (s\<lparr>addr_spaces := (addr_spaces s)[as_usize i := Some a']\<rparr>)"
proof -
  have "frames (s\<lparr>addr_spaces := (addr_spaces s)[as_usize i := Some a']\<rparr>) = frames s"
    using assms(2,3)
    by (auto simp: fun_eq_iff frames_def Let_def slot_at_update addr_space_mut_def
        split: object_kind.split option.split dest: slot_at_length)
  then show ?thesis using assms(1) by (simp add: same_frames_def)
qed

lemma same_frames_as_map:
  assumes "as_map a v p n pr = (r, a')" and "addr_space_mut s i = Some a" and "same_frames st s"
  shows "same_frames st (s\<lparr>addr_spaces := (addr_spaces s)[as_usize i := Some a']\<rparr>)"
  using assms(3,2) as_root_phys(1) [OF assms(1)] by (rule same_frames_put_space)

lemma same_frames_as_unmap:
  assumes "as_unmap a v = (r, a')" and "addr_space_mut s i = Some a" and "same_frames st s"
  shows "same_frames st (s\<lparr>addr_spaces := (addr_spaces s)[as_usize i := Some a']\<rparr>)"
  using assms(3,2) as_root_phys(2) [OF assms(1)] by (rule same_frames_put_space)

lemma same_frames_deliver: "same_frames st s \<Longrightarrow> leaves (same_frames st) (deliver s caller eid now)"
  by (auto simp: deliver_def Let_def intro!: leaves_rules split: option.split prod.split)

lemma same_frames_handlers:
  "leaves (same_frames st) (do_yield st now)"
  "leaves (same_frames st) (do_send st caller e m is_call now)"
  "leaves (same_frames st) (do_recv st caller e now)"
  "leaves (same_frames st) (do_reply st caller t m now)"
  "leaves (same_frames st) (do_signal st caller n bits now)"
  "leaves (same_frames st) (do_wait st caller n now)"
  "leaves (same_frames st) (do_poll st caller n)"
  "leaves (same_frames st) (do_irq_bind st caller mm n h hal)"
  "leaves (same_frames st) (do_cap_revoke st caller cap)"
  "leaves (same_frames st) (do_cap_grant st caller target cap rs)"
  unfolding do_yield_def do_send_def do_recv_def do_reply_def do_signal_def do_wait_def do_poll_def
    do_irq_bind_def do_cap_revoke_def do_cap_grant_def Let_def
  by (auto intro!: leaves_rules same_frames_deliver dest: same_frames_bind_irq
      split: prod.split option.split send_outcome.split recv_outcome.split)

lemma same_frames_map: "leaves (same_frames st) (do_map st caller pt fr v perms hal)"
  unfolding do_map_def map_pool_advance_def Let_def
  by (auto intro!: leaves_rules split: prod.split option.split;
      (erule same_frames_as_map | erule same_frames_as_unmap), assumption, simp)

section \<open>Retype\<close>

text \<open>The frames of the objects the loop has still to make.\<close>

definition promised :: "u64 \<Rightarrow> nat list \<Rightarrow> nat set" where
  "promised p ks = (\<Union>i \<in> set ks. {unat p + i * 4096 ..< unat p + i * 4096 + 4096})"

definition owing :: "kernel_state \<Rightarrow> u64 \<Rightarrow> nat list \<Rightarrow> kernel_state \<Rightarrow> bool" where
  "owing st p ks s \<longleftrightarrow> kwf s \<and> live_le st s \<and> isolated s \<and> distinct ks \<and>
     (\<forall>i \<in> set ks. unat p + i * 4096 < 2 ^ 64) \<and> (\<forall>q. frames s q \<inter> promised p ks = {})"

lemma frames_with_object:
  assumes "\<not> object_live s (ObjectRef (as_object_kind ty) k)"
  shows "q \<noteq> ObjectRef (as_object_kind ty) k \<Longrightarrow> frames (with_object s t p PAGE_SIZE ty k) q = frames s q"
    and "frames (with_object s t p PAGE_SIZE ty k) (ObjectRef (as_object_kind ty) k) \<subseteq> byte_range p 4096"
  using assms
  by (cases ty; auto simp: frames_def Let_def slot_at_update as_usize_eq object_ref_eq byte_range_def
      free_range_def ut_new_def as_new_def sr_new_def unat_page_size object_live.simps occ_def
      split: object_kind.split option.split if_splits)+

lemma promised_page:
  assumes "i < j \<or> j < i"
  shows "{p + i * 4096 ..< p + i * 4096 + 4096} \<inter> {p + j * 4096 ..< p + j * 4096 + (4096 :: nat)} = {}"
proof -
  have "i + 1 \<le> j \<or> j + 1 \<le> i" using assms by linarith
  then have "(i + 1) * 4096 \<le> j * 4096 \<or> (j + 1) * 4096 \<le> i * 4096" by (meson mult_le_mono1)
  then show ?thesis by (auto simp: algebra_simps)
qed

lemma promised_Cons:
  assumes "distinct (i # ks)"
  shows "promised p ks \<subseteq> promised p (i # ks)"
    and "{unat p + i * 4096 ..< unat p + i * 4096 + 4096} \<subseteq> promised p (i # ks)"
    and "{unat p + i * 4096 ..< unat p + i * 4096 + 4096} \<inter> promised p ks = {}"
proof -
  have "{unat p + i * 4096 ..< unat p + i * 4096 + 4096} \<inter>
      {unat p + j * 4096 ..< unat p + j * 4096 + 4096} = {}" if "j \<in> set ks" for j
    using that assms by (intro promised_page) (auto simp: neq_iff [symmetric])
  then show "{unat p + i * 4096 ..< unat p + i * 4096 + 4096} \<inter> promised p ks = {}"
    unfolding promised_def by blast
qed (auto simp: promised_def)

lemma isolated_add:
  assumes "isolated s" and "\<And>q. q \<noteq> r \<Longrightarrow> frames s' q = frames s q"
    and "frames s' r \<subseteq> F" and "\<And>q. frames s q \<inter> F = {}"
  shows "isolated s'"
  unfolding isolated_def
proof (intro allI impI)
  fix a b :: object_ref
  assume ne: "a \<noteq> b"
  show "frames s' a \<inter> frames s' b = {}"
  proof (cases "a = r \<or> b = r")
    case True
    then show ?thesis
    proof
      assume "a = r"
      then show ?thesis using ne assms(2) [of b] assms(3) assms(4) [of b] by auto
    next
      assume "b = r"
      then show ?thesis using ne assms(2) [of a] assms(3) assms(4) [of a] by auto
    qed
  next
    case False
    then show ?thesis using ne assms(1,2) by (simp add: isolated_def)
  qed
qed

lemma owing_step:
  assumes "owing st p (i # ks) s" and "\<not> object_live s (ObjectRef (as_object_kind ty) k)"
    and "ty = ThreadControlBlock_T \<longrightarrow> tcb_at s caller = Some t"
  shows "owing st p ks (with_object s t (p + of_nat i * PAGE_SIZE) PAGE_SIZE ty k)"
proof -
  let ?F = "{unat p + i * 4096 ..< unat p + i * 4096 + 4096}"
  let ?s = "with_object s t (p + of_nat i * PAGE_SIZE) PAGE_SIZE ty k"
  have o: "kwf s" "live_le st s" "isolated s" "distinct (i # ks)" "unat p + i * 4096 < 2 ^ 64"
    "\<forall>i \<in> set ks. unat p + i * 4096 < 2 ^ 64" "\<And>q. frames s q \<inter> promised p (i # ks) = {}"
    using assms(1) by (simp_all add: owing_def)
  note pc = promised_Cons [OF o(4)]
  have i: "unat (of_nat i :: u64) = i" using o(5) by (intro unat_of_nat_small) simp
  then have m: "unat (of_nat i * PAGE_SIZE) = i * 4096"
    using o(5) by (subst unat_mult_exact) (simp_all add: unat_page_size)
  then have u: "unat (p + of_nat i * PAGE_SIZE) = unat p + i * 4096"
    using o(5) by (subst unat_add_exact) simp_all
  note f = frames_with_object [OF assms(2), where t = t and p = "p + of_nat i * PAGE_SIZE"]
  have F: "frames ?s (ObjectRef (as_object_kind ty) k) \<subseteq> ?F" using f(2) by (simp add: byte_range_def u)
  have "isolated ?s" using o(3) f(1) F by (rule isolated_add) (use o(7) pc(2) in auto)
  moreover have "frames ?s q \<inter> promised p ks = {}" for q
  proof (cases "q = ObjectRef (as_object_kind ty) k")
    case True
    then show ?thesis using F pc(3) by blast
  next
    case False
    then show ?thesis using o(7) [of q] pc(1) f(1) by auto
  qed
  moreover have "kwf ?s" using with_object_kwf(1) [OF o(1) assms(2)] assms(3) by auto
  ultimately show ?thesis using o(2,4,6) live_le_trans with_object_live_le
    by (auto simp: owing_def)
qed

lemma do_retype_isolated:
  assumes "kwf st" and "isolated st"
  shows "leaves isolated (do_retype st caller uc ty cnt)"
proof (rule do_retype_leaves [where I = "\<lambda>ks s. \<exists>p. owing st p ks s"])
  fix t c u u' g
  assume u: "untyped_mut st (obj_id (cap_object c)) = Some u" and r: "retype u ty cnt = (Ok g, u')"
  let ?i = "obj_id (cap_object c)"
  let ?st = "st\<lparr>untyped := (untyped st)[as_usize ?i := Some u']\<rparr>"
  let ?r = "ObjectRef UntypedMemory ?i" and ?ks = "[0 ..< unat (grant_count g)]"
  note a = retype_Ok(1) [OF r]
  note pa = page_alloc_Ok [OF a] and ua = ut_alloc_Ok(1,2) [OF a]
  have slot: "slot_at (untyped st) (as_usize ?i) = Some u" using u by (simp add: untyped_mut_def)
  have old: "frames st ?r = free_range u" using slot by (simp add: frames_def)
  have new: "frames ?st ?r = free_range u'" using slot by (simp add: frames_def slot_at_update slot_at_length)
  have rest: "frames ?st q = frames st q" if "q \<noteq> ?r" for q
    using that by (auto simp: frames_def Let_def slot_at_update as_usize_eq object_ref_eq
        split: object_kind.split)
  have len: "unat (grant_len g) = 4096 * unat (grant_count g)" using retype_Ok(2,5) [OF r] by simp
  have prom: "promised (grant_phys g) ?ks \<subseteq> {unat (grant_phys g) ..< unat (grant_phys g) + unat (grant_len g)}"
    unfolding promised_def len by auto
  have sub: "free_range u' \<subseteq> free_range u" "free_range u' \<inter> promised (grant_phys g) ?ks = {}"
    "promised (grant_phys g) ?ks \<subseteq> free_range u"
    using prom pa(2,4,5) ua by (auto simp: free_range_def)
  have disj: "frames st q \<inter> free_range u = {}" if "q \<noteq> ?r" for q
    using assms(2) that old by (auto simp: isolated_def)
  have "isolated ?st"
    unfolding isolated_def
  proof (intro allI impI)
    fix a b :: object_ref
    assume "a \<noteq> b"
    then show "frames ?st a \<inter> frames ?st b = {}"
      using assms(2) disj rest new sub(1) unfolding isolated_def by (cases "a = ?r"; cases "b = ?r") blast+
  qed
  moreover have "frames ?st q \<inter> promised (grant_phys g) ?ks = {}" for q
    using disj rest new sub(2,3) by (cases "q = ?r") blast+
  moreover have "ut_wf u" using kwf_parts(7) [OF assms(1)] slot by (auto dest: slots_allD)
  then have "kwf ?st" using retype_wf [of u ty cnt] r assms by (simp add: kwf_put_untyped)
  moreover have "unat (grant_phys g) + i * 4096 < 2 ^ 64" if "i < unat (grant_count g)" for i
    using that pa(5,6) len by linarith
  ultimately have start: "owing st (grant_phys g) ?ks ?st" by (simp add: owing_def)
  have "\<exists>ks. owing st (grant_phys g) ks (snd (retype_loop ?st caller (t_cap_space t) (grant_phys g)
      (object_size_bytes ty) ty ?ks None 0))"
    unfolding object_size_page
  proof (rule retype_loop_leaves [where st = st and I = "owing st (grant_phys g)"])
    fix ks s k tb
    assume I: "owing st (grant_phys g) ks s" and live: "object_live s (ObjectRef (as_object_kind ty) k)"
      and tb: "cap_space s (t_cap_space t) = Some tb"
    let ?s = "set_cap_space s (t_cap_space t) (snd (insert_root tb (full (ObjectRef (as_object_kind ty) k))))"
    have "live_le s ?s" unfolding set_cap_space_def by simp
    moreover have "kwf ?s" using I live tb by (intro insert_root_kwf(2)) (auto simp: owing_def)
    ultimately show "owing st (grant_phys g) ks ?s"
      using I live_le_trans by (auto simp: owing_def isolated_def)
  next
    fix i ks s x k
    assume "owing st (grant_phys g) (i # ks) s" "\<not> object_live s (ObjectRef (as_object_kind ty) k)"
      "ty = ThreadControlBlock_T \<longrightarrow> tcb_at s caller = Some x"
    then show "owing st (grant_phys g) ks
        (with_object s x (grant_phys g + of_nat i * PAGE_SIZE) PAGE_SIZE ty k)"
      by (rule owing_step)
  next
    show "owing st (grant_phys g) ?ks ?st" by (rule start)
  qed (simp_all add: owing_def)
  then show "\<exists>ks p. owing st p ks (snd (retype_loop ?st caller (t_cap_space t) (grant_phys g)
      (object_size_bytes ty) ty ?ks None 0))" by blast
qed (use assms in \<open>auto simp: owing_def\<close>)

lemma isolated_same_frames: "leaves (same_frames st) m \<Longrightarrow> isolated st \<Longrightarrow> leaves isolated m"
  by (erule leaves_mono) (simp add: same_frames_def isolated_def)

lemma dispatch_isolated:
  assumes "kwf st" and "isolated st"
  shows "leaves isolated (sys_dispatch st caller now opn hal)"
  by (cases opn) (simp_all add: same_frames_handlers [THEN isolated_same_frames]
      isolated_same_frames [OF same_frames_map] do_retype_isolated assms)

end
