(* ===== verification/Kernel.thy ===== *)
theory Kernel
  imports Boot Preempt Isolation
begin

text \<open>
  The kernel as a whole: the events that reach \<open>KernelState\<close> after boot (a system call,
  a timer tick, a yield, a fault, a hand-off, the installation of the frame pool), the states
  reachable from a completed boot, and the safety of all of them.
\<close>

datatype kernel_event =
    SysCall thread_id u64 syscall_op hal_interface
  | Tick u64
  | YieldNow u64
  | BlockEvent thread_id u64
  | WakeEvent thread_id u64
  | HandTo thread_id thread_id u64
  | Terminate thread_id u64
  | TerminateTo thread_id thread_id u64
  | InitUser thread_id u64 u64 u64 context_hal
  | StartKernel thread_id u64 u64 context_hal
  | DriveStep context_hal
  | SwitchDirect thread_id thread_id context_hal
  | InstallPool u64 u32

definition discard :: "'a sys \<Rightarrow> unit sys" where
  "discard m = (if fst m = Panic then Panic else Ok (), snd m)"

fun kernel_do :: "kernel_event \<Rightarrow> kernel_state \<Rightarrow> unit sys" where
  "kernel_do (SysCall t now opn hal) st = discard (sys_dispatch st t now opn hal)"
| "kernel_do (Tick now) st = discard (preempt_tick st now)"
| "kernel_do (YieldNow now) st = discard (cooperative_yield st now)"
| "kernel_do (BlockEvent t now) st = discard (block_thread st t now)"
| "kernel_do (WakeEvent t now) st = discard (wake_blocked st t now)"
| "kernel_do (HandTo t u now) st = discard (yield_to_thread st t u now)"
| "kernel_do (Terminate t now) st = discard (terminate_thread st t now)"
| "kernel_do (TerminateTo t u now) st = discard (terminate_thread_and_handoff st t u now)"
| "kernel_do (InitUser t ent sp root hal) st = discard (init_user_thread st t ent sp root hal)"
| "kernel_do (StartKernel t ent sp hal) st = discard (start_thread st t ent sp hal)"
| "kernel_do (DriveStep hal) st = discard (schedule_step st hal)"
| "kernel_do (SwitchDirect t u hal) st = discard (yield_to st t u hal)"
| "kernel_do (InstallPool base n) st = (Ok (), install_map_pool st base n)"

text \<open>What the callers must respect. A fault or a direct switch concerns the running thread,
  the drive step finds the control block of the thread it leaves, the frame pool lies within the
  address range, the HAL draws no more frames than it is given, and no one maps the last page.\<close>

fun allowed :: "kernel_event \<Rightarrow> kernel_state \<Rightarrow> bool" where
  "allowed (SysCall t now (Sys_Map pt fr v perms) hal) st \<longleftrightarrow> hal_ok hal \<and> v \<noteq> TOP_PAGE"
| "allowed (SysCall t now opn hal) st \<longleftrightarrow> hal_ok hal"
| "allowed (Terminate t now) st \<longleftrightarrow> running (sched st) = None \<or> running (sched st) = Some t"
| "allowed (TerminateTo t u now) st \<longleftrightarrow> running (sched st) = None \<or> running (sched st) = Some t"
| "allowed (DriveStep hal) st \<longleftrightarrow> (case running (sched st) of
     None \<Rightarrow> True | Some t \<Rightarrow> tcb_at st t \<noteq> None)"
| "allowed (SwitchDirect t u hal) st \<longleftrightarrow> tcb_at st t \<noteq> None \<and> tcb_at st u \<noteq> None \<and>
     (running (sched st) = None \<or> running (sched st) = Some t)"
| "allowed (InstallPool base n) st \<longleftrightarrow> unat base + unat n * 4096 < 2 ^ 64"
| "allowed _ st \<longleftrightarrow> True"

inductive reachable :: "boot_info \<Rightarrow> kernel_state \<Rightarrow> bool" for b where
  booted: "populate_from_boot_info EMPTY b = (Ok (), st) \<Longrightarrow> reachable b st"
| step: "reachable b st \<Longrightarrow> allowed ev st \<Longrightarrow> reachable b (snd (kernel_do ev st))"

section \<open>Every event keeps the invariant\<close>

lemma keeps_discard [simp]: "keeps I (discard m) = keeps I m"
  by (simp add: discard_def keeps_def)

lemma install_pool_kwf:
  assumes "kwf st" and "unat base + unat n * 4096 < 2 ^ 64"
  shows "kwf (install_map_pool st base n)"
  using assms
  by (auto simp: install_map_pool_def kwf_def shape_def tcbs_wf_def tcb_wf_def irqs_wf_def pool_wf_def
      caps_live_def object_live.simps cong: object_kind.case_cong)

lemma keeps_kernel_do:
  assumes "kwf st" and "allowed ev st"
  shows "keeps kwf (kernel_do ev st)"
proof (cases ev)
  case (SysCall t now opn hal)
  then have "hal_ok hal" "\<And>pt fr perms. opn \<noteq> Sys_Map pt fr TOP_PAGE perms"
    using assms(2) by (cases opn; simp)+
  then show ?thesis using SysCall keeps_dispatch [OF assms(1)] by simp
next
  case (Terminate t now)
  then show ?thesis using assms keeps_terminate_thread(1) by simp
next
  case (TerminateTo t u now)
  then show ?thesis using assms keeps_terminate_thread(2) by simp
next
  case (DriveStep hal)
  then show ?thesis using assms by (auto intro!: keeps_schedule_step split: option.splits)
next
  case (SwitchDirect t u hal)
  then show ?thesis using assms by (auto intro!: keeps_yield_to)
qed (use assms in \<open>simp_all add: keeps_preempt_tick keeps_cooperative_yield keeps_block_thread
    keeps_wake_blocked keeps_yield_to_thread keeps_init_user_thread keeps_start_thread
    install_pool_kwf\<close>)

section \<open>Every event keeps memory isolated\<close>

lemma leaves_discard [simp]: "leaves P (discard m) = leaves P m"
  by (simp add: discard_def leaves_def)

lemma leaves_sched_pick: "P st \<Longrightarrow> leaves P (sched_pick st now)"
  by (simp add: sched_pick_def)

lemma same_frames_sched [simp]: "same_frames st (s\<lparr>sched := x\<rparr>) = same_frames st s"
  by (simp add: same_frames_def)

lemmas preempt_defs = preempt_tick_def cooperative_yield_def block_thread_def yield_to_thread_def
  terminate_thread_def terminate_thread_and_handoff_def retire_def init_user_thread_def
  start_thread_def schedule_step_def yield_to_def save_context_def

lemma same_frames_preempt:
  "leaves (same_frames st) (preempt_tick st now)" "leaves (same_frames st) (cooperative_yield st now)"
  "leaves (same_frames st) (block_thread st t now)" "leaves (same_frames st) (wake_blocked st t now)"
  "leaves (same_frames st) (yield_to_thread st t u now)" "leaves (same_frames st) (terminate_thread st t now)"
  "leaves (same_frames st) (terminate_thread_and_handoff st t u now)"
  "leaves (same_frames st) (init_user_thread st t ent sp root hal)"
  "leaves (same_frames st) (start_thread st t ent sp hal)"
  "leaves (same_frames st) (schedule_step st hal)" "leaves (same_frames st) (yield_to st t u hal)"
  unfolding preempt_defs Let_def
  by (auto intro!: leaves_rules leaves_sched_pick split: option.split)

lemma kernel_do_isolated:
  assumes "kwf st" and "isolated st"
  shows "isolated (snd (kernel_do ev st))"
proof -
  have "frames (install_map_pool st base n) = frames st" for base n
    by (simp add: fun_eq_iff frames_def install_map_pool_def cong: object_kind.case_cong if_cong)
  then have pool: "isolated (install_map_pool st base n)" for base n
    using assms(2) by (simp add: isolated_def)
  have "leaves isolated (kernel_do ev st)"
    by (cases ev) (simp_all add: dispatch_isolated pool assms
        same_frames_preempt [THEN isolated_same_frames])
  then show ?thesis by (simp add: leaves_def)
qed

section \<open>The state the boot leaves is isolated\<close>

lemma seed_ok_free_range:
  assumes "seed_ok P u"
  shows "free_range u = unat ` urange u"
proof -
  have u: "watermark u = 0" "unat (ut_base u) + unat (ut_size u) < 2 ^ 64"
    using assms by (simp_all add: seed_ok_def)
  have "n \<in> unat ` urange u" if "n \<in> free_range u" for n
  proof
    have lt: "n < 2 ^ 64" using that u by (simp add: free_range_def)
    then show "n = unat (of_nat n :: u64)" by (simp add: unat_of_nat_small)
    show "(of_nat n :: u64) \<in> urange u"
      using that lt u by (simp add: urange_def free_range_def word_le_nat_alt unat_of_nat_small)
  qed
  moreover have "n \<in> free_range u" if "n \<in> unat ` urange u" for n
    using that u by (auto simp: urange_def free_range_def word_le_nat_alt)
  ultimately show ?thesis by blast
qed

lemma booted_isolated:
  assumes "booted b rs st" and "disjoint_regions rs"
  shows "isolated st"
proof -
  have bt: "untyped_sep st" "slots_all (seed_ok (seedable rs (boot_holes b))) (untyped st)"
    "addr_spaces st = (replicate MAX_ADDR_SPACES None)
       [0 := Some (as_new MAPPINGS_PER_SPACE (initial_page_table_phys b))]"
    "shared_regions st = replicate MAX_SHARED_REGIONS None" "root_addr_space st = 0"
    using assms by (simp_all add: booted_def)
  have fr: "frames st q = (if obj_kind q = UntypedMemory
      then case slot_at (untyped st) (as_usize (obj_id q)) of
        None \<Rightarrow> {} | Some u \<Rightarrow> unat ` urange u else {})" for q
  proof -
    have "slot_at (addr_spaces st) (as_usize i) = None" if "i \<noteq> 0" for i
      using that as_usize_eq [of i 0] by (simp add: bt(3) slot_at_update)
    moreover have "free_range u = unat ` urange u" if "slot_at (untyped st) i = Some u" for i u
      using slots_allD [OF bt(2) that] by (rule seed_ok_free_range)
    ultimately show ?thesis using bt(4,5)
      by (cases "obj_kind q") (auto simp: frames_def Let_def split: option.split)
  qed
  show ?thesis unfolding isolated_def
  proof (intro allI impI)
    fix q r :: object_ref
    assume ne: "q \<noteq> r"
    show "frames st q \<inter> frames st r = {}"
    proof (cases "obj_kind q = UntypedMemory \<and> obj_kind r = UntypedMemory")
      case True
      then have "as_usize (obj_id q) \<noteq> as_usize (obj_id r)"
        using ne object_ref_eq [of q "obj_kind r" "obj_id r"] object_ref_eq [of r "obj_kind r" "obj_id r"]
        by (auto simp: as_usize_eq)
      then have "urange u \<inter> urange v = {}"
        if "slot_at (untyped st) (as_usize (obj_id q)) = Some u"
          "slot_at (untyped st) (as_usize (obj_id r)) = Some v" for u v
        using bt(1) that by (auto simp: untyped_sep_def)
      moreover have "unat ` A \<inter> unat ` B = {}" if "A \<inter> B = {}" for A B :: "u64 set"
        using that by (auto simp: word_eq_iff_unsigned [symmetric])
      ultimately show ?thesis using True by (simp add: fr split: option.split)
    qed (auto simp: fr)
  qed
qed

section \<open>A run of the sample machine\<close>

definition sample_hal :: hal_interface where
  "sample_hal = \<lparr>hal_map_range = (\<lambda>_ _ _ _ _ _ _. 0), hal_register_irq = (\<lambda>_ _. True)\<rparr>"

definition sample_kernel :: kernel_state where
  "sample_kernel = snd (populate_from_boot_info EMPTY sample_boot)"

lemma sample_hal_ok: "hal_ok sample_hal"
  by (simp add: hal_ok_def sample_hal_def)

lemma sample_kernel_wf: "kwf sample_kernel"
  unfolding sample_kernel_def by (rule sample_state)

lemma sample_reachable: "reachable sample_boot sample_kernel"
  unfolding sample_kernel_def
  by (rule reachable.booted) (metis prod.collapse sample_boots)

text \<open>The Root Task retypes two pages of its first region into untyped regions.\<close>

abbreviation sample_retype :: syscall_op where
  "sample_retype \<equiv> Sys_Retype 0 Untyped_T 2"

lemma sample_retypes: "fst (sys_dispatch sample_kernel 0 0 sample_retype sample_hal) = Ok (NewCaps 2 2)"
  by code_simp

section \<open>Properties\<close>

lemma boot_Ok:
  assumes "manifest_wf (hardware_manifest b)" and "populate_from_boot_info EMPTY b = (Ok (), st)"
  shows "booted b (take (unat (memory_region_count (hardware_manifest b)))
    (memory_region_table (hardware_manifest b))) st"
proof -
  have "boot_validate b = Ok ()"
  proof (rule ccontr)
    assume "boot_validate b \<noteq> Ok ()"
    then obtain e where "boot_validate b = Err e" by (auto simp: boot_validate_def split: if_splits)
    then show False using assms(2) by (simp add: populate_from_boot_info_def)
  qed
  then show ?thesis
    using boot_cases [OF _ manifest_slices(1) [OF assms(1)] manifest_slices(3) [OF assms(1)]] assms(2)
    by auto
qed

lemma reachable_kwf:
  assumes "reachable b st" and "manifest_wf (hardware_manifest b)"
  shows "kwf st"
  using assms(1)
proof induction
  case (booted st)
  then show ?case using boot_Ok [OF assms(2)] by (auto simp: booted_def)
next
  case (step st ev)
  then show ?case using keeps_kernel_do by (auto simp: keeps_def)
qed

lemma reachable_isolated:
  assumes "reachable b st" and "manifest_wf (hardware_manifest b)"
    and "disjoint_regions (take (unat (memory_region_count (hardware_manifest b)))
      (memory_region_table (hardware_manifest b)))"
  shows "isolated st"
  using assms(1)
proof induction
  case (booted st)
  then show ?case using booted_isolated [OF boot_Ok [OF assms(2)] assms(3)] by blast
next
  case (step st ev)
  then show ?case using kernel_do_isolated reachable_kwf [OF _ assms(2)] by blast
qed

text \<open>C1: From every state reachable from a completed boot, no event the callers may cause makes
  the kernel panic, and the state it leaves is well formed again: system calls (errors
  included), timer ticks, yields, faults, hand-offs and direct switches alike.\<close>

theorem kernel_safe:
  assumes "reachable b st" and "manifest_wf (hardware_manifest b)" and "allowed ev st"
  shows "kwf st \<and> fst (kernel_do ev st) \<noteq> Panic \<and> kwf (snd (kernel_do ev st))"
  using reachable_kwf [OF assms(1,2)] keeps_kernel_do [OF _ assms(3)] by (auto simp: keeps_def)

theorem kernel_safe_witness:
  "\<exists>st. reachable sample_boot st \<and> kwf (snd (kernel_do (Tick 5) st)) \<and>
    st = snd (kernel_do (SysCall 0 0 sample_retype sample_hal) sample_kernel)"
proof -
  let ?st = "snd (kernel_do (SysCall 0 0 sample_retype sample_hal) sample_kernel)"
  have "reachable sample_boot ?st"
    by (rule reachable.step [OF sample_reachable]) (simp add: sample_hal_ok)
  moreover from kernel_safe [OF this sample_manifest, of "Tick 5"]
  have "kwf (snd (kernel_do (Tick 5) ?st))" by simp
  ultimately show ?thesis by blast
qed



text \<open>C2: A system call creates only the capabilities it may: a retype gives its caller full
  capabilities to objects that did not exist, and needs a writable untyped capability; a grant
  gives the named thread one capability with no more rights than one the caller holds with the
  grant right. Nothing is overwritten, and only a revocation through a capability with the
  revoke right removes capabilities, those derived from it and itself.\<close>

theorem authority_confined:
  assumes "kwf st" and "sys_dispatch st caller now opn hal = (r, st')"
  shows "(\<forall>g c. cap_at (cap_tables st') g = Some c \<longrightarrow> cap_at (cap_tables st) g = Some c \<or>
      cap_at (cap_tables st) g = None \<and> may_create st caller opn g c) \<and>
    (\<forall>g c. cap_at (cap_tables st) g = Some c \<longrightarrow> cap_at (cap_tables st') g = Some c \<or>
      may_delete st caller opn g)"
  using dispatch_confined [OF assms(1), of caller opn now hal] assms(2)
  by (simp add: leaves_def caps_confined_def)

theorem authority_confined_witness:
  "may_create sample_kernel 0 sample_retype (GlobalCapId 0 2) (full (ObjectRef UntypedMemory 1))"
proof -
  let ?g = "GlobalCapId 0 2" and ?m = "sys_dispatch sample_kernel 0 0 sample_retype sample_hal"
  have "cap_at (cap_tables (snd ?m)) ?g = Some (full (ObjectRef UntypedMemory 1)) \<and>
      cap_at (cap_tables sample_kernel) ?g = None" by code_simp
  with authority_confined [OF sample_kernel_wf prod.collapse [symmetric, of ?m]]
  show ?thesis by (metis option.distinct(1))
qed



end
