(* ===== verification/Progress.thy ===== *)
theory Progress
  imports Preempt Boot
begin

text \<open>
  What the scheduling entry points achieve: the exact outcome of a timer tick, of a voluntary
  yield, of a fault and of a block, and progress: a ready thread does not wait for ever.
\<close>

section \<open>The outcome of a tick\<close>

definition on_cpu :: "kernel_state \<Rightarrow> thread_id \<Rightarrow> bool" where
  "on_cpu st t \<longleftrightarrow> running (sched st) = Some t \<and>
     (\<exists>e. entity (sched st) t = Some e \<and> run_state e = Running)"

lemma ready_mem: "entity s t = Some e \<Longrightarrow> run_state e = Ready \<Longrightarrow> e \<in> ready_entities s"
  by (auto simp: ready_entities_def)

text \<open>The state after the running thread was charged, as a timer tick and every block see it.\<close>

lemma account_running:
  assumes "kwf st" and "on_cpu st r"
  obtains a e v where "account (sched st) now = (Ok (), a)" "entity (sched st) r = Some e"
    "entity a = (entity (sched st))(r \<mapsto> e\<lparr>vruntime := v, run_state := Ready, became_ready_ns := now\<rparr>)"
    "running a = None"
    "unat v = min (unat (vruntime e) +
      (unat now - unat (running_since_ns (sched st))) * 1024 div slice_weight e) (2 ^ 64 - 1)"
    "kwf (st\<lparr>sched := a\<rparr>)"
proof -
  obtain e where r: "running (sched st) = Some r" "entity (sched st) r = Some e" "run_state e = Running"
    using assms(2) by (auto simp: on_cpu_def)
  note wf = kwf_parts(1) [OF assms(1)]
  obtain a e1 where a: "account (sched st) now = (Ok (), a)" "entity a = (entity (sched st))(r \<mapsto> e1)"
      "running a = None" "unat (vruntime e1) = min (unat (vruntime e) +
      (unat now - unat (running_since_ns (sched st))) * 1024 div slice_weight e) (2 ^ 64 - 1)"
    using account_exact [OF wf r(1,2), of now] by blast
  have k: "kwf (st\<lparr>sched := a\<rparr>)"
    using kwf_step_ok [OF assms(1) sched_calls_ok(3) [OF assms(1), of now]] a(1) by simp
  from wf have "e1 = e\<lparr>vruntime := vruntime e1, run_state := Ready, became_ready_ns := now\<rparr>"
  proof (cases rule: account_cases [where now = now])
    case (charged t' e0 e' s1)
    have "entity a r = Some e'" using charged(1,2,4) a(1) r(1) by auto
    then show ?thesis using charged(2,3,6) a(2) r by auto
  qed (use r in auto)
  then have "entity a = (entity (sched st))
      (r \<mapsto> e\<lparr>vruntime := vruntime e1, run_state := Ready, became_ready_ns := now\<rparr>)"
    using a(2) by metis
  then show thesis using that [of a e "vruntime e1"] a(1,3,4) r(2) k by blast
qed

lemma dispatch_ready:
  assumes "entity a n = Some en" and "\<forall>u e. entity a u = Some e \<longrightarrow> run_state e \<noteq> Running"
  obtains d w where "dispatch_thread a n now = (Ok (), d)"
    "entity d = (entity a)(n \<mapsto> en\<lparr>last_wait_ms := w, run_state := Running\<rparr>)" "running d = Some n"
    "running_since_ns d = now" "\<forall>u e. entity d u = Some e \<longrightarrow> (run_state e = Running) = (u = n)"
proof (cases rule: dispatch_cases [of a n now])
  case none
  then show thesis using assms(1) by simp
next
  case (some e e' s')
  have e: "e = en" using some(2) assms(1) by simp
  let ?w = "saturating_sub now (became_ready_ns e) div 1000000"
  have ent: "entity s' = (entity a)(n \<mapsto> en\<lparr>last_wait_ms := ?w, run_state := Running\<rparr>)"
    using some(3,4) e by simp
  show thesis
  proof (rule that [OF some(1) ent some(5,6)])
    show "\<forall>u x. entity s' u = Some x \<longrightarrow> (run_state x = Running) = (u = n)"
      using assms(2) unfolding ent by auto
  qed
qed

text \<open>Once the running thread is charged, nothing is marked running.\<close>

lemma parked_idle:
  assumes "kwf (st\<lparr>sched := a\<rparr>)" and "running a = None" and "entity a u = Some e"
  shows "run_state e \<noteq> Running"
  using kwf_parts(13) [OF assms(1)] assms(2,3) by (auto simp: single_running_def)

lemma tick_outcome:
  assumes "kwf st" and "on_cpu st r"
  obtains a e v n en w d where "account (sched st) now = (Ok (), a)" "entity (sched st) r = Some e"
    "entity a = (entity (sched st))(r \<mapsto> e\<lparr>vruntime := v, run_state := Ready, became_ready_ns := now\<rparr>)"
    "unat v = min (unat (vruntime e) +
      (unat now - unat (running_since_ns (sched st))) * 1024 div slice_weight e) (2 ^ 64 - 1)"
    "pick_next a now = Ok (Some n)" "entity a n = Some en" "run_state en = Ready"
    "\<forall>x \<in> ready_entities a. key_of a en \<le> key_of a x"
    "entity d = (entity a)(n \<mapsto> en\<lparr>last_wait_ms := w, run_state := Running\<rparr>)"
    "running d = Some n" "running_since_ns d = now"
    "\<forall>u e. entity d u = Some e \<longrightarrow> (run_state e = Running) = (u = n)"
    "preempt_tick st now = (Ok (if n = r then Continue else Switch r n), st\<lparr>sched := d\<rparr>)"
proof -
  obtain a e v where a: "account (sched st) now = (Ok (), a)" "entity (sched st) r = Some e"
    "entity a = (entity (sched st))(r \<mapsto> e\<lparr>vruntime := v, run_state := Ready, became_ready_ns := now\<rparr>)"
    "running a = None" "unat v = min (unat (vruntime e) +
      (unat now - unat (running_since_ns (sched st))) * 1024 div slice_weight e) (2 ^ 64 - 1)"
    "kwf (st\<lparr>sched := a\<rparr>)"
    by (rule account_running [OF assms, where now = now])
  have wfa: "sched_wf a" using kwf_parts(1) [OF a(6)] by simp
  let ?e' = "e\<lparr>vruntime := v, run_state := Ready, became_ready_ns := now\<rparr>"
  have "?e' \<in> ready_entities a" by (rule ready_mem [of _ r]) (simp_all add: a(3))
  then obtain n en where n: "pick_next a now = Ok (Some n)" "entity a n = Some en"
    "run_state en = Ready" "\<forall>x \<in> ready_entities a. key_of a en \<le> key_of a x"
    using pick_next_spec [OF wfa, of now] by (metis empty_iff)
  obtain d w where d: "dispatch_thread a n now = (Ok (), d)"
    "entity d = (entity a)(n \<mapsto> en\<lparr>last_wait_ms := w, run_state := Running\<rparr>)" "running d = Some n"
    "running_since_ns d = now" "\<forall>u e. entity d u = Some e \<longrightarrow> (run_state e = Running) = (u = n)"
    by (rule dispatch_ready [OF n(2), where now = now]) (use parked_idle [OF a(6,4)] in blast)
  have r: "running (sched st) = Some r" using assms(2) by (simp add: on_cpu_def)
  have "preempt_tick st now = (Ok (if n = r then Continue else Switch r n), st\<lparr>sched := d\<rparr>)"
    using d(1) by (cases "n = r")
      (simp_all add: preempt_tick_def Let_def sched_do_def sched_pick_def r a(1) n(1))
  then show thesis using that [OF a(1-3,5) n d(2-5)] by blast
qed

section \<open>Progress\<close>

text \<open>Ticks at the given times, one after another.\<close>

fun ticks :: "u64 list \<Rightarrow> kernel_state \<Rightarrow> kernel_state" where
  "ticks [] st = st"
| "ticks (now # ts) st = ticks ts (snd (preempt_tick st now))"

text \<open>The ticks are at least nine nanoseconds apart: a slice of that length always costs
  virtual runtime.\<close>

fun spaced :: "u64 \<Rightarrow> u64 list \<Rightarrow> bool" where
  "spaced since [] \<longleftrightarrow> True"
| "spaced since (now # ts) \<longleftrightarrow> unat since + 9 \<le> unat now \<and> spaced now ts"

text \<open>No thread outranks \<open>t\<close>: all are interactive, of at most its priority.\<close>

definition unrivalled :: "scheduler \<Rightarrow> sched_entity \<Rightarrow> bool" where
  "unrivalled s et \<longleftrightarrow> e_mode et = Interactive \<and> (\<forall>u e. entity s u = Some e \<longrightarrow>
     e_mode e = Interactive \<and> effective_priority e \<le> effective_priority et)"

text \<open>How far the other threads are behind virtual runtime \<open>V\<close>, summed up.\<close>

definition backlog :: "scheduler \<Rightarrow> nat \<Rightarrow> nat" where
  "backlog s V = (\<Sum>u \<in> {u. entity s u \<noteq> None}. V + 1 - unat (vruntime (the (entity s u))))"

lemma slice_costs:
  assumes "entity_ok t e" and "9 \<le> d"
  shows "1 \<le> d * 1024 div slice_weight e"
proof -
  note b = slice_weight_bounds [OF assms(1)]
  have "slice_weight e \<le> d * 1024" using b(2) assms(2) by linarith
  then show ?thesis using b(1) div_le_mono [of "slice_weight e" "d * 1024" "slice_weight e"] by simp
qed

text \<open>A thread picked before \<open>t\<close> is not ahead of it.\<close>

lemma picked_behind:
  assumes "sched_wf a" and "unrivalled a et" and "entity a t = Some et"
    and "entity a n = Some en" and "key_of a en \<le> key_of a et"
  shows "vruntime en \<le> vruntime et"
proof -
  have m: "e_mode en = Interactive" "e_mode et = Interactive"
    "effective_priority en \<le> effective_priority et" using assms(2,4) by (auto simp: unrivalled_def)
  have p: "effective_priority en \<le> MAX_PRIORITY" "effective_priority et \<le> MAX_PRIORITY"
    using assms(1,3,4) by (auto simp: sched_wf_def entity_ok_def)
  have k: "key_of a e = (0, MAX_PRIORITY - effective_priority e, vruntime e, e_thread e)"
    if "e_mode e = Interactive" "effective_priority e \<le> MAX_PRIORITY" for e
    using that by (simp add: key_of_def pick_key_def sub_or_panic_def Let_def)
  have "MAX_PRIORITY - effective_priority et \<le> MAX_PRIORITY - effective_priority en"
    using m(3) p by (simp add: word_le_nat_alt unat_sub)
  then show ?thesis using assms(5) by (auto simp: k m p)
qed

lemma backlog_step:
  assumes "entity d = (entity s)(r \<mapsto> e', n \<mapsto> en')" and "entity s r = Some e" and "vruntime e \<le> vruntime e'"
    and "((entity s)(r \<mapsto> e')) n = Some en" and "vruntime en' = vruntime en"
  shows "backlog d V \<le> backlog s V"
    and "unat (vruntime e) \<le> V \<Longrightarrow> vruntime e < vruntime e' \<Longrightarrow> backlog d V < backlog s V"
proof -
  let ?f = "\<lambda>s u. V + 1 - unat (vruntime (the (entity s u)))"
  have dom: "{u. entity d u \<noteq> None} = {u. entity s u \<noteq> None}"
    using assms(1,2,4) by (auto split: if_splits)
  have le: "?f d u \<le> ?f s u" if "entity s u \<noteq> None" for u
    using assms by (auto simp: word_le_nat_alt split: if_splits intro!: diff_le_mono2)
  show "backlog d V \<le> backlog s V"
    unfolding backlog_def dom by (rule sum_mono) (use le in auto)
  show "backlog d V < backlog s V" if "unat (vruntime e) \<le> V" "vruntime e < vruntime e'"
  proof -
    have "?f d r < ?f s r" using assms that
      by (auto simp: word_less_nat_alt split: if_splits)
    then show ?thesis unfolding backlog_def dom
      by (intro sum_strict_mono_ex1) (use le assms(2) in \<open>auto intro: exI [of _ r]\<close>)
  qed
qed

text \<open>The ticks still needed: the backlog, and one more if the running thread is itself ahead.\<close>

definition debt :: "kernel_state \<Rightarrow> nat \<Rightarrow> nat" where
  "debt st V = backlog (sched st) V + (case running (sched st) of None \<Rightarrow> 0
     | Some r \<Rightarrow> (if unat (vruntime (the (entity (sched st) r))) \<le> V then 0 else 1))"

definition awaits :: "kernel_state \<Rightarrow> thread_id \<Rightarrow> sched_entity \<Rightarrow> bool" where
  "awaits st t et \<longleftrightarrow> kwf st \<and> (\<exists>r. on_cpu st r) \<and> entity (sched st) t = Some et \<and>
     run_state et = Ready \<and> unrivalled (sched st) et \<and> unat (vruntime et) < 2 ^ 64 - 1"

lemma debt_pos:
  assumes "on_cpu st r"
  shows "0 < debt st V"
proof -
  obtain e where r: "running (sched st) = Some r" "entity (sched st) r = Some e"
    using assms by (auto simp: on_cpu_def)
  have "0 < backlog (sched st) V" if "unat (vruntime e) \<le> V"
    unfolding backlog_def using r(2) that by (intro sum_pos2 [where i = r]) auto
  then show ?thesis using r by (auto simp: debt_def)
qed

lemma tick_progress:
  assumes "awaits st t et" and "unat (running_since_ns (sched st)) + 9 \<le> unat now"
  defines "st' \<equiv> snd (preempt_tick st now)"
  shows "running_since_ns (sched st') = now" and "running (sched st') = Some t \<or>
    awaits st' t et \<and> debt st' (unat (vruntime et)) < debt st (unat (vruntime et))"
proof -
  let ?V = "unat (vruntime et)"
  have w: "kwf st" "entity (sched st) t = Some et" "run_state et = Ready"
    "unrivalled (sched st) et" "?V < 2 ^ 64 - 1"
    using assms(1) by (simp_all add: awaits_def)
  obtain r where r: "on_cpu st r" using assms(1) by (auto simp: awaits_def)
  obtain a e v n en w' d where o: "account (sched st) now = (Ok (), a)" "entity (sched st) r = Some e"
    "entity a = (entity (sched st))(r \<mapsto> e\<lparr>vruntime := v, run_state := Ready, became_ready_ns := now\<rparr>)"
    "unat v = min (unat (vruntime e) +
      (unat now - unat (running_since_ns (sched st))) * 1024 div slice_weight e) (2 ^ 64 - 1)"
    "pick_next a now = Ok (Some n)" "entity a n = Some en" "run_state en = Ready"
    "\<forall>x \<in> ready_entities a. key_of a en \<le> key_of a x"
    "entity d = (entity a)(n \<mapsto> en\<lparr>last_wait_ms := w', run_state := Running\<rparr>)"
    "running d = Some n" "running_since_ns d = now"
    "\<forall>u e. entity d u = Some e \<longrightarrow> (run_state e = Running) = (u = n)"
    "preempt_tick st now = (Ok (if n = r then Continue else Switch r n), st\<lparr>sched := d\<rparr>)"
    by (rule tick_outcome [OF w(1) r, where now = now])
  let ?e' = "e\<lparr>vruntime := v, run_state := Ready, became_ready_ns := now\<rparr>"
    and ?en' = "en\<lparr>last_wait_ms := w', run_state := Running\<rparr>"
  have st': "st' = st\<lparr>sched := d\<rparr>" by (simp add: st'_def o(13))
  show "running_since_ns (sched st') = now" by (simp add: st' o(11))
  have run: "running (sched st) = Some r" "run_state e = Running"
    using r o(2) by (auto simp: on_cpu_def)
  then have rt: "r \<noteq> t" using w(2,3) o(2) by auto
  have wf': "kwf st'" using keeps_preempt_tick [OF w(1), of now] by (simp add: st'_def keeps_def)
  have wfa: "sched_wf a"
    using sched_calls_ok(3) [OF w(1), of now] o(1) by (simp add: step_ok_def)
  have et: "entity a t = Some et" using w(2) rt by (simp add: o(3))
  have una: "unrivalled a et" using w(4) o(2) by (auto simp: unrivalled_def o(3))
  then have und: "unrivalled d et" using o(6) by (auto simp: unrivalled_def o(9))
  have "et \<in> ready_entities a" using et w(3) by (rule ready_mem)
  then have le: "vruntime en \<le> vruntime et"
    using picked_behind [OF wfa una et o(6)] o(8) by blast
  show "running (sched st') = Some t \<or> awaits st' t et \<and> debt st' ?V < debt st ?V"
  proof (cases "n = t")
    case True
    then show ?thesis by (simp add: st' o(10))
  next
    case False
    have "on_cpu st' n" by (simp add: on_cpu_def st' o(9,10))
    then have aw: "awaits st' t et"
      using wf' w(3,5) et und False by (auto simp: awaits_def st' o(9))
    have ok: "entity_ok r e" using kwf_parts(1) [OF w(1)] o(2) by (simp add: sched_wf_def)
    have cost: "1 \<le> (unat now - unat (running_since_ns (sched st))) * 1024 div slice_weight e"
      using assms(2) by (intro slice_costs [OF ok]) simp
    have ev: "vruntime e \<le> v" using o(4) unat_bound [of "vruntime e"] by (simp add: word_le_nat_alt)
    have lt: "vruntime e < v" if "unat (vruntime e) \<le> ?V"
      using o(4) cost that w(5) by (simp add: word_less_nat_alt)
    have ent: "entity d = (entity (sched st))(r \<mapsto> ?e', n \<mapsto> ?en')" by (simp add: o(3,9))
    have enr: "((entity (sched st))(r \<mapsto> ?e')) n = Some en" using o(6) by (simp add: o(3))
    note b = backlog_step [OF ent o(2) _ enr, where V = ?V]
    have new: "debt st' ?V = backlog d ?V"
      using le by (simp add: debt_def st' o(9,10) word_le_nat_alt)
    have "backlog d ?V < debt st ?V"
    proof (cases "unat (vruntime e) \<le> ?V")
      case True
      then show ?thesis using b(2) ev lt by (simp add: debt_def run o(2))
    next
      case False
      then show ?thesis using b(1) ev by (simp add: debt_def run o(2))
    qed
    then show ?thesis using aw new by simp
  qed
qed

lemma ticks_progress:
  assumes "awaits st t et" and "spaced (running_since_ns (sched st)) ts"
    and "debt st (unat (vruntime et)) \<le> length ts"
  shows "\<exists>k \<le> length ts. running (sched (ticks (take k ts) st)) = Some t"
  using assms
proof (induction ts arbitrary: st)
  case Nil
  obtain r where "on_cpu st r" using Nil.prems(1) by (auto simp: awaits_def)
  from debt_pos [OF this, of "unat (vruntime et)"] show ?case using Nil.prems(3) by simp
next
  case (Cons now ts)
  let ?st = "snd (preempt_tick st now)"
  have "unat (running_since_ns (sched st)) + 9 \<le> unat now" using Cons.prems(2) by simp
  note p = tick_progress [OF Cons.prems(1) this]
  show ?case
  proof (cases "running (sched ?st) = Some t")
    case True
    then show ?thesis by (intro exI [of _ 1]) simp
  next
    case False
    then have "\<exists>k \<le> length ts. running (sched (ticks (take k ts) ?st)) = Some t"
      using p Cons.prems(2,3) by (intro Cons.IH) auto
    then obtain k where "k \<le> length ts" "running (sched (ticks (take k ts) ?st)) = Some t" by blast
    then show ?thesis by (intro exI [of _ "Suc k"]) simp
  qed
qed

lemma backlog_bound: "backlog s V \<le> length (entities s) * (V + 1)"
proof -
  let ?A = "{u. entity s u \<noteq> None}"
  have "as_usize ` ?A \<subseteq> {..< length (entities s)}" by (auto simp: entity_bound)
  moreover have "inj_on as_usize ?A" by (auto simp: inj_on_def as_usize_def word_eq_iff_unsigned [symmetric])
  ultimately have "card ?A \<le> length (entities s)"
    by (metis card_image card_lessThan card_mono finite_lessThan)
  moreover have "backlog s V \<le> card ?A * (V + 1)"
    unfolding backlog_def
    by (rule order_trans [OF sum_mono [of _ _ "\<lambda>_. V + 1"]]) simp_all
  ultimately show ?thesis by (meson le_trans mult_le_mono1)
qed

section \<open>Yields and faults\<close>

lemma note_blocked_eq:
  assumes "entity s t = Some e" and "running s = None"
  shows "note_blocked s t = (Ok (), set_entity s t (Some (e\<lparr>run_state := Blocked\<rparr>)))"
  using assms by (simp add: note_blocked_def slot_mut_def then_do_def)

lemma note_ready_eq:
  "entity s t = Some e \<Longrightarrow> note_ready s t now =
     (Ok (), set_entity s t (Some (e\<lparr>run_state := Ready, became_ready_ns := now\<rparr>)))"
  by (simp add: note_ready_def slot_mut_def)

lemma pick_next_none_iff:
  assumes "sched_wf s"
  shows "pick_next s now = Ok None \<longleftrightarrow> ready_entities s = {}"
  using assms by (cases rule: pick_next_spec [where now = now]) (auto simp: ready_entities_def)

text \<open>Changing the entity of a thread that is and stays out of the ready queue.\<close>

lemma ready_entities_upd:
  assumes "entity s' = (entity s)(t := y)" and "\<forall>x. entity s t = Some x \<longrightarrow> run_state x \<noteq> Ready"
    and "\<forall>x. y = Some x \<longrightarrow> run_state x \<noteq> Ready"
  shows "ready_entities s' = ready_entities s"
proof -
  have "(\<exists>u. entity s' u = Some e \<and> run_state e = Ready) \<longleftrightarrow>
      (\<exists>u. entity s u = Some e \<and> run_state e = Ready)" for e
    using assms(2,3) unfolding assms(1) by (metis fun_upd_apply)
  then show ?thesis by (simp add: ready_entities_def)
qed

text \<open>After a fault the scheduler no longer knows the thread; what it picks next was ready.\<close>

lemma entity_remove: "entity (remove s t) u = (if u = t then None else entity s u)"
  using entity_bound [of s t] by (auto simp: remove_def Let_def)

lemma terminate_outcome:
  assumes "kwf st" and "on_cpu st t"
  obtains r s where "terminate_thread st t now = (Ok r, set_state st t Exited\<lparr>sched := s\<rparr>)"
    and "entity s t = None"
    and "case r of
        SwitchedTo n \<Rightarrow> n \<noteq> t \<and> running s = Some n \<and>
          (\<exists>e. entity (sched st) n = Some e \<and> run_state e = Ready) \<and>
          (\<forall>u. u \<noteq> t \<longrightarrow> u \<noteq> n \<longrightarrow> entity s u = entity (sched st) u)
      | IdleAfter \<Rightarrow> running s = None \<and> (\<forall>u. u \<noteq> t \<longrightarrow> entity s u = entity (sched st) u) \<and>
          ready_entities (sched st) = {}"
proof -
  obtain a e v where a: "account (sched st) now = (Ok (), a)" "entity (sched st) t = Some e"
    "entity a = (entity (sched st))(t \<mapsto> e\<lparr>vruntime := v, run_state := Ready, became_ready_ns := now\<rparr>)"
    "running a = None" "kwf (st\<lparr>sched := a\<rparr>)"
    by (rule account_running [OF assms, where now = now])
  have run: "running (sched st) = Some t" "run_state e = Running"
    using assms(2) a(2) by (auto simp: on_cpu_def)
  let ?s = "remove a t"
  have ent: "entity ?s = (entity (sched st))(t := None)"
    by (auto simp: fun_eq_iff entity_remove a(3))
  have rs: "running ?s = None" using a(4) by (simp add: running_remove)
  have wf: "sched_wf ?s" using remove_ok [OF kwf_parts(1) [OF a(5)], of t] by (simp add: step_ok_def)
  have retire: "retire st t now = (Ok (), set_state st t Exited\<lparr>sched := ?s\<rparr>)"
    using run(1) a(1) by (simp add: retire_def sched_do_def set_state_def tcb_mut_def tcb_at_def
        split: option.split)
  have idle: "\<forall>u x. entity ?s u = Some x \<longrightarrow> run_state x \<noteq> Running"
  proof (intro allI impI)
    fix u x
    assume "entity ?s u = Some x"
    then have "entity a u = Some x" by (auto simp: ent a(3) split: if_splits)
    then show "run_state x \<noteq> Running" by (rule parked_idle [OF a(5,4)])
  qed
  have ready: "ready_entities ?s = ready_entities (sched st)"
    using ent by (rule ready_entities_upd) (use run(2) a(2) in auto)
  from wf show thesis
  proof (cases rule: pick_next_spec [where now = now])
    case none
    have "terminate_thread st t now = (Ok IdleAfter, set_state st t Exited\<lparr>sched := ?s\<rparr>)"
      by (simp add: terminate_thread_def retire sched_pick_def none(1))
    moreover have "ready_entities (sched st) = {}" using none(2) ready by blast
    ultimately show thesis using rs ent by (intro that [of IdleAfter ?s]) simp_all
  next
    case (some n x)
    obtain d w where d: "dispatch_thread ?s n now = (Ok (), d)"
      "entity d = (entity ?s)(n \<mapsto> x\<lparr>last_wait_ms := w, run_state := Running\<rparr>)" "running d = Some n"
      using dispatch_ready [OF some(2) idle, where now = now] by metis
    have "terminate_thread st t now = (Ok (SwitchedTo n), set_state st t Exited\<lparr>sched := d\<rparr>)"
      by (simp add: terminate_thread_def retire sched_pick_def some(1) sched_do_def d(1))
    moreover have "n \<noteq> t" "entity (sched st) n = Some x" using some(2) by (auto simp: ent split: if_splits)
    ultimately show thesis using some(4) d ent by (intro that [of "SwitchedTo n" d]) simp_all
  qed
qed

text \<open>A voluntary yield: the yielding thread is not a candidate.\<close>

lemma yield_outcome:
  assumes "kwf st" and "on_cpu st r"
  obtains n s where "cooperative_yield st now = (Ok (if n = r then Continue else Switch r n), st\<lparr>sched := s\<rparr>)"
    and "running s = Some n" and "\<forall>u e. entity s u = Some e \<longrightarrow> (run_state e = Running) = (u = n)"
    and "n = r \<longleftrightarrow> ready_entities (sched st) = {}"
    and "n \<noteq> r \<Longrightarrow> \<exists>e. entity (sched st) n = Some e \<and> run_state e = Ready"
    and "\<exists>e. entity s r = Some e \<and> run_state e = (if n = r then Running else Ready)"
proof -
  obtain a e v where a: "account (sched st) now = (Ok (), a)" "entity (sched st) r = Some e"
    "entity a = (entity (sched st))(r \<mapsto> e\<lparr>vruntime := v, run_state := Ready, became_ready_ns := now\<rparr>)"
    "running a = None" "kwf (st\<lparr>sched := a\<rparr>)"
    by (rule account_running [OF assms, where now = now])
  have run: "running (sched st) = Some r" "run_state e = Running"
    using assms(2) a(2) by (auto simp: on_cpu_def)
  let ?e = "e\<lparr>vruntime := v, run_state := Ready, became_ready_ns := now\<rparr>"
  let ?b = "set_entity a r (Some (?e\<lparr>run_state := Blocked\<rparr>))"
  have ea: "entity a r = Some ?e" by (simp add: a(3))
  have lr: "as_usize r < length (entities a)" using entity_bound [OF ea] .
  have b: "note_blocked a r = (Ok (), ?b)" using ea a(4) by (rule note_blocked_eq)
  have eb: "entity ?b = (entity (sched st))(r \<mapsto> ?e\<lparr>run_state := Blocked\<rparr>)"
    using lr by (auto simp: fun_eq_iff a(3))
  have wfb: "sched_wf ?b" using sched_calls_ok(2) [OF a(5), of r] b by (simp add: step_ok_def)
  let ?c = "set_entity ?b r (Some (?e\<lparr>run_state := Ready, became_ready_ns := now\<rparr>))"
  have c: "note_ready ?b r now = (Ok (), ?c)" using lr by (simp add: note_ready_eq)
  have ec: "entity ?c = (entity (sched st))(r \<mapsto> ?e)" using lr by (auto simp: fun_eq_iff a(3))
  have ecr: "entity ?c r = Some ?e" unfolding ec by simp
  have idle: "\<forall>u x. entity ?c u = Some x \<longrightarrow> run_state x \<noteq> Running"
    using parked_idle [OF a(5,4)] by (simp add: ec a(3))
  have ready: "ready_entities ?b = ready_entities (sched st)"
    using eb by (rule ready_entities_upd) (use run(2) a(2) in auto)
  have yield: "cooperative_yield st now = then_do (sched_do (st\<lparr>sched := ?c\<rparr>)
      (\<lambda>s. dispatch_thread s (case n of Some m \<Rightarrow> m | None \<Rightarrow> r) now))
      (\<lambda>_ st. (Ok (if n \<noteq> None \<and> n \<noteq> Some r then Switch r (the n) else Continue), st))"
    if "pick_next ?b now = Ok n" for n
    using that c by (cases n)
      (auto simp: cooperative_yield_def Let_def sched_do_def sched_pick_def run(1) a(1) b)
  from wfb show thesis
  proof (cases rule: pick_next_spec [where now = now])
    case none
    obtain d w where d: "dispatch_thread ?c r now = (Ok (), d)"
      "entity d = (entity ?c)(r \<mapsto> ?e\<lparr>last_wait_ms := w, run_state := Running\<rparr>)" "running d = Some r"
      "\<forall>u e. entity d u = Some e \<longrightarrow> (run_state e = Running) = (u = r)"
      by (rule dispatch_ready [OF ecr idle, where now = now])
    have "cooperative_yield st now = (Ok Continue, st\<lparr>sched := d\<rparr>)"
      using yield [OF none(1)] d(1) by (simp add: sched_do_def)
    then show thesis using d none(2) ready by (intro that [of r d]) simp_all
  next
    case (some n x)
    have n: "n \<noteq> r" "entity (sched st) n = Some x" using some(2,4) unfolding eb by (auto split: if_splits)
    have ecn: "entity ?c n = Some x" unfolding ec using n by simp
    obtain d w where d: "dispatch_thread ?c n now = (Ok (), d)"
      "entity d = (entity ?c)(n \<mapsto> x\<lparr>last_wait_ms := w, run_state := Running\<rparr>)" "running d = Some n"
      "\<forall>u e. entity d u = Some e \<longrightarrow> (run_state e = Running) = (u = n)"
      by (rule dispatch_ready [OF ecn idle, where now = now])
    have "cooperative_yield st now = (Ok (Switch r n), st\<lparr>sched := d\<rparr>)"
      using yield [OF some(1)] d(1) n(1) by (simp add: sched_do_def)
    moreover have "ready_entities (sched st) \<noteq> {}" using n(2) some(4) by (auto simp: ready_entities_def)
    ultimately show thesis using d n some(4) by (intro that [of n d]) (simp_all add: lr)
  qed
qed

section \<open>Properties\<close>

text \<open>A machine with two threads: 0 is on the CPU, 1 is ready.\<close>

definition sample_ctx :: context_hal where
  "sample_ctx = \<lparr>ctx_now_ns = 0, ctx_init_context = (\<lambda>c _ _. c),
     ctx_init_user_context = (\<lambda>c _ _ _. c), ctx_context_switch = (\<lambda>_ c. c)\<rparr>"

definition two_threads :: kernel_state where
  "two_threads = snd (preempt_tick (snd (init_user_thread (snd (init_user_thread EMPTY 0 1 0 0 sample_ctx))
     1 1 0 0 sample_ctx)) 0)"

lemma two_threads_wf: "kwf two_threads"
proof -
  have "kwf (snd (init_user_thread EMPTY 0 1 0 0 sample_ctx))"
    using keeps_init_user_thread [OF kwf_EMPTY] by (simp add: keeps_def)
  then have "kwf (snd (init_user_thread (snd (init_user_thread EMPTY 0 1 0 0 sample_ctx)) 1 1 0 0 sample_ctx))"
    using keeps_init_user_thread by (simp add: keeps_def)
  then show ?thesis unfolding two_threads_def using keeps_preempt_tick by (simp add: keeps_def)
qed

lemma two_threads_eval:
  "running (sched two_threads) = Some 0 \<and>
   map_option run_state (entity (sched two_threads) 0) = Some Running \<and>
   map_option (\<lambda>e. (run_state e, e_mode e, effective_priority e, vruntime e)) (entity (sched two_threads) 1) =
     Some (Ready, Interactive, MAX_PRIORITY, 0) \<and>
   running_since_ns (sched two_threads) = 0 \<and> length (entities (sched two_threads)) = 96 \<and>
   list_all (\<lambda>e. e_mode e = Interactive) (flatten (entities (sched two_threads)))"
  by code_simp

lemma two_threads_on_cpu: "on_cpu two_threads 0"
  using two_threads_eval by (auto simp: on_cpu_def)



text \<open>C6: A ready thread is not starved by threads that do not outrank it. When ticks are at least nine
  nanoseconds apart, the thread is on the CPU after at most as many ticks as the backlog, the
  summed virtual runtime by which the others trail it, plus one, whatever the weights are.\<close>

theorem no_starvation:
  assumes "kwf st" and "on_cpu st r" and "entity (sched st) t = Some et" and "run_state et = Ready"
    and "unrivalled (sched st) et" and "unat (vruntime et) < 2 ^ 64 - 1"
    and "spaced (running_since_ns (sched st)) ts"
    and "backlog (sched st) (unat (vruntime et)) < length ts"
  shows "\<exists>k \<le> length ts. running (sched (ticks (take k ts) st)) = Some t"
proof (rule ticks_progress [OF _ assms(7)])
  show "awaits st t et" using assms(1-6) by (auto simp: awaits_def)
  show "debt st (unat (vruntime et)) \<le> length ts"
    using assms(8) by (simp add: debt_def split: option.split)
qed

theorem no_starvation_witness:
  "\<exists>k \<le> 100. running (sched (ticks (take k (map (\<lambda>i. 9 * of_nat i) [1 ..< 101])) two_threads)) = Some 1"
proof -
  let ?ts = "map (\<lambda>i. 9 * of_nat i) [1 ..< 101] :: u64 list"
  obtain et where et: "entity (sched two_threads) 1 = Some et" "run_state et = Ready"
    "e_mode et = Interactive" "effective_priority et = MAX_PRIORITY" "vruntime et = 0"
    using two_threads_eval by auto
  have wf: "sched_wf (sched two_threads)" using kwf_parts(1) [OF two_threads_wf] .
  have "e_mode e = Interactive" if "entity (sched two_threads) u = Some e" for u e
    using two_threads_eval that mem_entities [OF wf, of e] by (auto simp: list_all_iff)
  then have un: "unrivalled (sched two_threads) et"
    using wf et(3,4) by (auto simp: unrivalled_def sched_wf_def entity_ok_def)
  have "spaced 0 ?ts" by code_simp
  then have sp: "spaced (running_since_ns (sched two_threads)) ?ts" using two_threads_eval by simp
  have "backlog (sched two_threads) (unat (vruntime et)) < length ?ts"
    using backlog_bound [of "sched two_threads" 0] two_threads_eval et(5) by simp
  from no_starvation [OF two_threads_wf two_threads_on_cpu et(1,2) un _ sp this] et(5)
  show ?thesis by simp
qed

text \<open>A voluntary yield hands the CPU to another thread whenever one is ready, even if fair
  accounting would keep the yielding one, which stays ready; alone, it keeps running.\<close>

theorem yield_hands_over:
  assumes "kwf st" and "on_cpu st r"
  shows "\<exists>n s. cooperative_yield st now = (Ok (if n = r then Continue else Switch r n), st\<lparr>sched := s\<rparr>) \<and>
    running s = Some n \<and> (n = r) = (ready_entities (sched st) = {}) \<and>
    (n = r \<or> (\<exists>e. entity (sched st) n = Some e \<and> run_state e = Ready)) \<and>
    (\<exists>e. entity s r = Some e \<and> run_state e = (if n = r then Running else Ready))"
  by (rule yield_outcome [OF assms, where now = now]) blast

theorem yield_hands_over_witness:
  "fst (cooperative_yield two_threads 0) = Ok (Switch 0 1) \<and> ready_entities (sched two_threads) \<noteq> {}"
proof -
  have "fst (cooperative_yield two_threads 0) = Ok (Switch 0 1)" by code_simp
  with yield_hands_over [OF two_threads_wf two_threads_on_cpu, of 0] show ?thesis
    by (auto split: if_splits)
qed

text \<open>C7: A fault kills only the thread that faulted. Its control block is marked exited, the scheduler
  forgets it, no other control block or object changes, and a thread that was ready gets the CPU;
  the system idles only when none was.\<close>

theorem fault_isolated:
  assumes "kwf st" and "on_cpu st t"
  shows "\<exists>r s. terminate_thread st t now = (Ok r, set_state st t Exited\<lparr>sched := s\<rparr>) \<and>
    entity s t = None \<and> (case r of
        SwitchedTo n \<Rightarrow> n \<noteq> t \<and> running s = Some n \<and>
          (\<exists>e. entity (sched st) n = Some e \<and> run_state e = Ready) \<and>
          (\<forall>u. u = t \<or> u = n \<or> entity s u = entity (sched st) u)
      | IdleAfter \<Rightarrow> running s = None \<and> ready_entities (sched st) = {})"
proof (rule terminate_outcome [OF assms, where now = now])
  fix r s
  assume o: "terminate_thread st t now = (Ok r, set_state st t Exited\<lparr>sched := s\<rparr>)" "entity s t = None"
    "case r of
        SwitchedTo n \<Rightarrow> n \<noteq> t \<and> running s = Some n \<and>
          (\<exists>e. entity (sched st) n = Some e \<and> run_state e = Ready) \<and>
          (\<forall>u. u \<noteq> t \<longrightarrow> u \<noteq> n \<longrightarrow> entity s u = entity (sched st) u)
      | IdleAfter \<Rightarrow> running s = None \<and> (\<forall>u. u \<noteq> t \<longrightarrow> entity s u = entity (sched st) u) \<and>
          ready_entities (sched st) = {}"
  then show ?thesis
    by (intro exI [of _ r] exI [of _ s]) (auto split: termination_outcome.splits)
qed

theorem fault_isolated_witness:
  "fst (terminate_thread two_threads 0 7) = Ok (SwitchedTo 1) \<and>
   entity (sched (snd (terminate_thread two_threads 0 7))) 0 = None"
proof -
  have "fst (terminate_thread two_threads 0 7) = Ok (SwitchedTo 1)" by code_simp
  with fault_isolated [OF two_threads_wf two_threads_on_cpu, of 7] show ?thesis by auto
qed

end
