(* ===== verification/Rendezvous.thy ===== *)
theory Rendezvous
  imports Kernel Progress
begin

text \<open>
  Synchronous IPC through the system calls: a send or call that meets a waiting receiver, a
  receive that meets a waiting sender, and a reply, each followed from the endpoint to the control
  blocks and the scheduler. The endpoint is seen through its abstraction \<open>ep_abs\<close>.
\<close>

section \<open>The endpoint\<close>

lemma send_meets:
  assumes "ep_wf Q e" and "waiting_receivers (ep_abs e) = r # rs"
  obtains e' where "try_send e t m b = (Ok (DeliveredTo r), e')"
    and "ep_abs e' = (ep_abs e)\<lparr>waiting_receivers := rs, delivery := Some (r, m)\<rparr>"
proof -
  obtain o1 e' where s: "try_send e t m b = (o1, e')" by fastforce
  show thesis
    using try_send_refines [OF assms(1), of t m b] s assms(2) that
    by (cases o1) (simp_all add: ep_step_def)
qed

lemma recv_meets:
  assumes "ep_wf Q e" and "waiting_senders (ep_abs e) = (u, m) # ws"
  obtains e' where "try_recv e t b = (Ok (Received u m), e')"
    and "ep_abs e' = (ep_abs e)\<lparr>waiting_senders := ws\<rparr>"
proof -
  obtain o1 e' where s: "try_recv e t b = (o1, e')" by fastforce
  show thesis
    using try_recv_refines [OF assms(1), of t b] s assms(2) that
    by (cases o1) (simp_all add: ep_step_def)
qed

lemma ep_abs_delivery: "pending_delivery e = delivery (ep_abs e)"
  by (simp add: ep_abs_def)

lemma take_delivered_abs:
  "take_delivered e = (delivery (ep_abs e), e\<lparr>pending_delivery := None\<rparr>)"
  "ep_abs (e\<lparr>pending_delivery := None\<rparr>) = (ep_abs e)\<lparr>delivery := None\<rparr>"
  by (simp_all add: take_delivered_def ep_abs_def)

section \<open>The parts of the state a handler touches\<close>

lemma endpoint_put:
  "endpoint_mut st i = Some e \<Longrightarrow> endpoint_mut (put_endpoint st i e') i = Some e'"
  by (auto simp: endpoint_mut_def put_endpoint_def slot_at_update slot_at_Some_iff)

lemma put_endpoint_twice [simp]: "put_endpoint (put_endpoint st i e) i e' = put_endpoint st i e'"
  by (simp add: put_endpoint_def)

lemma tcb_at_simps [simp]:
  "tcb_at (put_endpoint st i e) t = tcb_at st t" "tcb_at (st\<lparr>sched := s\<rparr>) t = tcb_at st t"
  "sched (put_endpoint st i e) = sched st" "sched (tcb_mut st t f) = sched st"
  "endpoint_mut (tcb_mut st t f) i = endpoint_mut st i"
  "endpoint_mut (st\<lparr>sched := s\<rparr>) i = endpoint_mut st i"
  by (simp_all add: tcb_at_def put_endpoint_def endpoint_mut_def tcb_mut_def split: option.split)

lemma tcb_at_mut [simp]:
  "tcb_at (tcb_mut st t f) u = (if u = t then map_option f (tcb_at st t) else tcb_at st u)"
proof (cases "tcb_at st t")
  case (Some x)
  then have "as_usize t < length (tcbs st)" by (auto simp: tcb_at_def slot_at_Some_iff)
  then show ?thesis using Some by (auto simp: tcb_mut_def tcb_at_def slot_at_update as_usize_eq)
qed (simp add: tcb_mut_def)

lemma sched_try_ready:
  assumes "entity (sched st) t = Some e"
  shows "sched_try st (\<lambda>s. note_ready s t now) = (Ok (), st\<lparr>sched := set_entity (sched st) t
    (Some (e\<lparr>run_state := Ready, became_ready_ns := now\<rparr>))\<rparr>)"
  using assms by (simp add: sched_try_def lift_sched_def map_fst_def note_ready_def slot_mut_def)

text \<open>Blocking a thread: its entity is blocked and it is no longer the running thread.\<close>

definition block_entity :: "scheduler \<Rightarrow> thread_id \<Rightarrow> sched_entity \<Rightarrow> scheduler" where
  "block_entity s t e = (let s = set_entity s t (Some (e\<lparr>run_state := Blocked\<rparr>))
     in if running s = Some t then s\<lparr>running := None\<rparr> else s)"

lemma sched_try_block:
  assumes "entity (sched st) t = Some e"
  shows "sched_try st (\<lambda>s. note_blocked s t) = (Ok (), st\<lparr>sched := block_entity (sched st) t e\<rparr>)"
  using assms
  by (simp add: sched_try_def lift_sched_def map_fst_def note_blocked_def slot_mut_def block_entity_def
      Let_def)

lemma entity_block [simp]:
  "entity (block_entity s t e) u = (if u = t \<and> as_usize t < length (entities s)
     then Some (e\<lparr>run_state := Blocked\<rparr>) else entity s u)"
  by (simp add: block_entity_def Let_def)

lemma running_block [simp]: "running (block_entity s t e) \<noteq> Some t"
  by (simp add: block_entity_def Let_def)

section \<open>A delivery\<close>

definition delivered_tcb :: "small_message \<Rightarrow> thread_id \<Rightarrow> tcb \<Rightarrow> tcb" where
  "delivered_tcb m caller t = t\<lparr>pending_msg := Some m, pending_from := Some caller, t_state := Runnable\<rparr>"

lemma deliver_meets:
  assumes "endpoint_mut st eid = Some e" and "delivery (ep_abs e) = Some (r, m)"
    and "entity (sched st) r = Some x"
  shows "deliver st caller eid now = (Ok (),
    (tcb_mut (put_endpoint st eid (e\<lparr>pending_delivery := None\<rparr>)) r (delivered_tcb m caller))
      \<lparr>sched := set_entity (sched st) r (Some (x\<lparr>run_state := Ready, became_ready_ns := now\<rparr>))\<rparr>)"
  using assms
  by (simp add: deliver_def take_delivered_abs(1) Let_def sched_try_ready delivered_tcb_def [abs_def])

section \<open>A call that meets a waiting receiver\<close>

text \<open>The state after the call: the receiver holds the message and is ready, the caller waits for
  the reply and is blocked, and the endpoint has let go of both.\<close>

definition call_done ::
  "kernel_state \<Rightarrow> kernel_state \<Rightarrow> endpoint_id \<Rightarrow> thread_id \<Rightarrow> thread_id \<Rightarrow> small_message \<Rightarrow> bool" where
  "call_done st st' eid caller r m \<longleftrightarrow>
     tcb_at st' r = map_option (delivered_tcb m caller) (tcb_at st r) \<and>
     tcb_at st' caller = map_option (\<lambda>t. t\<lparr>t_state := BlockedOnReply\<rparr>) (tcb_at st caller) \<and>
     map_option run_state (entity (sched st') r) = Some Ready \<and>
     map_option run_state (entity (sched st') caller) = Some Blocked \<and>
     running (sched st') \<noteq> Some caller \<and>
     map_option ep_abs (endpoint_mut st' eid) = map_option (\<lambda>e. (ep_abs e)
       \<lparr>waiting_receivers := tl (waiting_receivers (ep_abs e)), delivery := None\<rparr>) (endpoint_mut st eid)"

lemma call_meets:
  assumes "kwf st" and "resolve st caller cap Endpoint WRITE = Ok c"
    and "endpoint_mut st (obj_id (cap_object c)) = Some e"
    and "waiting_receivers (ep_abs e) = r # rs" and "msg_wf m" and "r \<noteq> caller"
    and "entity (sched st) r = Some x" and "entity (sched st) caller = Some y"
  shows "fst (do_send st caller cap m True now) = Ok (Reschedule (Some r))"
    and "call_done st (snd (do_send st caller cap m True now)) (obj_id (cap_object c)) caller r m"
proof -
  let ?eid = "obj_id (cap_object c)"
  have wf: "ep_wf ENDPOINT_QUEUE e"
    using assms(1,3) by (auto simp: kwf_def slots_all_def endpoint_mut_def)
  obtain e' where s: "try_send e caller m True = (Ok (DeliveredTo r), e')"
    and abs: "ep_abs e' = (ep_abs e)\<lparr>waiting_receivers := rs, delivery := Some (r, m)\<rparr>"
    using send_meets [OF wf assms(4)] by metis
  have "fast_path_eligible e m True = Ok (Take r)"
    using fast_path_eq [OF wf assms(5), of caller] s by simp
  then have fast: "fast_path_taken st ?eid m True = Ok True"
    using assms(3) by (simp add: fast_path_taken_def)
  define s1 where "s1 = set_entity (sched st) r (Some (x\<lparr>run_state := Ready, became_ready_ns := now\<rparr>))"
  define st1 where "st1 = (tcb_mut (put_endpoint st ?eid (e'\<lparr>pending_delivery := None\<rparr>)) r
    (delivered_tcb m caller))\<lparr>sched := s1\<rparr>"
  have d: "deliver (put_endpoint st ?eid e') caller ?eid now = (Ok (), st1)"
    using deliver_meets [OF endpoint_put [OF assms(3)], of e' r m x caller now] abs assms(7)
    by (simp add: st1_def s1_def)
  have y: "entity (sched (set_state st1 caller BlockedOnReply)) caller = Some y"
    using assms(6,8) by (simp add: set_state_def st1_def s1_def)
  have send: "do_send st caller cap m True now = (Ok (Reschedule (Some r)),
      (set_state st1 caller BlockedOnReply)\<lparr>sched := block_entity s1 caller y\<rparr>)"
    using d sched_try_block [OF y]
    by (simp add: do_send_def assms(2,3) fast s Let_def) (simp add: st1_def set_state_def)
  show "fst (do_send st caller cap m True now) = Ok (Reschedule (Some r))" by (simp add: send)
  have "as_usize r < length (entities (sched st))" "as_usize caller < length (entities (sched st))"
    using assms(7,8) by (auto simp: entity_def slot_at_Some_iff)
  then show "call_done st (snd (do_send st caller cap m True now)) ?eid caller r m"
    using assms(3,4,6) abs
    by (simp add: send call_done_def set_state_def st1_def s1_def endpoint_put take_delivered_abs(2))
qed

section \<open>A receive that meets a waiting sender\<close>

definition recv_done ::
  "kernel_state \<Rightarrow> kernel_state \<Rightarrow> endpoint_id \<Rightarrow> thread_id \<Rightarrow> bool" where
  "recv_done st st' eid u \<longleftrightarrow>
     map_option t_state (tcb_at st' u) = map_option (\<lambda>t.
       if t_state t = BlockedOnReply then BlockedOnReply else Runnable) (tcb_at st u) \<and>
     map_option run_state (entity (sched st') u) = Some Ready \<and>
     map_option ep_abs (endpoint_mut st' eid) = map_option (\<lambda>e. (ep_abs e)
       \<lparr>waiting_senders := tl (waiting_senders (ep_abs e))\<rparr>) (endpoint_mut st eid)"

lemma sched_do_ready:
  assumes "entity (sched st) t = Some e"
  shows "sched_do st (\<lambda>s. note_ready s t now) = (Ok (), st\<lparr>sched := set_entity (sched st) t
    (Some (e\<lparr>run_state := Ready, became_ready_ns := now\<rparr>))\<rparr>)"
  using assms by (simp add: sched_do_def note_ready_def slot_mut_def)

lemma recv_takes:
  assumes "kwf st" and "resolve st caller cap Endpoint READ = Ok c"
    and "endpoint_mut st (obj_id (cap_object c)) = Some e"
    and "waiting_senders (ep_abs e) = (u, m) # ws" and "entity (sched st) u = Some x"
  shows "fst (do_recv st caller cap now) = Ok (Message u m)"
    and "recv_done st (snd (do_recv st caller cap now)) (obj_id (cap_object c)) u"
proof -
  let ?eid = "obj_id (cap_object c)"
  have wf: "ep_wf ENDPOINT_QUEUE e"
    using assms(1,3) by (auto simp: kwf_def slots_all_def endpoint_mut_def)
  obtain e' where s: "try_recv e caller True = (Ok (Received u m), e')"
    and abs: "ep_abs e' = (ep_abs e)\<lparr>waiting_senders := ws\<rparr>"
    using recv_meets [OF wf assms(4)] by metis
  let ?f = "\<lambda>t. if t_state t \<noteq> BlockedOnReply then t\<lparr>t_state := Runnable\<rparr> else t"
  have recv: "do_recv st caller cap now = (Ok (Message u m),
      (tcb_mut (put_endpoint st ?eid e') u ?f)\<lparr>sched := set_entity (sched st) u
        (Some (x\<lparr>run_state := Ready, became_ready_ns := now\<rparr>))\<rparr>)"
    using assms(5) by (simp add: do_recv_def assms(2,3) s Let_def sched_do_ready)
  then show "fst (do_recv st caller cap now) = Ok (Message u m)" by simp
  have "as_usize u < length (entities (sched st))"
    using assms(5) by (auto simp: entity_def slot_at_Some_iff)
  then show "recv_done st (snd (do_recv st caller cap now)) ?eid u"
    using assms(3,4) abs
    by (auto simp: recv recv_done_def endpoint_put option.map_comp comp_def intro: option.map_cong)
qed

section \<open>A reply\<close>

definition awaits_reply :: "kernel_state \<Rightarrow> thread_id \<Rightarrow> bool" where
  "awaits_reply st t \<longleftrightarrow> map_option t_state (tcb_at st t) = Some BlockedOnReply"

definition wake_entity :: "u64 \<Rightarrow> sched_entity option \<Rightarrow> sched_entity option" where
  "wake_entity now = map_option (\<lambda>x. x\<lparr>run_state := Ready, became_ready_ns := now\<rparr>)"

definition woken_sched :: "scheduler \<Rightarrow> thread_id \<Rightarrow> u64 \<Rightarrow> scheduler" where
  "woken_sched s t now = set_entity s t (wake_entity now (entity s t))"

lemma sched_try_woken:
  assumes "entity (sched st) t \<noteq> None"
  shows "sched_try st (\<lambda>s. note_ready s t now) = (Ok (), st\<lparr>sched := woken_sched (sched st) t now\<rparr>)"
  using assms sched_try_ready [of st t] by (auto simp: woken_sched_def wake_entity_def)

lemma entity_woken [simp]:
  "entity (woken_sched s t now) u = (if u = t then wake_entity now (entity s t) else entity s u)"
proof (cases "entity s t")
  case None
  then show ?thesis by (simp add: woken_sched_def wake_entity_def)
next
  case (Some x)
  then have "as_usize t < length (entities s)" by (auto simp: entity_def slot_at_Some_iff)
  then show ?thesis using Some by (simp add: woken_sched_def wake_entity_def)
qed

lemma reply_meets:
  assumes "awaits_reply st to" and "caller \<noteq> to"
    and "entity (sched st) to \<noteq> None" and "entity (sched st) caller \<noteq> None"
  shows "do_reply st caller to m now = (Ok (Reschedule (Some to)),
    (tcb_mut st to (\<lambda>t. t\<lparr>pending_msg := Some m, t_state := Runnable\<rparr>))
      \<lparr>sched := woken_sched (woken_sched (sched st) to now) caller now\<rparr>)"
proof -
  obtain t where "tcb_at st to = Some t" "t_state t = BlockedOnReply"
    using assms(1) by (auto simp: awaits_reply_def)
  then show ?thesis using assms(2-4) by (simp add: do_reply_def sched_try_woken)
qed

text \<open>A reply is accepted exactly when it is addressed to another thread whose control block
  waits for a reply. Then that thread is handed the message, both threads are ready and the reply
  switches to it; otherwise the state is unchanged.\<close>

theorem reply_exact:
  assumes "entity (sched st) to \<noteq> None" and "entity (sched st) caller \<noteq> None"
  shows "sys_dispatch st caller now (Sys_Reply to m) hal =
    (if caller \<noteq> to \<and> awaits_reply st to
     then (Ok (Reschedule (Some to)),
       (tcb_mut st to (\<lambda>t. t\<lparr>pending_msg := Some m, t_state := Runnable\<rparr>))
         \<lparr>sched := woken_sched (woken_sched (sched st) to now) caller now\<rparr>)
     else (Err NotBlockedOnReply, st))"
  using assms reply_meets [of st to caller m now]
  by (auto simp: do_reply_def awaits_reply_def split: option.split)

section \<open>Call and reply\<close>


text \<open>A receive takes the message at the head of the senders' queue and wakes its sender. The sender
  of a call keeps waiting for its reply in its control block, yet the scheduler has it ready, so it
  may be run before the reply.\<close>

theorem recv_wakes:
  assumes "kwf st" and "resolve st caller cap Endpoint READ = Ok c"
    and "endpoint_mut st (obj_id (cap_object c)) = Some e"
    and "waiting_senders (ep_abs e) = (u, m) # ws" and "entity (sched st) u = Some x"
  shows "let (out, st') = sys_dispatch st caller now (Sys_Recv cap) hal in
    out = Ok (Message u m) \<and> recv_done st st' (obj_id (cap_object c)) u \<and>
    awaits_reply st' u = awaits_reply st u"
  using recv_takes [OF assms, of now]
  by (cases "tcb_at st u") (auto simp: split_beta Let_def awaits_reply_def recv_done_def split: if_splits)

section \<open>Two threads and an endpoint\<close>

text \<open>The Root Task makes an endpoint and a second thread, in its own spaces.\<close>

definition after :: "kernel_event list \<Rightarrow> kernel_state \<Rightarrow> kernel_state" where
  "after = fold (\<lambda>ev st. snd (kernel_do ev st))"

lemma after_simps [simp]:
  "after [] st = st" "after (ev # evs) st = after evs (snd (kernel_do ev st))"
  by (simp_all add: after_def)

definition ipc_sample :: kernel_state where
  "ipc_sample = after [SysCall 0 0 (Sys_Retype 0 Endpoint_T 1) sample_hal,
     SysCall 0 0 (Sys_Retype 0 ThreadControlBlock_T 1) sample_hal, InitUser 1 0 0 0 sample_ctx]
     sample_kernel"

lemma kwf_kernel_do: "kwf st \<Longrightarrow> allowed ev st \<Longrightarrow> kwf (snd (kernel_do ev st))"
  using keeps_kernel_do by (auto simp: keeps_def)

lemma ipc_sample_wf: "kwf ipc_sample"
  unfolding ipc_sample_def
  by (simp del: kernel_do.simps, intro kwf_kernel_do sample_kernel_wf) (simp_all add: sample_hal_ok)

text \<open>Thread 1 waits in a receive; thread 1 and then the Root Task wait in a call.\<close>

definition receiving :: kernel_state where
  "receiving = after [SysCall 1 0 (Sys_Recv 2) sample_hal] ipc_sample"

definition calling :: kernel_state where
  "calling = after [SysCall 1 0 (Sys_Call 2 (msg_new 9)) sample_hal] ipc_sample"

lemma receiving_wf: "kwf receiving" and calling_wf: "kwf calling"
  unfolding receiving_def calling_def
  by (simp_all del: kernel_do.simps add: kwf_kernel_do ipc_sample_wf sample_hal_ok)

lemma receiving_eval:
  "resolve receiving 0 2 Endpoint WRITE = Ok (full (ObjectRef Endpoint 0)) \<and>
   map_option (\<lambda>e. waiting_receivers (ep_abs e)) (endpoint_mut receiving 0) = Some [1] \<and>
   map_option run_state (entity (sched receiving) 0) = Some Ready \<and>
   map_option run_state (entity (sched receiving) 1) = Some Blocked \<and> msg_wf (msg_new 9)"
  by code_simp

lemma calling_eval:
  "resolve calling 0 2 Endpoint READ = Ok (full (ObjectRef Endpoint 0)) \<and>
   map_option (\<lambda>e. waiting_senders (ep_abs e)) (endpoint_mut calling 0) = Some [(1, msg_new 9)] \<and>
   map_option t_state (tcb_at calling 1) = Some BlockedOnReply \<and>
   map_option run_state (entity (sched calling) 0) = Some Ready \<and>
   map_option run_state (entity (sched calling) 1) = Some Blocked"
  by code_simp

theorem reply_exact_witness:
  "fst (sys_dispatch calling 0 3 (Sys_Reply 1 (msg_new 4)) sample_hal) = Ok (Reschedule (Some 1))"
proof -
  have "entity (sched calling) 1 \<noteq> None" "entity (sched calling) 0 \<noteq> None" "awaits_reply calling 1"
    using calling_eval by (auto simp: awaits_reply_def)
  then show ?thesis using reply_exact [of calling 1 0 3 "msg_new 4" sample_hal] by simp
qed


theorem recv_wakes_witness:
  "let (out, st') = sys_dispatch calling 0 5 (Sys_Recv 2) sample_hal in
     out = Ok (Message 1 (msg_new 9)) \<and> awaits_reply st' 1 \<and>
     map_option run_state (entity (sched st') 1) = Some Ready"
proof -
  obtain e x where e: "endpoint_mut calling 0 = Some e" "waiting_senders (ep_abs e) = [(1, msg_new 9)]"
    "entity (sched calling) 1 = Some x"
    using calling_eval by auto
  have c: "resolve calling 0 2 Endpoint READ = Ok (full (ObjectRef Endpoint 0))"
    and a: "awaits_reply calling 1"
    using calling_eval by (simp_all add: awaits_reply_def)
  have "endpoint_mut calling (obj_id (cap_object (full (ObjectRef Endpoint 0)))) = Some e"
    using e by (simp add: full_def)
  from recv_wakes [OF calling_wf c this e(2,3), of 5 sample_hal] a
  show ?thesis by (simp add: split_beta Let_def recv_done_def del: sys_dispatch.simps)
qed

end
