(* ===== verification/Wire.thy ===== *)
theory Wire
  imports Ipc
begin

text \<open>
  \<open>ipc-protocol\<close>: the message types of the six namespaces (\<open>fs.rs\<close>, \<open>driver.rs\<close>,
  \<open>display.rs\<close>, \<open>mm.rs\<close>, \<open>net.rs\<close>, \<open>security.rs\<close>), the routing label
  (\<open>lib.rs\<close>) and the error codes with their wire numbers. A constructor carries the prefix of
  its namespace, since Isabelle's constants share one name space.
\<close>

section \<open>Labels\<close>

definition PROTOCOL_VERSION :: u16 where "PROTOCOL_VERSION = 1"

datatype namespace = NS_Fs | NS_Driver | NS_Display | NS_NetBypass | NS_Mm | NS_Security

fun namespace_code :: "namespace \<Rightarrow> u64" where
  "namespace_code NS_Fs = 1"
| "namespace_code NS_Driver = 2"
| "namespace_code NS_Display = 3"
| "namespace_code NS_NetBypass = 4"
| "namespace_code NS_Mm = 5"
| "namespace_code NS_Security = 6"

definition from_label :: "u64 \<Rightarrow> namespace option" where
  "from_label l = (let b = (ucast (drop_bit 56 l) :: u8) in
     if b = 1 then Some NS_Fs else if b = 2 then Some NS_Driver
     else if b = 3 then Some NS_Display else if b = 4 then Some NS_NetBypass
     else if b = 5 then Some NS_Mm else if b = 6 then Some NS_Security else None)"

definition ns_label :: "namespace \<Rightarrow> u8 \<Rightarrow> u64" where
  "ns_label ns opcode =
     push_bit 56 (namespace_code ns) OR push_bit 8 (ucast PROTOCOL_VERSION) OR ucast opcode"

definition label_parts :: "u64 \<Rightarrow> u16 \<times> u8" where
  "label_parts l = (ucast (drop_bit 8 l AND 0xFFFF), ucast (l AND 0xFF))"

section \<open>Filesystem\<close>

type_synonym file_handle = u32
type_synonym path_id = u32
type_synonym open_flags = u32

text \<open>\<open>bitflags\<close>: the declared bits, and \<open>from_bits\<close>, which refuses any other bit.\<close>

definition OPEN_FLAGS_ALL :: open_flags where "OPEN_FLAGS_ALL = 0x3F"

definition open_flags_from_bits :: "u32 \<Rightarrow> open_flags option" where
  "open_flags_from_bits b = (if b AND NOT OPEN_FLAGS_ALL = 0 then Some b else None)"

datatype fs_request =
    FsOpen path_id open_flags
  | FsRead file_handle u64 u32 u32
  | FsWrite file_handle u64 u32 u32
  | FsStat path_id
  | FsClose file_handle

datatype fs_error = FsNotFound | FsDenied | FsBadHandle | FsBadPath | FsUnsupported
  | FsBadSharedRegion | FsIo

fun fs_error_code :: "fs_error \<Rightarrow> u64" where
  "fs_error_code FsNotFound = 1"
| "fs_error_code FsDenied = 2"
| "fs_error_code FsBadHandle = 3"
| "fs_error_code FsBadPath = 4"
| "fs_error_code FsUnsupported = 5"
| "fs_error_code FsBadSharedRegion = 6"
| "fs_error_code FsIo = 7"

datatype fs_response =
    FsOpened file_handle
  | FsReadDone u32
  | FsWritten u32
  | FsStatResult u64 bool
  | FsClosed
  | FsError fs_error

section \<open>Drivers\<close>

datatype driver_request =
    DrProbe
  | DrIrq u32
  | DrReadBlocks u64 u32 u32
  | DrWriteBlocks u64 u32 u32
  | DrQuiesce
  | DrSendFrame u32
  | DrPollFrame

datatype driver_error = DrProbeFailed | DrOutOfRange | DrBadSharedRegion | DrDeviceIo
  | DrUnsupported | DrNoData | DrDriverBusy

fun driver_error_code :: "driver_error \<Rightarrow> u64" where
  "driver_error_code DrProbeFailed = 1"
| "driver_error_code DrOutOfRange = 2"
| "driver_error_code DrBadSharedRegion = 3"
| "driver_error_code DrDeviceIo = 4"
| "driver_error_code DrUnsupported = 5"
| "driver_error_code DrNoData = 6"
| "driver_error_code DrDriverBusy = 7"

datatype driver_response =
    DrReady u32 u64
  | DrCompleted u32
  | DrFailed driver_error
  | DrFrameSent
  | DrFrameReceived u32

section \<open>Display\<close>

type_synonym surface_handle = u32

datatype display_request =
    DpCreateSurface
  | DpCommitBuffer surface_handle u32 u32 u32
  | DpDestroySurface surface_handle
  | DpSubscribeInput
  | DpQueryOutputs

datatype display_error = DpBadSurface | DpBadBuffer | DpUnsupported

fun display_error_code :: "display_error \<Rightarrow> u64" where
  "display_error_code DpBadSurface = 1"
| "display_error_code DpBadBuffer = 2"
| "display_error_code DpUnsupported = 3"

datatype display_response =
    DpSurfaceCreated surface_handle
  | DpCommitted
  | DpDestroyed
  | DpInputSubscribed
  | DpOutputTopology u32 u32 u32 u32
  | DpError display_error

section \<open>Memory policy\<close>

datatype reclaim_class = RcProtected | RcNormal | RcSacrificial

fun reclaim_code :: "reclaim_class \<Rightarrow> u64" where
  "reclaim_code RcProtected = 0"
| "reclaim_code RcNormal = 1"
| "reclaim_code RcSacrificial = 2"

datatype wire_compute_kind = CkCpu | CkGpu | CkNpu | CkTpu | CkFpga

fun compute_code :: "wire_compute_kind \<Rightarrow> u64" where
  "compute_code CkCpu = 0"
| "compute_code CkGpu = 1"
| "compute_code CkNpu = 2"
| "compute_code CkTpu = 3"
| "compute_code CkFpga = 4"

datatype mm_request =
    MmRegister u32 u64 reclaim_class
  | MmUnregister u32
  | MmQueryVictim
  | MmQueryTotalResident
  | MmRegisterSwapRegion u32 u32 u64 u64
  | MmUnregisterSwapRegion u32 u32
  | MmQuerySwapVictim
  | MmRegisterComputePool u32 wire_compute_kind u64 u64
  | MmQueryComputePool u64 "wire_compute_kind option"

datatype mm_error_code = MmUnsupported

fun mm_error_number :: "mm_error_code \<Rightarrow> u64" where
  "mm_error_number MmUnsupported = 1"

datatype mm_response =
    MmRegistered
  | MmUnregistered
  | MmVictim u32
  | MmTotalResident u64
  | MmSwapRegionRegistered
  | MmSwapRegionUnregistered
  | MmSwapVictim u32 u32
  | MmComputePoolRegistered
  | MmComputePoolChosen u32
  | MmError mm_error_code

section \<open>Kernel-bypass networking\<close>

type_synonym direct_nic_handle = u32

datatype net_bypass_request = NbRequestDirectNic u32 | NbRelease direct_nic_handle | NbRelayFrame

datatype net_bypass_response =
    NbGranted direct_nic_handle u32 u32 u32
  | NbDenied
  | NbReleased
  | NbRelayed

section \<open>Security broker\<close>

datatype security_request = SecCapGrant u32 u32 u32 | SecCapRevoke u32

datatype security_error = SecUnsupported | SecUnknownService | SecKernelRejected

fun security_error_code :: "security_error \<Rightarrow> u64" where
  "security_error_code SecUnsupported = 1"
| "security_error_code SecUnknownService = 2"
| "security_error_code SecKernelRejected = 3"

datatype security_response = SecGranted u32 | SecRevoked u32 | SecError security_error

section \<open>The label is read back\<close>

lemma narrow_u32 [simp]: "ucast (ucast (x :: u32) :: u64) = x"
  by (rule bit_word_eqI) (simp add: bit_simps)

lemma from_label_ns [simp]: "from_label (ns_label ns opcode) = Some ns"
proof -
  have "(ucast (drop_bit 56 (ns_label ns opcode)) :: u8) = ucast (namespace_code ns)"
    by (rule bit_word_eqI) (auto simp: bit_simps ns_label_def PROTOCOL_VERSION_def dest: bit_imp_le_length)
  then show ?thesis by (cases ns) (simp_all add: from_label_def)
qed

lemma label_parts_ns [simp]: "label_parts (ns_label ns opcode) = (PROTOCOL_VERSION, opcode)"
proof -
  have ff: "(0xFFFF :: u64) = mask 16" "(0xFF :: u64) = mask 8" by (simp_all add: mask_eq_exp_minus_1)
  have "(ucast (drop_bit 8 (ns_label ns opcode) AND mask 16) :: u16) = PROTOCOL_VERSION"
    by (rule bit_word_eqI) (auto simp: bit_simps ns_label_def dest: bit_imp_le_length)
  moreover have "(ucast (ns_label ns opcode AND mask 8) :: u8) = opcode"
    by (rule bit_word_eqI) (auto simp: bit_simps ns_label_def dest: bit_imp_le_length)
  ultimately show ?thesis by (simp add: label_parts_def ff)
qed

end
