(* ===== verification/Codec.thy ===== *)
theory Codec
  imports Wire
begin

text \<open>
  \<open>ipc-protocol/src/codec.rs\<close>: the twelve encoders and decoders between the typed messages and
  \<open>SmallMessage\<close>. A decoder checks the label, then the number of words, then each field; an
  index out of range would be a panic, so that none happens is something to prove. The opcodes and
  word layouts are the constants of the source.
\<close>

datatype decode_error = WrongNamespace | VersionMismatch | UnknownOpcode | Truncated | BadField

section \<open>What all encoders and decoders do\<close>

text \<open>\<open>SmallMessage::from_words(..).unwrap_or_else(..)\<close>\<close>

definition wire_message :: "namespace \<Rightarrow> u8 \<Rightarrow> u64 list \<Rightarrow> small_message" where
  "wire_message ns opc ws = (case from_words (ns_label ns opc) ws of
     Ok m \<Rightarrow> m | _ \<Rightarrow> msg_new (ns_label ns opc))"

definition open_message ::
  "namespace \<Rightarrow> small_message \<Rightarrow> (u8 \<Rightarrow> u64 list \<Rightarrow> (decode_error, 'a) res) \<Rightarrow> (decode_error, 'a) res" where
  "open_message ns m f =
     (if from_label (label m) \<noteq> Some ns then Err WrongNamespace
      else let (version, opc) = label_parts (label m) in
        if version \<noteq> PROTOCOL_VERSION then Err VersionMismatch
        else bind_res (msg_words m) (f opc))"

definition need :: "u64 list \<Rightarrow> nat \<Rightarrow> (decode_error, 'a) res \<Rightarrow> (decode_error, 'a) res" where
  "need w n r = (if length w < n then Err Truncated else r)"

definition word_at :: "u64 list \<Rightarrow> nat \<Rightarrow> (u64 \<Rightarrow> (decode_error, 'a) res) \<Rightarrow> (decode_error, 'a) res" where
  "word_at w i f = (if i < length w then f (w ! i) else Panic)"

section \<open>Opcodes\<close>

definition OP_OPEN :: u8 where [simp]: "OP_OPEN = 1"
definition OP_READ :: u8 where [simp]: "OP_READ = 2"
definition OP_WRITE :: u8 where [simp]: "OP_WRITE = 3"
definition OP_STAT :: u8 where [simp]: "OP_STAT = 4"
definition OP_CLOSE :: u8 where [simp]: "OP_CLOSE = 5"

definition OP_FR_OPENED :: u8 where [simp]: "OP_FR_OPENED = 1"
definition OP_FR_READ :: u8 where [simp]: "OP_FR_READ = 2"
definition OP_FR_WRITTEN :: u8 where [simp]: "OP_FR_WRITTEN = 3"
definition OP_FR_STAT :: u8 where [simp]: "OP_FR_STAT = 4"
definition OP_FR_CLOSED :: u8 where [simp]: "OP_FR_CLOSED = 5"
definition OP_FR_ERROR :: u8 where [simp]: "OP_FR_ERROR = 6"

definition OP_DR_PROBE :: u8 where [simp]: "OP_DR_PROBE = 1"
definition OP_DR_IRQ :: u8 where [simp]: "OP_DR_IRQ = 2"
definition OP_DR_READ_BLOCKS :: u8 where [simp]: "OP_DR_READ_BLOCKS = 3"
definition OP_DR_WRITE_BLOCKS :: u8 where [simp]: "OP_DR_WRITE_BLOCKS = 4"
definition OP_DR_QUIESCE :: u8 where [simp]: "OP_DR_QUIESCE = 5"
definition OP_DR_SEND_FRAME :: u8 where [simp]: "OP_DR_SEND_FRAME = 6"
definition OP_DR_POLL_FRAME :: u8 where [simp]: "OP_DR_POLL_FRAME = 7"

definition OP_DRR_READY :: u8 where [simp]: "OP_DRR_READY = 1"
definition OP_DRR_COMPLETED :: u8 where [simp]: "OP_DRR_COMPLETED = 2"
definition OP_DRR_FAILED :: u8 where [simp]: "OP_DRR_FAILED = 3"
definition OP_DRR_FRAME_SENT :: u8 where [simp]: "OP_DRR_FRAME_SENT = 4"
definition OP_DRR_FRAME_RECEIVED :: u8 where [simp]: "OP_DRR_FRAME_RECEIVED = 5"

definition OP_DP_CREATE_SURFACE :: u8 where [simp]: "OP_DP_CREATE_SURFACE = 1"
definition OP_DP_COMMIT_BUFFER :: u8 where [simp]: "OP_DP_COMMIT_BUFFER = 2"
definition OP_DP_DESTROY_SURFACE :: u8 where [simp]: "OP_DP_DESTROY_SURFACE = 3"
definition OP_DP_SUBSCRIBE_INPUT :: u8 where [simp]: "OP_DP_SUBSCRIBE_INPUT = 4"
definition OP_DP_QUERY_OUTPUTS :: u8 where [simp]: "OP_DP_QUERY_OUTPUTS = 5"

definition OP_DPR_SURFACE_CREATED :: u8 where [simp]: "OP_DPR_SURFACE_CREATED = 1"
definition OP_DPR_COMMITTED :: u8 where [simp]: "OP_DPR_COMMITTED = 2"
definition OP_DPR_DESTROYED :: u8 where [simp]: "OP_DPR_DESTROYED = 3"
definition OP_DPR_INPUT_SUBSCRIBED :: u8 where [simp]: "OP_DPR_INPUT_SUBSCRIBED = 4"
definition OP_DPR_OUTPUT_TOPOLOGY :: u8 where [simp]: "OP_DPR_OUTPUT_TOPOLOGY = 5"
definition OP_DPR_ERROR :: u8 where [simp]: "OP_DPR_ERROR = 6"

definition OP_MM_REGISTER :: u8 where [simp]: "OP_MM_REGISTER = 1"
definition OP_MM_UNREGISTER :: u8 where [simp]: "OP_MM_UNREGISTER = 2"
definition OP_MM_QUERY_VICTIM :: u8 where [simp]: "OP_MM_QUERY_VICTIM = 3"
definition OP_MM_QUERY_TOTAL_RESIDENT :: u8 where [simp]: "OP_MM_QUERY_TOTAL_RESIDENT = 4"
definition OP_MM_REGISTER_SWAP_REGION :: u8 where [simp]: "OP_MM_REGISTER_SWAP_REGION = 5"
definition OP_MM_UNREGISTER_SWAP_REGION :: u8 where [simp]: "OP_MM_UNREGISTER_SWAP_REGION = 6"
definition OP_MM_QUERY_SWAP_VICTIM :: u8 where [simp]: "OP_MM_QUERY_SWAP_VICTIM = 7"
definition OP_MM_REGISTER_COMPUTE_POOL :: u8 where [simp]: "OP_MM_REGISTER_COMPUTE_POOL = 8"
definition OP_MM_QUERY_COMPUTE_POOL :: u8 where [simp]: "OP_MM_QUERY_COMPUTE_POOL = 9"

definition OP_MMR_REGISTERED :: u8 where [simp]: "OP_MMR_REGISTERED = 1"
definition OP_MMR_UNREGISTERED :: u8 where [simp]: "OP_MMR_UNREGISTERED = 2"
definition OP_MMR_VICTIM :: u8 where [simp]: "OP_MMR_VICTIM = 3"
definition OP_MMR_TOTAL_RESIDENT :: u8 where [simp]: "OP_MMR_TOTAL_RESIDENT = 4"
definition OP_MMR_ERROR :: u8 where [simp]: "OP_MMR_ERROR = 5"
definition OP_MMR_SWAP_REGION_REGISTERED :: u8 where [simp]: "OP_MMR_SWAP_REGION_REGISTERED = 6"
definition OP_MMR_SWAP_REGION_UNREGISTERED :: u8 where [simp]: "OP_MMR_SWAP_REGION_UNREGISTERED = 7"
definition OP_MMR_SWAP_VICTIM :: u8 where [simp]: "OP_MMR_SWAP_VICTIM = 8"
definition OP_MMR_COMPUTE_POOL_REGISTERED :: u8 where [simp]: "OP_MMR_COMPUTE_POOL_REGISTERED = 9"
definition OP_MMR_COMPUTE_POOL_CHOSEN :: u8 where [simp]: "OP_MMR_COMPUTE_POOL_CHOSEN = 10"

definition OP_NB_REQUEST_DIRECT_NIC :: u8 where [simp]: "OP_NB_REQUEST_DIRECT_NIC = 1"
definition OP_NB_RELEASE :: u8 where [simp]: "OP_NB_RELEASE = 2"
definition OP_NB_RELAY_FRAME :: u8 where [simp]: "OP_NB_RELAY_FRAME = 3"

definition OP_NBR_GRANTED :: u8 where [simp]: "OP_NBR_GRANTED = 1"
definition OP_NBR_DENIED :: u8 where [simp]: "OP_NBR_DENIED = 2"
definition OP_NBR_RELEASED :: u8 where [simp]: "OP_NBR_RELEASED = 3"
definition OP_NBR_RELAYED :: u8 where [simp]: "OP_NBR_RELAYED = 4"

definition OP_SEC_CAP_GRANT :: u8 where [simp]: "OP_SEC_CAP_GRANT = 1"
definition OP_SEC_CAP_REVOKE :: u8 where [simp]: "OP_SEC_CAP_REVOKE = 2"

definition OP_SECR_GRANTED :: u8 where [simp]: "OP_SECR_GRANTED = 1"
definition OP_SECR_REVOKED :: u8 where [simp]: "OP_SECR_REVOKED = 2"
definition OP_SECR_ERROR :: u8 where [simp]: "OP_SECR_ERROR = 3"

section \<open>Codes of the field enumerations\<close>

definition decode_fs_error :: "u64 \<Rightarrow> (decode_error, fs_error) res" where
  "decode_fs_error w = (if w = 1 then Ok FsNotFound
     else if w = 2 then Ok FsDenied
     else if w = 3 then Ok FsBadHandle
     else if w = 4 then Ok FsBadPath
     else if w = 5 then Ok FsUnsupported
     else if w = 6 then Ok FsBadSharedRegion
     else if w = 7 then Ok FsIo
     else Err BadField)"

definition decode_driver_error :: "u64 \<Rightarrow> (decode_error, driver_error) res" where
  "decode_driver_error w = (if w = 1 then Ok DrProbeFailed
     else if w = 2 then Ok DrOutOfRange
     else if w = 3 then Ok DrBadSharedRegion
     else if w = 4 then Ok DrDeviceIo
     else if w = 5 then Ok DrUnsupported
     else if w = 6 then Ok DrNoData
     else if w = 7 then Ok DrDriverBusy
     else Err BadField)"

definition decode_display_error :: "u64 \<Rightarrow> (decode_error, display_error) res" where
  "decode_display_error w = (if w = 1 then Ok DpBadSurface
     else if w = 2 then Ok DpBadBuffer
     else if w = 3 then Ok DpUnsupported
     else Err BadField)"

definition decode_mm_error :: "u64 \<Rightarrow> (decode_error, mm_error_code) res" where
  "decode_mm_error w = (if w = 1 then Ok MmUnsupported
     else Err BadField)"

definition decode_security_error :: "u64 \<Rightarrow> (decode_error, security_error) res" where
  "decode_security_error w = (if w = 1 then Ok SecUnsupported
     else if w = 2 then Ok SecUnknownService
     else if w = 3 then Ok SecKernelRejected
     else Err BadField)"

definition decode_reclaim_class :: "u64 \<Rightarrow> (decode_error, reclaim_class) res" where
  "decode_reclaim_class w = (if w = 0 then Ok RcProtected
     else if w = 1 then Ok RcNormal
     else if w = 2 then Ok RcSacrificial
     else Err BadField)"

definition encode_compute_kind :: "wire_compute_kind \<Rightarrow> u64" where
  "encode_compute_kind k = compute_code k"

definition decode_compute_kind :: "u64 \<Rightarrow> (decode_error, wire_compute_kind) res" where
  "decode_compute_kind w = (if w = 0 then Ok CkCpu
     else if w = 1 then Ok CkGpu
     else if w = 2 then Ok CkNpu
     else if w = 3 then Ok CkTpu
     else if w = 4 then Ok CkFpga
     else Err BadField)"

section \<open>Filesystem\<close>

definition encode_fs_request :: "fs_request \<Rightarrow> small_message" where
  "encode_fs_request msg = (let (opc, ws) = (case msg of
         FsOpen path flags \<Rightarrow> (OP_OPEN, [ucast path, ucast flags, 0, 0])
       | FsRead h off len cap \<Rightarrow> (OP_READ, [ucast h, off, ucast len, ucast cap])
       | FsWrite h off len cap \<Rightarrow> (OP_WRITE, [ucast h, off, ucast len, ucast cap])
       | FsStat path \<Rightarrow> (OP_STAT, [ucast path, 0, 0, 0])
       | FsClose h \<Rightarrow> (OP_CLOSE, [ucast h, 0, 0, 0]));
       n = (if opc = OP_OPEN then 2 else if opc = OP_READ \<or> opc = OP_WRITE then 4 else 1)
     in wire_message NS_Fs opc (take n ws))"

definition decode_fs_request :: "small_message \<Rightarrow> (decode_error, fs_request) res" where
  "decode_fs_request m = open_message NS_Fs m (\<lambda>opc w.
     if opc = OP_OPEN then need w 2 (word_at w 1 (\<lambda>f.
         bind_res (ok_or (open_flags_from_bits (ucast f)) BadField) (\<lambda>flags.
         word_at w 0 (\<lambda>path. Ok (FsOpen (ucast path) flags)))))
     else if opc = OP_READ then need w 4 (word_at w 0 (\<lambda>a. word_at w 1 (\<lambda>b. word_at w 2 (\<lambda>c. word_at w 3 (\<lambda>d. Ok (FsRead (ucast a) b (ucast c) (ucast d)))))))
     else if opc = OP_WRITE then need w 4 (word_at w 0 (\<lambda>a. word_at w 1 (\<lambda>b. word_at w 2 (\<lambda>c. word_at w 3 (\<lambda>d. Ok (FsWrite (ucast a) b (ucast c) (ucast d)))))))
     else if opc = OP_STAT then need w 1 (word_at w 0 (\<lambda>a. Ok (FsStat (ucast a))))
     else if opc = OP_CLOSE then need w 1 (word_at w 0 (\<lambda>a. Ok (FsClose (ucast a))))
     else Err UnknownOpcode)"

definition encode_fs_response :: "fs_response \<Rightarrow> small_message" where
  "encode_fs_response msg = (let (opc, ws) = (case msg of
         FsOpened h \<Rightarrow> (OP_FR_OPENED, [ucast h, 0])
       | FsReadDone n \<Rightarrow> (OP_FR_READ, [ucast n, 0])
       | FsWritten n \<Rightarrow> (OP_FR_WRITTEN, [ucast n, 0])
       | FsStatResult sz dir \<Rightarrow> (OP_FR_STAT, [sz, of_bool dir])
       | FsClosed \<Rightarrow> (OP_FR_CLOSED, [0, 0])
       | FsError c \<Rightarrow> (OP_FR_ERROR, [fs_error_code c, 0]));
       n = (if opc = OP_FR_STAT then 2 else if opc = OP_FR_CLOSED then 0 else 1)
     in wire_message NS_Fs opc (take n ws))"

definition decode_fs_response :: "small_message \<Rightarrow> (decode_error, fs_response) res" where
  "decode_fs_response m = open_message NS_Fs m (\<lambda>opc w.
     if opc = OP_FR_OPENED then need w 1 (word_at w 0 (\<lambda>a. Ok (FsOpened (ucast a))))
     else if opc = OP_FR_READ then need w 1 (word_at w 0 (\<lambda>a. Ok (FsReadDone (ucast a))))
     else if opc = OP_FR_WRITTEN then need w 1 (word_at w 0 (\<lambda>a. Ok (FsWritten (ucast a))))
     else if opc = OP_FR_STAT then need w 2 (word_at w 0 (\<lambda>a. word_at w 1 (\<lambda>b. Ok (FsStatResult a (b \<noteq> 0)))))
     else if opc = OP_FR_CLOSED then Ok FsClosed
     else if opc = OP_FR_ERROR then need w 1 (word_at w 0 (\<lambda>a. bind_res (decode_fs_error a) (\<lambda>c. Ok (FsError c))))
     else Err UnknownOpcode)"

section \<open>Drivers\<close>

definition encode_driver_request :: "driver_request \<Rightarrow> small_message" where
  "encode_driver_request msg = (let (opc, ws) = (case msg of
         DrProbe \<Rightarrow> (OP_DR_PROBE, [0, 0, 0])
       | DrIrq line \<Rightarrow> (OP_DR_IRQ, [ucast line, 0, 0])
       | DrReadBlocks lba n cap \<Rightarrow> (OP_DR_READ_BLOCKS, [lba, ucast n, ucast cap])
       | DrWriteBlocks lba n cap \<Rightarrow> (OP_DR_WRITE_BLOCKS, [lba, ucast n, ucast cap])
       | DrQuiesce \<Rightarrow> (OP_DR_QUIESCE, [0, 0, 0])
       | DrSendFrame len \<Rightarrow> (OP_DR_SEND_FRAME, [ucast len, 0, 0])
       | DrPollFrame \<Rightarrow> (OP_DR_POLL_FRAME, [0, 0, 0]));
       n = (if opc = OP_DR_IRQ \<or> opc = OP_DR_SEND_FRAME then 1 else if opc = OP_DR_READ_BLOCKS \<or> opc = OP_DR_WRITE_BLOCKS then 3 else 0)
     in wire_message NS_Driver opc (take n ws))"

definition decode_driver_request :: "small_message \<Rightarrow> (decode_error, driver_request) res" where
  "decode_driver_request m = open_message NS_Driver m (\<lambda>opc w.
     if opc = OP_DR_PROBE then Ok DrProbe
     else if opc = OP_DR_IRQ then need w 1 (word_at w 0 (\<lambda>a. Ok (DrIrq (ucast a))))
     else if opc = OP_DR_READ_BLOCKS then need w 3 (word_at w 0 (\<lambda>a. word_at w 1 (\<lambda>b. word_at w 2 (\<lambda>c. Ok (DrReadBlocks a (ucast b) (ucast c))))))
     else if opc = OP_DR_WRITE_BLOCKS then need w 3 (word_at w 0 (\<lambda>a. word_at w 1 (\<lambda>b. word_at w 2 (\<lambda>c. Ok (DrWriteBlocks a (ucast b) (ucast c))))))
     else if opc = OP_DR_QUIESCE then Ok DrQuiesce
     else if opc = OP_DR_SEND_FRAME then need w 1 (word_at w 0 (\<lambda>a. Ok (DrSendFrame (ucast a))))
     else if opc = OP_DR_POLL_FRAME then Ok DrPollFrame
     else Err UnknownOpcode)"

definition encode_driver_response :: "driver_response \<Rightarrow> small_message" where
  "encode_driver_response msg = (let (opc, ws) = (case msg of
         DrReady sz n \<Rightarrow> (OP_DRR_READY, [ucast sz, n])
       | DrCompleted n \<Rightarrow> (OP_DRR_COMPLETED, [ucast n, 0])
       | DrFailed c \<Rightarrow> (OP_DRR_FAILED, [driver_error_code c, 0])
       | DrFrameSent \<Rightarrow> (OP_DRR_FRAME_SENT, [0, 0])
       | DrFrameReceived len \<Rightarrow> (OP_DRR_FRAME_RECEIVED, [ucast len, 0]));
       n = (if opc = OP_DRR_READY then 2 else if opc = OP_DRR_FRAME_SENT then 0 else 1)
     in wire_message NS_Driver opc (take n ws))"

definition decode_driver_response :: "small_message \<Rightarrow> (decode_error, driver_response) res" where
  "decode_driver_response m = open_message NS_Driver m (\<lambda>opc w.
     if opc = OP_DRR_READY then need w 2 (word_at w 0 (\<lambda>a. word_at w 1 (\<lambda>b. Ok (DrReady (ucast a) b))))
     else if opc = OP_DRR_COMPLETED then need w 1 (word_at w 0 (\<lambda>a. Ok (DrCompleted (ucast a))))
     else if opc = OP_DRR_FAILED then need w 1 (word_at w 0 (\<lambda>a. bind_res (decode_driver_error a) (\<lambda>c. Ok (DrFailed c))))
     else if opc = OP_DRR_FRAME_SENT then Ok DrFrameSent
     else if opc = OP_DRR_FRAME_RECEIVED then need w 1 (word_at w 0 (\<lambda>a. Ok (DrFrameReceived (ucast a))))
     else Err UnknownOpcode)"

section \<open>Display\<close>

definition encode_display_request :: "display_request \<Rightarrow> small_message" where
  "encode_display_request msg = (let (opc, ws) = (case msg of
         DpCreateSurface \<Rightarrow> (OP_DP_CREATE_SURFACE, [0, 0, 0, 0])
       | DpCommitBuffer s buf w h \<Rightarrow> (OP_DP_COMMIT_BUFFER, [ucast s, ucast buf, ucast w, ucast h])
       | DpDestroySurface s \<Rightarrow> (OP_DP_DESTROY_SURFACE, [ucast s, 0, 0, 0])
       | DpSubscribeInput \<Rightarrow> (OP_DP_SUBSCRIBE_INPUT, [0, 0, 0, 0])
       | DpQueryOutputs \<Rightarrow> (OP_DP_QUERY_OUTPUTS, [0, 0, 0, 0]));
       n = (if opc = OP_DP_COMMIT_BUFFER then 4 else if opc = OP_DP_DESTROY_SURFACE then 1 else 0)
     in wire_message NS_Display opc (take n ws))"

definition decode_display_request :: "small_message \<Rightarrow> (decode_error, display_request) res" where
  "decode_display_request m = open_message NS_Display m (\<lambda>opc w.
     if opc = OP_DP_CREATE_SURFACE then Ok DpCreateSurface
     else if opc = OP_DP_COMMIT_BUFFER then need w 4 (word_at w 0 (\<lambda>a. word_at w 1 (\<lambda>b. word_at w 2 (\<lambda>c. word_at w 3 (\<lambda>d. Ok (DpCommitBuffer (ucast a) (ucast b) (ucast c) (ucast d)))))))
     else if opc = OP_DP_DESTROY_SURFACE then need w 1 (word_at w 0 (\<lambda>a. Ok (DpDestroySurface (ucast a))))
     else if opc = OP_DP_SUBSCRIBE_INPUT then Ok DpSubscribeInput
     else if opc = OP_DP_QUERY_OUTPUTS then Ok DpQueryOutputs
     else Err UnknownOpcode)"

definition encode_display_response :: "display_response \<Rightarrow> small_message" where
  "encode_display_response msg = (let (opc, ws) = (case msg of
         DpSurfaceCreated s \<Rightarrow> (OP_DPR_SURFACE_CREATED, [ucast s, 0, 0, 0])
       | DpCommitted \<Rightarrow> (OP_DPR_COMMITTED, [0, 0, 0, 0])
       | DpDestroyed \<Rightarrow> (OP_DPR_DESTROYED, [0, 0, 0, 0])
       | DpInputSubscribed \<Rightarrow> (OP_DPR_INPUT_SUBSCRIBED, [0, 0, 0, 0])
       | DpOutputTopology n w h mhz \<Rightarrow> (OP_DPR_OUTPUT_TOPOLOGY, [ucast n, ucast w, ucast h, ucast mhz])
       | DpError c \<Rightarrow> (OP_DPR_ERROR, [display_error_code c, 0, 0, 0]));
       n = (if opc = OP_DPR_OUTPUT_TOPOLOGY then 4 else if opc = OP_DPR_SURFACE_CREATED \<or> opc = OP_DPR_ERROR then 1 else 0)
     in wire_message NS_Display opc (take n ws))"

definition decode_display_response :: "small_message \<Rightarrow> (decode_error, display_response) res" where
  "decode_display_response m = open_message NS_Display m (\<lambda>opc w.
     if opc = OP_DPR_SURFACE_CREATED then need w 1 (word_at w 0 (\<lambda>a. Ok (DpSurfaceCreated (ucast a))))
     else if opc = OP_DPR_COMMITTED then Ok DpCommitted
     else if opc = OP_DPR_DESTROYED then Ok DpDestroyed
     else if opc = OP_DPR_INPUT_SUBSCRIBED then Ok DpInputSubscribed
     else if opc = OP_DPR_OUTPUT_TOPOLOGY then need w 4 (word_at w 0 (\<lambda>a. word_at w 1 (\<lambda>b. word_at w 2 (\<lambda>c. word_at w 3 (\<lambda>d. Ok (DpOutputTopology (ucast a) (ucast b) (ucast c) (ucast d)))))))
     else if opc = OP_DPR_ERROR then need w 1 (word_at w 0 (\<lambda>a. bind_res (decode_display_error a) (\<lambda>c. Ok (DpError c))))
     else Err UnknownOpcode)"

section \<open>Memory policy\<close>

definition encode_mm_request :: "mm_request \<Rightarrow> small_message" where
  "encode_mm_request msg = (let (opc, ws) = (case msg of
         MmRegister t bytes c \<Rightarrow> (OP_MM_REGISTER, [ucast t, bytes, reclaim_code c, 0])
       | MmUnregister t \<Rightarrow> (OP_MM_UNREGISTER, [ucast t, 0, 0, 0])
       | MmQueryVictim \<Rightarrow> (OP_MM_QUERY_VICTIM, [0, 0, 0, 0])
       | MmQueryTotalResident \<Rightarrow> (OP_MM_QUERY_TOTAL_RESIDENT, [0, 0, 0, 0])
       | MmRegisterSwapRegion t r bytes touched \<Rightarrow> (OP_MM_REGISTER_SWAP_REGION, [ucast t, ucast r, bytes, touched])
       | MmUnregisterSwapRegion t r \<Rightarrow> (OP_MM_UNREGISTER_SWAP_REGION, [ucast t, ucast r, 0, 0])
       | MmQuerySwapVictim \<Rightarrow> (OP_MM_QUERY_SWAP_VICTIM, [0, 0, 0, 0])
       | MmRegisterComputePool p k cap used \<Rightarrow> (OP_MM_REGISTER_COMPUTE_POOL, [ucast p, encode_compute_kind k, cap, used])
       | MmQueryComputePool bytes pref \<Rightarrow> (let (has, k) = (case pref of Some k \<Rightarrow> (1, encode_compute_kind k) | None \<Rightarrow> (0, 0))
           in (OP_MM_QUERY_COMPUTE_POOL, [bytes, has, k, 0])));
       n = (if opc = OP_MM_REGISTER \<or> opc = OP_MM_REGISTER_SWAP_REGION \<or> opc = OP_MM_REGISTER_COMPUTE_POOL then 4 else if opc = OP_MM_QUERY_COMPUTE_POOL \<or> opc = OP_MM_UNREGISTER_SWAP_REGION then 3 else if opc = OP_MM_UNREGISTER then 1 else 0)
     in wire_message NS_Mm opc (take n ws))"

definition decode_mm_request :: "small_message \<Rightarrow> (decode_error, mm_request) res" where
  "decode_mm_request m = open_message NS_Mm m (\<lambda>opc w.
     if opc = OP_MM_REGISTER then need w 3 (word_at w 2 (\<lambda>k. bind_res (decode_reclaim_class k) (\<lambda>c.
         word_at w 0 (\<lambda>t. word_at w 1 (\<lambda>bytes. Ok (MmRegister (ucast t) bytes c))))))
     else if opc = OP_MM_UNREGISTER then need w 1 (word_at w 0 (\<lambda>a. Ok (MmUnregister (ucast a))))
     else if opc = OP_MM_QUERY_VICTIM then Ok MmQueryVictim
     else if opc = OP_MM_QUERY_TOTAL_RESIDENT then Ok MmQueryTotalResident
     else if opc = OP_MM_REGISTER_SWAP_REGION then need w 4 (word_at w 0 (\<lambda>a. word_at w 1 (\<lambda>b. word_at w 2 (\<lambda>c. word_at w 3 (\<lambda>d. Ok (MmRegisterSwapRegion (ucast a) (ucast b) c d))))))
     else if opc = OP_MM_UNREGISTER_SWAP_REGION then need w 2 (word_at w 0 (\<lambda>a. word_at w 1 (\<lambda>b. Ok (MmUnregisterSwapRegion (ucast a) (ucast b)))))
     else if opc = OP_MM_QUERY_SWAP_VICTIM then Ok MmQuerySwapVictim
     else if opc = OP_MM_REGISTER_COMPUTE_POOL then need w 4 (word_at w 0 (\<lambda>p. word_at w 1 (\<lambda>k.
         bind_res (decode_compute_kind k) (\<lambda>kind. word_at w 2 (\<lambda>cap. word_at w 3 (\<lambda>used.
         Ok (MmRegisterComputePool (ucast p) kind cap used)))))))
     else if opc = OP_MM_QUERY_COMPUTE_POOL then need w 3 (word_at w 1 (\<lambda>has.
         bind_res (if has = 0 then Ok None
           else if has = 1 then word_at w 2 (\<lambda>k. bind_res (decode_compute_kind k) (\<lambda>kind. Ok (Some kind)))
           else Err BadField) (\<lambda>pref.
         word_at w 0 (\<lambda>bytes. Ok (MmQueryComputePool bytes pref)))))
     else Err UnknownOpcode)"

definition encode_mm_response :: "mm_response \<Rightarrow> small_message" where
  "encode_mm_response msg = (let (opc, ws) = (case msg of
         MmRegistered \<Rightarrow> (OP_MMR_REGISTERED, [0, 0])
       | MmUnregistered \<Rightarrow> (OP_MMR_UNREGISTERED, [0, 0])
       | MmVictim t \<Rightarrow> (OP_MMR_VICTIM, [ucast t, 0])
       | MmTotalResident bytes \<Rightarrow> (OP_MMR_TOTAL_RESIDENT, [bytes, 0])
       | MmSwapRegionRegistered \<Rightarrow> (OP_MMR_SWAP_REGION_REGISTERED, [0, 0])
       | MmSwapRegionUnregistered \<Rightarrow> (OP_MMR_SWAP_REGION_UNREGISTERED, [0, 0])
       | MmSwapVictim t r \<Rightarrow> (OP_MMR_SWAP_VICTIM, [ucast t, ucast r])
       | MmComputePoolRegistered \<Rightarrow> (OP_MMR_COMPUTE_POOL_REGISTERED, [0, 0])
       | MmComputePoolChosen p \<Rightarrow> (OP_MMR_COMPUTE_POOL_CHOSEN, [ucast p, 0])
       | MmError c \<Rightarrow> (OP_MMR_ERROR, [mm_error_number c, 0]));
       n = (if opc = OP_MMR_REGISTERED \<or> opc = OP_MMR_UNREGISTERED \<or> opc = OP_MMR_SWAP_REGION_REGISTERED \<or> opc = OP_MMR_SWAP_REGION_UNREGISTERED \<or> opc = OP_MMR_COMPUTE_POOL_REGISTERED then 0 else if opc = OP_MMR_SWAP_VICTIM then 2 else 1)
     in wire_message NS_Mm opc (take n ws))"

definition decode_mm_response :: "small_message \<Rightarrow> (decode_error, mm_response) res" where
  "decode_mm_response m = open_message NS_Mm m (\<lambda>opc w.
     if opc = OP_MMR_REGISTERED then Ok MmRegistered
     else if opc = OP_MMR_UNREGISTERED then Ok MmUnregistered
     else if opc = OP_MMR_VICTIM then need w 1 (word_at w 0 (\<lambda>a. Ok (MmVictim (ucast a))))
     else if opc = OP_MMR_TOTAL_RESIDENT then need w 1 (word_at w 0 (\<lambda>a. Ok (MmTotalResident a)))
     else if opc = OP_MMR_ERROR then need w 1 (word_at w 0 (\<lambda>a. bind_res (decode_mm_error a) (\<lambda>c. Ok (MmError c))))
     else if opc = OP_MMR_SWAP_REGION_REGISTERED then Ok MmSwapRegionRegistered
     else if opc = OP_MMR_SWAP_REGION_UNREGISTERED then Ok MmSwapRegionUnregistered
     else if opc = OP_MMR_SWAP_VICTIM then need w 2 (word_at w 0 (\<lambda>a. word_at w 1 (\<lambda>b. Ok (MmSwapVictim (ucast a) (ucast b)))))
     else if opc = OP_MMR_COMPUTE_POOL_REGISTERED then Ok MmComputePoolRegistered
     else if opc = OP_MMR_COMPUTE_POOL_CHOSEN then need w 1 (word_at w 0 (\<lambda>a. Ok (MmComputePoolChosen (ucast a))))
     else Err UnknownOpcode)"

section \<open>Kernel-bypass networking\<close>

definition encode_net_bypass_request :: "net_bypass_request \<Rightarrow> small_message" where
  "encode_net_bypass_request msg = (let (opc, ws) = (case msg of
         NbRequestDirectNic nic \<Rightarrow> (OP_NB_REQUEST_DIRECT_NIC, [ucast nic])
       | NbRelease h \<Rightarrow> (OP_NB_RELEASE, [ucast h])
       | NbRelayFrame \<Rightarrow> (OP_NB_RELAY_FRAME, [0]));
       n = (if opc = OP_NB_RELAY_FRAME then 0 else 1)
     in wire_message NS_NetBypass opc (take n ws))"

definition decode_net_bypass_request :: "small_message \<Rightarrow> (decode_error, net_bypass_request) res" where
  "decode_net_bypass_request m = open_message NS_NetBypass m (\<lambda>opc w.
     if opc = OP_NB_REQUEST_DIRECT_NIC then need w 1 (word_at w 0 (\<lambda>a. Ok (NbRequestDirectNic (ucast a))))
     else if opc = OP_NB_RELEASE then need w 1 (word_at w 0 (\<lambda>a. Ok (NbRelease (ucast a))))
     else if opc = OP_NB_RELAY_FRAME then Ok NbRelayFrame
     else Err UnknownOpcode)"

definition encode_net_bypass_response :: "net_bypass_response \<Rightarrow> small_message" where
  "encode_net_bypass_response msg = (let (opc, ws) = (case msg of
         NbGranted h rx tx n \<Rightarrow> (OP_NBR_GRANTED, [ucast h, ucast rx, ucast tx, ucast n])
       | NbDenied \<Rightarrow> (OP_NBR_DENIED, [0, 0, 0, 0])
       | NbReleased \<Rightarrow> (OP_NBR_RELEASED, [0, 0, 0, 0])
       | NbRelayed \<Rightarrow> (OP_NBR_RELAYED, [0, 0, 0, 0]));
       n = (if opc = OP_NBR_GRANTED then 4 else 0)
     in wire_message NS_NetBypass opc (take n ws))"

definition decode_net_bypass_response :: "small_message \<Rightarrow> (decode_error, net_bypass_response) res" where
  "decode_net_bypass_response m = open_message NS_NetBypass m (\<lambda>opc w.
     if opc = OP_NBR_GRANTED then need w 4 (word_at w 0 (\<lambda>a. word_at w 1 (\<lambda>b. word_at w 2 (\<lambda>c. word_at w 3 (\<lambda>d. Ok (NbGranted (ucast a) (ucast b) (ucast c) (ucast d)))))))
     else if opc = OP_NBR_DENIED then Ok NbDenied
     else if opc = OP_NBR_RELEASED then Ok NbReleased
     else if opc = OP_NBR_RELAYED then Ok NbRelayed
     else Err UnknownOpcode)"

section \<open>Security broker\<close>

definition encode_security_request :: "security_request \<Rightarrow> small_message" where
  "encode_security_request msg = (let (opc, ws) = (case msg of
         SecCapGrant t cap rights \<Rightarrow> (OP_SEC_CAP_GRANT, [ucast t, ucast cap, ucast rights])
       | SecCapRevoke cap \<Rightarrow> (OP_SEC_CAP_REVOKE, [ucast cap, 0, 0]));
       n = (if opc = OP_SEC_CAP_GRANT then 3 else 1)
     in wire_message NS_Security opc (take n ws))"

definition decode_security_request :: "small_message \<Rightarrow> (decode_error, security_request) res" where
  "decode_security_request m = open_message NS_Security m (\<lambda>opc w.
     if opc = OP_SEC_CAP_GRANT then need w 3 (word_at w 0 (\<lambda>a. word_at w 1 (\<lambda>b. word_at w 2 (\<lambda>c. Ok (SecCapGrant (ucast a) (ucast b) (ucast c))))))
     else if opc = OP_SEC_CAP_REVOKE then need w 1 (word_at w 0 (\<lambda>a. Ok (SecCapRevoke (ucast a))))
     else Err UnknownOpcode)"

definition encode_security_response :: "security_response \<Rightarrow> small_message" where
  "encode_security_response msg = (let (opc, ws) = (case msg of
         SecGranted dst \<Rightarrow> (OP_SECR_GRANTED, [ucast dst])
       | SecRevoked freed \<Rightarrow> (OP_SECR_REVOKED, [ucast freed])
       | SecError c \<Rightarrow> (OP_SECR_ERROR, [security_error_code c]))
     in wire_message NS_Security opc ws)"

definition decode_security_response :: "small_message \<Rightarrow> (decode_error, security_response) res" where
  "decode_security_response m = open_message NS_Security m (\<lambda>opc w.
     need w 1 (
     if opc = OP_SECR_GRANTED then word_at w 0 (\<lambda>a. Ok (SecGranted (ucast a)))
     else if opc = OP_SECR_REVOKED then word_at w 0 (\<lambda>a. Ok (SecRevoked (ucast a)))
     else if opc = OP_SECR_ERROR then word_at w 0 (\<lambda>a. bind_res (decode_security_error a) (\<lambda>c. Ok (SecError c)))
     else Err UnknownOpcode))"

section \<open>Round trips\<close>

lemma open_wire [simp]:
  assumes "length ws \<le> MSG_MAX_WORDS"
  shows "open_message ns (wire_message ns opc ws) f = f opc ws"
proof -
  obtain m where m: "from_words (ns_label ns opc) ws = Ok m" using assms by (simp add: from_words_def)
  then have "(msg_words m :: (decode_error, u64 list) res) = Ok ws" "label m = ns_label ns opc"
    by (rule from_words_Ok)+
  with m show ?thesis by (simp add: open_message_def wire_message_def)
qed

lemmas wire_simps = Let_def need_def word_at_def MSG_MAX_WORDS_def encode_compute_kind_def

lemma code_fs_error [simp]: "decode_fs_error (fs_error_code a) = Ok a"
  by (cases a) (simp_all add: decode_fs_error_def)

lemma code_driver_error [simp]: "decode_driver_error (driver_error_code a) = Ok a"
  by (cases a) (simp_all add: decode_driver_error_def)

lemma code_display_error [simp]: "decode_display_error (display_error_code a) = Ok a"
  by (cases a) (simp_all add: decode_display_error_def)

lemma code_mm_error [simp]: "decode_mm_error (mm_error_number a) = Ok a"
  by (cases a) (simp_all add: decode_mm_error_def)

lemma code_security_error [simp]: "decode_security_error (security_error_code a) = Ok a"
  by (cases a) (simp_all add: decode_security_error_def)

lemma code_reclaim_class [simp]: "decode_reclaim_class (reclaim_code a) = Ok a"
  by (cases a) (simp_all add: decode_reclaim_class_def)

lemma code_compute_kind [simp]: "decode_compute_kind (compute_code a) = Ok a"
  by (cases a) (simp_all add: decode_compute_kind_def)

definition flags_ok :: "fs_request \<Rightarrow> bool" where
  "flags_ok r \<longleftrightarrow> (case r of FsOpen p f \<Rightarrow> f AND NOT OPEN_FLAGS_ALL = 0 | _ \<Rightarrow> True)"

lemma roundtrip_fs_request: "flags_ok r \<Longrightarrow> decode_fs_request (encode_fs_request r) = Ok r"
  by (cases r) (simp_all add: encode_fs_request_def decode_fs_request_def wire_simps flags_ok_def open_flags_from_bits_def)

lemma roundtrip_fs_response: "decode_fs_response (encode_fs_response r) = Ok r"
  by (cases r) (simp_all add: encode_fs_response_def decode_fs_response_def wire_simps)

lemma roundtrip_driver_request: "decode_driver_request (encode_driver_request r) = Ok r"
  by (cases r) (simp_all add: encode_driver_request_def decode_driver_request_def wire_simps)

lemma roundtrip_driver_response: "decode_driver_response (encode_driver_response r) = Ok r"
  by (cases r) (simp_all add: encode_driver_response_def decode_driver_response_def wire_simps)

lemma roundtrip_display_request: "decode_display_request (encode_display_request r) = Ok r"
  by (cases r) (simp_all add: encode_display_request_def decode_display_request_def wire_simps)

lemma roundtrip_display_response: "decode_display_response (encode_display_response r) = Ok r"
  by (cases r) (simp_all add: encode_display_response_def decode_display_response_def wire_simps)

lemma roundtrip_mm_request: "decode_mm_request (encode_mm_request r) = Ok r"
  by (cases r) (simp_all add: encode_mm_request_def decode_mm_request_def wire_simps split: option.split)

lemma roundtrip_mm_response: "decode_mm_response (encode_mm_response r) = Ok r"
  by (cases r) (simp_all add: encode_mm_response_def decode_mm_response_def wire_simps)

lemma roundtrip_net_bypass_request: "decode_net_bypass_request (encode_net_bypass_request r) = Ok r"
  by (cases r) (simp_all add: encode_net_bypass_request_def decode_net_bypass_request_def wire_simps)

lemma roundtrip_net_bypass_response: "decode_net_bypass_response (encode_net_bypass_response r) = Ok r"
  by (cases r) (simp_all add: encode_net_bypass_response_def decode_net_bypass_response_def wire_simps)

lemma roundtrip_security_request: "decode_security_request (encode_security_request r) = Ok r"
  by (cases r) (simp_all add: encode_security_request_def decode_security_request_def wire_simps)

lemma roundtrip_security_response: "decode_security_response (encode_security_response r) = Ok r"
  by (cases r) (simp_all add: encode_security_response_def decode_security_response_def wire_simps)

section \<open>Decoders refuse what is not theirs\<close>

text \<open>The outcome of a decoder of one namespace, read off the label: a message of another namespace
  or another protocol version is refused as such, for no other reason, and nothing panics.\<close>

definition lawful :: "namespace \<Rightarrow> small_message \<Rightarrow> (decode_error, 'a) res \<Rightarrow> bool" where
  "lawful ns m r \<longleftrightarrow> r \<noteq> Panic \<and>
     (r = Err WrongNamespace) = (from_label (label m) \<noteq> Some ns) \<and>
     (r = Err VersionMismatch) = (from_label (label m) = Some ns \<and>
        fst (label_parts (label m)) \<noteq> PROTOCOL_VERSION)"

definition benign :: "(decode_error, 'a) res \<Rightarrow> bool" where
  "benign r \<longleftrightarrow> r \<noteq> Panic \<and> r \<noteq> Err WrongNamespace \<and> r \<noteq> Err VersionMismatch"

lemma benign_simps [simp]:
  "benign (Ok x)" "\<not> benign Panic" "benign (Err Truncated)" "benign (Err BadField)"
  "benign (Err UnknownOpcode)"
  by (simp_all add: benign_def)

lemma benign_need [intro]: "(n \<le> length w \<Longrightarrow> benign r) \<Longrightarrow> benign (need w n r)"
  by (simp add: need_def)

lemma benign_word_at [intro]:
  "i < length w \<Longrightarrow> (\<And>x. benign (f x)) \<Longrightarrow> benign (word_at w i f)"
  by (simp add: word_at_def)

lemma benign_bind [intro]: "benign r \<Longrightarrow> (\<And>x. benign (f x)) \<Longrightarrow> benign (bind_res r f)"
  by (cases r) (auto simp: benign_def)

lemma benign_if [intro]: "(c \<Longrightarrow> benign a) \<Longrightarrow> (\<not> c \<Longrightarrow> benign b) \<Longrightarrow> benign (if c then a else b)"
  by simp

lemma benign_ok_or [intro]: "benign (ok_or x BadField)"
  by (cases x) simp_all

lemma benign_codes [intro]:
  "benign (decode_fs_error a)" "benign (decode_driver_error a)" "benign (decode_display_error a)"
  "benign (decode_mm_error a)" "benign (decode_security_error a)" "benign (decode_reclaim_class a)"
  "benign (decode_compute_kind a)"
  by (simp_all add: decode_fs_error_def decode_driver_error_def decode_display_error_def
      decode_mm_error_def decode_security_error_def decode_reclaim_class_def decode_compute_kind_def)

lemma open_lawful:
  assumes "msg_wf m" and "\<And>opc w. benign (f opc w)"
  shows "lawful ns m (open_message ns m f)"
proof -
  obtain v opc where p: "label_parts (label m) = (v, opc)" by fastforce
  have "(msg_words m :: (decode_error, u64 list) res) = Ok (take (unat (mlen m)) (mwords m))"
    using assms(1) by (simp add: msg_words_def msg_wf_def)
  then show ?thesis
    using assms(2) [of opc "take (unat (mlen m)) (mwords m)"] p
    by (auto simp: lawful_def open_message_def benign_def)
qed

lemmas benign_body = benign_if benign_need benign_word_at benign_bind benign_ok_or benign_codes

lemma lawful_fs_request: "msg_wf m \<Longrightarrow> lawful NS_Fs m (decode_fs_request m)"
  unfolding decode_fs_request_def
  by (rule open_lawful) (auto intro!: benign_body simp del: if_split)

lemma lawful_fs_response: "msg_wf m \<Longrightarrow> lawful NS_Fs m (decode_fs_response m)"
  unfolding decode_fs_response_def
  by (rule open_lawful) (auto intro!: benign_body simp del: if_split)

lemma lawful_driver_request: "msg_wf m \<Longrightarrow> lawful NS_Driver m (decode_driver_request m)"
  unfolding decode_driver_request_def
  by (rule open_lawful) (auto intro!: benign_body simp del: if_split)

lemma lawful_driver_response: "msg_wf m \<Longrightarrow> lawful NS_Driver m (decode_driver_response m)"
  unfolding decode_driver_response_def
  by (rule open_lawful) (auto intro!: benign_body simp del: if_split)

lemma lawful_display_request: "msg_wf m \<Longrightarrow> lawful NS_Display m (decode_display_request m)"
  unfolding decode_display_request_def
  by (rule open_lawful) (auto intro!: benign_body simp del: if_split)

lemma lawful_display_response: "msg_wf m \<Longrightarrow> lawful NS_Display m (decode_display_response m)"
  unfolding decode_display_response_def
  by (rule open_lawful) (auto intro!: benign_body simp del: if_split)

lemma lawful_mm_request: "msg_wf m \<Longrightarrow> lawful NS_Mm m (decode_mm_request m)"
  unfolding decode_mm_request_def
  by (rule open_lawful) (auto intro!: benign_body simp del: if_split)

lemma lawful_mm_response: "msg_wf m \<Longrightarrow> lawful NS_Mm m (decode_mm_response m)"
  unfolding decode_mm_response_def
  by (rule open_lawful) (auto intro!: benign_body simp del: if_split)

lemma lawful_net_bypass_request: "msg_wf m \<Longrightarrow> lawful NS_NetBypass m (decode_net_bypass_request m)"
  unfolding decode_net_bypass_request_def
  by (rule open_lawful) (auto intro!: benign_body simp del: if_split)

lemma lawful_net_bypass_response: "msg_wf m \<Longrightarrow> lawful NS_NetBypass m (decode_net_bypass_response m)"
  unfolding decode_net_bypass_response_def
  by (rule open_lawful) (auto intro!: benign_body simp del: if_split)

lemma lawful_security_request: "msg_wf m \<Longrightarrow> lawful NS_Security m (decode_security_request m)"
  unfolding decode_security_request_def
  by (rule open_lawful) (auto intro!: benign_body simp del: if_split)

lemma lawful_security_response: "msg_wf m \<Longrightarrow> lawful NS_Security m (decode_security_response m)"
  unfolding decode_security_response_def
  by (rule open_lawful) (auto intro!: benign_body simp del: if_split)

section \<open>The contract of a codec\<close>

text \<open>What a client of one namespace relies on: its messages are well formed and carry the label, are
  read back as sent, and the decoder keeps to the namespace. Then encoding is injective, and the
  decoder of any other namespace refuses the message.\<close>

locale wire_codec =
  fixes ns :: namespace and ok :: "'a \<Rightarrow> bool"
    and enc :: "'a \<Rightarrow> small_message" and dec :: "small_message \<Rightarrow> (decode_error, 'a) res"
  assumes enc_wf: "msg_wf (enc r)"
    and enc_label: "from_label (label (enc r)) = Some ns"
    and dec_enc: "ok r \<Longrightarrow> dec (enc r) = Ok r"
    and dec_lawful: "msg_wf m \<Longrightarrow> lawful ns m (dec m)"
begin

lemma enc_inj: "ok r \<Longrightarrow> ok q \<Longrightarrow> enc r = enc q \<Longrightarrow> r = q"
  using dec_enc [of r] dec_enc [of q] by (metis res.inject(1))

lemma foreign: "msg_wf m \<Longrightarrow> from_label (label m) \<noteq> Some ns \<Longrightarrow> dec m = Err WrongNamespace"
  using dec_lawful [of m] by (simp add: lawful_def)

lemma dec_total: "msg_wf m \<Longrightarrow> dec m \<noteq> Panic"
  using dec_lawful [of m] by (simp add: lawful_def)

end

lemma wire_message_label [simp]: "label (wire_message ns opc ws) = ns_label ns opc"
  by (simp add: wire_message_def from_words_def msg_new_def)

lemma wire_message_wf [simp]: "msg_wf (wire_message ns opc ws)"
proof (cases "from_words (ns_label ns opc) ws")
  case (Ok m)
  then show ?thesis using from_words_Ok(1) by (simp add: wire_message_def)
qed (simp_all add: wire_message_def msg_new_def msg_wf_def)

lemma sent_fs_request:
  "msg_wf (encode_fs_request r)" "from_label (label (encode_fs_request r)) = Some NS_Fs"
  by (simp_all only: encode_fs_request_def split_beta Let_def wire_message_wf wire_message_label from_label_ns)

interpretation fs_request: wire_codec NS_Fs flags_ok encode_fs_request decode_fs_request
  by unfold_locales (simp_all add: roundtrip_fs_request lawful_fs_request sent_fs_request)

lemma sent_fs_response:
  "msg_wf (encode_fs_response r)" "from_label (label (encode_fs_response r)) = Some NS_Fs"
  by (simp_all only: encode_fs_response_def split_beta Let_def wire_message_wf wire_message_label from_label_ns)

interpretation fs_response: wire_codec NS_Fs "\<lambda>_. True" encode_fs_response decode_fs_response
  by unfold_locales (simp_all add: roundtrip_fs_response lawful_fs_response sent_fs_response)

lemma sent_driver_request:
  "msg_wf (encode_driver_request r)" "from_label (label (encode_driver_request r)) = Some NS_Driver"
  by (simp_all only: encode_driver_request_def split_beta Let_def wire_message_wf wire_message_label from_label_ns)

interpretation driver_request: wire_codec NS_Driver "\<lambda>_. True" encode_driver_request decode_driver_request
  by unfold_locales (simp_all add: roundtrip_driver_request lawful_driver_request sent_driver_request)

lemma sent_driver_response:
  "msg_wf (encode_driver_response r)" "from_label (label (encode_driver_response r)) = Some NS_Driver"
  by (simp_all only: encode_driver_response_def split_beta Let_def wire_message_wf wire_message_label from_label_ns)

interpretation driver_response: wire_codec NS_Driver "\<lambda>_. True" encode_driver_response decode_driver_response
  by unfold_locales (simp_all add: roundtrip_driver_response lawful_driver_response sent_driver_response)

lemma sent_display_request:
  "msg_wf (encode_display_request r)" "from_label (label (encode_display_request r)) = Some NS_Display"
  by (simp_all only: encode_display_request_def split_beta Let_def wire_message_wf wire_message_label from_label_ns)

interpretation display_request: wire_codec NS_Display "\<lambda>_. True" encode_display_request decode_display_request
  by unfold_locales (simp_all add: roundtrip_display_request lawful_display_request sent_display_request)

lemma sent_display_response:
  "msg_wf (encode_display_response r)" "from_label (label (encode_display_response r)) = Some NS_Display"
  by (simp_all only: encode_display_response_def split_beta Let_def wire_message_wf wire_message_label from_label_ns)

interpretation display_response: wire_codec NS_Display "\<lambda>_. True" encode_display_response decode_display_response
  by unfold_locales (simp_all add: roundtrip_display_response lawful_display_response sent_display_response)

lemma sent_mm_request:
  "msg_wf (encode_mm_request r)" "from_label (label (encode_mm_request r)) = Some NS_Mm"
  by (simp_all only: encode_mm_request_def split_beta Let_def wire_message_wf wire_message_label from_label_ns)

interpretation mm_request: wire_codec NS_Mm "\<lambda>_. True" encode_mm_request decode_mm_request
  by unfold_locales (simp_all add: roundtrip_mm_request lawful_mm_request sent_mm_request)

lemma sent_mm_response:
  "msg_wf (encode_mm_response r)" "from_label (label (encode_mm_response r)) = Some NS_Mm"
  by (simp_all only: encode_mm_response_def split_beta Let_def wire_message_wf wire_message_label from_label_ns)

interpretation mm_response: wire_codec NS_Mm "\<lambda>_. True" encode_mm_response decode_mm_response
  by unfold_locales (simp_all add: roundtrip_mm_response lawful_mm_response sent_mm_response)

lemma sent_net_bypass_request:
  "msg_wf (encode_net_bypass_request r)" "from_label (label (encode_net_bypass_request r)) = Some NS_NetBypass"
  by (simp_all only: encode_net_bypass_request_def split_beta Let_def wire_message_wf wire_message_label from_label_ns)

interpretation net_bypass_request: wire_codec NS_NetBypass "\<lambda>_. True" encode_net_bypass_request decode_net_bypass_request
  by unfold_locales (simp_all add: roundtrip_net_bypass_request lawful_net_bypass_request sent_net_bypass_request)

lemma sent_net_bypass_response:
  "msg_wf (encode_net_bypass_response r)" "from_label (label (encode_net_bypass_response r)) = Some NS_NetBypass"
  by (simp_all only: encode_net_bypass_response_def split_beta Let_def wire_message_wf wire_message_label from_label_ns)

interpretation net_bypass_response: wire_codec NS_NetBypass "\<lambda>_. True" encode_net_bypass_response decode_net_bypass_response
  by unfold_locales (simp_all add: roundtrip_net_bypass_response lawful_net_bypass_response sent_net_bypass_response)

lemma sent_security_request:
  "msg_wf (encode_security_request r)" "from_label (label (encode_security_request r)) = Some NS_Security"
  by (simp_all only: encode_security_request_def split_beta Let_def wire_message_wf wire_message_label from_label_ns)

interpretation security_request: wire_codec NS_Security "\<lambda>_. True" encode_security_request decode_security_request
  by unfold_locales (simp_all add: roundtrip_security_request lawful_security_request sent_security_request)

lemma sent_security_response:
  "msg_wf (encode_security_response r)" "from_label (label (encode_security_response r)) = Some NS_Security"
  by (simp_all only: encode_security_response_def split_beta Let_def wire_message_wf wire_message_label from_label_ns)

interpretation security_response: wire_codec NS_Security "\<lambda>_. True" encode_security_response decode_security_response
  by unfold_locales (simp_all add: roundtrip_security_response lawful_security_response sent_security_response)

section \<open>Properties\<close>

text \<open>C23: Every message survives the wire: decoding what the encoder made gives the message back, for the
  requests and responses of all six namespaces. An open request must carry declared flag bits only,
  as the flag type ensures.\<close>

theorem codec_roundtrip:
  assumes "flags_ok q1"
  shows "decode_fs_request (encode_fs_request q1) = Ok q1 \<and>
    decode_driver_request (encode_driver_request q2) = Ok q2 \<and>
    decode_display_request (encode_display_request q3) = Ok q3 \<and>
    decode_mm_request (encode_mm_request q4) = Ok q4 \<and>
    decode_net_bypass_request (encode_net_bypass_request q5) = Ok q5 \<and>
    decode_security_request (encode_security_request q6) = Ok q6 \<and>
    decode_fs_response (encode_fs_response r1) = Ok r1 \<and>
    decode_driver_response (encode_driver_response r2) = Ok r2 \<and>
    decode_display_response (encode_display_response r3) = Ok r3 \<and>
    decode_mm_response (encode_mm_response r4) = Ok r4 \<and>
    decode_net_bypass_response (encode_net_bypass_response r5) = Ok r5 \<and>
    decode_security_response (encode_security_response r6) = Ok r6"
  using assms by (simp add: fs_request.dec_enc driver_request.dec_enc display_request.dec_enc
      mm_request.dec_enc net_bypass_request.dec_enc security_request.dec_enc fs_response.dec_enc
      driver_response.dec_enc display_response.dec_enc mm_response.dec_enc
      net_bypass_response.dec_enc security_response.dec_enc)

theorem codec_roundtrip_witness:
  "decode_fs_request (encode_fs_request (FsOpen 7 0x21)) = Ok (FsOpen 7 0x21)"
proof -
  have "flags_ok (FsOpen 7 0x21)" by code_simp
  from codec_roundtrip [OF this] show ?thesis by blast
qed

text \<open>Every decoder is total and routes by the label: on any message it returns a value or an error,
  refuses exactly the messages of other namespaces as such, and exactly those of another protocol
  version as such.\<close>

theorem decoders_lawful:
  assumes "msg_wf m"
  shows "lawful NS_Fs m (decode_fs_request m) \<and> lawful NS_Fs m (decode_fs_response m) \<and>
    lawful NS_Driver m (decode_driver_request m) \<and> lawful NS_Driver m (decode_driver_response m) \<and>
    lawful NS_Display m (decode_display_request m) \<and> lawful NS_Display m (decode_display_response m) \<and>
    lawful NS_Mm m (decode_mm_request m) \<and> lawful NS_Mm m (decode_mm_response m) \<and>
    lawful NS_NetBypass m (decode_net_bypass_request m) \<and>
    lawful NS_NetBypass m (decode_net_bypass_response m) \<and>
    lawful NS_Security m (decode_security_request m) \<and>
    lawful NS_Security m (decode_security_response m)"
  using assms by (intro conjI fs_request.dec_lawful fs_response.dec_lawful driver_request.dec_lawful
      driver_response.dec_lawful display_request.dec_lawful display_response.dec_lawful
      mm_request.dec_lawful mm_response.dec_lawful net_bypass_request.dec_lawful
      net_bypass_response.dec_lawful security_request.dec_lawful security_response.dec_lawful)

theorem decoders_lawful_witness:
  "decode_mm_request (encode_fs_request (FsStat 3)) = Err WrongNamespace"
proof -
  have "msg_wf (encode_fs_request (FsStat 3))" "from_label (label (encode_fs_request (FsStat 3))) = Some NS_Fs"
    by (rule fs_request.enc_wf, rule fs_request.enc_label)
  with decoders_lawful [of "encode_fs_request (FsStat 3)"] show ?thesis by (simp add: lawful_def)
qed

end
