(* ===== verification/DeviceManager.thy ===== *)
theory DeviceManager
  imports Prelude
begin

text \<open>
  \<open>subsystems/device-manager/src/lib.rs\<close>: the supervision record of a driver with its restart
  budget, and the log of the requests in flight. The record is a state machine over probe, crash
  and respawn events; the log is an array of optional entries and refines a set of at most 256
  request identifiers.
\<close>

section \<open>Supervision\<close>

definition MAX_RESTARTS_IN_WINDOW :: u32 where "MAX_RESTARTS_IN_WINDOW = 5"
definition FAILURE_WINDOW_NS :: u64 where "FAILURE_WINDOW_NS = 60000000000"

datatype driver_state = Starting | DriverRunning | Restarting | Failed

record supervised =
  d_state :: driver_state
  restarts_in_window :: u32
  window_start_ns :: u64
  lifetime_restarts :: u64

definition supervised_new :: supervised where
  "supervised_new = \<lparr>d_state = Starting, restarts_in_window = 0, window_start_ns = 0,
     lifetime_restarts = 0\<rparr>"

definition on_probe_ok :: "supervised \<Rightarrow> supervised" where
  "on_probe_ok s = s\<lparr>d_state := DriverRunning\<rparr>"

definition on_crash :: "supervised \<Rightarrow> u64 \<Rightarrow> (unit, driver_state) res \<times> supervised" where
  "on_crash s now =
     try_in s (add_or_panic (lifetime_restarts s) 1) (\<lambda>lr.
     let s = s\<lparr>lifetime_restarts := lr\<rparr>;
         s = (if window_start_ns s = 0 \<or> saturating_sub now (window_start_ns s) > FAILURE_WINDOW_NS
              then s\<lparr>window_start_ns := now, restarts_in_window := 0\<rparr> else s)
     in try_in s (add_or_panic (restarts_in_window s) 1) (\<lambda>r.
     let s = s\<lparr>restarts_in_window := r\<rparr>;
         s = s\<lparr>d_state := (if restarts_in_window s > MAX_RESTARTS_IN_WINDOW then Failed else Restarting)\<rparr>
     in (Ok (d_state s), s)))"

definition on_respawn :: "supervised \<Rightarrow> supervised" where
  "on_respawn s = (if d_state s = Restarting then s\<lparr>d_state := Starting\<rparr> else s)"

section \<open>Requests in flight\<close>

definition MAX_IN_FLIGHT_REQUESTS :: nat where "MAX_IN_FLIGHT_REQUESTS = 256"

datatype request_log_error = LogFull

record request_log =
  entries :: "u32 option list"
  log_len :: nat

definition log_new :: request_log where
  "log_new = \<lparr>entries = replicate MAX_IN_FLIGHT_REQUESTS None, log_len = 0\<rparr>"

definition log_is_empty :: "request_log \<Rightarrow> bool" where
  "log_is_empty l \<longleftrightarrow> log_len l = 0"

definition try_insert :: "request_log \<Rightarrow> u32 \<Rightarrow> (request_log_error, unit) res \<times> request_log" where
  "try_insert l i =
     (if \<exists>e \<in> set (flatten (entries l)). e = i then (Ok (), l)
      else if log_len l \<ge> MAX_IN_FLIGHT_REQUESTS then (Err LogFull, l)
      else case first_none (entries l) of
        None \<Rightarrow> (Panic, l)
      | Some k \<Rightarrow> (Ok (), l\<lparr>entries := (entries l)[k := Some i], log_len := log_len l + 1\<rparr>))"

definition ack :: "request_log \<Rightarrow> u32 \<Rightarrow> (request_log_error, unit) res \<times> request_log" where
  "ack l i = (case find_index (\<lambda>e. e = Some i) (entries l) of
     None \<Rightarrow> (Ok (), l)
   | Some k \<Rightarrow> let l = l\<lparr>entries := (entries l)[k := None]\<rparr> in
       if log_len l = 0 then (Panic, l) else (Ok (), l\<lparr>log_len := log_len l - 1\<rparr>))"

definition in_flight :: "request_log \<Rightarrow> u32 list" where
  "in_flight l = flatten (entries l)"

section \<open>The log is a bounded set\<close>

definition log_ok :: "request_log \<Rightarrow> bool" where
  "log_ok l \<longleftrightarrow> length (entries l) = MAX_IN_FLIGHT_REQUESTS \<and>
     log_len l = length (in_flight l) \<and> distinct (in_flight l)"

lemma fill_distinct:
  assumes "distinct (flatten xs)" and "i < length xs" and "xs ! i = None" and "y \<notin> set (flatten xs)"
  shows "distinct (flatten (xs[i := Some y]))"
proof -
  have "set (flatten (xs[i := Some y])) = insert y (set (flatten xs))"
    using mem_flatten_fill [OF assms(2,3)] by blast
  then have "card (set (flatten (xs[i := Some y]))) = length (flatten (xs[i := Some y]))"
    using assms length_flatten_fill [OF assms(2,3), of y] by (simp add: distinct_card)
  then show ?thesis by (rule card_distinct)
qed

lemma clear_distinct:
  assumes "distinct (flatten xs)" and "i < length xs" and "xs ! i = Some y"
  shows "distinct (flatten (xs[i := None]))" and "set (flatten (xs[i := None])) = set (flatten xs) - {y}"
proof -
  let ?A = "set (flatten (xs[i := None]))" and ?S = "set (flatten xs)"
  have len: "Suc (length (flatten (xs[i := None]))) = card ?S"
    using length_flatten_clear [OF assms(2,3)] assms(1) by (simp add: distinct_card)
  have sub: "?A \<subseteq> ?S" using mem_flatten_clear by fast
  have "?S \<subseteq> insert y ?A"
  proof
    fix x assume "x \<in> ?S"
    then obtain j where j: "slot_at xs j = Some x" by (auto simp: mem_flatten_iff)
    show "x \<in> insert y ?A"
    proof (cases "j = i")
      case True
      then show ?thesis using j assms(3) by (simp add: slot_at_Some_iff)
    next
      case False
      then have "slot_at (xs[i := None]) j = Some x" using j by (simp add: slot_at_update)
      then show ?thesis by (auto simp: mem_flatten_iff)
    qed
  qed
  then have "card ?S \<le> card (insert y ?A)" by (intro card_mono) simp_all
  then have "length (flatten (xs[i := None])) \<le> card ?A"
    using len by (cases "y \<in> ?A") (simp_all add: insert_absorb)
  then have card: "card ?A = length (flatten (xs[i := None]))"
    using card_length [of "flatten (xs[i := None])"] by simp
  then show "distinct (flatten (xs[i := None]))" by (rule card_distinct)
  have "y \<notin> ?A"
  proof
    assume "y \<in> ?A"
    then have "?S = ?A" using \<open>?S \<subseteq> insert y ?A\<close> sub by blast
    then show False using len card by simp
  qed
  then show "?A = ?S - {y}" using \<open>?S \<subseteq> insert y ?A\<close> sub by blast
qed

datatype log_op = LogInsert u32 | LogAck u32

fun log_step :: "log_op \<Rightarrow> request_log \<Rightarrow> (request_log_error, unit) res \<times> request_log" where
  "log_step (LogInsert i) l = try_insert l i"
| "log_step (LogAck i) l = ack l i"

text \<open>What the log promises, on the set of outstanding identifiers.\<close>

fun set_step :: "log_op \<Rightarrow> u32 set \<Rightarrow> (request_log_error, unit) res \<times> u32 set" where
  "set_step (LogInsert i) S =
     (if i \<in> S then (Ok (), S)
      else if card S \<ge> MAX_IN_FLIGHT_REQUESTS then (Err LogFull, S)
      else (Ok (), insert i S))"
| "set_step (LogAck i) S = (Ok (), S - {i})"

lemma log_insert_step:
  assumes "log_ok l"
  shows "log_ok (snd (try_insert l i)) \<and>
    set_step (LogInsert i) (set (in_flight l)) = (fst (try_insert l i), set (in_flight (snd (try_insert l i))))"
proof (cases "i \<in> set (in_flight l) \<or> log_len l \<ge> MAX_IN_FLIGHT_REQUESTS")
  case True
  then show ?thesis using assms
    by (auto simp: try_insert_def in_flight_def log_ok_def distinct_card)
next
  case False
  then have free: "log_len l < length (entries l)" using assms by (simp add: log_ok_def)
  obtain k where k: "first_none (entries l) = Some k"
    using length_flatten_full [of "entries l"] free assms
    by (cases "first_none (entries l)") (auto simp: log_ok_def in_flight_def)
  note at = first_none_Some [OF k]
  show ?thesis
    using False k at assms mem_flatten_fill [of k "entries l" _ i]
      fill_distinct [of "entries l" k i] length_flatten_fill [of k "entries l" i]
    by (auto simp: try_insert_def log_ok_def in_flight_def distinct_card)
qed

lemma log_ack_step:
  assumes "log_ok l"
  shows "log_ok (snd (ack l i)) \<and>
    set_step (LogAck i) (set (in_flight l)) = (fst (ack l i), set (in_flight (snd (ack l i))))"
proof (cases "find_index (\<lambda>e. e = Some i) (entries l)")
  case None
  then have "i \<notin> set (in_flight l)" by (auto simp: find_index_None in_flight_def set_flatten)
  then show ?thesis using None assms by (simp add: ack_def)
next
  case (Some k)
  then have at: "k < length (entries l)" "entries l ! k = Some i" using find_index_Some by fast+
  have "log_len l \<noteq> 0"
    using assms length_flatten_clear [OF at] unfolding log_ok_def in_flight_def by linarith
  then show ?thesis
    using Some at assms clear_distinct [of "entries l" k i] length_flatten_clear [OF at]
    by (auto simp: ack_def log_ok_def in_flight_def Let_def)
qed

section \<open>The restart budget\<close>

datatype sup_event = ProbeOk | Crash u64 | Respawn

fun sup_step :: "sup_event \<Rightarrow> supervised \<Rightarrow> supervised" where
  "sup_step ProbeOk s = on_probe_ok s"
| "sup_step (Crash t) s = snd (on_crash s t)"
| "sup_step Respawn s = on_respawn s"

text \<open>How often the manager is told to restart the driver.\<close>

fun restarts :: "sup_event list \<Rightarrow> supervised \<Rightarrow> nat" where
  "restarts [] s = 0"
| "restarts (ev # evs) s = (case ev of Crash t \<Rightarrow> if fst (on_crash s t) = Ok Restarting then 1 else 0 | _ \<Rightarrow> 0)
     + restarts evs (sup_step ev s)"

fun crash_times :: "sup_event list \<Rightarrow> u64 list" where
  "crash_times [] = []"
| "crash_times (Crash t # evs) = t # crash_times evs"
| "crash_times (_ # evs) = crash_times evs"

definition spent :: "supervised \<Rightarrow> nat" where
  "spent s = min 5 (unat (restarts_in_window s))"

definition span :: "u64 \<Rightarrow> u64 \<Rightarrow> nat" where
  "span lo hi = (unat hi - unat lo) div (unat FAILURE_WINDOW_NS + 1)"

lemma calm_steps [simp]:
  "restarts_in_window (on_probe_ok s) = restarts_in_window s"
  "window_start_ns (on_probe_ok s) = window_start_ns s"
  "restarts_in_window (on_respawn s) = restarts_in_window s"
  "window_start_ns (on_respawn s) = window_start_ns s"
  "lifetime_restarts (on_probe_ok s) = lifetime_restarts s"
  "lifetime_restarts (on_respawn s) = lifetime_restarts s"
  by (simp_all add: on_probe_ok_def on_respawn_def)

lemma span_step:
  assumes "unat FAILURE_WINDOW_NS < unat t - unat w" and "t \<le> hi"
  shows "Suc (span t hi) \<le> span w hi"
proof -
  let ?W = "unat FAILURE_WINDOW_NS + 1"
  have "unat t \<le> unat hi" using assms(2) by (simp add: word_le_nat_alt)
  then have "unat hi - unat t + ?W \<le> unat hi - unat w" using assms(1) by linarith
  then have "(unat hi - unat t + ?W) div ?W \<le> (unat hi - unat w) div ?W" by (rule div_le_mono)
  then show ?thesis unfolding span_def by (simp only: div_add_self2)
qed

lemma add_one_or_panic:
  "add_or_panic x 1 = (if unat x + 1 < 2 ^ LENGTH('a) then Ok (x + 1) else Panic)" for x :: "'a::len word"
  using uint_unat_less(1) [of x "1 :: 'a word" "LENGTH('a)"] by (simp add: add_or_panic_def)

definition budget :: "supervised \<Rightarrow> u64 \<Rightarrow> nat" where
  "budget s hi = (5 - spent s) + 5 * span (window_start_ns s) hi"

text \<open>A crash is one of four: the lifetime counter or the window counter overflows, a new window
  opens, or the crash counts in the window that is open.\<close>

lemma on_crash_cases:
  obtains (stuck) "fst (on_crash s t) = Panic" "window_start_ns (snd (on_crash s t)) = window_start_ns s"
      "restarts_in_window (snd (on_crash s t)) = restarts_in_window s"
  | (opens) "window_start_ns s = 0 \<or> FAILURE_WINDOW_NS < saturating_sub t (window_start_ns s)"
      "fst (on_crash s t) = Ok Restarting" "window_start_ns (snd (on_crash s t)) = t"
      "restarts_in_window (snd (on_crash s t)) = 1"
  | (counts) r where "r = restarts_in_window s + 1" "unat r = unat (restarts_in_window s) + 1"
      "\<not> (window_start_ns s = 0 \<or> FAILURE_WINDOW_NS < saturating_sub t (window_start_ns s))"
      "fst (on_crash s t) = Ok (if r > MAX_RESTARTS_IN_WINDOW then Failed else Restarting)"
      "window_start_ns (snd (on_crash s t)) = window_start_ns s"
      "restarts_in_window (snd (on_crash s t)) = r"
proof -
  let ?new = "window_start_ns s = 0 \<or> FAILURE_WINDOW_NS < saturating_sub t (window_start_ns s)"
  consider "\<not> unat (lifetime_restarts s) + 1 < 2 ^ 64"
    | "unat (lifetime_restarts s) + 1 < 2 ^ 64" "?new"
    | "unat (lifetime_restarts s) + 1 < 2 ^ 64" "\<not> ?new" "unat (restarts_in_window s) + 1 < 2 ^ 32"
    | "unat (lifetime_restarts s) + 1 < 2 ^ 64" "\<not> ?new" "\<not> unat (restarts_in_window s) + 1 < 2 ^ 32"
    by blast
  then show thesis
  proof cases
    case 1
    then show ?thesis by (intro stuck) (simp_all add: on_crash_def add_one_or_panic)
  next
    case 2
    then show ?thesis
      by (intro opens) (simp_all add: on_crash_def add_one_or_panic Let_def MAX_RESTARTS_IN_WINDOW_def)
  next
    case 3
    then have "unat (restarts_in_window s + 1) = unat (restarts_in_window s) + 1"
      using unat_add_exact [of "restarts_in_window s" 1] by simp
    then show ?thesis using 3
      by (intro counts [of "restarts_in_window s + 1"]) (simp_all add: on_crash_def add_one_or_panic Let_def)
  next
    case 4
    then show ?thesis by (intro stuck) (simp_all add: on_crash_def add_one_or_panic Let_def)
  qed
qed

lemma crash_budget_step:
  assumes "window_start_ns s \<noteq> 0" and "t \<noteq> 0" and "t \<le> hi"
  shows "window_start_ns (snd (on_crash s t)) \<noteq> 0 \<and>
    (if fst (on_crash s t) = Ok Restarting then 1 else 0) + budget (snd (on_crash s t)) hi \<le> budget s hi"
proof (cases rule: on_crash_cases [of s t])
  case stuck
  then show ?thesis using assms(1) by (simp add: budget_def spent_def)
next
  case opens
  then have "unat FAILURE_WINDOW_NS < unat t - unat (window_start_ns s)"
    using assms(1) by (simp add: word_less_nat_alt unat_saturating_sub)
  from span_step [OF this assms(3)] show ?thesis
    using opens assms(2) by (simp add: budget_def spent_def)
next
  case (counts r)
  have "(MAX_RESTARTS_IN_WINDOW < r) = (5 < unat r)"
    by (simp add: word_less_nat_alt MAX_RESTARTS_IN_WINDOW_def)
  then show ?thesis using counts assms(1)
    by (cases "5 < unat r") (auto simp: budget_def spent_def min_def simp del: One_nat_def)
qed

lemma budget_calm [simp]:
  "budget (on_probe_ok s) hi = budget s hi" "budget (on_respawn s) hi = budget s hi"
  by (simp_all add: budget_def spent_def)

lemma restarts_budget:
  assumes "window_start_ns s \<noteq> 0" and "\<forall>t \<in> set (crash_times evs). t \<noteq> 0 \<and> t \<le> hi"
  shows "restarts evs s \<le> budget s hi"
  using assms
proof (induction evs arbitrary: s)
  case (Cons ev evs)
  show ?case
  proof (cases ev)
    case (Crash t)
    then have "t \<noteq> 0" "t \<le> hi" using Cons.prems(2) by auto
    note step = crash_budget_step [OF Cons.prems(1) this]
    moreover have "restarts evs (snd (on_crash s t)) \<le> budget (snd (on_crash s t)) hi"
      using Cons.IH [of "snd (on_crash s t)"] Cons.prems(2) Crash step by simp
    ultimately show ?thesis using Crash by simp
  qed (use Cons.IH [of "on_probe_ok s"] Cons.IH [of "on_respawn s"] Cons.prems in simp_all)
qed simp

lemma restarts_fresh:
  assumes "window_start_ns s = 0" and "\<forall>t \<in> set (crash_times evs). lo \<le> t \<and> t \<le> hi" and "0 < lo"
  shows "restarts evs s \<le> 5 * Suc (span lo hi)"
  using assms(1,2)
proof (induction evs arbitrary: s)
  case (Cons ev evs)
  show ?case
  proof (cases ev)
    case (Crash t)
    then have t: "lo \<le> t" "t \<le> hi" using Cons.prems(2) by auto
    have "\<forall>t \<in> set (crash_times evs). t \<noteq> 0 \<and> t \<le> hi"
      using Cons.prems(2) Crash assms(3) by auto
    note later = restarts_budget [OF _ this]
    have mono: "span t hi \<le> span lo hi"
      using t(1) by (auto simp: span_def word_le_nat_alt intro: div_le_mono)
    show ?thesis
    proof (cases rule: on_crash_cases [of s t])
      case stuck
      then show ?thesis using Cons.IH [of "snd (on_crash s t)"] Cons.prems Crash by simp
    next
      case opens
      then have "window_start_ns (snd (on_crash s t)) \<noteq> 0" using t(1) assms(3) by auto
      from later [OF this] opens mono Crash show ?thesis by (simp add: budget_def spent_def)
    next
      case (counts r)
      then show ?thesis using Cons.prems(1) by simp
    qed
  qed (use Cons in auto)
qed simp

text \<open>Up to five crashes are always answered with a restart.\<close>

lemma restarts_granted:
  assumes "unat (restarts_in_window s) + length (crash_times evs) \<le> 5"
    and "unat (lifetime_restarts s) + length (crash_times evs) < 2 ^ 64"
  shows "restarts evs s = length (crash_times evs)"
  using assms
proof (induction evs arbitrary: s)
  case (Cons ev evs)
  show ?case
  proof (cases ev)
    case (Crash t)
    let ?s = "snd (on_crash s t)"
    have small: "unat (lifetime_restarts s) + 1 < 2 ^ 64" "unat (restarts_in_window s) < 5"
      using Cons.prems Crash by simp_all
    then have ok: "fst (on_crash s t) \<noteq> Panic" "lifetime_restarts ?s = lifetime_restarts s + 1"
      by (simp_all add: on_crash_def add_one_or_panic Let_def)
    then have life: "unat (lifetime_restarts ?s) = unat (lifetime_restarts s) + 1"
      using small unat_add_exact [of "lifetime_restarts s" 1] by simp
    have "fst (on_crash s t) = Ok Restarting \<and> unat (restarts_in_window ?s) \<le> unat (restarts_in_window s) + 1"
    proof (cases rule: on_crash_cases [of s t])
      case (counts r)
      then have "\<not> MAX_RESTARTS_IN_WINDOW < r"
        using small(2) by (simp add: word_less_nat_alt MAX_RESTARTS_IN_WINDOW_def)
      then show ?thesis using counts by simp
    qed (use ok in simp_all)
    then show ?thesis using Cons.IH [of ?s] Cons.prems Crash life by simp
  qed (use Cons in auto)
qed simp

section \<open>Properties\<close>

text \<open>The request log is a set of at most 256 identifiers: an insertion is idempotent and refused only
  when 256 others are outstanding, an acknowledgement removes exactly its identifier, and neither
  panics, the free slot the insertion expects included.\<close>

theorem request_log_refines:
  assumes "log_ok l"
  shows "log_ok (snd (log_step opn l)) \<and>
    set_step opn (set (in_flight l)) =
      (fst (log_step opn l), set (in_flight (snd (log_step opn l))))"
  using log_insert_step [OF assms] log_ack_step [OF assms] by (cases opn) simp_all

lemma log_new_ok: "log_ok log_new"
  by (simp add: log_ok_def log_new_def in_flight_def)

theorem request_log_refines_witness:
  "fst (log_step (LogInsert 9) log_new) = Ok () \<and> set (in_flight (snd (log_step (LogInsert 9) log_new))) = {9}"
  using request_log_refines [OF log_new_ok, of "LogInsert 9"]
  by (simp add: log_new_def in_flight_def MAX_IN_FLIGHT_REQUESTS_def)



text \<open>The start of the window doubles as the mark that none is open, so crashes at time zero are never
  counted together.\<close>

lemma crashes_at_zero:
  "unat (lifetime_restarts s) + n < 2 ^ 64 \<Longrightarrow> window_start_ns s = 0 \<Longrightarrow> restarts (replicate n (Crash 0)) s = n"
proof (induction n arbitrary: s)
  case (Suc n)
  then have "unat (lifetime_restarts s + 1) = unat (lifetime_restarts s) + 1"
    using unat_add_exact [of "lifetime_restarts s" 1] by simp
  then show ?case using Suc
    by (simp add: on_crash_def add_one_or_panic Let_def MAX_RESTARTS_IN_WINDOW_def)
qed simp

end
