(* ===== verification/VfsRouter.thy ===== *)
theory VfsRouter
  imports Prelude "HOL-Library.Sublist"
begin

text \<open>
  \<open>subsystems/vfs-service/vfs-router/src/lib.rs\<close>: the mount table and its longest-prefix
  resolution. A \<open>str\<close> is the list of its bytes as characters; the only character the code looks
  at is the slash, which is a byte of its own in UTF-8. A path lies under a mount when the mount's
  components are the first components of the path.
\<close>

section \<open>The mount table\<close>

record mount =
  m_prefix :: string
  m_backend :: u32

datatype mount_error = AlreadyMounted | BadPrefix

abbreviation slash :: char where "slash \<equiv> CHR ''/''"

definition trim_end :: "string \<Rightarrow> string" where
  "trim_end p = rev (dropWhile (\<lambda>c. c = slash) (rev p))"

definition normalize :: "string \<Rightarrow> string" where
  "normalize p = (let t = trim_end p in if t = [] then [slash] else t)"

definition path_under :: "string \<Rightarrow> string \<Rightarrow> bool" where
  "path_under path pre \<longleftrightarrow> pre = [slash] \<or> path = pre \<or>
     (take (length pre) path = pre \<and> nth_opt path (length pre) = Some slash)"

definition vfs_mount :: "mount list \<Rightarrow> string \<Rightarrow> u32 \<Rightarrow> (mount_error, unit) res \<times> mount list" where
  "vfs_mount ms pre b =
     (if pre = [] \<or> hd pre \<noteq> slash then (Err BadPrefix, ms)
      else let norm = normalize pre in
        if \<exists>m \<in> set ms. m_prefix m = norm then (Err AlreadyMounted, ms)
        else (Ok (), ms @ [\<lparr>m_prefix = norm, m_backend = b\<rparr>]))"

definition vfs_unmount :: "mount list \<Rightarrow> string \<Rightarrow> bool \<times> mount list" where
  "vfs_unmount ms pre = (let norm = normalize pre; before = length ms;
      ms = filter (\<lambda>m. m_prefix m \<noteq> norm) ms in (length ms \<noteq> before, ms))"

fun resolve_loop :: "string \<Rightarrow> mount list \<Rightarrow> (mount \<times> nat) option \<Rightarrow> (mount \<times> nat) option" where
  "resolve_loop norm [] best = best"
| "resolve_loop norm (m # ms) best = resolve_loop norm ms
     (if path_under norm (m_prefix m) \<and>
         (case best of None \<Rightarrow> True | Some (_, l) \<Rightarrow> length (m_prefix m) > l)
      then Some (m, length (m_prefix m)) else best)"

definition vfs_resolve :: "mount list \<Rightarrow> string \<Rightarrow> u32 option" where
  "vfs_resolve ms path = map_option (\<lambda>(m, _). m_backend m) (resolve_loop (normalize path) ms None)"

section \<open>Components of a path\<close>

fun components :: "string \<Rightarrow> string list" where
  "components [] = [[]]"
| "components (c # cs) = (if c = slash then [] # components cs
     else (c # hd (components cs)) # tl (components cs))"

fun join :: "string list \<Rightarrow> string" where
  "join [] = []"
| "join [x] = x"
| "join (x # xs) = x @ slash # join xs"

lemma components_ne [simp]: "components s \<noteq> []"
  by (induction s) auto

lemma join_Cons: "xs \<noteq> [] \<Longrightarrow> join (x # xs) = x @ slash # join xs"
  by (cases xs) auto

lemma join_components [simp]: "join (components s) = s"
proof (induction s)
  case (Cons c s)
  obtain x xs where x: "components s = x # xs" by (cases "components s") auto
  then show ?case using Cons by (cases xs) (auto simp: join_Cons)
qed simp

lemma join_append: "xs \<noteq> [] \<Longrightarrow> ys \<noteq> [] \<Longrightarrow> join (xs @ ys) = join xs @ slash # join ys"
proof (induction xs)
  case (Cons x xs)
  then show ?case by (cases xs) (simp_all add: join_Cons)
qed simp

lemma components_append: "components (a @ slash # b) = components a @ components b"
  by (induction a) auto

text \<open>The mount \<open>pre\<close> covers a path: it is the root, or its components come first.\<close>

definition covers :: "string \<Rightarrow> string \<Rightarrow> bool" where
  "covers pre path \<longleftrightarrow> pre = [slash] \<or> prefix (components pre) (components path)"

lemma path_under_covers: "path_under path pre = covers pre path"
proof -
  have "(path = pre \<or> take (length pre) path = pre \<and> nth_opt path (length pre) = Some slash) \<longleftrightarrow>
      path = pre \<or> (\<exists>r. path = pre @ slash # r)" (is "?L = ?M")
  proof
    assume ?L
    then show ?M
    proof (elim disjE conjE)
      assume t: "take (length pre) path = pre" and n: "nth_opt path (length pre) = Some slash"
      then have "path = pre @ slash # drop (Suc (length pre)) path"
        using id_take_nth_drop [of "length pre" path] by (simp add: nth_opt_Some_iff)
      then show ?M by blast
    qed simp
  qed (auto simp: nth_opt_Some_iff)
  also have "\<dots> \<longleftrightarrow> prefix (components pre) (components path)" (is "_ = ?R")
  proof
    assume ?M
    then show ?R by (auto simp: components_append)
  next
    assume ?R
    then obtain ys where ys: "components path = components pre @ ys" by (auto simp: prefix_def)
    then have "path = join (components pre @ ys)" by (metis join_components)
    then show ?M using join_append [of "components pre" ys] by (cases "ys = []") auto
  qed
  finally show ?thesis by (auto simp: path_under_def covers_def)
qed

section \<open>Well-formed tables\<close>

definition mount_ok :: "string \<Rightarrow> bool" where
  "mount_ok p \<longleftrightarrow> p \<noteq> [] \<and> hd p = slash \<and> normalize p = p"

definition table_ok :: "mount list \<Rightarrow> bool" where
  "table_ok ms \<longleftrightarrow> distinct (map m_prefix ms) \<and> (\<forall>m \<in> set ms. mount_ok (m_prefix m))"

lemma trim_end_idem [simp]: "trim_end (trim_end p) = trim_end p"
  by (simp add: trim_end_def dropWhile_idem)

lemma trim_end_prefix: "prefix (trim_end p) p"
proof -
  have "suffix (dropWhile (\<lambda>c. c = slash) (rev p)) (rev p)" by (rule suffix_dropWhile)
  then show ?thesis by (metis trim_end_def suffix_to_prefix rev_rev_ident)
qed

lemma normalize_ok:
  assumes "p \<noteq> []" and "hd p = slash"
  shows "mount_ok (normalize p)"
proof (cases "trim_end p = []")
  case True
  have "trim_end [slash] = []" by (simp add: trim_end_def)
  then show ?thesis using True by (simp add: mount_ok_def normalize_def)
next
  case False
  obtain zs where "p = trim_end p @ zs" using trim_end_prefix [of p] by (auto simp: prefix_def)
  then have "hd (trim_end p) = hd p" using False by (metis hd_append2)
  then show ?thesis using False assms by (simp add: mount_ok_def normalize_def Let_def)
qed

datatype vfs_op = VfsMount string u32 | VfsUnmount string

fun vfs_step :: "vfs_op \<Rightarrow> mount list \<Rightarrow> mount list" where
  "vfs_step (VfsMount p b) ms = snd (vfs_mount ms p b)"
| "vfs_step (VfsUnmount p) ms = snd (vfs_unmount ms p)"

lemma table_ok_step: "table_ok ms \<Longrightarrow> table_ok (vfs_step opn ms)"
  using normalize_ok
  by (cases opn) (auto simp: table_ok_def vfs_mount_def vfs_unmount_def Let_def distinct_map_filter)

lemma table_ok_run: "table_ok ms \<Longrightarrow> table_ok (fold vfs_step ops ms)"
  by (induction ops arbitrary: ms) (simp_all add: table_ok_step)

section \<open>Resolution\<close>

definition best_of :: "string \<Rightarrow> mount set \<Rightarrow> (mount \<times> nat) option \<Rightarrow> bool" where
  "best_of path M best \<longleftrightarrow> (case best of
     None \<Rightarrow> \<forall>m \<in> M. \<not> covers (m_prefix m) path
   | Some (m, l) \<Rightarrow> m \<in> M \<and> l = length (m_prefix m) \<and> covers (m_prefix m) path \<and>
       (\<forall>n \<in> M. covers (m_prefix n) path \<longrightarrow> length (m_prefix n) \<le> l))"

lemma resolve_loop_best:
  "best_of path M best \<Longrightarrow> best_of path (M \<union> set ms) (resolve_loop path ms best)"
proof (induction ms arbitrary: M best)
  case (Cons m ms)
  let ?b = "if path_under path (m_prefix m) \<and>
         (case best of None \<Rightarrow> True | Some (_, l) \<Rightarrow> length (m_prefix m) > l)
      then Some (m, length (m_prefix m)) else best"
  have "best_of path (insert m M) ?b"
    using Cons.prems by (auto simp: best_of_def path_under_covers split: option.splits)
  from Cons.IH [OF this] show ?case by simp
qed simp

lemma covers_length:
  assumes "covers a path" and "covers b path" and "mount_ok a" and "mount_ok b"
    and "length a = length b"
  shows "a = b"
proof -
  have under: "prefix x path" if "covers x path" "x \<noteq> [slash]" for x
  proof -
    have "path = x \<or> take (length x) path = x"
      using that unfolding path_under_covers [symmetric] path_under_def by blast
    then show ?thesis
    proof
      assume "take (length x) path = x"
      then show ?thesis using take_is_prefix [of "length x" path] by (rule subst)
    qed simp
  qed
  have one: "x = [slash]" if m: "mount_ok x" "length x = 1" for x
  proof -
    obtain c where "x = [c]" using m(2) by (metis One_nat_def length_0_conv length_Suc_conv)
    then show ?thesis using m(1) by (simp add: mount_ok_def)
  qed
  show ?thesis
  proof (cases "a = [slash] \<or> b = [slash]")
    case True
    then have "length a = 1" using assms(5) by force
    then show ?thesis using one [OF assms(3)] one [OF assms(4)] assms(5) by simp
  next
    case False
    then have "prefix a path" "prefix b path" using under assms(1,2) by simp_all
    then have "prefix a b" using prefix_length_prefix [of a path b] assms(5) by simp
    then show ?thesis using assms(5) by (auto simp: prefix_def)
  qed
qed

lemma resolve_best:
  assumes "table_ok ms"
  shows "case vfs_resolve ms path of
      None \<Rightarrow> \<forall>m \<in> set ms. \<not> covers (m_prefix m) (normalize path)
    | Some b \<Rightarrow> \<exists>m \<in> set ms. m_backend m = b \<and> covers (m_prefix m) (normalize path) \<and>
        (\<forall>n \<in> set ms. covers (m_prefix n) (normalize path) \<longrightarrow>
           n = m \<or> length (m_prefix n) < length (m_prefix m))"
proof -
  have best: "best_of (normalize path) (set ms) (resolve_loop (normalize path) ms None)"
    using resolve_loop_best [of "normalize path" "{}" None ms] by (simp add: best_of_def)
  show ?thesis
  proof (cases "resolve_loop (normalize path) ms None")
    case None
    then show ?thesis using best by (simp add: vfs_resolve_def best_of_def)
  next
    case (Some r)
    obtain m l where r: "r = (m, l)" by fastforce
    then have m: "m \<in> set ms" "covers (m_prefix m) (normalize path)"
      "\<forall>n \<in> set ms. covers (m_prefix n) (normalize path) \<longrightarrow> length (m_prefix n) \<le> length (m_prefix m)"
      using best Some by (auto simp: best_of_def)
    have "n = m" if "n \<in> set ms" "covers (m_prefix n) (normalize path)"
      "\<not> length (m_prefix n) < length (m_prefix m)" for n
    proof -
      have "length (m_prefix n) = length (m_prefix m)" using m(3) that by force
      then have "m_prefix n = m_prefix m"
        using covers_length that(1,2) m(1,2) assms by (auto simp: table_ok_def)
      then show ?thesis
        using assms that(1) m(1) inj_onD [of m_prefix "set ms" n m]
        by (simp add: table_ok_def distinct_map)
    qed
    then show ?thesis using Some r m(1,2) by (auto simp: vfs_resolve_def)
  qed
qed

section \<open>Properties\<close>

text \<open>C26: After any sequence of mounts and unmounts a path is routed to the one mount whose components
  are the longest leading components of the path, every other mount that covers it being strictly
  shorter, and to none exactly when no mount covers it. Neighbours that merely share characters,
  such as a mount of /data and a path /database, are not confused.\<close>

theorem resolve_longest:
  "case vfs_resolve (fold vfs_step ops []) path of
      None \<Rightarrow> \<forall>m \<in> set (fold vfs_step ops []). \<not> covers (m_prefix m) (normalize path)
    | Some b \<Rightarrow> \<exists>m \<in> set (fold vfs_step ops []). m_backend m = b \<and>
        covers (m_prefix m) (normalize path) \<and>
        (\<forall>n \<in> set (fold vfs_step ops []). covers (m_prefix n) (normalize path) \<longrightarrow>
           n = m \<or> length (m_prefix n) < length (m_prefix m))"
  by (rule resolve_best, rule table_ok_run) (simp add: table_ok_def)

definition sample_mounts :: "vfs_op list" where
  "sample_mounts = [VfsMount ''/'' 1, VfsMount ''/data/'' 2]"

theorem resolve_longest_witness:
  "vfs_resolve (fold vfs_step sample_mounts []) ''/data/x'' = Some 2 \<and>
   vfs_resolve (fold vfs_step sample_mounts []) ''/database'' = Some 1 \<and>
   (\<exists>m. m \<in> set (fold vfs_step sample_mounts []) \<and> m_backend m = 2 \<and> covers (m_prefix m) (normalize ''/data/x''))"
proof -
  have "vfs_resolve (fold vfs_step sample_mounts []) ''/data/x'' = Some 2"
    "vfs_resolve (fold vfs_step sample_mounts []) ''/database'' = Some 1" by code_simp+
  with resolve_longest [of sample_mounts "''/data/x''"] show ?thesis by auto
qed

end
