(* ===== verification/Bytes.thy ===== *)
theory Bytes
  imports Prelude
begin

text \<open>
  Words as bytes: \<open>from_le_bytes\<close>, \<open>to_le_bytes\<close> and their big-endian twins for any width,
  the bounds-checked slice reads built from them, and the facts that make them inverse. The image
  loader, the network stack and the virtio drivers share them.
\<close>

section \<open>Conversions\<close>

fun le_word :: "u8 list \<Rightarrow> 'a::len word" where
  "le_word [] = 0"
| "le_word (b # bs) = ucast b OR push_bit 8 (le_word bs)"

fun le_bytes :: "nat \<Rightarrow> 'a::len word \<Rightarrow> u8 list" where
  "le_bytes 0 w = []"
| "le_bytes (Suc n) w = ucast w # le_bytes n (drop_bit 8 w)"

definition be_word :: "u8 list \<Rightarrow> 'a::len word" where
  "be_word bs = le_word (rev bs)"

definition be_bytes :: "nat \<Rightarrow> 'a::len word \<Rightarrow> u8 list" where
  "be_bytes n w = rev (le_bytes n w)"

lemma bit_le_word:
  "bit (le_word bs :: 'a::len word) n \<longleftrightarrow>
     n < LENGTH('a) \<and> n div 8 < length bs \<and> bit (bs ! (n div 8)) (n mod 8)"
proof (induction bs arbitrary: n)
  case (Cons b bs)
  show ?case
  proof (cases "n < 8")
    case True
    then show ?thesis by (auto simp: bit_or_iff bit_ucast_iff bit_push_bit_iff)
  next
    case False
    then have "\<not> bit b n" using bit_imp_le_length [of b n] by auto
    moreover have "n div 8 = Suc ((n - 8) div 8)" "n mod 8 = (n - 8) mod 8"
      using False by (simp_all add: le_div_geq le_mod_geq)
    ultimately show ?thesis
      using False Cons.IH [of "n - 8"] by (auto simp: bit_or_iff bit_ucast_iff bit_push_bit_iff)
  qed
qed simp

lemma length_le_bytes [simp]: "length (le_bytes n w) = n"
  by (induction n arbitrary: w) auto

lemma le_bytes_nth:
  "i < n \<Longrightarrow> le_bytes n w ! i = ucast (drop_bit (8 * i) w)"
proof (induction n arbitrary: w i)
  case (Suc n)
  then show ?case by (cases i) (simp_all add: add.commute)
qed simp

lemma length_be_bytes [simp]: "length (be_bytes n w) = n"
  by (simp add: be_bytes_def)

lemma le_word_bytes:
  assumes "LENGTH('a) \<le> 8 * n"
  shows "le_word (le_bytes n w) = (w :: 'a::len word)"
proof (rule bit_eqI)
  fix k
  have "k div 8 < n" if "k < LENGTH('a)" using that assms by linarith
  then show "bit (le_word (le_bytes n w) :: 'a word) k \<longleftrightarrow> bit w k"
    using bit_imp_le_length [of w k]
    by (auto simp: bit_le_word le_bytes_nth bit_ucast_iff bit_drop_bit_eq)
qed

lemma le_bytes_word:
  assumes "8 * length bs \<le> LENGTH('a)"
  shows "le_bytes (length bs) (le_word bs :: 'a::len word) = bs"
proof (rule nth_equalityI)
  fix i assume "i < length (le_bytes (length bs) (le_word bs :: 'a word))"
  then have i: "i < length bs" by simp
  show "le_bytes (length bs) (le_word bs :: 'a word) ! i = bs ! i"
  proof (rule bit_eqI)
    fix k
    show "bit (le_bytes (length bs) (le_word bs :: 'a word) ! i) k \<longleftrightarrow> bit (bs ! i) k"
      using i assms bit_imp_le_length [of "bs ! i" k]
      by (cases "k < 8") (auto simp: le_bytes_nth bit_ucast_iff bit_drop_bit_eq bit_le_word)
  qed
qed simp

lemma be_word_bytes: "LENGTH('a) \<le> 8 * n \<Longrightarrow> be_word (be_bytes n w) = (w :: 'a::len word)"
  by (simp add: be_word_def be_bytes_def le_word_bytes)

section \<open>Reads at an offset\<close>

text \<open>Indexing past the end of a slice panics.\<close>

definition slice :: "u8 list \<Rightarrow> nat \<Rightarrow> nat \<Rightarrow> ('e, u8 list) res" where
  "slice data off n = (if off + n \<le> length data then Ok (take n (drop off data)) else Panic)"

lemma slice_Ok: "slice data off n = Ok bs \<longleftrightarrow> off + n \<le> length data \<and> bs = take n (drop off data)"
  by (auto simp: slice_def)

lemma slice_Panic: "slice data off n = Panic \<longleftrightarrow> length data < off + n"
  by (simp add: slice_def not_le)

lemma slice_not_Err [simp]: "slice data off n \<noteq> Err e"
  by (simp add: slice_def)

text \<open>Reading a field back out of a concatenation of encoded fields.\<close>

lemma slice_append_left: "off + n \<le> length xs \<Longrightarrow> slice (xs @ ys) off n = slice xs off n"
  by (simp add: slice_def)

lemma slice_append_right:
  "length xs \<le> off \<Longrightarrow> slice (xs @ ys) off n = slice ys (off - length xs) n"
  by (auto simp: slice_def)

lemma slice_whole: "length xs = n \<Longrightarrow> slice xs 0 n = Ok xs"
  by (simp add: slice_def)

lemma slice_field: "length xs = n \<Longrightarrow> slice (xs @ ys) 0 n = Ok xs"
  by (simp add: slice_def)

end
