(* ===== verification/ElfLoader.thy ===== *)
theory ElfLoader
  imports Bytes
begin

text \<open>
  \<open>elf-loader/src/lib.rs\<close>: the parser of ELF64 executables. A slice index past the end is a panic.
  The iterator that \<open>parse_and_collect_load_segments\<close> returns is the record \<open>seg_iter\<close> of what its
  closure captures, and \<open>collect_segments\<close> drives it to its end, which is what both callers do.
  Offsets are natural numbers: the checked arithmetic of the source bounds them before any read.
\<close>

section \<open>Data\<close>

definition ELF_MAGIC :: "u8 list" where "ELF_MAGIC = [0x7F, 0x45, 0x4C, 0x46]"
definition ELFCLASS64 :: u8 where "ELFCLASS64 = 2"
definition ELFDATA2LSB :: u8 where "ELFDATA2LSB = 1"
definition PT_LOAD :: u32 where "PT_LOAD = 1"
definition ET_EXEC :: u16 where "ET_EXEC = 2"

record load_segment =
  file_offset :: u64
  file_size :: u64
  seg_vaddr :: u64
  seg_paddr :: u64
  mem_size :: u64
  seg_flags :: u32

datatype elf_error = TooShort | BadMagic | NotClass64 | NotLittleEndian | NotExecutable
  | WrongMachine | BadProgramHeaderOffset

record elf64_header =
  e_entry :: u64
  e_phoff :: u64
  e_phentsize :: u16
  e_phnum :: u16

section \<open>Parsing\<close>

definition read_u16 :: "u8 list \<Rightarrow> nat \<Rightarrow> (elf_error, u16) res" where
  "read_u16 data off = bind_res (slice data off 2) (\<lambda>b. Ok (le_word b))"

definition read_u32 :: "u8 list \<Rightarrow> nat \<Rightarrow> (elf_error, u32) res" where
  "read_u32 data off = bind_res (slice data off 4) (\<lambda>b. Ok (le_word b))"

definition read_u64 :: "u8 list \<Rightarrow> nat \<Rightarrow> (elf_error, u64) res" where
  "read_u64 data off = bind_res (slice data off 8) (\<lambda>b. Ok (le_word b))"

definition header_parse :: "u8 list \<Rightarrow> u16 \<Rightarrow> (elf_error, elf64_header) res" where
  "header_parse data expected_machine =
     (if length data < 64 then Err TooShort
      else if take 4 data \<noteq> ELF_MAGIC then Err BadMagic
      else if data ! 4 \<noteq> ELFCLASS64 then Err NotClass64
      else if data ! 5 \<noteq> ELFDATA2LSB then Err NotLittleEndian
      else
        bind_res (read_u16 data 16) (\<lambda>e_type.
        bind_res (read_u16 data 18) (\<lambda>e_machine.
        bind_res (read_u64 data 24) (\<lambda>entry.
        bind_res (read_u64 data 32) (\<lambda>phoff.
        bind_res (read_u16 data 54) (\<lambda>phentsize.
        bind_res (read_u16 data 56) (\<lambda>phnum.
          if e_type \<noteq> ET_EXEC then Err NotExecutable
          else if e_machine \<noteq> expected_machine then Err WrongMachine
          else Ok \<lparr>e_entry = entry, e_phoff = phoff, e_phentsize = phentsize,
                 e_phnum = phnum\<rparr>)))))))"

record seg_iter =
  ph_start :: nat
  ph_entry_size :: nat
  ph_count :: nat

definition parse_and_collect_load_segments ::
    "u8 list \<Rightarrow> u16 \<Rightarrow> (elf_error, u64 \<times> seg_iter) res" where
  "parse_and_collect_load_segments data expected_machine =
     bind_res (header_parse data expected_machine) (\<lambda>header.
     let start = unat (e_phoff header);
         esize = unat (e_phentsize header);
         count = unat (e_phnum header) in
     if 2 ^ 64 \<le> esize * count then Err BadProgramHeaderOffset
     else if 2 ^ 64 \<le> start + esize * count then Err BadProgramHeaderOffset
     else if length data < start + esize * count then Err BadProgramHeaderOffset
     else Ok (e_entry header, \<lparr>ph_start = start, ph_entry_size = esize, ph_count = count\<rparr>))"

definition segment_at :: "u8 list \<Rightarrow> seg_iter \<Rightarrow> nat \<Rightarrow> (elf_error, load_segment option) res" where
  "segment_at data it i =
     (let base = ph_start it + i * ph_entry_size it in
      bind_res (read_u32 data base) (\<lambda>p_type.
      if p_type \<noteq> PT_LOAD then Ok None else
      bind_res (read_u32 data (base + 4)) (\<lambda>p_flags.
      bind_res (read_u64 data (base + 8)) (\<lambda>p_offset.
      bind_res (read_u64 data (base + 16)) (\<lambda>p_vaddr.
      bind_res (read_u64 data (base + 24)) (\<lambda>p_paddr.
      bind_res (read_u64 data (base + 32)) (\<lambda>p_filesz.
      bind_res (read_u64 data (base + 40)) (\<lambda>p_memsz.
        Ok (Some \<lparr>file_offset = p_offset, file_size = p_filesz, seg_vaddr = p_vaddr,
              seg_paddr = p_paddr, mem_size = p_memsz, seg_flags = p_flags\<rparr>)))))))))"

fun filter_map_res :: "(nat \<Rightarrow> ('e, 'a option) res) \<Rightarrow> nat list \<Rightarrow> ('e, 'a list) res" where
  "filter_map_res f [] = Ok []"
| "filter_map_res f (i # is) = bind_res (f i) (\<lambda>s.
     bind_res (filter_map_res f is) (\<lambda>rest. Ok (case s of None \<Rightarrow> rest | Some x \<Rightarrow> x # rest)))"

definition collect_segments :: "u8 list \<Rightarrow> seg_iter \<Rightarrow> (elf_error, load_segment list) res" where
  "collect_segments data it = filter_map_res (segment_at data it) [0 ..< ph_count it]"

section \<open>Panics\<close>

lemma read_inside:
  "off + 2 \<le> length data \<Longrightarrow> read_u16 data off = Ok (le_word (take 2 (drop off data)))"
  "off + 4 \<le> length data \<Longrightarrow> read_u32 data off = Ok (le_word (take 4 (drop off data)))"
  "off + 8 \<le> length data \<Longrightarrow> read_u64 data off = Ok (le_word (take 8 (drop off data)))"
  by (simp_all add: read_u16_def read_u32_def read_u64_def slice_def)

lemma header_total: "header_parse data m \<noteq> Panic"
  by (simp add: header_parse_def read_inside)

lemma parse_total: "parse_and_collect_load_segments data m \<noteq> Panic"
  using header_total [of data m]
  by (cases "header_parse data m") (auto simp: parse_and_collect_load_segments_def Let_def)

lemma filter_map_total:
  "(\<And>i. i \<in> set is \<Longrightarrow> \<exists>s. f i = Ok s) \<Longrightarrow> \<exists>r. filter_map_res f is = Ok r"
proof (induction "is")
  case (Cons i "is")
  then obtain s r where "f i = Ok s" "filter_map_res f is = Ok r" by (meson list.set_intros)
  then show ?case by simp
qed simp

lemma parse_bounds:
  assumes "parse_and_collect_load_segments data m = Ok (entry, it)"
  shows "ph_start it + ph_entry_size it * ph_count it \<le> length data"
  using assms
  by (auto simp: parse_and_collect_load_segments_def Let_def bind_res_Ok_iff split: if_splits)

text \<open>The table is inside the file, so reading its entries is safe as soon as an entry is at
  least as long as the 48 bytes the closure looks at.\<close>

lemma collect_total:
  assumes "parse_and_collect_load_segments data m = Ok (entry, it)"
    and "48 \<le> ph_entry_size it"
  shows "\<exists>segs. collect_segments data it = Ok segs"
  unfolding collect_segments_def
proof (rule filter_map_total)
  fix i assume "i \<in> set [0 ..< ph_count it]"
  then have "Suc i * ph_entry_size it \<le> ph_count it * ph_entry_size it"
    by (intro mult_le_mono1) simp
  then have "ph_start it + i * ph_entry_size it + 48 \<le> length data"
    using parse_bounds [OF assms(1)] assms(2) by (simp add: mult.commute)
  then show "\<exists>s. segment_at data it i = Ok s"
    by (simp add: segment_at_def Let_def read_inside)
qed

section \<open>Reading back an image\<close>

text \<open>The writer's side of the format, as the specification: the header of an executable whose
  program header table follows it at offset 64, and the fields the parser does not look at left
  free.\<close>

record phdr =
  p_type :: u32
  p_seg :: load_segment
  p_align :: u64

definition phdr_bytes :: "phdr \<Rightarrow> u8 list" where
  "phdr_bytes p = le_bytes 4 (p_type p) @ le_bytes 4 (seg_flags (p_seg p)) @
     le_bytes 8 (file_offset (p_seg p)) @ le_bytes 8 (seg_vaddr (p_seg p)) @
     le_bytes 8 (seg_paddr (p_seg p)) @ le_bytes 8 (file_size (p_seg p)) @
     le_bytes 8 (mem_size (p_seg p)) @ le_bytes 8 (p_align p)"

record elf_rest =
  ident_rest :: "80 word"
  version :: u32
  shoff_flags_ehsize :: "112 word"
  shdr_fields :: "48 word"
  body :: "u8 list"

definition elf_header_bytes :: "u64 \<Rightarrow> u16 \<Rightarrow> u16 \<Rightarrow> u16 \<Rightarrow> elf_rest \<Rightarrow> u8 list" where
  "elf_header_bytes entry machine phentsize phnum r =
     [0x7F, 0x45, 0x4C, 0x46, 2, 1] @ le_bytes 10 (ident_rest r) @ le_bytes 2 ET_EXEC @
     le_bytes 2 machine @ le_bytes 4 (version r) @ le_bytes 8 entry @ le_bytes 8 (64 :: u64) @
     le_bytes 14 (shoff_flags_ehsize r) @ le_bytes 2 phentsize @ le_bytes 2 phnum @
     le_bytes 6 (shdr_fields r)"

definition elf_image :: "u64 \<Rightarrow> u16 \<Rightarrow> phdr list \<Rightarrow> elf_rest \<Rightarrow> u8 list" where
  "elf_image entry machine phs r =
     elf_header_bytes entry machine 56 (of_nat (length phs)) r @ concat (map phdr_bytes phs) @ body r"

lemma length_phdr_bytes [simp]: "length (phdr_bytes p) = 56"
  by (simp add: phdr_bytes_def)

lemma length_elf_header_bytes [simp]: "length (elf_header_bytes e m sz n r) = 64"
  by (simp add: elf_header_bytes_def)

lemma header_fields:
  "slice (elf_header_bytes e m sz n r) 16 2 = Ok (le_bytes 2 ET_EXEC)"
  "slice (elf_header_bytes e m sz n r) 18 2 = Ok (le_bytes 2 m)"
  "slice (elf_header_bytes e m sz n r) 24 8 = Ok (le_bytes 8 e)"
  "slice (elf_header_bytes e m sz n r) 32 8 = Ok (le_bytes 8 (64 :: u64))"
  "slice (elf_header_bytes e m sz n r) 54 2 = Ok (le_bytes 2 sz)"
  "slice (elf_header_bytes e m sz n r) 56 2 = Ok (le_bytes 2 n)"
  unfolding elf_header_bytes_def
  by (simp_all add: slice_append_right slice_field del: le_bytes.simps append.simps)

lemma header_parse_image:
  "header_parse (elf_header_bytes e m sz n r @ xs) m' =
     (if m = m' then Ok \<lparr>e_entry = e, e_phoff = 64, e_phentsize = sz, e_phnum = n\<rparr>
      else Err WrongMachine)"
proof -
  define h where "h = elf_header_bytes e m sz n r @ xs"
  have magic: "take 4 h = ELF_MAGIC" "h ! 4 = ELFCLASS64" "h ! 5 = ELFDATA2LSB" "\<not> length h < 64"
    by (simp_all add: h_def elf_header_bytes_def ELF_MAGIC_def ELFCLASS64_def ELFDATA2LSB_def
        del: le_bytes.simps)
  have fields: "read_u16 h 16 = Ok ET_EXEC" "read_u16 h 18 = Ok m" "read_u64 h 24 = Ok e"
    "read_u64 h 32 = Ok 64" "read_u16 h 54 = Ok sz" "read_u16 h 56 = Ok n"
    by (simp_all add: h_def read_u16_def read_u64_def slice_append_left header_fields le_word_bytes
        del: le_bytes.simps)
  show ?thesis unfolding h_def [symmetric] by (simp add: header_parse_def magic fields)
qed

text \<open>Nothing checks \<open>e_phentsize\<close>: a file of 64 bytes whose table has one entry of length 0
  passes the bounds check, and the first read of the iterator is past its end.\<close>

lemma short_entries_panic:
  "parse_and_collect_load_segments (elf_header_bytes e m 0 1 r) m =
     Ok (e, \<lparr>ph_start = 64, ph_entry_size = 0, ph_count = 1\<rparr>)"
  "collect_segments (elf_header_bytes e m 0 1 r)
     \<lparr>ph_start = 64, ph_entry_size = 0, ph_count = 1\<rparr> = Panic"
  using header_parse_image [of e m 0 1 r "[]" m] length_elf_header_bytes [of e m 0 1 r]
  by (simp_all add: parse_and_collect_load_segments_def collect_segments_def segment_at_def
      read_u32_def slice_def)

lemma phdr_fields:
  "slice (phdr_bytes p) 0 4 = Ok (le_bytes 4 (p_type p))"
  "slice (phdr_bytes p) 4 4 = Ok (le_bytes 4 (seg_flags (p_seg p)))"
  "slice (phdr_bytes p) 8 8 = Ok (le_bytes 8 (file_offset (p_seg p)))"
  "slice (phdr_bytes p) 16 8 = Ok (le_bytes 8 (seg_vaddr (p_seg p)))"
  "slice (phdr_bytes p) 24 8 = Ok (le_bytes 8 (seg_paddr (p_seg p)))"
  "slice (phdr_bytes p) 32 8 = Ok (le_bytes 8 (file_size (p_seg p)))"
  "slice (phdr_bytes p) 40 8 = Ok (le_bytes 8 (mem_size (p_seg p)))"
  unfolding phdr_bytes_def
  by (simp_all add: slice_append_right slice_field del: le_bytes.simps)

lemma slice_in_phdr:
  assumes "drop base data = phdr_bytes p @ rest" and "off + n \<le> 56"
  shows "slice data (base + off) n = slice (phdr_bytes p) off n"
proof -
  have "length (drop base data) = 56 + length rest" by (simp add: assms(1))
  then have "base + off + n \<le> length data" using assms(2) by simp
  moreover have "drop (base + off) data = drop off (phdr_bytes p @ rest)"
    by (simp add: assms(1) [symmetric] add.commute)
  ultimately show ?thesis using assms(2) by (simp add: slice_def)
qed

definition load_of :: "phdr \<Rightarrow> load_segment option" where
  "load_of p = (if p_type p = PT_LOAD then Some (p_seg p) else None)"

lemma segment_at_phdr:
  assumes "drop (ph_start it + i * ph_entry_size it) data = phdr_bytes p @ rest"
  shows "segment_at data it i = Ok (load_of p)"
proof -
  let ?b = "ph_start it + i * ph_entry_size it"
  have zero: "slice data ?b 4 = slice (phdr_bytes p) 0 4"
    using slice_in_phdr [OF assms, of 0 4] by simp
  show ?thesis
    by (simp add: segment_at_def Let_def read_u32_def read_u64_def zero
        slice_in_phdr [OF assms] phdr_fields le_word_bytes load_of_def del: le_bytes.simps)
qed

lemma drop_concat_phdrs:
  "i < length phs \<Longrightarrow> drop (i * 56) (concat (map phdr_bytes phs) @ b) =
     phdr_bytes (phs ! i) @ concat (map phdr_bytes (drop (Suc i) phs)) @ b"
proof (induction phs arbitrary: i)
  case (Cons p phs)
  then show ?case by (cases i) (simp_all add: add.commute)
qed simp

lemma filter_map_Ok:
  "(\<And>i. i \<in> set is \<Longrightarrow> f i = Ok (g i)) \<Longrightarrow> filter_map_res f is = Ok (List.map_filter g is)"
  by (induction "is") (auto simp: List.map_filter_def split: option.splits)

lemma loads_by_index:
  "List.map_filter (\<lambda>i. load_of (phs ! i)) [0 ..< length phs] =
     map p_seg (filter (\<lambda>p. p_type p = PT_LOAD) phs)"
proof -
  have "List.map_filter (\<lambda>i. load_of (phs ! i)) [0 ..< length phs] =
      List.map_filter load_of (map ((!) phs) [0 ..< length phs])"
    by (simp only: List.map_filter_def filter_map map_map comp_def)
  also have "\<dots> = List.map_filter load_of phs" by (simp only: map_nth)
  also have "\<dots> = map p_seg (filter (\<lambda>p. p_type p = PT_LOAD) phs)"
    by (induction phs) (simp_all add: List.map_filter_def load_of_def)
  finally show ?thesis .
qed

lemma parse_image:
  assumes "length phs < 65536"
  shows "parse_and_collect_load_segments (elf_image entry machine phs r) machine =
    Ok (entry, \<lparr>ph_start = 64, ph_entry_size = 56, ph_count = length phs\<rparr>)"
proof -
  have count: "unat (of_nat (length phs) :: u16) = length phs"
    using assms by (intro unat_of_nat_small) simp
  have sum: "length (concat (map phdr_bytes phs)) = 56 * length phs"
    by (induction phs) simp_all
  have len: "length (elf_image entry machine phs r) = 64 + 56 * length phs + length (body r)"
    by (simp add: elf_image_def sum)
  have head: "header_parse (elf_image entry machine phs r) machine =
      Ok \<lparr>e_entry = entry, e_phoff = 64, e_phentsize = 56, e_phnum = of_nat (length phs)\<rparr>"
    unfolding elf_image_def header_parse_image by simp
  have "\<not> 2 ^ 64 \<le> 56 * length phs" "\<not> 2 ^ 64 \<le> 64 + 56 * length phs" using assms by simp_all
  then show ?thesis
    by (simp add: parse_and_collect_load_segments_def head count len)
qed

text \<open>C33: an executable for the expected machine, with any entry point, any program headers
  (fewer than 65,536) and anything in the fields the loader ignores, is parsed to exactly its entry
  point and exactly its loadable segments, in the order of the table; nothing panics.\<close>

theorem elf_roundtrip:
  assumes "length phs < 65536"
  shows "\<exists>it. parse_and_collect_load_segments (elf_image entry machine phs r) machine =
           Ok (entry, it) \<and>
         collect_segments (elf_image entry machine phs r) it =
           Ok (map p_seg (filter (\<lambda>p. p_type p = PT_LOAD) phs))"
proof -
  let ?data = "elf_image entry machine phs r"
  let ?it = "\<lparr>ph_start = 64, ph_entry_size = 56, ph_count = length phs\<rparr>"
  have seg: "segment_at ?data ?it i = Ok (load_of (phs ! i))" if "i \<in> set [0 ..< length phs]" for i
    using that drop_concat_phdrs [of i phs "body r"]
    by (intro segment_at_phdr) (simp add: elf_image_def)
  have "List.map_filter (\<lambda>i. load_of (phs ! i)) [0 ..< length phs] =
      map p_seg (filter (\<lambda>p. p_type p = PT_LOAD) phs)"
    by (rule loads_by_index)
  then have "collect_segments ?data ?it = Ok (map p_seg (filter (\<lambda>p. p_type p = PT_LOAD) phs))"
    using filter_map_Ok [of "[0 ..< length phs]" "segment_at ?data ?it" "\<lambda>i. load_of (phs ! i)", OF seg]
    by (simp add: collect_segments_def)
  with parse_image [OF assms] show ?thesis by blast
qed

definition sample_elf :: "phdr list" where
  "sample_elf = [\<lparr>p_type = 1, p_seg = \<lparr>file_offset = 176, file_size = 16, seg_vaddr = 0x10000,
       seg_paddr = 0x10000, mem_size = 32, seg_flags = 5\<rparr>, p_align = 4096\<rparr>,
     \<lparr>p_type = 0x6474E551, p_seg = \<lparr>file_offset = 0, file_size = 0, seg_vaddr = 0,
       seg_paddr = 0, mem_size = 0, seg_flags = 6\<rparr>, p_align = 16\<rparr>]"

definition sample_rest :: elf_rest where
  "sample_rest = \<lparr>ident_rest = 0, version = 1, shoff_flags_ehsize = 0, shdr_fields = 0,
     body = replicate 16 0\<rparr>"

lemma elf_roundtrip_witness:
  "\<exists>it. parse_and_collect_load_segments (elf_image 0x10000 62 sample_elf sample_rest) 62 =
       Ok (0x10000, it) \<and>
     collect_segments (elf_image 0x10000 62 sample_elf sample_rest) it =
       Ok [\<lparr>file_offset = 176, file_size = 16, seg_vaddr = 0x10000, seg_paddr = 0x10000,
             mem_size = 32, seg_flags = 5\<rparr>]"
  using elf_roundtrip [of sample_elf "0x10000" 62 sample_rest]
  by (simp add: sample_elf_def PT_LOAD_def)

end
