(* ===== verification/Handles.thy ===== *)
theory Handles
  imports Prelude
begin

text \<open>
  Tables that hand out handles from a counter: the open files of \<open>fs-native\<close> and the surfaces
  of the compositor. The contract is that a step only adds handles from the counter on; then a handle
  that was given out and is gone stays gone.
\<close>

locale handle_table =
  fixes inv :: "'s \<Rightarrow> bool" and live :: "'s \<Rightarrow> u32 \<Rightarrow> bool" and fresh :: "'s \<Rightarrow> u32"
    and step :: "'op \<Rightarrow> 's \<Rightarrow> 's"
  assumes inv_step: "inv s \<Longrightarrow> inv (step opn s)"
    and live_below: "inv s \<Longrightarrow> live s h \<Longrightarrow> h < fresh s"
    and fresh_grows: "inv s \<Longrightarrow> fresh s \<le> fresh (step opn s)"
    and live_step: "inv s \<Longrightarrow> live (step opn s) h \<Longrightarrow> live s h \<or> fresh s \<le> h"
begin

lemma inv_run: "inv s \<Longrightarrow> inv (fold step ops s)"
  by (induction ops arbitrary: s) (simp_all add: inv_step)

lemma gone_stays_gone:
  "inv s \<Longrightarrow> h < fresh s \<Longrightarrow> \<not> live s h \<Longrightarrow> \<not> live (fold step ops s) h"
proof (induction ops arbitrary: s)
  case (Cons opn ops)
  have "h < fresh (step opn s)" using Cons.prems(1,2) fresh_grows [of s opn] by (meson order_less_le_trans)
  moreover have "\<not> live (step opn s) h" using Cons.prems live_step [of s opn h] by auto
  ultimately show ?case using Cons.IH inv_step [OF Cons.prems(1)] by simp
qed simp

text \<open>Whatever was live once is live no more after a step that removed it, for good.\<close>

lemma removed_for_good:
  assumes "inv s" and "live s h" and "\<not> live (step opn s) h"
  shows "\<not> live (fold step ops (step opn s)) h"
proof (rule gone_stays_gone)
  show "inv (step opn s)" using assms(1) by (rule inv_step)
  show "h < fresh (step opn s)"
    using live_below [OF assms(1,2)] fresh_grows [OF assms(1), of opn] by simp
qed (rule assms(3))

end

text \<open>A counter that does not overflow moves up by one.\<close>

lemma counter_next:
  fixes x :: u32
  assumes "add_or_panic x 1 = Ok y"
  shows "y = x + 1" and "x < y"
proof -
  have y: "unat x + unat (1 :: u32) < 2 ^ LENGTH(32)" "y = x + 1"
    using assms unfolding add_or_panic_Ok by simp_all
  then show "y = x + 1" by simp
  have "unat y = unat x + 1" using unat_add_exact [of x 1] y by simp
  then show "x < y" by (simp add: word_less_nat_alt)
qed

end
