(* ===== verification/FsNative.thy ===== *)
theory FsNative
  imports Handles
begin

text \<open>
  \<open>subsystems/vfs-service/fs-native/src/lib.rs\<close>: the in-memory filesystem. The three
  \<open>BTreeMap\<close>s are maps, a file is its list of bytes, and a buffer passed by mutable reference is
  returned next to the result. Sizes of slices are natural numbers; the addition of an offset and a
  length is checked against 64 bits, as the build does.
\<close>

section \<open>The store\<close>

datatype fs_store_error = FsNoFile | FsNoHandle | FsTooLarge | FsNoRight

definition MAX_FILE_BYTES :: nat where "MAX_FILE_BYTES = 1024 * 1024"

record open_file =
  of_file :: u32
  can_write :: bool

record mem_fs =
  fs_index :: "string \<rightharpoonup> u32"
  fs_files :: "u32 \<rightharpoonup> u8 list"
  fs_open :: "u32 \<rightharpoonup> open_file"
  next_file_id :: u32
  next_handle :: u32

definition fs_new :: mem_fs where
  "fs_new = \<lparr>fs_index = Map.empty, fs_files = Map.empty, fs_open = Map.empty,
     next_file_id = 0, next_handle = 0\<rparr>"

definition fs_create :: "mem_fs \<Rightarrow> string \<Rightarrow> (fs_store_error, u32) res \<times> mem_fs" where
  "fs_create fs path = (case fs_index fs path of
     Some i \<Rightarrow> (Ok i, fs\<lparr>fs_files := (fs_files fs)(i \<mapsto> [])\<rparr>)
   | None \<Rightarrow> let i = next_file_id fs in
       try_in fs (add_or_panic i 1) (\<lambda>n.
         (Ok i, fs\<lparr>next_file_id := n, fs_index := (fs_index fs)(path \<mapsto> i),
            fs_files := (fs_files fs)(i \<mapsto> [])\<rparr>)))"

definition fs_open_path :: "mem_fs \<Rightarrow> string \<Rightarrow> bool \<Rightarrow> bool \<Rightarrow> (fs_store_error, u32) res \<times> mem_fs" where
  "fs_open_path fs path write create =
     then_do (case fs_index fs path of
         Some i \<Rightarrow> (Ok i, fs)
       | None \<Rightarrow> if create then fs_create fs path else (Err FsNoFile, fs))
     (\<lambda>file fs. let h = next_handle fs in
       try_in fs (add_or_panic h 1) (\<lambda>n.
         (Ok h, fs\<lparr>next_handle := n,
            fs_open := (fs_open fs)(h \<mapsto> \<lparr>of_file = file, can_write = write\<rparr>)\<rparr>)))"

definition fs_read :: "mem_fs \<Rightarrow> u32 \<Rightarrow> u64 \<Rightarrow> u8 list \<Rightarrow> (fs_store_error, nat) res \<times> u8 list" where
  "fs_read fs h off buf =
     try_in buf (ok_or (fs_open fs h) FsNoHandle) (\<lambda>f.
     try_in buf (ok_or (fs_files fs (of_file f)) FsNoHandle) (\<lambda>data.
     let start = min (unat off) (length data);
         n = min (length buf) (length data - start)
     in (Ok n, take n (drop start data) @ drop n buf)))"

definition fs_write :: "mem_fs \<Rightarrow> u32 \<Rightarrow> u64 \<Rightarrow> u8 list \<Rightarrow> (fs_store_error, nat) res \<times> mem_fs" where
  "fs_write fs h off src =
     try_in fs (ok_or (fs_open fs h) FsNoHandle) (\<lambda>f.
     if \<not> can_write f then (Err FsNoRight, fs) else
     try_in fs (ok_or (fs_files fs (of_file f)) FsNoHandle) (\<lambda>data.
     let fin = unat off + length src in
     if fin \<ge> 2 ^ 64 then (Panic, fs)
     else if fin > MAX_FILE_BYTES then (Err FsTooLarge, fs)
     else let data = (if length data < fin then data @ replicate (fin - length data) 0 else data);
              data = take (unat off) data @ src @ drop fin data
       in (Ok (length src), fs\<lparr>fs_files := (fs_files fs)(of_file f \<mapsto> data)\<rparr>)))"

definition fs_size :: "mem_fs \<Rightarrow> u32 \<Rightarrow> (fs_store_error, nat) res" where
  "fs_size fs h = bind_res (ok_or (fs_open fs h) FsNoHandle) (\<lambda>f.
     Ok (case fs_files fs (of_file f) of Some d \<Rightarrow> length d | None \<Rightarrow> 0))"

definition fs_close :: "mem_fs \<Rightarrow> u32 \<Rightarrow> (fs_store_error, unit) res \<times> mem_fs" where
  "fs_close fs h = (ok_or (map_option (\<lambda>_. ()) (fs_open fs h)) FsNoHandle,
     fs\<lparr>fs_open := (fs_open fs)(h := None)\<rparr>)"

section \<open>Well-formed stores\<close>

definition fs_ok :: "mem_fs \<Rightarrow> bool" where
  "fs_ok fs \<longleftrightarrow> inj_on (fs_index fs) (dom (fs_index fs)) \<and>
     (\<forall>p i. fs_index fs p = Some i \<longrightarrow> fs_files fs i \<noteq> None) \<and>
     (\<forall>i d. fs_files fs i = Some d \<longrightarrow> i < next_file_id fs \<and> length d \<le> MAX_FILE_BYTES) \<and>
     (\<forall>h f. fs_open fs h = Some f \<longrightarrow> h < next_handle fs \<and> fs_files fs (of_file f) \<noteq> None)"

datatype fs_op = FsCreateOp string | FsOpenOp string bool bool | FsWriteOp u32 u64 "u8 list" | FsCloseOp u32

fun fs_step :: "fs_op \<Rightarrow> mem_fs \<Rightarrow> mem_fs" where
  "fs_step (FsCreateOp p) fs = snd (fs_create fs p)"
| "fs_step (FsOpenOp p w c) fs = snd (fs_open_path fs p w c)"
| "fs_step (FsWriteOp h off src) fs = snd (fs_write fs h off src)"
| "fs_step (FsCloseOp h) fs = snd (fs_close fs h)"

lemma fs_create_cases:
  obtains (old) i where "fs_index fs p = Some i"
      "fs_create fs p = (Ok i, fs\<lparr>fs_files := (fs_files fs)(i \<mapsto> [])\<rparr>)"
  | (new) "fs_index fs p = None" "next_file_id fs < next_file_id fs + 1"
      "fs_create fs p = (Ok (next_file_id fs), fs\<lparr>next_file_id := next_file_id fs + 1,
         fs_index := (fs_index fs)(p \<mapsto> next_file_id fs),
         fs_files := (fs_files fs)(next_file_id fs \<mapsto> [])\<rparr>)"
  | (full) "fs_index fs p = None" "fs_create fs p = (Panic, fs)"
proof (cases "fs_index fs p")
  case None
  show thesis
  proof (cases "add_or_panic (next_file_id fs) 1 :: (fs_store_error, u32) res")
    case (Ok n)
    from counter_next [OF Ok] Ok None show ?thesis by (intro new) (simp_all add: fs_create_def Let_def)
  next
    case (Err e)
    then show ?thesis by (simp add: add_or_panic_def split: if_splits)
  next
    case Panic
    then show ?thesis using None by (intro full) (simp_all add: fs_create_def Let_def)
  qed
next
  case (Some i)
  then show ?thesis by (intro old) (simp_all add: fs_create_def)
qed

lemma fs_create_ok:
  assumes "fs_ok fs"
  shows "fs_ok (snd (fs_create fs p))"
proof (cases rule: fs_create_cases [of fs p])
  case (old i)
  then show ?thesis using assms by (auto simp: fs_ok_def)
next
  case new
  have below: "i < next_file_id fs + 1" if "i < next_file_id fs" for i using that new(2) by simp
  have "fs_index fs q \<noteq> Some (next_file_id fs)" for q using assms by (auto simp: fs_ok_def)
  then show ?thesis using assms new below
    by (auto simp: fs_ok_def inj_on_def dom_def)
next
  case full
  then show ?thesis using assms by simp
qed

lemma opened_ok:
  assumes "fs_ok fs" and "fs_files fs i \<noteq> None" and "next_handle fs < next_handle fs + 1"
  shows "fs_ok (fs\<lparr>next_handle := next_handle fs + 1,
    fs_open := (fs_open fs)(next_handle fs \<mapsto> \<lparr>of_file = i, can_write = w\<rparr>)\<rparr>)"
proof -
  have "h < next_handle fs + 1" if "h < next_handle fs" for h using that assms(3) by simp
  then show ?thesis using assms by (auto simp: fs_ok_def)
qed

text \<open>Opening is finding or making the file, then handing out the counter.\<close>

lemma fs_open_cases:
  assumes "fs_ok fs"
  obtains (opened) fs' i where "fs_ok fs'" "fs_index fs' p = Some i" "fs_files fs' i \<noteq> None"
      "next_handle fs' = next_handle fs" "fs_open fs' = fs_open fs" "next_handle fs < next_handle fs + 1"
      "fs_open_path fs p w c = (Ok (next_handle fs), fs'\<lparr>next_handle := next_handle fs + 1,
         fs_open := (fs_open fs)(next_handle fs \<mapsto> \<lparr>of_file = i, can_write = w\<rparr>)\<rparr>)"
  | (failed) r fs' where "fs_open_path fs p w c = (r, fs')" "fs_ok fs'" "fs_open fs' = fs_open fs"
      "next_handle fs' = next_handle fs" "r = Panic \<or> r = Err FsNoFile \<and> fs' = fs \<and> fs_index fs p = None \<and> \<not> c"
proof -
  have open_it: thesis if ok: "fs_ok fs'" "fs_index fs' p = Some i" "fs_files fs' i \<noteq> None"
      "next_handle fs' = next_handle fs" "fs_open fs' = fs_open fs"
    and eq: "fs_open_path fs p w c = (let h = next_handle fs' in
       try_in fs' (add_or_panic h 1) (\<lambda>n. (Ok h, fs'\<lparr>next_handle := n,
            fs_open := (fs_open fs')(h \<mapsto> \<lparr>of_file = i, can_write = w\<rparr>)\<rparr>)))" for fs' i
  proof (cases "add_or_panic (next_handle fs) 1 :: (fs_store_error, u32) res")
    case (Ok n)
    from counter_next [OF Ok] Ok show ?thesis by (intro opened [OF ok]) (simp_all add: eq ok Let_def)
  next
    case (Err e)
    then show ?thesis by (simp add: add_or_panic_def split: if_splits)
  next
    case Panic
    then show ?thesis using ok by (intro failed [of Panic fs']) (simp_all add: eq Let_def)
  qed
  show thesis
  proof (cases "fs_index fs p")
    case (Some i)
    then show ?thesis using assms
      by (intro open_it [of fs i]) (auto simp: fs_open_path_def fs_ok_def)
  next
    case None
    show ?thesis
    proof (cases c)
      case False
      then show ?thesis using None assms
        by (intro failed [of "Err FsNoFile" fs]) (simp_all add: fs_open_path_def)
    next
      case True
      note created = fs_create_ok [OF assms, of p]
      show ?thesis
      proof (cases rule: fs_create_cases [of fs p])
        case (old i)
        then show ?thesis using None by simp
      next
        case new
        then show ?thesis using None True created
          by (intro open_it [of "snd (fs_create fs p)" "next_file_id fs"]) (simp_all add: fs_open_path_def)
      next
        case full
        then show ?thesis using None True assms
          by (intro failed [of Panic fs]) (simp_all add: fs_open_path_def)
      qed
    qed
  qed
qed

section \<open>Writes\<close>

text \<open>A write as a function on contents: the file grows with zeros up to the end of the write, and the
  bytes of the source replace those at the offset.\<close>

definition splice :: "u8 list \<Rightarrow> nat \<Rightarrow> u8 list \<Rightarrow> u8 list" where
  "splice data off src = (let data = data @ replicate (off + length src - length data) 0
     in take off data @ src @ drop (off + length src) data)"

lemma length_splice: "length (splice data off src) = max (length data) (off + length src)"
  by (simp add: splice_def Let_def)

lemma nth_splice:
  assumes "i < max (length data) (off + length src)"
  shows "splice data off src ! i = (if off \<le> i \<and> i < off + length src then src ! (i - off)
    else if i < length data then data ! i else 0)"
  using assms by (auto simp: splice_def Let_def nth_append less_diff_conv2 not_less min_def)

lemma splice_read: "take (length src) (drop off (splice data off src)) = src"
  by (simp add: splice_def Let_def)

lemma fs_write_cases:
  assumes "fs_ok fs"
  obtains (written) f data where "fs_open fs h = Some f" "can_write f"
      "fs_files fs (of_file f) = Some data" "unat off + length src \<le> MAX_FILE_BYTES"
      "fs_write fs h off src =
         (Ok (length src), fs\<lparr>fs_files := (fs_files fs)(of_file f \<mapsto> splice data (unat off) src)\<rparr>)"
  | (closed) "fs_open fs h = None" "fs_write fs h off src = (Err FsNoHandle, fs)"
  | (readonly) f where "fs_open fs h = Some f" "\<not> can_write f" "fs_write fs h off src = (Err FsNoRight, fs)"
  | (large) f where "fs_open fs h = Some f" "can_write f" "MAX_FILE_BYTES < unat off + length src"
      "unat off + length src < 2 ^ 64" "fs_write fs h off src = (Err FsTooLarge, fs)"
  | (wraps) f where "fs_open fs h = Some f" "can_write f" "2 ^ 64 \<le> unat off + length src"
      "fs_write fs h off src = (Panic, fs)"
proof (cases "fs_open fs h")
  case None
  then show ?thesis by (intro closed) (simp_all add: fs_write_def)
next
  case (Some f)
  show ?thesis
  proof (cases "can_write f")
    case False
    then show ?thesis using Some by (intro readonly [of f]) (simp_all add: fs_write_def)
  next
    case True
    have "fs_files fs (of_file f) \<noteq> None" using assms Some unfolding fs_ok_def by blast
    then obtain data where data: "fs_files fs (of_file f) = Some data" by blast
    note w = fs_write_def Let_def Some True data
    consider "2 ^ 64 \<le> unat off + length src" | "MAX_FILE_BYTES < unat off + length src" "unat off + length src < 2 ^ 64"
      | "unat off + length src \<le> MAX_FILE_BYTES" by linarith
    then show ?thesis
    proof cases
      case 1
      then show ?thesis using Some True by (intro wraps [of f]) (simp_all add: w)
    next
      case 2
      then show ?thesis using Some True by (intro large [of f]) (simp_all add: w)
    next
      case 3
      have "MAX_FILE_BYTES < 2 ^ 64" by (simp add: MAX_FILE_BYTES_def)
      then have n: "unat off + length src < 2 ^ 64" using 3 by simp
      have "data @ replicate (unat off + length src - length data) 0 =
          (if length data < unat off + length src then data @ replicate (unat off + length src - length data) 0 else data)"
        by simp
      then show ?thesis using 3 n Some True data
        by (intro written [of f data]) (simp_all add: w splice_def)
    qed
  qed
qed

lemma splice_small:
  "length data \<le> MAX_FILE_BYTES \<Longrightarrow> off + length src \<le> MAX_FILE_BYTES \<Longrightarrow>
     length (splice data off src) \<le> MAX_FILE_BYTES"
  by (simp add: length_splice)

lemma fs_step_ok:
  assumes "fs_ok fs"
  shows "fs_ok (fs_step opn fs)"
proof (cases opn)
  case (FsCreateOp p)
  then show ?thesis using fs_create_ok [OF assms] by simp
next
  case (FsOpenOp p w c)
  show ?thesis
  proof (cases rule: fs_open_cases [OF assms, of p w c])
    case (1 fs' i)
    then have "fs_ok (fs'\<lparr>next_handle := next_handle fs' + 1,
        fs_open := (fs_open fs')(next_handle fs' \<mapsto> \<lparr>of_file = i, can_write = w\<rparr>)\<rparr>)"
      by (intro opened_ok) simp_all
    then show ?thesis using 1 FsOpenOp by simp
  qed (use FsOpenOp in simp)
next
  case (FsWriteOp h off src)
  show ?thesis
  proof (cases rule: fs_write_cases [OF assms, of h off src])
    case (1 f data)
    then have "length (splice data (unat off) src) \<le> MAX_FILE_BYTES"
      using assms by (intro splice_small) (auto simp: fs_ok_def)
    then show ?thesis using 1 assms FsWriteOp by (auto simp: fs_ok_def)
  qed (use assms FsWriteOp in simp_all)
next
  case (FsCloseOp h)
  then show ?thesis using assms by (auto simp: fs_ok_def fs_close_def)
qed

lemma fs_run_ok: "fs_ok fs \<Longrightarrow> fs_ok (fold fs_step ops fs)"
  by (induction ops arbitrary: fs) (simp_all add: fs_step_ok)

section \<open>Handles\<close>

definition fs_live :: "mem_fs \<Rightarrow> u32 \<Rightarrow> bool" where
  "fs_live fs h \<longleftrightarrow> fs_open fs h \<noteq> None"

lemma fs_open_other [simp]:
  "fs_open (snd (fs_create fs p)) = fs_open fs" "next_handle (snd (fs_create fs p)) = next_handle fs"
  by (cases rule: fs_create_cases [of fs p]; simp)+

lemma fs_write_other:
  assumes "fs_ok fs"
  shows "fs_open (snd (fs_write fs h off src)) = fs_open fs \<and>
    next_handle (snd (fs_write fs h off src)) = next_handle fs"
  by (cases rule: fs_write_cases [OF assms, of h off src]) simp_all

lemma fs_handles:
  assumes "fs_ok fs"
  shows "next_handle fs \<le> next_handle (fs_step opn fs)"
    and "fs_live (fs_step opn fs) h \<Longrightarrow> fs_live fs h \<or> next_handle fs \<le> h"
proof -
  have "next_handle fs \<le> next_handle (fs_step opn fs) \<and>
    (fs_live (fs_step opn fs) h \<longrightarrow> fs_live fs h \<or> next_handle fs \<le> h)"
  proof (cases opn)
    case (FsOpenOp p w c)
    then show ?thesis
      by (cases rule: fs_open_cases [OF assms, of p w c]) (auto simp: fs_live_def)
  next
    case (FsWriteOp g off src)
    then show ?thesis using fs_write_other [OF assms] by (simp add: fs_live_def)
  qed (auto simp: fs_live_def fs_close_def split: if_splits)
  then show "next_handle fs \<le> next_handle (fs_step opn fs)"
    "fs_live (fs_step opn fs) h \<Longrightarrow> fs_live fs h \<or> next_handle fs \<le> h" by blast+
qed

interpretation fs_handle: handle_table fs_ok fs_live next_handle fs_step
  by unfold_locales (use fs_step_ok fs_handles in \<open>auto simp: fs_live_def fs_ok_def\<close>)

lemma fs_new_ok: "fs_ok fs_new"
  by (simp add: fs_ok_def fs_new_def)

section \<open>Properties\<close>

lemma fs_read_at:
  assumes "fs_open fs g = Some k" and "fs_files fs (of_file k) = Some data"
    and "unat off + length buf \<le> length data"
  shows "fs_read fs g off buf = (Ok (length buf), take (length buf) (drop (unat off) data))"
  using assms by (simp add: fs_read_def Let_def)

text \<open>A write through a writable handle that stays within the size cap succeeds with the length of its
  source and splices exactly those bytes into its file, growing it with zeros; no other file, name or
  handle changes; and reading the same range through any handle on that file gives the bytes back.\<close>

theorem write_then_read:
  assumes "fs_ok fs" and "fs_open fs h = Some f" and "can_write f"
    and "unat off + length src \<le> MAX_FILE_BYTES"
    and "fs_open fs g = Some k" and "of_file k = of_file f"
  shows "\<exists>data fs'. fs_files fs (of_file f) = Some data \<and>
    fs_write fs h off src = (Ok (length src), fs') \<and> fs_ok fs' \<and>
    fs' = fs\<lparr>fs_files := (fs_files fs)(of_file f \<mapsto> splice data (unat off) src)\<rparr> \<and>
    fs_read fs' g off (replicate (length src) 0) = (Ok (length src), src)"
proof -
  have "MAX_FILE_BYTES < 2 ^ 64" by (simp add: MAX_FILE_BYTES_def)
  then show ?thesis
  proof (cases rule: fs_write_cases [OF assms(1), of h off src])
    case (1 f' data)
    let ?fs = "fs\<lparr>fs_files := (fs_files fs)(of_file f \<mapsto> splice data (unat off) src)\<rparr>"
    have "fs_ok ?fs" using fs_step_ok [OF assms(1), of "FsWriteOp h off src"] 1 assms(2) by simp
    moreover have "fs_read ?fs g off (replicate (length src) 0) = (Ok (length src), src)"
      using fs_read_at [of ?fs g k "splice data (unat off) src" off "replicate (length src) 0"] assms(5,6)
      by (simp add: length_splice splice_read)
    ultimately show ?thesis using 1 assms(2) by auto
  qed (use assms in auto)
qed

theorem write_then_read_witness:
  "let fs = snd (fs_open_path fs_new ''/a'' True True) in
     fs_read (snd (fs_write fs 0 2 [7, 8])) 0 2 [0, 0] = (Ok 2, [7, 8])"
proof -
  let ?fs = "snd (fs_open_path fs_new ''/a'' True True)"
  have ok: "fs_ok ?fs" using fs_step_ok [OF fs_new_ok, of "FsOpenOp ''/a'' True True"] by simp
  have f: "fs_open ?fs 0 = Some \<lparr>of_file = 0, can_write = True\<rparr>" by code_simp
  have l: "unat (2 :: u64) + length [7, 8 :: u8] \<le> MAX_FILE_BYTES" by (simp add: MAX_FILE_BYTES_def)
  have b: "length [7, 8 :: u8] = 2" "replicate 2 0 = [0, 0 :: u8]" by (simp_all add: numeral_2_eq_2)
  have w: "can_write \<lparr>of_file = 0, can_write = True\<rparr>" by simp
  from write_then_read [OF ok f w l f refl, unfolded b] show ?thesis by (auto simp only: Let_def snd_conv)
qed

text \<open>An offset near the top of the address range makes the end of the write wrap, which the build
  turns into a panic where the module promises \<open>TooLarge\<close>.\<close>

lemma write_wraps:
  assumes "fs_ok fs" and "fs_open fs h = Some f" and "can_write f" and "2 ^ 64 \<le> unat off + length src"
  shows "fst (fs_write fs h off src) = Panic"
proof -
  have "MAX_FILE_BYTES < 2 ^ 64" by (simp add: MAX_FILE_BYTES_def)
  then show ?thesis
    by (cases rule: fs_write_cases [OF assms(1), of h off src]) (use assms in auto)
qed

end
