(* ===== verification/Compositor.thy ===== *)
theory Compositor
  imports FsNative
begin

text \<open>
  \<open>subsystems/compositor/src/lib.rs\<close>: the surface table. Like the open files of
  \<open>fs-native\<close>, its handles come from a counter; the property on handles at the end is that of
  both services.
\<close>

section \<open>Surfaces\<close>

datatype compositor_error = BadSurface

record surface_state =
  s_width :: u32
  s_height :: u32
  commit_count :: u32

definition surface_default :: surface_state where
  "surface_default = \<lparr>s_width = 0, s_height = 0, commit_count = 0\<rparr>"

record compositor =
  surfaces :: "u32 \<rightharpoonup> surface_state"
  next_surface_id :: u32

definition compositor_new :: compositor where
  "compositor_new = \<lparr>surfaces = Map.empty, next_surface_id = 0\<rparr>"

definition create_surface :: "compositor \<Rightarrow> (compositor_error, u32) res \<times> compositor" where
  "create_surface c = (let i = next_surface_id c in
     try_in c (add_or_panic i 1) (\<lambda>n.
       (Ok i, c\<lparr>next_surface_id := n, surfaces := (surfaces c)(i \<mapsto> surface_default)\<rparr>)))"

definition commit_buffer ::
  "compositor \<Rightarrow> u32 \<Rightarrow> u32 \<Rightarrow> u32 \<Rightarrow> (compositor_error, unit) res \<times> compositor" where
  "commit_buffer c i w h =
     try_in c (ok_or (surfaces c i) BadSurface) (\<lambda>s.
     let s = s\<lparr>s_width := w, s_height := h\<rparr>; c = c\<lparr>surfaces := (surfaces c)(i \<mapsto> s)\<rparr> in
     try_in c (add_or_panic (commit_count s) 1) (\<lambda>n.
       (Ok (), c\<lparr>surfaces := (surfaces c)(i \<mapsto> s\<lparr>commit_count := n\<rparr>)\<rparr>)))"

definition destroy_surface :: "compositor \<Rightarrow> u32 \<Rightarrow> (compositor_error, unit) res \<times> compositor" where
  "destroy_surface c i = (ok_or (map_option (\<lambda>_. ()) (surfaces c i)) BadSurface,
     c\<lparr>surfaces := (surfaces c)(i := None)\<rparr>)"

section \<open>The table of surfaces is a handle table\<close>

datatype surface_op = CreateSurface | CommitBuffer u32 u32 u32 | DestroySurface u32

fun surface_step :: "surface_op \<Rightarrow> compositor \<Rightarrow> compositor" where
  "surface_step CreateSurface c = snd (create_surface c)"
| "surface_step (CommitBuffer i w h) c = snd (commit_buffer c i w h)"
| "surface_step (DestroySurface i) c = snd (destroy_surface c i)"

definition surfaces_ok :: "compositor \<Rightarrow> bool" where
  "surfaces_ok c \<longleftrightarrow> (\<forall>i s. surfaces c i = Some s \<longrightarrow> i < next_surface_id c)"

definition surface_live :: "compositor \<Rightarrow> u32 \<Rightarrow> bool" where
  "surface_live c i \<longleftrightarrow> surfaces c i \<noteq> None"

lemma create_surface_cases:
  obtains (made) "next_surface_id c < next_surface_id c + 1"
      "create_surface c = (Ok (next_surface_id c), c\<lparr>next_surface_id := next_surface_id c + 1,
         surfaces := (surfaces c)(next_surface_id c \<mapsto> surface_default)\<rparr>)"
  | (full) "create_surface c = (Panic, c)"
proof (cases "add_or_panic (next_surface_id c) 1 :: (compositor_error, u32) res")
  case (Ok n)
  from counter_next [OF Ok] Ok show ?thesis by (intro made) (simp_all add: create_surface_def Let_def)
next
  case (Err e)
  then show ?thesis by (simp add: add_or_panic_def split: if_splits)
next
  case Panic
  then show ?thesis by (intro full) (simp add: create_surface_def Let_def)
qed

text \<open>A commit changes the state of one live surface and nothing else, even when its counter is full.\<close>

lemma commit_buffer_live:
  "next_surface_id (snd (commit_buffer c i w h)) = next_surface_id c \<and>
   surface_live (snd (commit_buffer c i w h)) j = surface_live c j"
  by (cases "surfaces c i"; cases "add_or_panic (commit_count (the (surfaces c i))) 1 :: (compositor_error, u32) res")
    (auto simp: commit_buffer_def surface_live_def Let_def)

lemma surfaces_ok_live: "surfaces_ok c \<longleftrightarrow> (\<forall>i. surface_live c i \<longrightarrow> i < next_surface_id c)"
  by (auto simp: surfaces_ok_def surface_live_def)

lemma surface_steps:
  assumes "surfaces_ok c"
  shows "surfaces_ok (surface_step opn c) \<and> next_surface_id c \<le> next_surface_id (surface_step opn c) \<and>
    (surface_live (surface_step opn c) j \<longrightarrow> surface_live c j \<or> next_surface_id c \<le> j)"
proof (cases opn)
  case CreateSurface
  show ?thesis
  proof (cases rule: create_surface_cases [of c])
    case made
    have "i < next_surface_id c + 1" if "i < next_surface_id c" for i using that made(1) by simp
    then show ?thesis using made assms CreateSurface by (auto simp: surfaces_ok_def surface_live_def)
  qed (use assms CreateSurface in simp)
next
  case (CommitBuffer i w h)
  then show ?thesis using assms commit_buffer_live [of c i w h] by (simp add: surfaces_ok_live)
next
  case (DestroySurface i)
  then show ?thesis using assms
    by (auto simp: surfaces_ok_def surface_live_def destroy_surface_def split: if_splits)
qed

interpretation surface_handle: handle_table surfaces_ok surface_live next_surface_id surface_step
  by unfold_locales (use surface_steps in \<open>auto simp: surfaces_ok_live\<close>)

lemma compositor_new_ok: "surfaces_ok compositor_new"
  by (simp add: surfaces_ok_def compositor_new_def)

section \<open>Properties\<close>

text \<open>Handles are never reused. Once a file handle has been closed, or a surface destroyed, no later
  sequence of operations makes it resolve again: every use of it is refused as a bad handle.\<close>

theorem handles_not_reused:
  assumes "fst (fs_close (fold fs_step before fs_new) h) = Ok ()"
    and "fst (destroy_surface (fold surface_step sbefore compositor_new) i) = Ok ()"
  shows "let fs = fold fs_step later (snd (fs_close (fold fs_step before fs_new) h));
      c = fold surface_step slater (snd (destroy_surface (fold surface_step sbefore compositor_new) i)) in
    fs_write fs h off src = (Err FsNoHandle, fs) \<and> fst (fs_read fs h off buf) = Err FsNoHandle \<and>
    commit_buffer c i w ht = (Err BadSurface, c)"
proof -
  let ?fs = "fold fs_step before fs_new" and ?c = "fold surface_step sbefore compositor_new"
  have "\<not> fs_live (fold fs_step later (fs_step (FsCloseOp h) ?fs)) h"
  proof (rule fs_handle.removed_for_good)
    show "fs_ok ?fs" by (rule fs_handle.inv_run, rule fs_new_ok)
    show "fs_live ?fs h" using assms(1) by (cases "fs_open ?fs h") (simp_all add: fs_close_def fs_live_def)
  qed (simp add: fs_live_def fs_close_def)
  moreover have "\<not> surface_live (fold surface_step slater (surface_step (DestroySurface i) ?c)) i"
  proof (rule surface_handle.removed_for_good)
    show "surfaces_ok ?c" by (rule surface_handle.inv_run, rule compositor_new_ok)
    show "surface_live ?c i"
      using assms(2) by (cases "surfaces ?c i") (simp_all add: destroy_surface_def surface_live_def)
  qed (simp add: surface_live_def destroy_surface_def)
  ultimately show ?thesis
    by (simp add: fs_live_def surface_live_def fs_write_def fs_read_def commit_buffer_def Let_def)
qed

theorem handles_not_reused_witness:
  "commit_buffer (snd (create_surface (snd (destroy_surface (snd (create_surface compositor_new)) 0)))) 0 1 1 =
     (Err BadSurface, snd (create_surface (snd (destroy_surface (snd (create_surface compositor_new)) 0))))"
proof -
  have a: "fst (fs_close (fold fs_step [FsOpenOp ''/a'' True True] fs_new) 0) = Ok ()" by code_simp
  have b: "fst (destroy_surface (fold surface_step [CreateSurface] compositor_new) 0) = Ok ()" by code_simp
  from handles_not_reused [OF a b, of "[]" "[CreateSurface]" 0 "[]" "[]" 1 1]
  show ?thesis by (simp add: Let_def)
qed

end
