(* ===== verification/MmService.thy ===== *)
theory MmService
  imports HwManifest "HOL-Library.Product_Lexorder"
begin

text \<open>
  \<open>subsystems/mm-service/src/lib.rs\<close>: the memory policy service. Three registries (processes,
  swappable regions, compute pools), each a list updated in place by key, and three choices, each a
  \<open>reduce\<close> over the registered entries with a comparison of its own. The choices are proved to
  take the least entry of a lexicographic key, once, for any comparison that agrees with a key.
\<close>

section \<open>Choosing by a key\<close>

text \<open>\<open>Iterator::reduce\<close>\<close>

fun reduce :: "('a \<Rightarrow> 'a \<Rightarrow> 'a) \<Rightarrow> 'a list \<Rightarrow> 'a option" where
  "reduce f [] = None"
| "reduce f (x # xs) = Some (foldl f x xs)"

locale selection =
  fixes beats :: "'a \<Rightarrow> 'a \<Rightarrow> bool" and key :: "'a \<Rightarrow> 'k :: linorder"
  assumes beats_key: "beats b a \<longleftrightarrow> key b < key a"
begin

definition least :: "'a list \<Rightarrow> 'a \<Rightarrow> bool" where
  "least xs x \<longleftrightarrow> x \<in> set xs \<and> (\<forall>y \<in> set xs. key x \<le> key y)"

lemma foldl_least: "least (a # xs) (foldl (\<lambda>a b. if beats b a then b else a) a xs)"
proof (induction xs arbitrary: a)
  case (Cons b xs)
  let ?c = "if beats b a then b else a"
  have "key ?c \<le> key a" "key ?c \<le> key b" by (auto simp: beats_key)
  then show ?case using Cons [of ?c] by (auto simp: least_def intro: order_trans)
qed (simp add: least_def)

lemma reduce_least:
  "reduce (\<lambda>a b. if beats b a then b else a) xs = Some x \<Longrightarrow> least xs x"
  using foldl_least by (cases xs) auto

lemma reduce_None: "reduce (\<lambda>a b. if beats b a then b else a) xs = None \<longleftrightarrow> xs = []"
  by (cases xs) auto

end

section \<open>Out of memory\<close>

datatype mm_reclaim_class = Protected | Normal | Sacrificial

record proc_mem_info =
  pm_thread :: u32
  resident_bytes :: u64
  pm_class :: mm_reclaim_class

definition footprint_beats :: "proc_mem_info \<Rightarrow> proc_mem_info \<Rightarrow> bool" where
  "footprint_beats b a \<longleftrightarrow> resident_bytes b > resident_bytes a \<or>
     (resident_bytes b = resident_bytes a \<and> pm_thread b < pm_thread a)"

definition best_by_footprint :: "proc_mem_info list \<Rightarrow> proc_mem_info option" where
  "best_by_footprint = reduce (\<lambda>a b. if footprint_beats b a then b else a)"

fun oom_of_classes :: "mm_reclaim_class list \<Rightarrow> proc_mem_info list \<Rightarrow> u32 option" where
  "oom_of_classes [] procs = None"
| "oom_of_classes (c # cs) procs = (case best_by_footprint (filter (\<lambda>p. pm_class p = c) procs) of
     Some p \<Rightarrow> Some (pm_thread p) | None \<Rightarrow> oom_of_classes cs procs)"

definition choose_oom_victim :: "proc_mem_info list \<Rightarrow> u32 option" where
  "choose_oom_victim = oom_of_classes [Sacrificial, Normal, Protected]"

text \<open>\<open>Iterator::sum\<close> panics when the sum overflows, with the overflow checks of the build.\<close>

fun sum_from :: "u64 \<Rightarrow> proc_mem_info list \<Rightarrow> ('e, u64) res" where
  "sum_from acc [] = Ok acc"
| "sum_from acc (p # ps) = bind_res (add_or_panic acc (resident_bytes p)) (\<lambda>acc. sum_from acc ps)"

definition total_resident :: "proc_mem_info list \<Rightarrow> ('e, u64) res" where
  "total_resident procs = sum_from 0 procs"

text \<open>\<open>MemRegistry\<close>: \<open>iter_mut().find(..)\<close> overwrites the first match.\<close>

fun overwrite_first :: "('a \<Rightarrow> bool) \<Rightarrow> 'a \<Rightarrow> 'a list \<Rightarrow> 'a list option" where
  "overwrite_first P x [] = None"
| "overwrite_first P x (y # ys) = (if P y then Some (x # ys)
     else map_option (Cons y) (overwrite_first P x ys))"

definition upsert_by :: "('a \<Rightarrow> 'k) \<Rightarrow> 'a \<Rightarrow> 'a list \<Rightarrow> 'a list" where
  "upsert_by k x xs = (case overwrite_first (\<lambda>y. k y = k x) x xs of
     Some ys \<Rightarrow> ys | None \<Rightarrow> xs @ [x])"

definition mem_upsert :: "proc_mem_info \<Rightarrow> proc_mem_info list \<Rightarrow> proc_mem_info list" where
  "mem_upsert = upsert_by pm_thread"

definition mem_remove :: "u32 \<Rightarrow> proc_mem_info list \<Rightarrow> proc_mem_info list" where
  "mem_remove t procs = filter (\<lambda>p. pm_thread p \<noteq> t) procs"

section \<open>Swap\<close>

record swap_region =
  sw_thread :: u32
  region_id :: u32
  sw_bytes :: u64
  last_touched_ns :: u64

definition swap_beats :: "swap_region \<Rightarrow> swap_region \<Rightarrow> bool" where
  "swap_beats b a \<longleftrightarrow>
     (let a_key = (sw_thread a, region_id a); b_key = (sw_thread b, region_id b) in
       last_touched_ns b < last_touched_ns a \<or>
       (last_touched_ns b = last_touched_ns a \<and> sw_bytes b > sw_bytes a) \<or>
       (last_touched_ns b = last_touched_ns a \<and> sw_bytes b = sw_bytes a \<and> b_key < a_key))"

definition choose_swap_victim :: "swap_region list \<Rightarrow> (u32 \<times> u32) option" where
  "choose_swap_victim regions =
     map_option (\<lambda>r. (sw_thread r, region_id r)) (reduce (\<lambda>a b. if swap_beats b a then b else a) regions)"

definition swap_key :: "swap_region \<Rightarrow> u32 \<times> u32" where
  "swap_key r = (sw_thread r, region_id r)"

definition swap_upsert :: "swap_region \<Rightarrow> swap_region list \<Rightarrow> swap_region list" where
  "swap_upsert = upsert_by swap_key"

definition swap_remove :: "u32 \<Rightarrow> u32 \<Rightarrow> swap_region list \<Rightarrow> swap_region list" where
  "swap_remove t i regions = filter (\<lambda>r. \<not> (sw_thread r = t \<and> region_id r = i)) regions"

section \<open>Compute pools\<close>

record compute_pool =
  pool_id :: u32
  pool_kind :: compute_kind
  capacity_bytes :: u64
  used_bytes :: u64

definition free_bytes :: "compute_pool \<Rightarrow> u64" where
  "free_bytes p = saturating_sub (capacity_bytes p) (used_bytes p)"

definition pool_beats :: "compute_pool \<Rightarrow> compute_pool \<Rightarrow> bool" where
  "pool_beats b a \<longleftrightarrow> free_bytes b > free_bytes a \<or>
     (free_bytes b = free_bytes a \<and> pool_id b < pool_id a)"

definition best_fit :: "compute_pool list \<Rightarrow> u64 \<Rightarrow> compute_pool option" where
  "best_fit pools bytes = reduce (\<lambda>a b. if pool_beats b a then b else a)
     (filter (\<lambda>p. free_bytes p \<ge> bytes) pools)"

definition choose_compute_pool :: "compute_pool list \<Rightarrow> u64 \<Rightarrow> compute_kind option \<Rightarrow> u32 option" where
  "choose_compute_pool pools bytes preferred_kind =
     (case (case preferred_kind of
         Some k \<Rightarrow> best_fit (filter (\<lambda>p. pool_kind p = k) pools) bytes | None \<Rightarrow> None) of
       Some p \<Rightarrow> Some (pool_id p)
     | None \<Rightarrow> map_option pool_id (best_fit pools bytes))"

definition pool_upsert :: "compute_pool \<Rightarrow> compute_pool list \<Rightarrow> compute_pool list" where
  "pool_upsert = upsert_by pool_id"

section \<open>The registries stand for maps\<close>

definition table_of :: "('a \<Rightarrow> 'k) \<Rightarrow> 'a list \<Rightarrow> 'k \<rightharpoonup> 'a" where
  "table_of k xs = map_of (map (\<lambda>x. (k x, x)) xs)"

lemma overwrite_first_None: "overwrite_first P x xs = None \<longleftrightarrow> (\<forall>y \<in> set xs. \<not> P y)"
  by (induction xs) auto

lemma overwrite_first_Some:
  assumes "overwrite_first (\<lambda>y. k y = k x) x xs = Some ys"
  shows "map k ys = map k xs \<and> table_of k ys = (table_of k xs)(k x \<mapsto> x)"
  using assms by (induction xs arbitrary: ys) (auto simp: table_of_def split: if_splits)

lemma upsert_by_table:
  assumes "distinct (map k xs)"
  shows "distinct (map k (upsert_by k x xs)) \<and> table_of k (upsert_by k x xs) = (table_of k xs)(k x \<mapsto> x)"
proof (cases "overwrite_first (\<lambda>y. k y = k x) x xs")
  case None
  then have n: "k x \<notin> k ` set xs" by (auto simp: overwrite_first_None)
  moreover have "table_of k (xs @ [x]) = (table_of k xs)(k x \<mapsto> x)"
  proof -
    have "map_of (map (\<lambda>x. (k x, x)) xs) (k x) = None" using n by (auto simp: map_of_eq_None_iff)
    then show ?thesis by (auto simp: table_of_def map_add_def fun_eq_iff split: option.split)
  qed
  ultimately show ?thesis using None assms by (auto simp: upsert_by_def)
next
  case (Some ys)
  from overwrite_first_Some [OF this] Some assms show ?thesis by (simp add: upsert_by_def)
qed

lemma filter_table:
  assumes "distinct (map k xs)"
  shows "distinct (map k (filter (\<lambda>x. k x \<noteq> i) xs)) \<and>
    table_of k (filter (\<lambda>x. k x \<noteq> i) xs) = (table_of k xs)(i := None)"
  using assms by (induction xs) (auto simp: table_of_def fun_eq_iff map_of_eq_None_iff)

section \<open>Operations of the registries\<close>

datatype mem_op = MemUpsert proc_mem_info | MemRemove u32

fun mem_apply :: "mem_op \<Rightarrow> proc_mem_info list \<Rightarrow> proc_mem_info list" where
  "mem_apply (MemUpsert p) procs = mem_upsert p procs"
| "mem_apply (MemRemove t) procs = mem_remove t procs"

fun map_apply :: "mem_op \<Rightarrow> (u32 \<rightharpoonup> proc_mem_info) \<Rightarrow> u32 \<rightharpoonup> proc_mem_info" where
  "map_apply (MemUpsert p) m = m(pm_thread p \<mapsto> p)"
| "map_apply (MemRemove t) m = m(t := None)"

lemma mem_apply_table:
  assumes "distinct (map pm_thread procs)"
  shows "distinct (map pm_thread (mem_apply opn procs)) \<and>
    table_of pm_thread (mem_apply opn procs) = map_apply opn (table_of pm_thread procs)"
  using upsert_by_table [OF assms] filter_table [OF assms]
  by (cases opn) (simp_all add: mem_upsert_def mem_remove_def)

lemma mem_run_table:
  assumes "distinct (map pm_thread procs)"
  shows "distinct (map pm_thread (fold mem_apply ops procs)) \<and>
    table_of pm_thread (fold mem_apply ops procs) = fold map_apply ops (table_of pm_thread procs)"
  using assms
proof (induction ops arbitrary: procs)
  case (Cons opn ops)
  from mem_apply_table [OF Cons.prems, of opn] Cons.IH [of "mem_apply opn procs"] show ?case by simp
qed simp

lemma table_of_eq:
  assumes "distinct (map k xs)"
  shows "table_of k xs i = Some x \<longleftrightarrow> x \<in> set xs \<and> k x = i"
proof -
  have "distinct (map fst (map (\<lambda>x. (k x, x)) xs))" using assms by (simp add: comp_def)
  from map_of_eq_Some_iff [OF this, of i x] show ?thesis by (auto simp: table_of_def)
qed

lemma table_of_None: "table_of k xs = Map.empty \<longleftrightarrow> xs = []"
  by (cases xs) (auto simp: table_of_def fun_eq_iff)

section \<open>The choices are least by their keys\<close>

fun class_rank :: "mm_reclaim_class \<Rightarrow> nat" where
  "class_rank Sacrificial = 0"
| "class_rank Normal = 1"
| "class_rank Protected = 2"

definition footprint_key :: "proc_mem_info \<Rightarrow> int \<times> u32" where
  "footprint_key p = (- uint (resident_bytes p), pm_thread p)"

definition victim_key :: "proc_mem_info \<Rightarrow> nat \<times> int \<times> u32" where
  "victim_key p = (class_rank (pm_class p), footprint_key p)"

definition region_key :: "swap_region \<Rightarrow> u64 \<times> int \<times> u32 \<times> u32" where
  "region_key r = (last_touched_ns r, - uint (sw_bytes r), swap_key r)"

definition pool_key :: "compute_pool \<Rightarrow> int \<times> u32" where
  "pool_key p = (- uint (free_bytes p), pool_id p)"

lemma uint_order:
  "(uint x < uint y) = (x < y)" "(uint x = uint y) = (x = y)"
  by (simp_all add: word_less_def word_uint_eq_iff)

interpretation footprint: selection footprint_beats footprint_key
  by unfold_locales (auto simp: footprint_beats_def footprint_key_def order_le_less uint_order)

interpretation swap: selection swap_beats region_key
  by unfold_locales
    (auto simp: swap_beats_def region_key_def swap_key_def order_le_less uint_order Let_def)

interpretation pool: selection pool_beats pool_key
  by unfold_locales (auto simp: pool_beats_def pool_key_def order_le_less uint_order)

lemma best_by_footprint_cases:
  obtains (none) "best_by_footprint xs = None" "xs = []"
  | (some) p where "best_by_footprint xs = Some p" "footprint.least xs p"
  using footprint.reduce_None [of xs] footprint.reduce_least [of xs]
  by (cases "best_by_footprint xs") (auto simp: best_by_footprint_def)

text \<open>The class comes before the footprint in the key, so the first class with a process decides.\<close>

definition chosen :: "proc_mem_info list \<Rightarrow> mm_reclaim_class set \<Rightarrow> proc_mem_info \<Rightarrow> bool" where
  "chosen procs C p \<longleftrightarrow> p \<in> set procs \<and> pm_class p \<in> C \<and>
     (\<forall>q \<in> set procs. pm_class q \<in> C \<longrightarrow> victim_key p \<le> victim_key q)"

lemma oom_of_classes_chosen:
  assumes "sorted_wrt (\<lambda>c d. class_rank c < class_rank d) cs"
  shows "case oom_of_classes cs procs of None \<Rightarrow> \<forall>p \<in> set procs. pm_class p \<notin> set cs
     | Some t \<Rightarrow> \<exists>p. pm_thread p = t \<and> chosen procs (set cs) p"
  using assms
proof (induction cs)
  case (Cons c cs)
  show ?case
  proof (cases rule: best_by_footprint_cases [of "filter (\<lambda>p. pm_class p = c) procs"])
    case none
    then have "\<forall>p \<in> set procs. pm_class p \<noteq> c" by (auto simp: filter_empty_conv)
    then show ?thesis using Cons none by (fastforce simp: chosen_def split: option.splits)
  next
    case (some p)
    have "victim_key p \<le> victim_key q" if "q \<in> set procs" "pm_class q \<in> set (c # cs)" for q
    proof (cases "pm_class q = c")
      case True
      then show ?thesis using some that by (auto simp: footprint.least_def victim_key_def)
    next
      case False
      then have "class_rank c < class_rank (pm_class q)" using that Cons.prems by auto
      then show ?thesis using some by (auto simp: footprint.least_def victim_key_def)
    qed
    then show ?thesis using some by (auto simp: footprint.least_def chosen_def)
  qed
qed simp

lemma any_class: "c \<in> set [Sacrificial, Normal, Protected]"
  by (cases c) simp_all

lemma oom_victim_chosen:
  "case choose_oom_victim procs of None \<Rightarrow> procs = []
   | Some t \<Rightarrow> \<exists>p. pm_thread p = t \<and> chosen procs UNIV p"
proof -
  have "set [Sacrificial, Normal, Protected] = UNIV" using any_class by blast
  then show ?thesis
    using oom_of_classes_chosen [of "[Sacrificial, Normal, Protected]" procs]
    by (auto simp: choose_oom_victim_def split: option.splits)
qed

definition fits :: "u64 \<Rightarrow> compute_kind option \<Rightarrow> compute_pool \<Rightarrow> bool" where
  "fits bytes k p \<longleftrightarrow> bytes \<le> free_bytes p \<and> (case k of None \<Rightarrow> True | Some k \<Rightarrow> pool_kind p = k)"

lemma best_fit_cases:
  obtains (none) "best_fit xs bytes = None" "\<forall>p \<in> set xs. \<not> bytes \<le> free_bytes p"
  | (some) p where "best_fit xs bytes = Some p" "pool.least (filter (\<lambda>p. bytes \<le> free_bytes p) xs) p"
  using pool.reduce_None [of "filter (\<lambda>p. bytes \<le> free_bytes p) xs"]
    pool.reduce_least [of "filter (\<lambda>p. bytes \<le> free_bytes p) xs"]
  by (cases "best_fit xs bytes") (auto simp: best_fit_def filter_empty_conv)

text \<open>The wanted kind is dropped when no pool of it has room.\<close>

definition served_kind :: "compute_pool list \<Rightarrow> u64 \<Rightarrow> compute_kind option \<Rightarrow> compute_kind option" where
  "served_kind pools bytes k = (if \<exists>p \<in> set pools. fits bytes k p then k else None)"

text \<open>An allocation is served by the emptiest pool with room, of the preferred kind when one such pool
  has room, ties to the lowest id; it fails exactly when no pool has room.\<close>

lemma compute_pool_chosen:
  "case choose_compute_pool pools bytes k of
     None \<Rightarrow> \<forall>p \<in> set pools. \<not> bytes \<le> free_bytes p
   | Some i \<Rightarrow> \<exists>p \<in> set pools. pool_id p = i \<and> fits bytes (served_kind pools bytes k) p \<and>
       (\<forall>q \<in> set pools. fits bytes (served_kind pools bytes k) q \<longrightarrow> pool_key p \<le> pool_key q)"
proof -
  let ?of = "\<lambda>k. filter (\<lambda>p. pool_kind p = k) pools"
  have any: ?thesis if "served_kind pools bytes k = None"
    "choose_compute_pool pools bytes k = map_option pool_id (best_fit pools bytes)"
    using that by (cases rule: best_fit_cases [of pools bytes]) (auto simp: pool.least_def fits_def)
  show ?thesis
  proof (cases k)
    case None
    then show ?thesis by (intro any) (auto simp: served_kind_def choose_compute_pool_def)
  next
    case (Some kd)
    show ?thesis
    proof (cases rule: best_fit_cases [of "?of kd" bytes])
      case none
      then show ?thesis using Some
        by (intro any) (auto simp: served_kind_def choose_compute_pool_def fits_def)
    next
      case (some p)
      then have "served_kind pools bytes k = k"
        using Some by (auto simp: served_kind_def pool.least_def fits_def)
      then show ?thesis using some Some
        by (auto simp: choose_compute_pool_def pool.least_def fits_def)
    qed
  qed
qed

lemma swap_victim_least:
  "case choose_swap_victim rs of None \<Rightarrow> rs = []
   | Some k \<Rightarrow> \<exists>r. swap_key r = k \<and> swap.least rs r"
  using swap.reduce_None [of rs] swap.reduce_least [of rs]
  by (cases "reduce (\<lambda>a b. if swap_beats b a then b else a) rs")
    (auto simp: choose_swap_victim_def swap_key_def)

lemma total_resident_exact:
  "total_resident procs = (let n = sum_list (map (unat \<circ> resident_bytes) procs) in
     if n < 2 ^ 64 then Ok (of_nat n) else Panic)"
proof -
  have "sum_from acc procs = (let n = unat acc + sum_list (map (unat \<circ> resident_bytes) procs) in
     if n < 2 ^ 64 then Ok (of_nat n) else Panic)" for acc
  proof (induction procs arbitrary: acc)
    case Nil
    then show ?case using unat_bound [of acc] by simp
  next
    case (Cons p procs)
    have a: "(add_or_panic acc (resident_bytes p) :: ('e, u64) res) =
        (if unat acc + unat (resident_bytes p) < 2 ^ 64 then Ok (acc + resident_bytes p) else Panic)"
      unfolding add_or_panic_def uint_unat_less(1) by simp
    show ?case
    proof (cases "unat acc + unat (resident_bytes p) < 2 ^ 64")
      case True
      then show ?thesis using Cons [of "acc + resident_bytes p"]
        by (simp add: a unat_add_exact add.assoc Let_def)
    qed (simp add: a Let_def)
  qed
  from this [of 0] show ?thesis by (simp add: total_resident_def)
qed

section \<open>Properties\<close>

text \<open>C25: After any sequence of registrations and exits the registry holds the latest record of each
  live process, and the out-of-memory victim is one of them: the sacrificial ones go first, protected
  ones only when nothing else is left, and within a class the largest footprint, ties to the lowest
  thread id. There is no victim exactly when no process is registered.\<close>

theorem oom_policy:
  "case choose_oom_victim (fold mem_apply ops []) of
     None \<Rightarrow> fold map_apply ops Map.empty = Map.empty
   | Some t \<Rightarrow> \<exists>p. fold map_apply ops Map.empty t = Some p \<and>
       (\<forall>u q. fold map_apply ops Map.empty u = Some q \<longrightarrow> victim_key p \<le> victim_key q)"
proof -
  let ?procs = "fold mem_apply ops []"
  have t: "distinct (map pm_thread ?procs)"
    "fold map_apply ops Map.empty = table_of pm_thread ?procs"
    using mem_run_table [of "[]" ops] by (simp_all add: table_of_def)
  show ?thesis
    using oom_victim_chosen [of ?procs] t(1)
    by (auto simp: t(2) table_of_eq table_of_None chosen_def split: option.splits)
qed

theorem oom_policy_witness:
  "\<exists>p. [7 \<mapsto> \<lparr>pm_thread = 7, resident_bytes = 5, pm_class = Sacrificial\<rparr>] 7 = Some p \<and>
     choose_oom_victim [\<lparr>pm_thread = 7, resident_bytes = 5, pm_class = Sacrificial\<rparr>] = Some 7"
proof -
  let ?p = "\<lparr>pm_thread = 7, resident_bytes = 5, pm_class = Sacrificial\<rparr> :: proc_mem_info"
  have "fold mem_apply [MemUpsert ?p] [] = [?p]" by code_simp
  then show ?thesis using oom_policy [of "[MemUpsert ?p]"] by (auto split: option.splits if_splits)
qed

end
