(* ===== verification/Services.thy ===== *)
theory Services
  imports Codec FsNative Compositor MmService
begin

text \<open>
  The server processes: the bodies of the request loops in the \<open>subsystem_entry.rs\<close> files of
  \<open>fs-native\<close>, \<open>compositor\<close> and \<open>mm-service\<close>; the drivers and \<open>netstack\<close>
  have theirs in BlkService and NetService. A request arrives in a page shared with the client, as a
  label and six words; the answer goes back in the same page. The system calls around the body, which block and switch threads, are the
  kernel's \<open>Recv\<close> and \<open>Reply\<close> (theories Syscall and Rendezvous).
\<close>

section \<open>The shared page\<close>

type_synonym page = "u64 \<times> u64 list"

definition read_shared_message :: "page \<Rightarrow> small_message" where
  "read_shared_message pg = (case from_words (fst pg) (snd pg) of Ok m \<Rightarrow> m | _ \<Rightarrow> msg_new (fst pg))"

definition write_shared_message :: "small_message \<Rightarrow> ('e, page) res" where
  "write_shared_message m = bind_res (msg_words m) (\<lambda>ws.
     Ok (label m, map (\<lambda>i. case nth_opt ws i of Some w \<Rightarrow> w | None \<Rightarrow> 0) [0 ..< MSG_MAX_WORDS]))"

definition page_of :: "small_message \<Rightarrow> page" where
  "page_of m = (case write_shared_message m :: (unit, page) res of Ok pg \<Rightarrow> pg | _ \<Rightarrow> (0, []))"

lemma write_page: "msg_wf m \<Longrightarrow> write_shared_message m = Ok (page_of m) \<and> length (snd (page_of m)) = 6"
  by (simp add: write_shared_message_def page_of_def msg_words_def msg_wf_def MSG_MAX_WORDS_def)

lemma read_page_wf: "length (snd pg) \<le> 6 \<Longrightarrow> msg_wf (read_shared_message pg)"
  using from_words_Ok(1) [of "fst pg" "snd pg"]
  by (cases "from_words (fst pg) (snd pg)")
    (simp_all add: read_shared_message_def from_words_def MSG_MAX_WORDS_def)

text \<open>The page pads a message with zeros to its full length. The decoders look only at the words an
  opcode has, so what was encoded is still read back.\<close>

lemma open_page:
  assumes "length ws \<le> 6"
  shows "open_message ns (read_shared_message (page_of (wire_message ns opc ws))) f =
    f opc (ws @ replicate (6 - length ws) 0)"
proof -
  have "length ws \<le> MSG_MAX_WORDS" using assms by (simp add: MSG_MAX_WORDS_def)
  then obtain m where m: "from_words (ns_label ns opc) ws = Ok m" by (simp add: from_words_def)
  then have mw: "(msg_words m :: (unit, u64 list) res) = Ok ws" "label m = ns_label ns opc"
    by (rule from_words_Ok)+
  have "map (\<lambda>i. case nth_opt ws i of Some w \<Rightarrow> w | None \<Rightarrow> 0) [0 ..< 6] =
      ws @ replicate (6 - length ws) 0"
    using assms by (intro nth_equalityI) (auto simp: nth_append nth_opt_def)
  then have "page_of (wire_message ns opc ws) = (ns_label ns opc, ws @ replicate (6 - length ws) 0)"
    by (simp add: page_of_def write_shared_message_def wire_message_def m mw MSG_MAX_WORDS_def)
  moreover obtain n where "from_words (ns_label ns opc) (ws @ replicate (6 - length ws) 0) = Ok n"
    using assms by (simp add: from_words_def MSG_MAX_WORDS_def)
  ultimately have "read_shared_message (page_of (wire_message ns opc ws)) =
      wire_message ns opc (ws @ replicate (6 - length ws) 0)"
    by (simp only: read_shared_message_def wire_message_def fst_conv snd_conv res.case)
  then show ?thesis using assms by (simp add: MSG_MAX_WORDS_def)
qed

lemmas page_simps = wire_simps open_page numeral_eq_Suc

lemma page_fs_response: "decode_fs_response (read_shared_message (page_of (encode_fs_response r))) = Ok r"
  by (cases r) (simp_all add: encode_fs_response_def decode_fs_response_def wire_simps open_page)

lemma page_driver_response:
  "decode_driver_response (read_shared_message (page_of (encode_driver_response r))) = Ok r"
  by (cases r) (simp_all add: encode_driver_response_def decode_driver_response_def wire_simps open_page)

lemma page_display_response:
  "decode_display_response (read_shared_message (page_of (encode_display_response r))) = Ok r"
  by (cases r) (simp_all add: encode_display_response_def decode_display_response_def wire_simps open_page)

lemma page_mm_response: "decode_mm_response (read_shared_message (page_of (encode_mm_response r))) = Ok r"
  by (cases r) (simp_all add: encode_mm_response_def decode_mm_response_def wire_simps open_page)

lemma page_net_bypass_response:
  "decode_net_bypass_response (read_shared_message (page_of (encode_net_bypass_response r))) = Ok r"
  by (cases r) (simp_all add: encode_net_bypass_response_def decode_net_bypass_response_def wire_simps open_page)

lemma page_requests:
  "flags_ok a \<Longrightarrow> decode_fs_request (read_shared_message (page_of (encode_fs_request a))) = Ok a"
  "decode_driver_request (read_shared_message (page_of (encode_driver_request b))) = Ok b"
  "decode_display_request (read_shared_message (page_of (encode_display_request c))) = Ok c"
  "decode_mm_request (read_shared_message (page_of (encode_mm_request d))) = Ok d"
  "decode_net_bypass_request (read_shared_message (page_of (encode_net_bypass_request e))) = Ok e"
proof -
  show "flags_ok a \<Longrightarrow> decode_fs_request (read_shared_message (page_of (encode_fs_request a))) = Ok a"
    by (cases a) (simp_all add: encode_fs_request_def decode_fs_request_def wire_simps open_page
        flags_ok_def open_flags_from_bits_def)
  show "decode_driver_request (read_shared_message (page_of (encode_driver_request b))) = Ok b"
    by (cases b) (simp_all add: encode_driver_request_def decode_driver_request_def wire_simps open_page)
  show "decode_display_request (read_shared_message (page_of (encode_display_request c))) = Ok c"
    by (cases c) (simp_all add: encode_display_request_def decode_display_request_def wire_simps open_page)
  show "decode_mm_request (read_shared_message (page_of (encode_mm_request d))) = Ok d"
    by (cases d) (simp_all add: encode_mm_request_def decode_mm_request_def wire_simps open_page
        split: option.split)
  show "decode_net_bypass_request (read_shared_message (page_of (encode_net_bypass_request e))) = Ok e"
    by (cases e) (simp_all add: encode_net_bypass_request_def decode_net_bypass_request_def wire_simps open_page)
qed

section \<open>The body of a server loop\<close>

definition serve_one ::
    "(small_message \<Rightarrow> (decode_error, 'q) res) \<Rightarrow> ('r \<Rightarrow> small_message) \<Rightarrow> 'r \<Rightarrow>
     ('s \<Rightarrow> 'q \<Rightarrow> ('e, 'r) res \<times> 's) \<Rightarrow> page \<Rightarrow> 's \<Rightarrow> ('e, page) res \<times> 's" where
  "serve_one dec enc refused handle pg s =
     (let req_msg = read_shared_message pg in
      then_do (case dec req_msg of
          Ok req \<Rightarrow> handle s req
        | Err _ \<Rightarrow> (Ok refused, s)
        | Panic \<Rightarrow> (Panic, s)) (\<lambda>resp s. (write_shared_message (enc resp), s)))"

text \<open>The loop over a sequence of pages.\<close>

fun serve_all :: "(page \<Rightarrow> 's \<Rightarrow> ('e, page) res \<times> 's) \<Rightarrow> page list \<Rightarrow> 's \<Rightarrow> ('e, page list) res \<times> 's" where
  "serve_all f [] s = (Ok [], s)"
| "serve_all f (pg # pgs) s = then_do (f pg s) (\<lambda>out s.
     then_do (serve_all f pgs s) (\<lambda>outs s. (Ok (out # outs), s)))"

text \<open>What a server promises: on any contents of the page it writes an answer that the client
  decodes, the refusal if the request was malformed.\<close>

locale server =
  fixes dec :: "small_message \<Rightarrow> (decode_error, 'q) res" and enc :: "'r \<Rightarrow> small_message"
    and dec_resp :: "small_message \<Rightarrow> (decode_error, 'r) res" and refused :: 'r
    and handle :: "'s \<Rightarrow> 'q \<Rightarrow> ('e, 'r) res \<times> 's"
    and inv :: "'s \<Rightarrow> bool" and safe :: "'s \<Rightarrow> 'q \<Rightarrow> bool"
  assumes dec_no_panic: "msg_wf m \<Longrightarrow> dec m \<noteq> Panic"
    and enc_wf: "msg_wf (enc r)"
    and read_back: "dec_resp (read_shared_message (page_of (enc r))) = Ok r"
    and handled: "inv s \<Longrightarrow> safe s q \<Longrightarrow> \<exists>r s'. handle s q = (Ok r, s') \<and> inv s'"
begin

lemma answered:
  assumes "inv s" and "length (snd pg) = 6"
    and "\<And>q. dec (read_shared_message pg) = Ok q \<Longrightarrow> safe s q"
  shows "\<exists>pg' s'. serve_one dec enc refused handle pg s = (Ok pg', s') \<and> inv s' \<and> length (snd pg') = 6 \<and>
    (case dec (read_shared_message pg) of
       Ok q \<Rightarrow> (\<exists>r. handle s q = (Ok r, s') \<and> dec_resp (read_shared_message pg') = Ok r)
     | _ \<Rightarrow> s' = s \<and> dec_resp (read_shared_message pg') = Ok refused)"
proof -
  have wf: "msg_wf (read_shared_message pg)" using assms(2) by (intro read_page_wf) simp
  show ?thesis
  proof (cases "dec (read_shared_message pg)")
    case (Ok q)
    then obtain r s' where h: "handle s q = (Ok r, s')" "inv s'"
      using handled [OF assms(1) assms(3)] by blast
    then show ?thesis using Ok write_page [OF enc_wf [of r]] read_back [of r]
      by (intro exI [of _ "page_of (enc r)"] exI [of _ s']) (simp add: serve_one_def)
  next
    case (Err e)
    then show ?thesis using assms(1) write_page [OF enc_wf [of refused]] read_back [of refused]
      by (intro exI [of _ "page_of (enc refused)"] exI [of _ s]) (simp add: serve_one_def)
  next
    case Panic
    then show ?thesis using dec_no_panic [OF wf] by simp
  qed
qed

lemma all_answered:
  assumes "inv s" and "list_all (\<lambda>pg. length (snd pg) = 6) pgs"
    and "\<And>s q pg. pg \<in> set pgs \<Longrightarrow> inv s \<Longrightarrow> dec (read_shared_message pg) = Ok q \<Longrightarrow> safe s q"
    and "\<And>s q r s'. inv s \<Longrightarrow> safe s q \<Longrightarrow> handle s q = (Ok r, s') \<Longrightarrow> P q r"
  shows "\<exists>outs s'. serve_all (serve_one dec enc refused handle) pgs s = (Ok outs, s') \<and> inv s' \<and>
    list_all2 (\<lambda>pg out. \<exists>r. dec_resp (read_shared_message out) = Ok r \<and>
      (case dec (read_shared_message pg) of Ok q \<Rightarrow> P q r | _ \<Rightarrow> r = refused)) pgs outs"
  using assms(1-3)
proof (induction pgs arbitrary: s)
  case (Cons pg pgs)
  have safe: "safe s q" if "dec (read_shared_message pg) = Ok q" for q
    by (rule Cons.prems(3) [OF _ Cons.prems(1) that]) simp
  have len: "length (snd pg) = 6" using Cons.prems(2) by simp
  obtain out s1 where one: "serve_one dec enc refused handle pg s = (Ok out, s1)" "inv s1"
    and resp: "case dec (read_shared_message pg) of
       Ok q \<Rightarrow> (\<exists>r. handle s q = (Ok r, s1) \<and> dec_resp (read_shared_message out) = Ok r)
     | _ \<Rightarrow> s1 = s \<and> dec_resp (read_shared_message out) = Ok refused"
    using answered [OF Cons.prems(1) len safe] by blast
  have "\<exists>r. dec_resp (read_shared_message out) = Ok r \<and>
      (case dec (read_shared_message pg) of Ok q \<Rightarrow> P q r | _ \<Rightarrow> r = refused)"
    using resp assms(4) [OF Cons.prems(1) safe] by (cases "dec (read_shared_message pg)") auto
  note this_answer = this
  have lens: "list_all (\<lambda>pg. length (snd pg) = 6) pgs" using Cons.prems(2) by simp
  have later: "safe s q" if "pg' \<in> set pgs" "inv s" "dec (read_shared_message pg') = Ok q" for s q pg'
    by (rule Cons.prems(3) [OF _ that(2,3)]) (use that(1) in simp)
  have "\<exists>outs s'. serve_all (serve_one dec enc refused handle) pgs s1 = (Ok outs, s') \<and> inv s' \<and>
    list_all2 (\<lambda>pg out. \<exists>r. dec_resp (read_shared_message out) = Ok r \<and>
      (case dec (read_shared_message pg) of Ok q \<Rightarrow> P q r | _ \<Rightarrow> r = refused)) pgs outs"
    by (rule Cons.IH [OF one(2) lens]) (rule later; assumption)
  with this_answer show ?case using one(1) by auto
qed simp

end


section \<open>The filesystem server\<close>

text \<open>Its state is the store and the data page shared with the client.\<close>

definition FS_DATA_LEN :: u32 where "FS_DATA_LEN = 4096"

definition resolve_path :: "path_id \<Rightarrow> string option" where
  "resolve_path i = (if i = 0 then Some ''/greeting'' else None)"

fun error_code :: "fs_store_error \<Rightarrow> fs_error" where
  "error_code FsNoFile = FsNotFound"
| "error_code FsNoHandle = FsBadHandle"
| "error_code FsTooLarge = FsIo"
| "error_code FsNoRight = FsDenied"

fun fs_reply :: "(fs_store_error, 'a) res \<Rightarrow> ('a \<Rightarrow> fs_response) \<Rightarrow> (unit, fs_response) res" where
  "fs_reply (Ok x) f = Ok (f x)"
| "fs_reply (Err e) f = Ok (FsError (error_code e))"
| "fs_reply Panic f = Panic"

definition fs_handle_request ::
    "mem_fs \<times> u8 list \<Rightarrow> fs_request \<Rightarrow> (unit, fs_response) res \<times> (mem_fs \<times> u8 list)" where
  "fs_handle_request st req = (let (fs, data) = st in (case req of
     FsOpen path flags \<Rightarrow> (case resolve_path path of
         Some p \<Rightarrow> let (r, fs) = fs_open_path fs p (flags AND 2 = 2) (flags AND 4 = 4) in
           (fs_reply r FsOpened, (fs, data))
       | None \<Rightarrow> (Ok (FsError FsBadPath), st))
   | FsStat path \<Rightarrow> (case resolve_path path of
         Some p \<Rightarrow> (case fs_open_path fs p False False of
             (Ok h, fs) \<Rightarrow>
               let sz = (case fs_size fs h of Ok n \<Rightarrow> n | _ \<Rightarrow> 0); (_, fs) = fs_close fs h in
               (Ok (FsStatResult (of_nat sz) False), (fs, data))
           | (Err e, fs) \<Rightarrow> (Ok (FsError (error_code e)), (fs, data))
           | (Panic, fs) \<Rightarrow> (Panic, (fs, data)))
       | None \<Rightarrow> (Ok (FsError FsBadPath), st))
   | FsClose h \<Rightarrow> let (r, fs) = fs_close fs h in (fs_reply r (\<lambda>_. FsClosed), (fs, data))
   | FsRead h off len cap \<Rightarrow>
       if len > FS_DATA_LEN then (Ok (FsError FsBadSharedRegion), st) else
       let (r, buf) = fs_read fs h off (take (unat len) data) in
       (fs_reply r (\<lambda>n. FsReadDone (of_nat n)), (fs, buf @ drop (unat len) data))
   | FsWrite h off len cap \<Rightarrow>
       if len > FS_DATA_LEN then (Ok (FsError FsBadSharedRegion), st) else
       let (r, fs) = fs_write fs h off (take (unat len) data) in
       (fs_reply r (\<lambda>n. FsWritten (of_nat n)), (fs, data))))"

definition fs_boot :: "(unit, mem_fs) res" where
  "fs_boot = (case fs_create fs_new ''/greeting'' of (Ok _, fs) \<Rightarrow>
       (case fs_open_path fs ''/greeting'' True False of
          (Ok h, fs) \<Rightarrow> (case fs_write fs h 0 (map (\<lambda>c. of_nat (of_char c)) ''hello from fs-native'') of
              (Panic, fs) \<Rightarrow> Panic
            | (_, fs) \<Rightarrow> Ok (snd (fs_close fs h)))
        | (Err _, fs) \<Rightarrow> Ok fs
        | (Panic, fs) \<Rightarrow> Panic)
     | (Err _, fs) \<Rightarrow> Panic | (Panic, fs) \<Rightarrow> Panic)"

definition fs_server_ok :: "mem_fs \<times> u8 list \<Rightarrow> bool" where
  "fs_server_ok st \<longleftrightarrow> fs_ok (fst st) \<and> length (snd st) = 4096"

text \<open>What the server cannot survive: handing out the last handle number, and a write whose end is
  beyond \<open>2^64\<close>.\<close>

definition fs_safe :: "mem_fs \<times> u8 list \<Rightarrow> fs_request \<Rightarrow> bool" where
  "fs_safe st req \<longleftrightarrow> (case req of
     FsOpen p f \<Rightarrow> next_handle (fst st) \<noteq> - 1 \<and> next_file_id (fst st) \<noteq> - 1
   | FsStat p \<Rightarrow> next_handle (fst st) \<noteq> - 1
   | FsWrite h off len cap \<Rightarrow> unat off + unat len < 2 ^ 64
   | _ \<Rightarrow> True)"

lemma counter_room:
  fixes x :: u32
  assumes "x \<noteq> - 1"
  shows "add_or_panic x 1 = Ok (x + 1)"
proof -
  have "unat x \<noteq> 2 ^ 32 - 1" using assms by (simp add: word_unat_eq_iff unat_all_ones)
  then have "unat x + unat (1 :: u32) < 2 ^ LENGTH(32)" using unat_bound [of x] by simp
  then show ?thesis by (simp only: add_or_panic_Ok)
qed

lemma fs_open_no_panic:
  assumes "fs_ok fs" and "next_handle fs \<noteq> - 1" and "next_file_id fs \<noteq> - 1 \<or> \<not> c"
  shows "\<exists>r fs'. fs_open_path fs p w c = (r, fs') \<and> r \<noteq> Panic \<and> fs_ok fs' \<and>
    (\<forall>h. r = Ok h \<longrightarrow> fs_open fs' h \<noteq> None)"
proof -
  have ok: "fs_ok (snd (fs_open_path fs p w c))" using fs_step_ok [OF assms(1), of "FsOpenOp p w c"] by simp
  have h: "add_or_panic (next_handle fs) 1 = (Ok (next_handle fs + 1) :: (fs_store_error, u32) res)"
    by (rule counter_room [OF assms(2)])
  have f: "next_file_id fs \<noteq> - 1 \<Longrightarrow>
      add_or_panic (next_file_id fs) 1 = (Ok (next_file_id fs + 1) :: (fs_store_error, u32) res)"
    by (rule counter_room)
  have "fst (fs_open_path fs p w c) \<noteq> Panic \<and>
      (\<forall>g. fst (fs_open_path fs p w c) = Ok g \<longrightarrow> fs_open (snd (fs_open_path fs p w c)) g \<noteq> None)"
    using assms(3) h f
    by (cases "fs_index fs p") (auto simp: fs_open_path_def fs_create_def Let_def)
  with ok show ?thesis by (metis prod.collapse)
qed

lemma fs_handled:
  assumes "fs_server_ok st" and "fs_safe st req"
  shows "\<exists>r st'. fs_handle_request st req = (Ok r, st') \<and> fs_server_ok st'"
proof -
  obtain fs data where st: "st = (fs, data)" by (cases st)
  have ok: "fs_ok fs" and len: "length data = 4096" using assms(1) by (simp_all add: fs_server_ok_def st)
  show ?thesis
  proof (cases req)
    case (FsOpen path flags)
    then have "next_handle fs \<noteq> - 1" "next_file_id fs \<noteq> - 1" using assms(2) by (simp_all add: fs_safe_def st)
    from fs_open_no_panic [OF ok this(1), of "flags AND 4 = 4" "''/greeting''" "flags AND 2 = 2"] this(2)
    obtain r fs' where o: "fs_open_path fs ''/greeting'' (flags AND 2 = 2) (flags AND 4 = 4) = (r, fs')"
      "r \<noteq> Panic" "fs_ok fs'" by blast
    then show ?thesis using ok len FsOpen
      by (cases r) (auto simp: fs_handle_request_def st resolve_path_def fs_server_ok_def)
  next
    case (FsRead h off n cap)
    show ?thesis
    proof (cases "n > FS_DATA_LEN")
      case False
      then have n: "unat n \<le> 4096" by (simp add: FS_DATA_LEN_def word_less_nat_alt not_less)
      obtain r buf where r: "fs_read fs h off (take (unat n) data) = (r, buf)" by fastforce
      have "r \<noteq> Panic" "length buf = unat n"
        using r n len
        by (auto simp: fs_read_def try_in_def Let_def min_def split: res.splits option.splits prod.splits if_splits)
      then show ?thesis using ok len n False r FsRead
        by (cases r) (auto simp: fs_handle_request_def st fs_server_ok_def)
    qed (use ok len FsRead in \<open>auto simp: fs_handle_request_def st fs_server_ok_def\<close>)
  next
    case (FsWrite h off n cap)
    show ?thesis
    proof (cases "n > FS_DATA_LEN")
      case False
      then have n: "length (take (unat n) data) = unat n"
        using len by (simp add: FS_DATA_LEN_def word_less_nat_alt not_less)
      have "unat off + unat n < 2 ^ 64" using assms(2) FsWrite by (simp add: fs_safe_def)
      then have "fst (fs_write fs h off (take (unat n) data)) \<noteq> Panic"
        by (cases rule: fs_write_cases [OF ok, of h off "take (unat n) data"]) (use n in auto)
      moreover have "fs_ok (snd (fs_write fs h off (take (unat n) data)))"
        using fs_step_ok [OF ok, of "FsWriteOp h off (take (unat n) data)"] by simp
      ultimately show ?thesis using False FsWrite len
        by (cases "fs_write fs h off (take (unat n) data)"; cases "fst (fs_write fs h off (take (unat n) data))")
          (auto simp: fs_handle_request_def st fs_server_ok_def)
    qed (use ok len FsWrite in \<open>auto simp: fs_handle_request_def st fs_server_ok_def\<close>)
  next
    case (FsStat path)
    then have "next_handle fs \<noteq> - 1" using assms(2) by (simp add: fs_safe_def st)
    from fs_open_no_panic [OF ok this, of False "''/greeting''" False]
    obtain r fs' where o: "fs_open_path fs ''/greeting'' False False = (r, fs')"
      "r \<noteq> Panic" "fs_ok fs'" by blast
    moreover have "fs_ok (snd (fs_close fs' h))" for h using fs_step_ok [OF o(3), of "FsCloseOp h"] by simp
    ultimately show ?thesis using ok len FsStat
      by (cases r) (auto simp: fs_handle_request_def st resolve_path_def fs_server_ok_def Let_def
          case_prod_beta)
  next
    case (FsClose h)
    have "fs_ok (snd (fs_close fs h))" using fs_step_ok [OF ok, of "FsCloseOp h"] by simp
    then show ?thesis using len FsClose
      by (cases "fs_open fs h") (auto simp: fs_handle_request_def st fs_server_ok_def fs_close_def)
  qed
qed

interpretation fs_server: server decode_fs_request encode_fs_response decode_fs_response
  "FsError FsUnsupported" fs_handle_request fs_server_ok fs_safe
  by unfold_locales (rule fs_request.dec_total fs_response.enc_wf page_fs_response fs_handled; assumption)+

section \<open>The display server\<close>

text \<open>The surface table, the frame page shared with the client and the private page that a committed
  frame is copied to.\<close>

record display_server =
  comp :: compositor
  fb_page :: "u8 list"
  confirm_page :: "u8 list"

definition FRAME_PAGE_MAX :: u32 where "FRAME_PAGE_MAX = 4096"

definition copy_frame_to_confirm :: "u32 \<Rightarrow> display_server \<Rightarrow> display_server" where
  "copy_frame_to_confirm len s = s\<lparr>confirm_page :=
     take (unat len) (fb_page s) @ drop (unat len) (confirm_page s)\<rparr>"

definition saturating_mul :: "'a :: len word \<Rightarrow> 'a word \<Rightarrow> 'a word" where
  "saturating_mul a b = (if unat a * unat b < 2 ^ LENGTH('a) then a * b else - 1)"

definition display_handle_request ::
    "display_server \<Rightarrow> display_request \<Rightarrow> (unit, display_response) res \<times> display_server" where
  "display_handle_request s req = (case req of
     DpCreateSurface \<Rightarrow> (case create_surface (comp s) of
         (Ok i, c) \<Rightarrow> (Ok (DpSurfaceCreated i), s\<lparr>comp := c\<rparr>)
       | (_, c) \<Rightarrow> (Panic, s\<lparr>comp := c\<rparr>))
   | DpCommitBuffer surface cap width height \<Rightarrow>
       let len = saturating_mul (saturating_mul width height) 4 in
       if len > FRAME_PAGE_MAX then (Ok (DpError DpBadBuffer), s) else
       (case commit_buffer (comp s) surface width height of
          (Ok _, c) \<Rightarrow> (Ok DpCommitted, copy_frame_to_confirm len (s\<lparr>comp := c\<rparr>))
        | (Err _, c) \<Rightarrow> (Ok (DpError DpBadSurface), s\<lparr>comp := c\<rparr>)
        | (Panic, c) \<Rightarrow> (Panic, s\<lparr>comp := c\<rparr>))
   | DpDestroySurface surface \<Rightarrow> (case destroy_surface (comp s) surface of
          (Ok _, c) \<Rightarrow> (Ok DpDestroyed, s\<lparr>comp := c\<rparr>)
        | (Err _, c) \<Rightarrow> (Ok (DpError DpBadSurface), s\<lparr>comp := c\<rparr>)
        | (Panic, c) \<Rightarrow> (Panic, s\<lparr>comp := c\<rparr>))
   | DpSubscribeInput \<Rightarrow> (Ok (DpError DpUnsupported), s)
   | DpQueryOutputs \<Rightarrow> (Ok (DpError DpUnsupported), s))"

definition display_ok :: "display_server \<Rightarrow> bool" where
  "display_ok s \<longleftrightarrow> surfaces_ok (comp s) \<and> length (fb_page s) = 4096 \<and> length (confirm_page s) = 4096"

text \<open>What it cannot survive: the last surface number, and the \<open>2^32\<close>nd commit to a surface.\<close>

definition display_safe :: "display_server \<Rightarrow> display_request \<Rightarrow> bool" where
  "display_safe s req \<longleftrightarrow> (case req of
     DpCreateSurface \<Rightarrow> next_surface_id (comp s) \<noteq> - 1
   | DpCommitBuffer i cap w h \<Rightarrow> (case surfaces (comp s) i of Some sf \<Rightarrow> commit_count sf \<noteq> - 1 | None \<Rightarrow> True)
   | _ \<Rightarrow> True)"

lemma saturating_mul_exact:
  fixes a b :: u32
  assumes "saturating_mul (saturating_mul a b) 4 \<le> FRAME_PAGE_MAX"
  shows "unat (saturating_mul (saturating_mul a b) 4) = unat a * unat b * 4 \<and> unat a * unat b * 4 \<le> 4096"
proof -
  have "unat (saturating_mul (saturating_mul a b) 4) \<le> 4096"
    using assms by (simp add: FRAME_PAGE_MAX_def word_le_nat_alt)
  then show ?thesis
    by (auto simp: saturating_mul_def unat_mult_exact unat_all_ones split: if_splits)
qed

lemma commit_buffer_result:
  assumes "case surfaces c i of Some sf \<Rightarrow> commit_count sf \<noteq> - 1 | None \<Rightarrow> True"
  shows "commit_buffer c i w h = (case surfaces c i of None \<Rightarrow> (Err BadSurface, c)
    | Some sf \<Rightarrow> (Ok (), c\<lparr>surfaces := (surfaces c)
        (i \<mapsto> \<lparr>s_width = w, s_height = h, commit_count = commit_count sf + 1\<rparr>)\<rparr>))"
  using assms counter_room [of "commit_count (the (surfaces c i))", where ?'a = compositor_error]
  by (cases "surfaces c i"; cases "the (surfaces c i)") (simp_all add: commit_buffer_def Let_def)

lemma surface_step_ok: "surfaces_ok c \<Longrightarrow> surfaces_ok (surface_step opn c)"
  using surface_steps by blast

lemma display_handled:
  assumes "display_ok s" and "display_safe s req"
  shows "\<exists>r s'. display_handle_request s req = (Ok r, s') \<and> display_ok s'"
proof (cases req)
  case DpCreateSurface
  then have r: "add_or_panic (next_surface_id (comp s)) 1 =
      (Ok (next_surface_id (comp s) + 1) :: (compositor_error, u32) res)"
    using assms(2) by (intro counter_room) (simp add: display_safe_def)
  show ?thesis using DpCreateSurface assms(1) surface_step_ok [of "comp s" CreateSurface] r
    by (simp add: display_handle_request_def display_ok_def create_surface_def Let_def)
next
  case (DpCommitBuffer i cap w h)
  let ?len = "saturating_mul (saturating_mul w h) 4"
  show ?thesis
  proof (cases "?len > FRAME_PAGE_MAX")
    case False
    then have n: "unat ?len \<le> 4096" using saturating_mul_exact [of w h] by simp
    have "display_safe s (DpCommitBuffer i cap w h)" using assms(2) DpCommitBuffer by simp
    then have c: "commit_buffer (comp s) i w h = (case surfaces (comp s) i of None \<Rightarrow> (Err BadSurface, comp s)
      | Some sf \<Rightarrow> (Ok (), (comp s)\<lparr>surfaces := (surfaces (comp s))
          (i \<mapsto> \<lparr>s_width = w, s_height = h, commit_count = commit_count sf + 1\<rparr>)\<rparr>))"
      by (intro commit_buffer_result) (simp add: display_safe_def)
    then show ?thesis using n False DpCommitBuffer assms(1)
        surface_step_ok [of "comp s" "CommitBuffer i w h"]
      by (cases "surfaces (comp s) i")
        (simp_all add: display_handle_request_def display_ok_def copy_frame_to_confirm_def Let_def)
  qed (use DpCommitBuffer assms(1) in \<open>simp add: display_handle_request_def Let_def\<close>)
next
  case (DpDestroySurface i)
  then show ?thesis using assms(1) surface_step_ok [of "comp s" "DestroySurface i"]
    by (cases "surfaces (comp s) i")
      (simp_all add: display_handle_request_def display_ok_def destroy_surface_def)
qed (use assms(1) in \<open>simp_all add: display_handle_request_def\<close>)

interpretation display_server: server decode_display_request encode_display_response
  decode_display_response "DpError DpUnsupported" display_handle_request display_ok display_safe
  by unfold_locales
    (rule display_request.dec_total display_response.enc_wf page_display_response display_handled; assumption)+

section \<open>The memory policy server\<close>

record mm_server =
  ms_mem :: "proc_mem_info list"
  ms_swap :: "swap_region list"
  ms_pools :: "compute_pool list"

fun from_wire_class :: "reclaim_class \<Rightarrow> mm_reclaim_class" where
  "from_wire_class RcProtected = Protected"
| "from_wire_class RcNormal = Normal"
| "from_wire_class RcSacrificial = Sacrificial"

fun from_wire_kind :: "wire_compute_kind \<Rightarrow> compute_kind" where
  "from_wire_kind CkCpu = Cpu"
| "from_wire_kind CkGpu = Gpu"
| "from_wire_kind CkNpu = Npu"
| "from_wire_kind CkTpu = Tpu"
| "from_wire_kind CkFpga = Fpga"

definition or_max :: "u32 option \<Rightarrow> u32" where
  "or_max x = (case x of Some i \<Rightarrow> i | None \<Rightarrow> - 1)"

definition mm_handle_request :: "mm_server \<Rightarrow> mm_request \<Rightarrow> (unit, mm_response) res \<times> mm_server" where
  "mm_handle_request s req = (case req of
     MmRegister t bytes c \<Rightarrow> (Ok MmRegistered, s\<lparr>ms_mem := mem_upsert
         \<lparr>pm_thread = t, resident_bytes = bytes, pm_class = from_wire_class c\<rparr> (ms_mem s)\<rparr>)
   | MmUnregister t \<Rightarrow> (Ok MmUnregistered, s\<lparr>ms_mem := mem_remove t (ms_mem s)\<rparr>)
   | MmQueryVictim \<Rightarrow> (Ok (MmVictim (or_max (choose_oom_victim (ms_mem s)))), s)
   | MmQueryTotalResident \<Rightarrow> (bind_res (total_resident (ms_mem s)) (\<lambda>n. Ok (MmTotalResident n)), s)
   | MmRegisterSwapRegion t i bytes ns \<Rightarrow> (Ok MmSwapRegionRegistered, s\<lparr>ms_swap := swap_upsert
         \<lparr>sw_thread = t, region_id = i, sw_bytes = bytes, last_touched_ns = ns\<rparr> (ms_swap s)\<rparr>)
   | MmUnregisterSwapRegion t i \<Rightarrow> (Ok MmSwapRegionUnregistered, s\<lparr>ms_swap := swap_remove t i (ms_swap s)\<rparr>)
   | MmQuerySwapVictim \<Rightarrow> (Ok (case choose_swap_victim (ms_swap s) of
         Some (t, i) \<Rightarrow> MmSwapVictim t i | None \<Rightarrow> MmSwapVictim (- 1) (- 1)), s)
   | MmRegisterComputePool i k cap used \<Rightarrow> (Ok MmComputePoolRegistered, s\<lparr>ms_pools := pool_upsert
         \<lparr>pool_id = i, pool_kind = from_wire_kind k, capacity_bytes = cap, used_bytes = used\<rparr> (ms_pools s)\<rparr>)
   | MmQueryComputePool bytes k \<Rightarrow>
       (Ok (MmComputePoolChosen (or_max (choose_compute_pool (ms_pools s) bytes
          (map_option from_wire_kind k)))), s))"

definition mm_boot :: mm_server where
  "mm_boot = \<lparr>ms_mem = [], ms_swap = [], ms_pools = []\<rparr>"

definition mm_ok :: "mm_server \<Rightarrow> bool" where
  "mm_ok s \<longleftrightarrow> distinct (map pm_thread (ms_mem s)) \<and> distinct (map swap_key (ms_swap s)) \<and>
     distinct (map pool_id (ms_pools s))"

text \<open>What it cannot survive: the sum of the registered footprints leaving 64 bits. A client
  registers any footprint it likes.\<close>

definition mm_safe :: "mm_server \<Rightarrow> mm_request \<Rightarrow> bool" where
  "mm_safe s req \<longleftrightarrow> (req = MmQueryTotalResident \<longrightarrow>
     sum_list (map (unat \<circ> resident_bytes) (ms_mem s)) < 2 ^ 64)"

lemma mm_handled:
  assumes "mm_ok s" and "mm_safe s req"
  shows "\<exists>r s'. mm_handle_request s req = (Ok r, s') \<and> mm_ok s'"
proof (cases req)
  case MmQueryTotalResident
  then show ?thesis using assms
    by (simp add: mm_handle_request_def mm_safe_def total_resident_exact Let_def)
next
  case (MmRegister t b c)
  then show ?thesis using assms(1) upsert_by_table [of pm_thread "ms_mem s"]
    by (simp add: mm_handle_request_def mm_ok_def mem_upsert_def)
next
  case (MmUnregister t)
  then show ?thesis using assms(1) filter_table [of pm_thread "ms_mem s" t]
    by (simp add: mm_handle_request_def mm_ok_def mem_remove_def)
next
  case (MmRegisterSwapRegion t i b n)
  then show ?thesis using assms(1) upsert_by_table [of swap_key "ms_swap s"]
    by (simp add: mm_handle_request_def mm_ok_def swap_upsert_def)
next
  case (MmUnregisterSwapRegion t i)
  then show ?thesis using assms(1) filter_table [of swap_key "ms_swap s" "(t, i)"]
    by (simp add: mm_handle_request_def mm_ok_def swap_remove_def swap_key_def)
next
  case (MmRegisterComputePool i k c u)
  then show ?thesis using assms(1) upsert_by_table [of pool_id "ms_pools s"]
    by (simp add: mm_handle_request_def mm_ok_def pool_upsert_def)
qed (use assms(1) in \<open>simp_all add: mm_handle_request_def\<close>)

interpretation mm_server: server decode_mm_request encode_mm_response decode_mm_response
  "MmError MmUnsupported" mm_handle_request mm_ok mm_safe
  by unfold_locales (rule mm_request.dec_total mm_response.enc_wf page_mm_response mm_handled; assumption)+

text \<open>Two requests that any client may send bring the memory service down.\<close>

lemma two_footprints_panic:
  "fst (mm_handle_request (snd (mm_handle_request (snd (mm_handle_request mm_boot
      (MmRegister 1 (- 1) RcNormal))) (MmRegister 2 1 RcNormal))) MmQueryTotalResident) = Panic"
proof -
  have "total_resident [\<lparr>pm_thread = 1, resident_bytes = - 1, pm_class = Normal\<rparr>,
      \<lparr>pm_thread = 2, resident_bytes = 1, pm_class = Normal\<rparr>] = (Panic :: (unit, u64) res)"
    by (simp add: total_resident_exact unat_all_ones Let_def)
  then show ?thesis
    by (simp add: mm_handle_request_def mm_boot_def mem_upsert_def upsert_by_def)
qed

section \<open>Properties\<close>

text \<open>The bodies of the three \<open>subsystem_main\<close> loops.\<close>

definition fs_serve :: "page \<Rightarrow> mem_fs \<times> u8 list \<Rightarrow> (unit, page) res \<times> (mem_fs \<times> u8 list)" where
  "fs_serve = serve_one decode_fs_request encode_fs_response (FsError FsUnsupported) fs_handle_request"

definition display_serve :: "page \<Rightarrow> display_server \<Rightarrow> (unit, page) res \<times> display_server" where
  "display_serve = serve_one decode_display_request encode_display_response (DpError DpUnsupported)
     display_handle_request"

definition mm_serve :: "page \<Rightarrow> mm_server \<Rightarrow> (unit, page) res \<times> mm_server" where
  "mm_serve = serve_one decode_mm_request encode_mm_response (MmError MmUnsupported) mm_handle_request"



lemma fs_serve_request:
  assumes "flags_ok q" and "fs_handle_request st q = (Ok r, st')"
  shows "fs_serve (page_of (encode_fs_request q)) st = (Ok (page_of (encode_fs_response r)), st')"
  using assms page_requests(1) [of q]
  by (simp add: fs_serve_def serve_one_def write_page [THEN conjunct1] fs_response.enc_wf)

text \<open>What a client writes through the file service it reads back. A client puts bytes in the data
  page and a write request in the message page, then (the data page may hold anything by then) a read
  request for the same range: both answers decode to the full length, and the data page holds the bytes,
  the rest of it untouched.\<close>

theorem fs_client_roundtrip:
  assumes "fs_server_ok (fs, data)" and "length junk = 4096"
    and "fs_open fs h = Some f" and "can_write f"
    and "n \<le> FS_DATA_LEN" and "unat off + unat n \<le> MAX_FILE_BYTES"
  shows "\<exists>fs' w r. fs_serve (page_of (encode_fs_request (FsWrite h off n cap))) (fs, data) = (Ok w, (fs', data)) \<and>
    decode_fs_response (read_shared_message w) = Ok (FsWritten n) \<and>
    fs_serve (page_of (encode_fs_request (FsRead h off n cap))) (fs', junk) =
      (Ok r, (fs', take (unat n) data @ drop (unat n) junk)) \<and>
    decode_fs_response (read_shared_message r) = Ok (FsReadDone n)"
proof -
  have ok: "fs_ok fs" and len: "length data = 4096" using assms(1) by (simp_all add: fs_server_ok_def)
  have n: "unat n \<le> 4096" "\<not> n > FS_DATA_LEN"
    using assms(5) by (simp_all add: FS_DATA_LEN_def not_less word_le_nat_alt)
  let ?src = "take (unat n) data"
  have src: "length ?src = unat n" using n len by simp
  have fits: "unat off + length ?src \<le> MAX_FILE_BYTES" using assms(6) src by simp
  obtain d where wr: "fs_write fs h off ?src =
      (Ok (length ?src), fs\<lparr>fs_files := (fs_files fs)(of_file f \<mapsto> splice d (unat off) ?src)\<rparr>)"
    by (cases rule: fs_write_cases [OF ok, of h off ?src])
      (use assms(3,4) fits in \<open>auto simp: MAX_FILE_BYTES_def\<close>)
  let ?fs = "fs\<lparr>fs_files := (fs_files fs)(of_file f \<mapsto> splice d (unat off) ?src)\<rparr>"
  have rd: "fs_read ?fs h off (take (unat n) junk) = (Ok (unat n), ?src)"
  proof -
    have j: "length (take (unat n) junk) = length ?src" using n src assms(2) by simp
    have "take (length ?src) (drop (unat off) (splice d (unat off) ?src)) = ?src" by (rule splice_read)
    then show ?thesis
      using fs_read_at [of ?fs h f "splice d (unat off) ?src" off "take (unat n) junk"] assms(3) j src
      by (simp add: length_splice)
  qed
  have h1: "fs_handle_request (fs, data) (FsWrite h off n cap) = (Ok (FsWritten n), (?fs, data))"
    using n wr src by (simp add: fs_handle_request_def)
  have h2: "fs_handle_request (?fs, junk) (FsRead h off n cap) =
      (Ok (FsReadDone n), (?fs, ?src @ drop (unat n) junk))"
    using n rd by (simp add: fs_handle_request_def)
  have fl: "flags_ok (FsWrite h off n cap)" "flags_ok (FsRead h off n cap)" by (simp_all add: flags_ok_def)
  show ?thesis
    using fs_serve_request [OF fl(1) h1] fs_serve_request [OF fl(2) h2]
    by (intro exI [of _ ?fs] exI [of _ "page_of (encode_fs_response (FsWritten n))"]
        exI [of _ "page_of (encode_fs_response (FsReadDone n))"]) (simp add: page_fs_response)
qed

theorem fs_client_roundtrip_witness:
  "\<exists>fs' r. fs_serve (page_of (encode_fs_request (FsRead 0 2 3 9))) (fs', replicate 4096 0) =
     (Ok r, (fs', [7, 7, 7] @ replicate 4093 0))"
proof -
  let ?fs = "snd (fs_open_path fs_new ''/greeting'' True True)"
  have ok: "fs_ok ?fs" using fs_step_ok [OF fs_new_ok, of "FsOpenOp ''/greeting'' True True"] by simp
  have s: "fs_server_ok (?fs, replicate 4096 7)" using ok by (simp add: fs_server_ok_def)
  have f: "fs_open ?fs 0 = Some \<lparr>of_file = 0, can_write = True\<rparr>" by code_simp
  have l: "(3 :: u32) \<le> FS_DATA_LEN" "unat (2 :: u64) + unat (3 :: u32) \<le> MAX_FILE_BYTES"
    by (simp_all add: MAX_FILE_BYTES_def FS_DATA_LEN_def)
  have three: "unat (3 :: u32) = 3" "replicate 3 (7 :: u8) = [7, 7, 7]"
    by (simp, simp add: numeral_3_eq_3)
  then have e: "take (unat (3 :: u32)) (replicate 4096 7) = [7, 7, 7 :: u8]"
    "drop (unat (3 :: u32)) (replicate 4096 0) = (replicate 4093 0 :: u8 list)"
    by (simp_all only: take_replicate drop_replicate) simp_all
  from fs_client_roundtrip [OF s length_replicate f _ l] show ?thesis
    unfolding e by simp blast
qed

end
