(* ===== verification/Virtio.thy ===== *)
theory Virtio
  imports Wire Bytes
begin

text \<open>
  The ground under the drivers. \<open>subsystems/drivers/driver-framework/src/lib.rs\<close>: the
  contract of a driver and the \<open>serve\<close> loop that runs one; and the register accessors of
  \<open>driver-virtio-blk/src/lib.rs\<close>, which \<open>driver-virtio-net\<close> repeats line by line.

  A device, and the memory it shares with the driver, is the parameter \<open>env\<close>: what a volatile read
  of \<open>n\<close> bytes at an address yields after a history of accesses. Nothing is assumed of it. The
  accesses a driver makes are its \<open>trace\<close>, a field of the state that the driver's own record
  extends; a \<open>Wait\<close> system call is an access too. Address arithmetic is checked, as the build does.
\<close>

section \<open>Volatile accesses\<close>

datatype access = Rd usize nat u64 | Wr usize "u8 list" | Await

record run =
  trace :: "access list"

type_synonym env = "access list \<Rightarrow> usize \<Rightarrow> nat \<Rightarrow> u64"

datatype dd_error = ProbeFailed | OutOfRange | DeviceIo | Unsupported

type_synonym ('s, 'a) io = "'s \<Rightarrow> (dd_error, 'a) res \<times> 's"

definition rd :: "env \<Rightarrow> nat \<Rightarrow> usize \<Rightarrow> usize \<Rightarrow> ('x run_scheme, u64) io" where
  "rd env n base off s = try_in s (add_or_panic base off) (\<lambda>a.
     let v = take_bit (8 * n) (env (trace s) a n) in
     (Ok v, s\<lparr>trace := trace s @ [Rd a n v]\<rparr>))"

definition wr :: "usize \<Rightarrow> usize \<Rightarrow> u8 list \<Rightarrow> ('x run_scheme, unit) io" where
  "wr base off bs s = try_in s (add_or_panic base off) (\<lambda>a.
     (Ok (), s\<lparr>trace := trace s @ [Wr a bs]\<rparr>))"

definition rd8 :: "env \<Rightarrow> usize \<Rightarrow> usize \<Rightarrow> ('x run_scheme, u8) io" where
  "rd8 env base off s = then_do (rd env 1 base off s) (\<lambda>v s. (Ok (ucast v), s))"

definition rd16 :: "env \<Rightarrow> usize \<Rightarrow> usize \<Rightarrow> ('x run_scheme, u16) io" where
  "rd16 env base off s = then_do (rd env 2 base off s) (\<lambda>v s. (Ok (ucast v), s))"

definition rd32 :: "env \<Rightarrow> usize \<Rightarrow> usize \<Rightarrow> ('x run_scheme, u32) io" where
  "rd32 env base off s = then_do (rd env 4 base off s) (\<lambda>v s. (Ok (ucast v), s))"

abbreviation wr8 :: "usize \<Rightarrow> usize \<Rightarrow> u8 \<Rightarrow> ('x run_scheme, unit) io" where
  "wr8 base off v \<equiv> wr base off (le_bytes 1 v)"

abbreviation wr16 :: "usize \<Rightarrow> usize \<Rightarrow> u16 \<Rightarrow> ('x run_scheme, unit) io" where
  "wr16 base off v \<equiv> wr base off (le_bytes 2 v)"

abbreviation wr32 :: "usize \<Rightarrow> usize \<Rightarrow> u32 \<Rightarrow> ('x run_scheme, unit) io" where
  "wr32 base off v \<equiv> wr base off (le_bytes 4 v)"

abbreviation wr64 :: "usize \<Rightarrow> usize \<Rightarrow> u64 \<Rightarrow> ('x run_scheme, unit) io" where
  "wr64 base off v \<equiv> wr base off (le_bytes 8 v)"

text \<open>\<open>wait_for_irq\<close> of both drivers' \<open>subsystem_entry.rs\<close>: a system call, so an access like the
  others; the signal bits it returns are not looked at.\<close>

definition await_irq :: "('x run_scheme, unit) io" where
  "await_irq s = (Ok (), s\<lparr>trace := trace s @ [Await]\<rparr>)"

text \<open>Statements one after the other.\<close>

fun do_all :: "('s, unit) io list \<Rightarrow> ('s, unit) io" where
  "do_all [] s = (Ok (), s)"
| "do_all (m # ms) s = then_do (m s) (\<lambda>_. do_all ms)"

section \<open>Drivers and their loop\<close>

record device_info =
  sector_size :: u32
  sector_count :: u64

datatype driver_event = EvRequest driver_request | EvIrq u32

text \<open>The trait \<open>DeviceDriver\<close>. A method that returns no \<open>Result\<close> yields no \<open>Err\<close>, but may
  panic.\<close>

record 's device_driver =
  d_probe :: "('s, device_info) io"
  d_handle_irq :: "u32 \<Rightarrow> ('s, unit) io"
  d_handle_request :: "driver_request \<Rightarrow> ('s, driver_response) io"
  d_quiesce :: "('s, unit) io"

record 'c driver_channel =
  next_event :: "'c \<Rightarrow> driver_event option \<times> 'c"
  send_reply :: "driver_response \<Rightarrow> 'c \<Rightarrow> 'c"

partial_function (option) serve_loop ::
    "'s device_driver \<Rightarrow> 'c driver_channel \<Rightarrow> 's \<Rightarrow> 'c \<Rightarrow> ((dd_error, unit) res \<times> 's \<times> 'c) option" where
  "serve_loop drv ch s c = (case next_event ch c of
     (None, c) \<Rightarrow> (let (r, s) = d_quiesce drv s in Some (r, s, c))
   | (Some ev, c) \<Rightarrow> (case ev of
       EvRequest req \<Rightarrow> (case d_handle_request drv req s of
           (Ok resp, s) \<Rightarrow> serve_loop drv ch s (send_reply ch resp c)
         | (Err e, s) \<Rightarrow> Some (Err e, s, c)
         | (Panic, s) \<Rightarrow> Some (Panic, s, c))
     | EvIrq line \<Rightarrow> (case d_handle_irq drv line s of
           (Ok _, s) \<Rightarrow> serve_loop drv ch s c
         | (Err e, s) \<Rightarrow> Some (Err e, s, c)
         | (Panic, s) \<Rightarrow> Some (Panic, s, c))))"

definition serve ::
    "'s device_driver \<Rightarrow> 'c driver_channel \<Rightarrow> 's \<Rightarrow> 'c \<Rightarrow> ((dd_error, unit) res \<times> 's \<times> 'c) option" where
  "serve drv ch s c = (case d_probe drv s of
     (Ok _, s) \<Rightarrow> serve_loop drv ch s c
   | (Err e, s) \<Rightarrow> Some (Err e, s, c)
   | (Panic, s) \<Rightarrow> Some (Panic, s, c))"

text \<open>A channel that delivers a given list of events and then closes, as the crate's own tests
  have it, and what the loop does with it.\<close>

record script =
  pending :: "driver_event list"
  sent :: "driver_response list"

definition script_channel :: "script driver_channel" where
  "script_channel = \<lparr>
     next_event = (\<lambda>c. case pending c of [] \<Rightarrow> (None, c) | e # es \<Rightarrow> (Some e, c\<lparr>pending := es\<rparr>)),
     send_reply = (\<lambda>r c. c\<lparr>sent := sent c @ [r]\<rparr>)\<rparr>"

fun answer_all :: "'s device_driver \<Rightarrow> driver_event list \<Rightarrow> ('s, driver_response list) io" where
  "answer_all drv [] s = (Ok [], s)"
| "answer_all drv (EvRequest req # evs) s = then_do (d_handle_request drv req s) (\<lambda>resp s.
     then_do (answer_all drv evs s) (\<lambda>rs s. (Ok (resp # rs), s)))"
| "answer_all drv (EvIrq line # evs) s = then_do (d_handle_irq drv line s) (\<lambda>_ s.
     answer_all drv evs s)"

lemma serve_script:
  assumes "answer_all drv evs s = (Ok rs, s')"
  shows "serve_loop drv script_channel s \<lparr>pending = evs, sent = out\<rparr> =
    Some (fst (d_quiesce drv s'), snd (d_quiesce drv s'), \<lparr>pending = [], sent = out @ rs\<rparr>)"
  using assms
proof (induction evs arbitrary: s rs out)
  case Nil
  then show ?case by (subst serve_loop.simps) (simp add: script_channel_def case_prod_beta)
next
  case (Cons e evs)
  show ?case
  proof (cases e)
    case (EvRequest req)
    with Cons.prems obtain resp s1 qs where h: "d_handle_request drv req s = (Ok resp, s1)"
      and a: "answer_all drv evs s1 = (Ok qs, s')" and rs: "rs = resp # qs"
      by (auto simp: then_do_Ok_iff)
    show ?thesis
      using Cons.IH [OF a, of "out @ [resp]"] EvRequest h rs
      by (subst serve_loop.simps) (simp add: script_channel_def)
  next
    case (EvIrq line)
    with Cons.prems obtain u s1 where h: "d_handle_irq drv line s = (Ok u, s1)"
      and a: "answer_all drv evs s1 = (Ok rs, s')"
      by (auto simp: then_do_Ok_iff)
    show ?thesis
      using Cons.IH [OF a, of out] EvIrq h
      by (subst serve_loop.simps) (simp add: script_channel_def)
  qed
qed

section \<open>The transport\<close>

datatype transport =
    Mmio usize
  | Pci (pci_common: usize) (pci_notify: usize) (notify_off_multiplier: u32) (pci_isr: usize)
      (pci_device_cfg: usize)

definition ST_ACKNOWLEDGE :: u32 where "ST_ACKNOWLEDGE = 1"
definition ST_DRIVER :: u32 where "ST_DRIVER = 2"
definition ST_DRIVER_OK :: u32 where "ST_DRIVER_OK = 4"
definition ST_FEATURES_OK :: u32 where "ST_FEATURES_OK = 8"
definition ST_FAILED :: u32 where "ST_FAILED = 128"
definition VIRTIO_F_VERSION_1 :: u32 where "VIRTIO_F_VERSION_1 = 1"
definition VIRTIO_MSI_NO_VECTOR :: u16 where "VIRTIO_MSI_NO_VECTOR = 0xFFFF"

definition read_device_feature :: "env \<Rightarrow> transport \<Rightarrow> u32 \<Rightarrow> ('x run_scheme, u32) io" where
  "read_device_feature env t word s = (case t of
     Mmio base \<Rightarrow> then_do (wr32 base 0x014 word s) (\<lambda>_. rd32 env base 0x010)
   | Pci common _ _ _ _ \<Rightarrow> then_do (wr32 common 0x00 word s) (\<lambda>_. rd32 env common 0x04))"

definition write_driver_feature :: "transport \<Rightarrow> u32 \<Rightarrow> u32 \<Rightarrow> ('x run_scheme, unit) io" where
  "write_driver_feature t word value = (case t of
     Mmio base \<Rightarrow> do_all [wr32 base 0x024 word, wr32 base 0x020 value]
   | Pci common _ _ _ _ \<Rightarrow> do_all [wr32 common 0x08 word, wr32 common 0x0c value])"

definition read_status :: "env \<Rightarrow> transport \<Rightarrow> ('x run_scheme, u32) io" where
  "read_status env t s = (case t of
     Mmio base \<Rightarrow> rd32 env base 0x070 s
   | Pci common _ _ _ _ \<Rightarrow> then_do (rd8 env common 0x14 s) (\<lambda>v s. (Ok (ucast v), s)))"

definition write_status :: "transport \<Rightarrow> u32 \<Rightarrow> ('x run_scheme, unit) io" where
  "write_status t value = (case t of
     Mmio base \<Rightarrow> wr32 base 0x070 value
   | Pci common _ _ _ _ \<Rightarrow> wr8 common 0x14 (ucast value))"

definition select_queue :: "transport \<Rightarrow> u32 \<Rightarrow> ('x run_scheme, unit) io" where
  "select_queue t idx = (case t of
     Mmio base \<Rightarrow> wr32 base 0x030 idx
   | Pci common _ _ _ _ \<Rightarrow> wr16 common 0x16 (ucast idx))"

definition read_queue_size_max :: "env \<Rightarrow> transport \<Rightarrow> ('x run_scheme, u32) io" where
  "read_queue_size_max env t s = (case t of
     Mmio base \<Rightarrow> rd32 env base 0x034 s
   | Pci common _ _ _ _ \<Rightarrow> then_do (rd16 env common 0x18 s) (\<lambda>v s. (Ok (ucast v), s)))"

definition write_queue_size :: "transport \<Rightarrow> u32 \<Rightarrow> ('x run_scheme, unit) io" where
  "write_queue_size t n = (case t of
     Mmio base \<Rightarrow> wr32 base 0x038 n
   | Pci common _ _ _ _ \<Rightarrow> wr16 common 0x18 (ucast n))"

definition write_queue_msix_vector :: "transport \<Rightarrow> u16 \<Rightarrow> ('x run_scheme, unit) io" where
  "write_queue_msix_vector t vec = (case t of
     Pci common _ _ _ _ \<Rightarrow> wr16 common 0x1a vec
   | Mmio _ \<Rightarrow> do_all [])"

definition write_queue_addrs :: "transport \<Rightarrow> u64 \<Rightarrow> u64 \<Rightarrow> u64 \<Rightarrow> ('x run_scheme, unit) io" where
  "write_queue_addrs t desc avail used = (case t of
     Mmio base \<Rightarrow> do_all [
       wr32 base 0x080 (ucast desc), wr32 base 0x084 (ucast (drop_bit 32 desc)),
       wr32 base 0x090 (ucast avail), wr32 base 0x094 (ucast (drop_bit 32 avail)),
       wr32 base 0x0a0 (ucast used), wr32 base 0x0a4 (ucast (drop_bit 32 used))]
   | Pci common _ _ _ _ \<Rightarrow> do_all [
       wr64 common 0x20 desc, wr64 common 0x28 avail, wr64 common 0x30 used])"

text \<open>Both crates read the queue's notify offset here; one keeps it, the other returns it.\<close>

definition enable_queue :: "env \<Rightarrow> transport \<Rightarrow> ('x run_scheme, u16) io" where
  "enable_queue env t s = (case t of
     Mmio base \<Rightarrow> then_do (wr32 base 0x044 1 s) (\<lambda>_ s. (Ok 0, s))
   | Pci common _ _ _ _ \<Rightarrow> then_do (rd16 env common 0x1e s) (\<lambda>off s.
       then_do (wr16 common 0x1c 1 s) (\<lambda>_ s. (Ok off, s))))"

definition notify_queue :: "transport \<Rightarrow> u32 \<Rightarrow> u16 \<Rightarrow> ('x run_scheme, unit) io" where
  "notify_queue t idx notify_off = (case t of
     Mmio base \<Rightarrow> wr32 base 0x050 idx
   | Pci _ notify mult _ _ \<Rightarrow> wr16 notify (ucast notify_off * ucast mult) (ucast idx))"

definition ack_interrupt :: "env \<Rightarrow> transport \<Rightarrow> ('x run_scheme, unit) io" where
  "ack_interrupt env t s = (case t of
     Mmio base \<Rightarrow> then_do (rd32 env base 0x060 s) (\<lambda>cause. wr32 base 0x064 cause)
   | Pci _ _ _ isr _ \<Rightarrow> then_do (rd8 env isr 0 s) (\<lambda>_ s. (Ok (), s)))"

text \<open>\<open>queue_phys\<close> of the block driver, \<open>region_phys\<close> of the network driver: the physical
  address of an offset of a region, from the base that the region's first word holds.\<close>

definition queue_phys :: "env \<Rightarrow> usize \<Rightarrow> u64 \<Rightarrow> ('x run_scheme, u64) io" where
  "queue_phys env queue_base off s = then_do (rd env 8 queue_base 0 s) (\<lambda>base s.
     (add_or_panic base off, s))"


section \<open>Reasoning about a run\<close>

text \<open>\<open>ends m Q\<close>: the outcome and the state of \<open>m\<close> satisfy \<open>Q\<close>. It is computed statement by
  statement; what a read yields stays arbitrary.\<close>

definition ends :: "('e, 'a) res \<times> 's \<Rightarrow> (('e, 'a) res \<Rightarrow> 's \<Rightarrow> bool) \<Rightarrow> bool" where
  "ends m Q \<longleftrightarrow> Q (fst m) (snd m)"

lemma ends_pair [simp]: "ends (r, s) Q \<longleftrightarrow> Q r s"
  by (simp add: ends_def)

lemma ends_then_do [simp]:
  "ends (then_do m f) Q \<longleftrightarrow> ends m (\<lambda>r s. case r of
     Ok x \<Rightarrow> ends (f x s) Q | Err e \<Rightarrow> Q (Err e) s | Panic \<Rightarrow> Q Panic s)"
  by (cases m; cases "fst m") (auto simp: ends_def)

lemma ends_if [simp]: "ends (if b then m else m') Q \<longleftrightarrow> (if b then ends m Q else ends m' Q)"
  by simp

lemma ends_mono: "ends m Q \<Longrightarrow> (\<And>r s. Q r s \<Longrightarrow> Q' r s) \<Longrightarrow> ends m Q'"
  by (simp add: ends_def)

lemma ends_chain:
  assumes "ends m P" and "\<And>x s'. P (Ok x) s' \<Longrightarrow> ends (f x s') Q"
    and "\<And>e s'. P (Err e) s' \<Longrightarrow> Q (Err e) s'" and "\<And>s'. P Panic s' \<Longrightarrow> Q Panic s'"
  shows "ends (then_do m f) Q"
  using assms by (cases m; cases "fst m") (auto simp: ends_def)

text \<open>A window that does not reach the end of the address space, so that no offset below a page
  overflows.\<close>

definition window :: "usize \<Rightarrow> bool" where
  "window base \<longleftrightarrow> unat base + 4096 < 2 ^ 64"

definition transport_ok :: "transport \<Rightarrow> bool" where
  "transport_ok t = (case t of
     Mmio base \<Rightarrow> window base
   | Pci common notify _ isr cfg \<Rightarrow>
       window common \<and> unat notify + 2 ^ 48 < 2 ^ 64 \<and> window isr \<and> window cfg)"

lemma window_add:
  "window base \<Longrightarrow> unat off < 4096 \<Longrightarrow> add_or_panic base off = Ok (base + off)"
  by (simp add: window_def add_or_panic_Ok)

lemma wr_window [simp]:
  "window base \<Longrightarrow> unat off < 4096 \<Longrightarrow>
     wr base off bs s = (Ok (), s\<lparr>trace := trace s @ [Wr (base + off) bs]\<rparr>)"
  by (simp add: wr_def window_add)

lemma rd_window:
  assumes "window base" "unat off < 4096"
  shows "\<exists>v. rd env n base off s = (Ok v, s\<lparr>trace := trace s @ [Rd (base + off) n v]\<rparr>)"
  using assms by (simp add: rd_def window_add Let_def)

lemma ends_rd:
  assumes "window base" "unat off < 4096"
    and "\<And>v. Q (Ok v) (s\<lparr>trace := trace s @ [Rd (base + off) n v]\<rparr>)"
  shows "ends (rd env n base off s) Q"
  using rd_window [OF assms(1,2), of env n s] assms(3) by auto

lemma ends_rd32:
  "window base \<Longrightarrow> unat off < 4096 \<Longrightarrow>
     (\<And>v x. Q (Ok x) (s\<lparr>trace := trace s @ [Rd (base + off) 4 v]\<rparr>)) \<Longrightarrow> ends (rd32 env base off s) Q"
  by (simp add: rd32_def ends_rd)

lemma ends_rd16:
  "window base \<Longrightarrow> unat off < 4096 \<Longrightarrow>
     (\<And>v x. Q (Ok x) (s\<lparr>trace := trace s @ [Rd (base + off) 2 v]\<rparr>)) \<Longrightarrow> ends (rd16 env base off s) Q"
  by (simp add: rd16_def ends_rd)

lemma ends_rd8:
  "window base \<Longrightarrow> unat off < 4096 \<Longrightarrow>
     (\<And>v x. Q (Ok x) (s\<lparr>trace := trace s @ [Rd (base + off) 1 v]\<rparr>)) \<Longrightarrow> ends (rd8 env base off s) Q"
  by (simp add: rd8_def ends_rd)

lemmas ends_reads = ends_rd32 ends_rd16 ends_rd8

text \<open>The first word of a region holds its physical base: the kernel wrote it before the process
  started, and neither the driver nor the device writes there.\<close>

definition phys_base :: "env \<Rightarrow> usize \<Rightarrow> u64 \<Rightarrow> bool" where
  "phys_base env qb p \<longleftrightarrow> window qb \<and> window p \<and> (\<forall>tr. env tr qb 8 = p)"

lemma queue_phys_Ok [simp]:
  "phys_base env qb p \<Longrightarrow> unat off < 4096 \<Longrightarrow>
     queue_phys env qb off s = (Ok (p + off), s\<lparr>trace := trace s @ [Rd qb 8 p]\<rparr>)"
  by (simp add: queue_phys_def rd_def phys_base_def window_add Let_def take_bit_word_eq_self)

lemma phys_base_window: "phys_base env qb p \<Longrightarrow> window qb"
  by (simp add: phys_base_def)

section \<open>What the device has been told\<close>

text \<open>The values written to the status register, in order, and the last value written to any
  register.\<close>

definition status_reg :: "transport \<Rightarrow> usize" where
  "status_reg t = (case t of Mmio base \<Rightarrow> base + 0x070 | Pci common _ _ _ _ \<Rightarrow> common + 0x14)"

definition status_log :: "transport \<Rightarrow> access list \<Rightarrow> u8 list" where
  "status_log t tr = concat (map (\<lambda>a. case a of
     Wr x bs \<Rightarrow> if x = status_reg t then [hd bs] else [] | _ \<Rightarrow> []) tr)"

fun reg_from :: "u8 list option \<Rightarrow> access list \<Rightarrow> usize \<Rightarrow> u8 list option" where
  "reg_from m [] x = m"
| "reg_from m (Wr y bs # tr) x = reg_from (if y = x then Some bs else m) tr x"
| "reg_from m (Rd y n v # tr) x = reg_from m tr x"
| "reg_from m (Await # tr) x = reg_from m tr x"

definition reg :: "access list \<Rightarrow> usize \<Rightarrow> u8 list option" where
  "reg tr x = reg_from None tr x"

lemma reg_from_append: "reg_from m (xs @ ys) x = reg_from (reg_from m xs x) ys x"
  by (induction m xs x rule: reg_from.induct) simp_all

lemma reg_append: "reg (xs @ ys) x = reg_from (reg xs x) ys x"
  by (simp add: reg_def reg_from_append)

lemma status_log_append: "status_log t (xs @ ys) = status_log t xs @ status_log t ys"
  by (simp add: status_log_def)

lemma status_log_simps:
  "status_log t [] = []"
  "status_log t (Wr x bs # tr) = (if x = status_reg t then hd bs # status_log t tr else status_log t tr)"
  "status_log t (Rd x n v # tr) = status_log t tr"
  "status_log t (Await # tr) = status_log t tr"
  by (simp_all add: status_log_def)

text \<open>The selected queue as the device sees it: its size, the physical addresses of its three
  parts, and that it is enabled.\<close>

fun queue_set :: "transport \<Rightarrow> access list \<Rightarrow> u16 \<Rightarrow> u64 \<Rightarrow> u64 \<Rightarrow> u64 \<Rightarrow> bool" where
  "queue_set (Mmio b) tr n desc avail used \<longleftrightarrow>
     reg tr (b + 0x038) = Some (le_bytes 4 (ucast n :: u32)) \<and>
     reg tr (b + 0x080) = Some (le_bytes 4 (ucast desc :: u32)) \<and>
     reg tr (b + 0x084) = Some (le_bytes 4 (ucast (drop_bit 32 desc) :: u32)) \<and>
     reg tr (b + 0x090) = Some (le_bytes 4 (ucast avail :: u32)) \<and>
     reg tr (b + 0x094) = Some (le_bytes 4 (ucast (drop_bit 32 avail) :: u32)) \<and>
     reg tr (b + 0x0a0) = Some (le_bytes 4 (ucast used :: u32)) \<and>
     reg tr (b + 0x0a4) = Some (le_bytes 4 (ucast (drop_bit 32 used) :: u32)) \<and>
     reg tr (b + 0x044) = Some (le_bytes 4 (1 :: u32))"
| "queue_set (Pci c _ _ _ _) tr n desc avail used \<longleftrightarrow>
     reg tr (c + 0x18) = Some (le_bytes 2 n) \<and> reg tr (c + 0x20) = Some (le_bytes 8 desc) \<and>
     reg tr (c + 0x28) = Some (le_bytes 8 avail) \<and> reg tr (c + 0x30) = Some (le_bytes 8 used) \<and>
     reg tr (c + 0x1c) = Some (le_bytes 2 (1 :: u16))"

lemma hd_le_bytes [simp]: "0 < n \<Longrightarrow> hd (le_bytes n w) = ucast w"
  by (cases n) simp_all


section \<open>The shared memory\<close>

text \<open>What the writes of a trace leave in memory, byte by byte; \<open>None\<close> where the driver has
  not written.\<close>

fun mem_from :: "(usize \<Rightarrow> u8 option) \<Rightarrow> access list \<Rightarrow> usize \<Rightarrow> u8 option" where
  "mem_from m [] = m"
| "mem_from m (Wr a bs # tr) =
     mem_from (\<lambda>x. if unat (x - a) < length bs then Some (bs ! unat (x - a)) else m x) tr"
| "mem_from m (Rd a n v # tr) = mem_from m tr"
| "mem_from m (Await # tr) = mem_from m tr"

definition mem :: "access list \<Rightarrow> usize \<Rightarrow> u8 option" where
  "mem tr = mem_from (\<lambda>_. None) tr"

definition mem_bytes :: "(usize \<Rightarrow> u8 option) \<Rightarrow> usize \<Rightarrow> nat \<Rightarrow> u8 option list" where
  "mem_bytes m a n = map (\<lambda>i. m (a + of_nat i)) [0 ..< n]"

definition peek :: "(usize \<Rightarrow> u8 option) \<Rightarrow> usize \<Rightarrow> nat \<Rightarrow> 'a::len word option" where
  "peek m a n = (if None \<in> set (mem_bytes m a n) then None
     else Some (le_word (map the (mem_bytes m a n))))"

lemma mem_from_append: "mem_from m (xs @ ys) = mem_from (mem_from m xs) ys"
  by (induction m xs rule: mem_from.induct) simp_all

lemma mem_append: "mem (xs @ ys) = mem_from (mem xs) ys"
  by (simp add: mem_def mem_from_append)

definition store :: "(usize \<Rightarrow> u8 option) \<Rightarrow> usize \<Rightarrow> u8 list \<Rightarrow> usize \<Rightarrow> u8 option" where
  "store m a bs = (\<lambda>x. if unat (x - a) < length bs then Some (bs ! unat (x - a)) else m x)"

lemma mem_from_Wr: "mem_from m (Wr a bs # tr) = mem_from (store m a bs) tr"
  by (simp add: store_def)

text \<open>Reading inside what was just written, and reading beside it. Addresses are a base and two
  offsets below a page.\<close>

lemma mem_bytes_inside:
  assumes "unat off \<le> unat off'" and "unat off' + n \<le> unat off + length bs"
    and "length bs \<le> 4096" and "unat off' < 4096"
  shows "mem_bytes (store m (base + off) bs) (base + off') n =
    map Some (take n (drop (unat off' - unat off) bs))"
proof (rule nth_equalityI)
  fix i assume "i < length (mem_bytes (store m (base + off) bs) (base + off') n)"
  then have i: "i < n" by (simp add: mem_bytes_def)
  have "unat off' + i < 2 ^ LENGTH(64)" "i < 2 ^ LENGTH(64)" using assms i by simp_all
  then have ui: "unat (of_nat i :: usize) = i" and s: "unat (off' + of_nat i) = unat off' + i"
    by (simp_all add: unat_of_nat_small unat_add_exact)
  let ?k = "unat off' - unat off"
  have "off \<le> off' + of_nat i" using assms(1) s by (simp add: word_le_nat_alt)
  then have "unat (off' + of_nat i - off) = ?k + i"
    using s assms(1) by (simp add: unat_sub_exact)
  moreover have "base + off' + of_nat i - (base + off) = off' + of_nat i - off" by simp
  ultimately have "unat (base + off' + of_nat i - (base + off)) = ?k + i" by metis
  moreover have "?k + i < length bs" using assms(1,2) i by linarith
  ultimately have "store m (base + off) bs (base + off' + of_nat i) = Some (bs ! (?k + i))"
    by (simp add: store_def)
  then show "mem_bytes (store m (base + off) bs) (base + off') n ! i =
      map Some (take n (drop ?k bs)) ! i"
    using i assms(1,2) \<open>?k + i < length bs\<close> by (simp add: mem_bytes_def)
qed (use assms in \<open>simp add: mem_bytes_def\<close>)

lemma mem_bytes_beside:
  assumes "unat off' + n \<le> unat off \<or> unat off + length bs \<le> unat off'"
    and "length bs \<le> 4096" and "unat off < 4096" and "unat off' < 4096" and "n \<le> 4096"
  shows "mem_bytes (store m (base + off) bs) (base + off') n = mem_bytes m (base + off') n"
proof (rule nth_equalityI)
  fix i assume "i < length (mem_bytes (store m (base + off) bs) (base + off') n)"
  then have i: "i < n" by (simp add: mem_bytes_def)
  have "unat off' + i < 2 ^ LENGTH(64)" "i < 2 ^ LENGTH(64)" using assms i by simp_all
  then have s: "unat (off' + of_nat i) = unat off' + i"
    by (simp add: unat_of_nat_small unat_add_exact)
  have "\<not> unat (off' + of_nat i - off) < length bs"
  proof (cases "off \<le> off' + of_nat i")
    case True
    then have "unat off \<le> unat off' + i" using s by (simp add: word_le_nat_alt)
    moreover have "unat (off' + of_nat i - off) = unat off' + i - unat off"
      using True s by (simp add: unat_sub_exact)
    ultimately show ?thesis using assms(1) i by linarith
  next
    case False
    then have lt: "unat off' + i < unat off" using s by (simp add: word_le_nat_alt not_le)
    have "unat (off' + of_nat i - off) = unat off' + i + 2 ^ LENGTH(64) - unat off"
      using lt s by (simp add: unat_sub_if_size word_size)
    then have "2 ^ 64 - 4096 \<le> unat (off' + of_nat i - off)" using assms(3) by simp
    then show ?thesis using assms(2) by simp
  qed
  moreover have "base + off' + of_nat i - (base + off) = off' + of_nat i - off" by simp
  ultimately have "\<not> unat (base + off' + of_nat i - (base + off)) < length bs" by metis
  then show "mem_bytes (store m (base + off) bs) (base + off') n ! i = mem_bytes m (base + off') n ! i"
    using i by (simp add: mem_bytes_def store_def)
qed (simp add: mem_bytes_def)


lemma peek_Some:
  assumes "mem_bytes m a n = map Some (le_bytes n (w :: 'a::len word))" and "LENGTH('a) \<le> 8 * n"
  shows "peek m a n = Some w"
proof -
  have "map the (mem_bytes m a n) = le_bytes n w" "None \<notin> set (mem_bytes m a n)"
    using assms(1) by (auto simp: comp_def)
  then show ?thesis using assms(2) by (simp add: peek_def le_word_bytes)
qed

text \<open>A chain of a split virtqueue, as the device follows it from a descriptor table at offset
  \<open>tab\<close> of the region: the buffers, with the direction of each.\<close>

fun virtq_chain ::
    "nat \<Rightarrow> (usize \<Rightarrow> u8 option) \<Rightarrow> usize \<Rightarrow> nat \<Rightarrow> nat \<Rightarrow> (u64 \<times> u32 \<times> bool) list option" where
  "virtq_chain 0 m qb tab i = None"
| "virtq_chain (Suc fuel) m qb tab i =
     (case (peek m (qb + of_nat (tab + 16 * i)) 8 :: u64 option,
            peek m (qb + of_nat (tab + 16 * i + 8)) 4 :: u32 option,
            peek m (qb + of_nat (tab + 16 * i + 12)) 2 :: u16 option,
            peek m (qb + of_nat (tab + 16 * i + 14)) 2 :: u16 option) of
        (Some addr, Some len, Some flags, Some nxt) \<Rightarrow>
          let b = (addr, len, bit flags 1) in
          if bit flags 0 then map_option (Cons b) (virtq_chain fuel m qb tab (unat nxt))
          else Some [b]
      | _ \<Rightarrow> None)"

definition desc_bytes :: "u64 \<Rightarrow> u32 \<Rightarrow> u16 \<Rightarrow> u16 \<Rightarrow> u8 list" where
  "desc_bytes addr len flags nxt =
     le_bytes 8 addr @ le_bytes 4 len @ le_bytes 2 flags @ le_bytes 2 nxt"

lemma length_desc_bytes [simp]: "length (desc_bytes addr len flags nxt) = 16"
  by (simp add: desc_bytes_def)

text \<open>One step of the walk, where the 16 bytes of the descriptor are in memory.\<close>

lemma virtq_chain_step:
  assumes "mem_bytes m (qb + of_nat (tab + 16 * i)) 16 = map Some (desc_bytes addr len flags nxt)"
  shows "virtq_chain (Suc fuel) m qb tab i =
    (let b = (addr, len, bit flags 1) in
     if bit flags 0 then map_option (Cons b) (virtq_chain fuel m qb tab (unat nxt)) else Some [b])"
proof -
  let ?a = "qb + of_nat (tab + 16 * i)"
  have part: "mem_bytes m (qb + of_nat (tab + 16 * i + k)) n =
      map Some (take n (drop k (desc_bytes addr len flags nxt)))" if "k + n \<le> 16" for k n
  proof (rule nth_equalityI)
    fix j assume "j < length (mem_bytes m (qb + of_nat (tab + 16 * i + k)) n)"
    then have j: "j < n" by (simp add: mem_bytes_def)
    then have at: "mem_bytes m (qb + of_nat (tab + 16 * i + k)) n ! j = mem_bytes m ?a 16 ! (k + j)"
      using that by (simp add: mem_bytes_def add.assoc)
    then show "mem_bytes m (qb + of_nat (tab + 16 * i + k)) n ! j =
        map Some (take n (drop k (desc_bytes addr len flags nxt))) ! j"
      unfolding at assms using that j by simp
  qed (use that in \<open>simp add: mem_bytes_def\<close>)
  have "peek m ?a 8 = Some addr" "peek m (qb + of_nat (tab + 16 * i + 8)) 4 = Some len"
    "peek m (qb + of_nat (tab + 16 * i + 12)) 2 = Some flags"
    "peek m (qb + of_nat (tab + 16 * i + 14)) 2 = Some nxt"
    using part [of 0 8] part [of 8 4] part [of 12 2] part [of 14 2]
    by (simp_all add: peek_Some desc_bytes_def)
  then show ?thesis by simp
qed


fun doorbell :: "transport \<Rightarrow> u32 \<Rightarrow> u16 \<Rightarrow> access" where
  "doorbell (Mmio b) q off = Wr (b + 0x050) (le_bytes 4 q)"
| "doorbell (Pci _ notify mult _ _) q off = Wr (notify + ucast off * ucast mult) (le_bytes 2 (ucast q :: u16))"

lemma notify_Ok:
  assumes "transport_ok t"
  shows "notify_queue t q off s = (Ok (), s\<lparr>trace := trace s @ [doorbell t q off]\<rparr>)"
proof (cases t)
  case (Mmio b)
  then show ?thesis using assms by (simp add: notify_queue_def transport_ok_def)
next
  case (Pci c notify mult i d)
  have off: "unat (ucast off :: usize) = unat off" and mult: "unat (ucast mult :: usize) = unat mult"
    by (rule unat_ucast_up; simp)+
  have "unat off * unat mult \<le> 2 ^ 16 * 2 ^ 32"
    using unat_bound [of off] unat_bound [of mult] by (intro mult_le_mono) simp_all
  then have prod: "unat off * unat mult \<le> 2 ^ 48" by simp
  then have "unat (ucast off * ucast mult :: usize) = unat off * unat mult"
    by (subst unat_mult_exact) (simp_all add: off mult)
  then have "unat notify + unat (ucast off * ucast mult :: usize) < 2 ^ LENGTH(64)"
    using prod assms Pci by (simp add: transport_ok_def)
  then have "add_or_panic notify (ucast off * ucast mult) =
      (Ok (notify + ucast off * ucast mult) :: (dd_error, usize) res)"
    by (simp only: add_or_panic_Ok)
  then show ?thesis using Pci by (simp add: notify_queue_def wr_def)
qed

lemma ack_interrupt_Ok:
  assumes "transport_ok t"
  shows "\<exists>tr. ack_interrupt env t s = (Ok (), s\<lparr>trace := trace s @ tr\<rparr>)"
proof (cases t)
  case (Mmio b)
  then show ?thesis
    using assms rd_window [of b "0x060" env 4 s]
    by (auto simp: ack_interrupt_def transport_ok_def rd32_def)
next
  case (Pci c n m i d)
  then show ?thesis
    using assms rd_window [of i 0 env 1 s]
    by (auto simp: ack_interrupt_def transport_ok_def rd8_def)
qed

end
