(* ===== verification/VirtioBlk.thy ===== *)
theory VirtioBlk
  imports Virtio
begin

text \<open>
  \<open>subsystems/drivers/driver-virtio-blk/src/lib.rs\<close>: the block driver. Its state extends the
  trace of accesses with the fields of \<open>VirtioBlk\<close>; the device is arbitrary. The addresses of the
  queue region are \<open>queue_base\<close> plus the constants of \<open>layout\<close>, written as in the source.
\<close>

section \<open>Constants and state\<close>

definition QUEUE_SIZE :: u16 where "QUEUE_SIZE = 4"
definition REQUEST_QUEUE :: u32 where "REQUEST_QUEUE = 0"
definition SECTOR_SIZE :: u32 where "SECTOR_SIZE = 512"
definition STATUS_TIMEOUT :: u8 where "STATUS_TIMEOUT = 0xFE"
definition VIRTQ_DESC_F_NEXT :: u16 where "VIRTQ_DESC_F_NEXT = 1"
definition VIRTQ_DESC_F_WRITE :: u16 where "VIRTQ_DESC_F_WRITE = 2"
definition MAX_SPINS :: nat where "MAX_SPINS = 20000000"

definition DESC_OFFSET :: usize where "DESC_OFFSET = 16"
definition AVAIL_OFFSET :: usize where "AVAIL_OFFSET = 80"
definition USED_OFFSET :: usize where "USED_OFFSET = 128"
definition HEADER_OFFSET :: usize where "HEADER_OFFSET = 256"
definition STATUS_OFFSET :: usize where "STATUS_OFFSET = 272"
definition DATA_OFFSET :: usize where "DATA_OFFSET = 512"

lemmas layout_defs = DESC_OFFSET_def AVAIL_OFFSET_def USED_OFFSET_def HEADER_OFFSET_def
  STATUS_OFFSET_def DATA_OFFSET_def

datatype blk_req_type = BlkIn | BlkOut | BlkFlush

fun req_type_code :: "blk_req_type \<Rightarrow> u32" where
  "req_type_code BlkIn = 0"
| "req_type_code BlkOut = 1"
| "req_type_code BlkFlush = 4"

record virtio_blk = run +
  v_transport :: transport
  queue_base :: usize
  capacity_sectors :: u64
  v_ready :: bool
  next_idx :: u16
  queue_notify_off :: u16
  msix_vector :: u16

definition blk_new :: "usize \<Rightarrow> usize \<Rightarrow> virtio_blk" where
  "blk_new mmio_base qb = \<lparr>trace = [], v_transport = Mmio mmio_base, queue_base = qb,
     capacity_sectors = 0, v_ready = False, next_idx = 0, queue_notify_off = 0,
     msix_vector = VIRTIO_MSI_NO_VECTOR\<rparr>"

definition blk_new_pci ::
    "usize \<Rightarrow> usize \<Rightarrow> u32 \<Rightarrow> usize \<Rightarrow> usize \<Rightarrow> usize \<Rightarrow> u16 \<Rightarrow> virtio_blk" where
  "blk_new_pci common notify mult isr device_cfg qb vec = \<lparr>trace = [],
     v_transport = Pci common notify mult isr device_cfg, queue_base = qb, capacity_sectors = 0,
     v_ready = False, next_idx = 0, queue_notify_off = 0, msix_vector = vec\<rparr>"

definition transport_is_bound :: "virtio_blk \<Rightarrow> bool" where
  "transport_is_bound s = (case v_transport s of
     Mmio base \<Rightarrow> base \<noteq> 0 | Pci common _ _ _ _ \<Rightarrow> common \<noteq> 0)"

section \<open>Bringing the device up\<close>

definition read_config32 :: "env \<Rightarrow> transport \<Rightarrow> usize \<Rightarrow> ('x run_scheme, u32) io" where
  "read_config32 env t off s = (case t of
     Mmio base \<Rightarrow> rd32 env base (0x100 + off) s
   | Pci _ _ _ _ device_cfg \<Rightarrow> rd32 env device_cfg off s)"

definition check_identity :: "env \<Rightarrow> (virtio_blk, unit) io" where
  "check_identity env s = (case v_transport s of
     Mmio base \<Rightarrow>
       then_do (rd32 env base 0x000 s) (\<lambda>magic s.
       then_do (rd32 env base 0x008 s) (\<lambda>device_id s.
       then_do (rd32 env base 0x004 s) (\<lambda>version s.
         if magic \<noteq> 0x74726976 \<or> device_id \<noteq> 2 then (Err ProbeFailed, s)
         else if version \<noteq> 2 then (Err ProbeFailed, s)
         else (Ok (), s))))
   | Pci _ _ _ _ _ \<Rightarrow> (Ok (), s))"

definition probe_fails :: "transport \<Rightarrow> ('x run_scheme, 'a) io" where
  "probe_fails t s = then_do (write_status t ST_FAILED s) (\<lambda>_ s. (Err ProbeFailed, s))"

definition negotiate :: "env \<Rightarrow> (virtio_blk, unit) io" where
  "negotiate env s = (let t = v_transport s in
     then_do (do_all [write_status t 0, write_status t ST_ACKNOWLEDGE,
       write_status t (ST_ACKNOWLEDGE OR ST_DRIVER)] s) (\<lambda>_ s.
     then_do (read_device_feature env t 1 s) (\<lambda>dev_features_hi s.
     then_do (do_all [write_driver_feature t 0 0,
       write_driver_feature t 1 (dev_features_hi AND VIRTIO_F_VERSION_1),
       write_status t (ST_ACKNOWLEDGE OR ST_DRIVER OR ST_FEATURES_OK)] s) (\<lambda>_ s.
     then_do (read_status env t s) (\<lambda>after_features s.
       if after_features AND ST_FEATURES_OK = 0 then probe_fails t s else (Ok (), s))))))"

definition setup_queue :: "env \<Rightarrow> (virtio_blk, unit) io" where
  "setup_queue env s = (let t = v_transport s; qb = queue_base s in
     then_do (do_all [select_queue t REQUEST_QUEUE, write_queue_msix_vector t (msix_vector s)] s) (\<lambda>_ s.
     then_do (read_queue_size_max env t s) (\<lambda>m s.
     if m = 0 \<or> (ucast m :: u16) < QUEUE_SIZE then probe_fails t s else
     then_do (write_queue_size t (ucast QUEUE_SIZE) s) (\<lambda>_ s.
     then_do (queue_phys env qb DESC_OFFSET s) (\<lambda>desc_phys s.
     then_do (queue_phys env qb AVAIL_OFFSET s) (\<lambda>avail_phys s.
     then_do (queue_phys env qb USED_OFFSET s) (\<lambda>used_phys s.
     then_do (write_queue_addrs t desc_phys avail_phys used_phys s) (\<lambda>_ s.
     then_do (enable_queue env t s) (\<lambda>off s.
       (Ok (), case t of Mmio _ \<Rightarrow> s | Pci _ _ _ _ _ \<Rightarrow> s\<lparr>queue_notify_off := off\<rparr>))))))))))"

definition do_probe :: "env \<Rightarrow> (virtio_blk, unit) io" where
  "do_probe env s = (let t = v_transport s in
     then_do (check_identity env s) (\<lambda>_ s.
     then_do (negotiate env s) (\<lambda>_ s.
     then_do (setup_queue env s) (\<lambda>_ s.
     then_do (write_status t (ST_ACKNOWLEDGE OR ST_DRIVER OR ST_FEATURES_OK OR ST_DRIVER_OK) s) (\<lambda>_ s.
     then_do (read_config32 env t 0 s) (\<lambda>cap_lo s.
     then_do (read_config32 env t 4 s) (\<lambda>cap_hi s.
       (Ok (), s\<lparr>capacity_sectors := ucast cap_lo OR push_bit 32 (ucast cap_hi)\<rparr>))))))))"

definition blk_probe :: "env \<Rightarrow> (virtio_blk, device_info) io" where
  "blk_probe env s =
     (if \<not> transport_is_bound s \<or> queue_base s = 0 then (Err ProbeFailed, s) else
      then_do (do_probe env s) (\<lambda>_ s. let s = s\<lparr>v_ready := True\<rparr> in
        (Ok \<lparr>sector_size = SECTOR_SIZE, sector_count = capacity_sectors s\<rparr>, s)))"

section \<open>One request\<close>

definition blk_header_bytes :: "blk_req_type \<Rightarrow> u64 \<Rightarrow> u8 list" where
  "blk_header_bytes ty sector = le_bytes 4 (req_type_code ty) @ le_bytes 4 (0 :: u32) @ le_bytes 8 sector"

definition submit_request :: "env \<Rightarrow> blk_req_type \<Rightarrow> u64 \<Rightarrow> usize \<Rightarrow> (virtio_blk, unit) io" where
  "submit_request env ty sector data_len s = (let qb = queue_base s in
     then_do (do_all [wr qb HEADER_OFFSET (blk_header_bytes ty sector), wr8 qb STATUS_OFFSET 0xFF] s) (\<lambda>_ s.
     then_do (queue_phys env qb HEADER_OFFSET s) (\<lambda>header_phys s.
     then_do (queue_phys env qb DATA_OFFSET s) (\<lambda>data_phys s.
     then_do (queue_phys env qb STATUS_OFFSET s) (\<lambda>status_phys s.
     let write_to_device = (ty = BlkOut) in
     then_do (do_all [
       wr qb (DESC_OFFSET + 0 * 16) (desc_bytes header_phys 16 VIRTQ_DESC_F_NEXT 1),
       wr qb (DESC_OFFSET + 1 * 16) (desc_bytes data_phys (ucast data_len)
         (VIRTQ_DESC_F_NEXT OR (if write_to_device then 0 else VIRTQ_DESC_F_WRITE)) 2),
       wr qb (DESC_OFFSET + 2 * 16) (desc_bytes status_phys 1 VIRTQ_DESC_F_WRITE 0)] s) (\<lambda>_ s.
     then_do (wr16 qb (AVAIL_OFFSET + 4 + (ucast (next_idx s) mod ucast QUEUE_SIZE) * 2) 0 s) (\<lambda>_ s.
     let s = s\<lparr>next_idx := next_idx s + 1\<rparr> in
     then_do (wr16 qb (AVAIL_OFFSET + 2) (next_idx s) s) (\<lambda>_ s.
       notify_queue (v_transport s) REQUEST_QUEUE (queue_notify_off s) s))))))))"

definition ack_completion :: "env \<Rightarrow> (virtio_blk, u8) io" where
  "ack_completion env s = then_do (ack_interrupt env (v_transport s) s) (\<lambda>_ s.
     rd8 env (queue_base s) STATUS_OFFSET s)"

definition completion_pending :: "env \<Rightarrow> (virtio_blk, bool) io" where
  "completion_pending env s = then_do (rd16 env (queue_base s) (USED_OFFSET + 2) s) (\<lambda>used_idx s.
     (Ok (used_idx = next_idx s), s))"

text \<open>The loop \<open>for _ in 0..MAX_SPINS\<close> over the read that \<open>completion_pending\<close> is too.\<close>

fun spin :: "env \<Rightarrow> nat \<Rightarrow> (virtio_blk, bool) io" where
  "spin env 0 s = (Ok False, s)"
| "spin env (Suc n) s = then_do (completion_pending env s) (\<lambda>done s.
     if done then (Ok True, s) else spin env n s)"

definition wait_for_completion :: "env \<Rightarrow> (virtio_blk, u8) io" where
  "wait_for_completion env s = then_do (spin env MAX_SPINS s) (\<lambda>completed s.
     if \<not> completed then
       then_do (ack_interrupt env (v_transport s) s) (\<lambda>_ s. (Ok STATUS_TIMEOUT, s))
     else ack_completion env s)"

section \<open>Serving requests\<close>

definition validate_io :: "virtio_blk \<Rightarrow> u32 \<Rightarrow> u64 \<Rightarrow> (driver_error, unit) res" where
  "validate_io s n lba =
     (if n \<noteq> 1 then Err DrUnsupported
      else if capacity_sectors s = 0 then Ok ()
      else bind_res (add_or_panic lba 1) (\<lambda>e.
        if e > capacity_sectors s then Err DrOutOfRange else Ok ()))"

definition blk_transfer :: "env \<Rightarrow> blk_req_type \<Rightarrow> u64 \<Rightarrow> u32 \<Rightarrow> (virtio_blk, driver_response) io" where
  "blk_transfer env ty lba n s = (case validate_io s n lba of
     Panic \<Rightarrow> (Panic, s)
   | Err code \<Rightarrow> (Ok (DrFailed code), s)
   | Ok _ \<Rightarrow>
     then_do (submit_request env ty lba (ucast SECTOR_SIZE) s) (\<lambda>_ s.
     then_do (wait_for_completion env s) (\<lambda>status s.
       (Ok (if status = 0 then DrCompleted 1 else DrFailed DrDeviceIo), s))))"

definition blk_handle_irq :: "u32 \<Rightarrow> (virtio_blk, unit) io" where
  "blk_handle_irq line s = (Ok (), s)"

definition blk_handle_request :: "env \<Rightarrow> driver_request \<Rightarrow> (virtio_blk, driver_response) io" where
  "blk_handle_request env req s =
     (if \<not> v_ready s then (Ok (DrFailed DrProbeFailed), s) else
      case req of
        DrProbe \<Rightarrow> (Ok (DrReady SECTOR_SIZE (capacity_sectors s)), s)
      | DrReadBlocks lba n _ \<Rightarrow> blk_transfer env BlkIn lba n s
      | DrWriteBlocks lba n _ \<Rightarrow> blk_transfer env BlkOut lba n s
      | DrIrq line \<Rightarrow> then_do (blk_handle_irq line s) (\<lambda>_ s. (Ok (DrCompleted 0), s))
      | DrQuiesce \<Rightarrow> (Ok (DrReady SECTOR_SIZE (capacity_sectors s)), s)
      | DrSendFrame _ \<Rightarrow> (Ok (DrFailed DrUnsupported), s)
      | DrPollFrame \<Rightarrow> (Ok (DrFailed DrUnsupported), s))"

definition virtio_blk_driver :: "env \<Rightarrow> virtio_blk device_driver" where
  "virtio_blk_driver env = \<lparr>d_probe = blk_probe env, d_handle_irq = blk_handle_irq,
     d_handle_request = blk_handle_request env, d_quiesce = (\<lambda>s. (Ok (), s))\<rparr>"



section \<open>The handshake\<close>

lemmas status_defs = ST_ACKNOWLEDGE_def ST_DRIVER_def ST_FEATURES_OK_def ST_DRIVER_OK_def ST_FAILED_def

lemma check_identity_ends:
  assumes "transport_ok t" and "v_transport s = t"
  shows "ends (check_identity env s) (\<lambda>r s'. s' = s\<lparr>trace := trace s'\<rparr> \<and>
    (r = Ok () \<or> r = Err ProbeFailed) \<and>
    status_log t (trace s') = status_log t (trace s))"
proof (cases t)
  case (Mmio b)
  then show ?thesis using assms
    by (auto simp: check_identity_def transport_ok_def status_log_append status_log_simps
        intro!: ends_reads)
next
  case (Pci c n m i d)
  then show ?thesis using assms by (simp add: check_identity_def)
qed

lemma negotiate_ends:
  assumes "transport_ok t" and "v_transport s = t"
  shows "ends (negotiate env s) (\<lambda>r s'. s' = s\<lparr>trace := trace s'\<rparr> \<and>
    (r = Ok () \<and> status_log t (trace s') =
        status_log t (trace s) @ [0, 1, 3, 11] \<or>
     r = Err ProbeFailed \<and> status_log t (trace s') =
        status_log t (trace s) @ [0, 1, 3, 11, 128]))"
proof (cases t)
  case (Mmio b)
  then show ?thesis using assms
    by (auto simp: negotiate_def Let_def write_status_def read_device_feature_def
        write_driver_feature_def read_status_def probe_fails_def status_defs transport_ok_def
        status_log_append status_log_simps status_reg_def intro!: ends_reads)
next
  case (Pci c n m i d)
  then show ?thesis using assms
    by (auto simp: negotiate_def Let_def write_status_def read_device_feature_def
        write_driver_feature_def read_status_def probe_fails_def status_defs transport_ok_def
        status_log_append status_log_simps status_reg_def intro!: ends_reads)
qed


text \<open>The fields a probe may change: the trace, the notify offset and the capacity.\<close>

definition probing :: "virtio_blk \<Rightarrow> virtio_blk \<Rightarrow> bool" where
  "probing s s' \<longleftrightarrow> v_transport s' = v_transport s \<and> queue_base s' = queue_base s \<and>
     v_ready s' = v_ready s \<and> next_idx s' = next_idx s \<and> msix_vector s' = msix_vector s"

lemma setup_queue_ends:
  assumes "transport_ok t" and "v_transport s = t" and "phys_base env (queue_base s) p"
  shows "ends (setup_queue env s) (\<lambda>r s'. probing s s' \<and>
    (r = Ok () \<and> status_log t (trace s') = status_log t (trace s) \<and>
       queue_set t (trace s') 4 (p + 16) (p + 80) (p + 128) \<or>
     r = Err ProbeFailed \<and> status_log t (trace s') =
        status_log t (trace s) @ [128]))"
proof (cases t)
  case (Mmio b)
  then show ?thesis using assms
    by (auto simp: setup_queue_def Let_def write_status_def select_queue_def
        write_queue_msix_vector_def read_queue_size_max_def write_queue_size_def
        write_queue_addrs_def enable_queue_def probe_fails_def status_defs layout_defs
        QUEUE_SIZE_def REQUEST_QUEUE_def transport_ok_def probing_def
        status_log_append status_log_simps status_reg_def reg_append intro!: ends_reads)
next
  case (Pci c n m i d)
  then show ?thesis using assms
    by (auto simp: setup_queue_def Let_def write_status_def select_queue_def
        write_queue_msix_vector_def read_queue_size_max_def write_queue_size_def
        write_queue_addrs_def enable_queue_def probe_fails_def status_defs layout_defs
        QUEUE_SIZE_def REQUEST_QUEUE_def transport_ok_def probing_def
        status_log_append status_log_simps status_reg_def reg_append intro!: ends_reads)
qed


lemma read_config32_ends:
  assumes "transport_ok t" and "off = 0 \<or> off = 4"
    and "\<And>x tr. status_log t (trace s @ tr) = status_log t (trace s) \<Longrightarrow>
      (\<forall>r. reg (trace s @ tr) r = reg (trace s) r) \<Longrightarrow> Q (Ok x) (s\<lparr>trace := trace s @ tr\<rparr>)"
  shows "ends (read_config32 env t off s) Q"
  using assms
  by (cases t) (auto simp: read_config32_def transport_ok_def status_log_append status_log_simps
      reg_append intro!: ends_reads)

lemma queue_set_cong:
  "(\<forall>r. reg tr r = reg tr' r) \<Longrightarrow> queue_set t tr n d a u = queue_set t tr' n d a u"
  by (cases t) simp_all


lemma finish_probe_ends:
  assumes "transport_ok t" and "v_transport s = t"
  shows "ends (then_do (write_status t (ST_ACKNOWLEDGE OR ST_DRIVER OR ST_FEATURES_OK OR ST_DRIVER_OK) s) (\<lambda>_ s.
      then_do (read_config32 env t 0 s) (\<lambda>cap_lo s.
      then_do (read_config32 env t 4 s) (\<lambda>cap_hi s.
        (Ok (), s\<lparr>capacity_sectors := ucast cap_lo OR push_bit 32 (ucast cap_hi)\<rparr>)))))
    (\<lambda>r s'. r = Ok () \<and> probing s s' \<and> status_log t (trace s') = status_log t (trace s) @ [15] \<and>
      (\<forall>n d a u. queue_set t (trace s) n d a u \<longrightarrow> queue_set t (trace s') n d a u))"
proof (cases t)
  case (Mmio b)
  then show ?thesis using assms
    by (auto simp: write_status_def status_defs transport_ok_def probing_def read_config32_def
        status_log_append status_log_simps status_reg_def reg_append intro!: ends_reads)
next
  case (Pci c n m i d)
  then show ?thesis using assms
    by (auto simp: write_status_def status_defs transport_ok_def probing_def read_config32_def
        status_log_append status_log_simps status_reg_def reg_append intro!: ends_reads)
qed

lemma kept:
  "s' = s\<lparr>trace := x\<rparr> \<Longrightarrow> probing s s'"
  by (simp add: probing_def)

lemma probing_trans: "probing s s' \<Longrightarrow> probing s' s'' \<Longrightarrow> probing s s''"
  by (simp add: probing_def)

lemma do_probe_ends:
  assumes "transport_ok t" and "phys_base env qb p" and "v_transport s = t" and "queue_base s = qb"
    and "status_log t (trace s) = []"
  shows "ends (do_probe env s) (\<lambda>r s'.
      r = Ok () \<and> probing s s' \<and> status_log t (trace s') = [0, 1, 3, 11, 15] \<and>
        queue_set t (trace s') 4 (p + 16) (p + 80) (p + 128) \<or>
      r = Err ProbeFailed \<and> probing s s' \<and>
        (status_log t (trace s') = [] \<or> status_log t (trace s') = [0, 1, 3, 11, 128]))"
  unfolding do_probe_def Let_def assms(3)
  proof (rule ends_chain [OF check_identity_ends [OF assms(1,3)]], goal_cases)
    case (1 x s1)
    then have "probing s s1" and l1: "status_log t (trace s1) = []" using assms(5) by (blast intro: kept, simp)
    then have s1: "v_transport s1 = t" "queue_base s1 = qb" using assms(3,4) by (simp_all add: probing_def)
    show ?case
    proof (rule ends_chain [OF negotiate_ends [OF assms(1) s1(1)]], goal_cases)
      case (1 x s2)
      then have "probing s1 s2" and l2: "status_log t (trace s2) = [0, 1, 3, 11]"
        using l1 by (blast intro: kept, simp)
      then have s2: "v_transport s2 = t" "queue_base s2 = qb" using s1 by (simp_all add: probing_def)
      show ?case
      proof (rule ends_chain [OF setup_queue_ends [OF assms(1) s2(1) assms(2) [folded s2(2)]]],
          goal_cases)
        case (1 x s3)
        then have s3: "v_transport s3 = t" using s2 by (simp add: probing_def)
        from 1 \<open>probing s1 s2\<close> \<open>probing s s1\<close> have p3: "probing s s3" by (blast intro: probing_trans)
        from 1 have l3: "status_log t (trace s3) = [0, 1, 3, 11]"
          and q3: "queue_set t (trace s3) 4 (p + 16) (p + 80) (p + 128)" using l2 by simp_all
        show ?case
          by (rule ends_mono [OF finish_probe_ends [OF assms(1) s3]]) (use l3 q3 p3 in \<open>auto intro: probing_trans\<close>)
      next
        case (2 e s3)
        then show ?case using l2 \<open>probing s1 s2\<close> \<open>probing s s1\<close> by (auto intro: probing_trans)
      qed simp
    next
      case (2 e s2)
      then show ?case using l1 \<open>probing s s1\<close> by (auto intro: kept probing_trans)
    qed simp
  next
    case (2 e s1)
    then show ?case using assms(5) by (auto intro: kept)
  qed simp



text \<open>A device that answers: constant registers, whatever the history.\<close>

definition sample_device :: env where
  "sample_device tr a n = (if n = 8 then 0x80000000 else if a = 0x10001000 then 0x74726976
     else if a = 0x10001008 \<or> a = 0x10001004 then 2 else if a = 0x10001010 then 1
     else if a = 0x10001070 then 11 else if a = 0x10001034 then 8 else 64)"

lemma sample_device_ok:
  "transport_ok (Mmio 0x10001000)" "phys_base sample_device 0x20000000 0x80000000"
  by (simp_all add: transport_ok_def window_def phys_base_def sample_device_def)



section \<open>Publishing a request\<close>

definition slot_off :: "u16 \<Rightarrow> usize" where
  "slot_off idx = AVAIL_OFFSET + 4 + (ucast idx mod ucast QUEUE_SIZE) * 2"

lemma slot_off_nat: "unat (slot_off idx) = 84 + 2 * (unat idx mod 4)"
proof -
  have m: "unat (ucast idx mod ucast QUEUE_SIZE :: usize) = unat idx mod 4"
    by (simp add: unat_mod QUEUE_SIZE_def unat_ucast_up)
  then have "unat ((ucast idx mod ucast QUEUE_SIZE :: usize) * 2) = 2 * (unat idx mod 4)"
    by (subst unat_mult_exact) simp_all
  then show ?thesis by (simp add: slot_off_def layout_defs unat_add_exact)
qed

text \<open>What a request leaves in the trace, before the index and the doorbell.\<close>

definition chain_writes ::
    "u64 \<Rightarrow> usize \<Rightarrow> blk_req_type \<Rightarrow> u64 \<Rightarrow> usize \<Rightarrow> u16 \<Rightarrow> access list" where
  "chain_writes p qb ty sector len idx =
     [Wr (qb + 256) (blk_header_bytes ty sector), Wr (qb + 272) (le_bytes 1 (0xFF :: u8)),
      Rd qb 8 p, Rd qb 8 p, Rd qb 8 p,
      Wr (qb + 16) (desc_bytes (p + 256) 16 1 1),
      Wr (qb + 32) (desc_bytes (p + 512) (ucast len) (if ty = BlkOut then 1 else 3) 2),
      Wr (qb + 48) (desc_bytes (p + 272) 1 2 0),
      Wr (qb + slot_off idx) (le_bytes 2 (0 :: u16))]"

lemma submit_request_Ok:
  assumes "transport_ok (v_transport s)" and "phys_base env (queue_base s) p"
  shows "submit_request env ty sector len s = (Ok (), s\<lparr>trace := trace s @
      chain_writes p (queue_base s) ty sector len (next_idx s) @
      [Wr (queue_base s + 82) (le_bytes 2 (next_idx s + 1)), doorbell (v_transport s) REQUEST_QUEUE (queue_notify_off s)],
    next_idx := next_idx s + 1\<rparr>)"
proof -
  have slot: "unat (AVAIL_OFFSET + 4 + (ucast (next_idx s) mod ucast QUEUE_SIZE) * 2) < 4096"
    using slot_off_nat [of "next_idx s"] by (simp add: slot_off_def)
  note window = phys_base_window [OF assms(2)]
  have flags: "VIRTQ_DESC_F_NEXT OR (if ty = BlkOut then 0 else VIRTQ_DESC_F_WRITE) =
      (if ty = BlkOut then 1 else 3)"
    by (simp add: VIRTQ_DESC_F_NEXT_def VIRTQ_DESC_F_WRITE_def)
  show ?thesis
    unfolding submit_request_def Let_def flags
    using slot window
    by (simp add: queue_phys_Ok [OF assms(2)] chain_writes_def slot_off_def layout_defs
        notify_Ok [OF assms(1)] VIRTQ_DESC_F_NEXT_def VIRTQ_DESC_F_WRITE_def)
qed


text \<open>C28: a request is published whole. When the doorbell rings, the available ring's next entry
  names descriptor 0, and the chain the device follows from it is the 16-byte header, the data
  buffer, writable by the device unless the request is a write, and the status byte; the header
  in memory is the request's type and sector and the status byte is the 0xFF sentinel. The index is
  written after all of that and before the doorbell, which is the last access, so a device that
  watches the index never sees a partial chain; and nothing panics.\<close>

theorem request_published:
  assumes "transport_ok (v_transport s)" and "phys_base env (queue_base s) p"
  shows "\<exists>tr. submit_request env ty sector len s = (Ok (), s\<lparr>trace := trace s @ tr @
        [Wr (queue_base s + 82) (le_bytes 2 (next_idx s + 1)),
         doorbell (v_transport s) REQUEST_QUEUE (queue_notify_off s)], next_idx := next_idx s + 1\<rparr>) \<and>
      virtq_chain 4 (mem (trace s @ tr)) (queue_base s) 16 0 =
        Some [(p + 256, 16, False), (p + 512, ucast len, ty \<noteq> BlkOut), (p + 272, 1, True)] \<and>
      peek (mem (trace s @ tr)) (queue_base s + slot_off (next_idx s)) 2 = Some (0 :: u16) \<and>
      mem_bytes (mem (trace s @ tr)) (queue_base s + 256) 16 = map Some (blk_header_bytes ty sector) \<and>
      peek (mem (trace s @ tr)) (queue_base s + 272) 1 = Some (0xFF :: u8) \<and>
      mem_bytes (mem (trace s @ tr)) (queue_base s + 82) 2 = mem_bytes (mem (trace s)) (queue_base s + 82) 2"
proof -
  let ?qb = "queue_base s"
  let ?tr = "chain_writes p ?qb ty sector len (next_idx s)"
  let ?m = "mem (trace s @ ?tr)"
  have slot: "unat (slot_off (next_idx s)) = 84 + 2 * (unat (next_idx s) mod 4)" by (rule slot_off_nat)
  then have lo: "84 \<le> unat (slot_off (next_idx s))" and hi: "unat (slot_off (next_idx s)) \<le> 90"
    by simp_all
  have m: "?m = store (store (store (store (store (store (mem (trace s))
      (?qb + 256) (blk_header_bytes ty sector)) (?qb + 272) (le_bytes 1 (0xFF :: u8)))
      (?qb + 16) (desc_bytes (p + 256) 16 1 1))
      (?qb + 32) (desc_bytes (p + 512) (ucast len) (if ty = BlkOut then 1 else 3) 2))
      (?qb + 48) (desc_bytes (p + 272) 1 2 0)) (?qb + slot_off (next_idx s)) (le_bytes 2 (0 :: u16))"
    by (simp only: mem_append chain_writes_def mem_from_Wr mem_from.simps(1,3))
  have header: "length (blk_header_bytes ty sector) = 16" by (simp add: blk_header_bytes_def)
  note read = mem_bytes_inside mem_bytes_beside header
  have d0: "mem_bytes ?m (?qb + of_nat (16 + 16 * 0)) 16 = map Some (desc_bytes (p + 256) 16 1 1)"
    and d1: "mem_bytes ?m (?qb + of_nat (16 + 16 * 1)) 16 =
      map Some (desc_bytes (p + 512) (ucast len) (if ty = BlkOut then 1 else 3) 2)"
    and d2: "mem_bytes ?m (?qb + of_nat (16 + 16 * 2)) 16 = map Some (desc_bytes (p + 272) 1 2 0)"
    using lo hi unfolding m by (simp_all add: read)
  have ring: "mem_bytes ?m (?qb + slot_off (next_idx s)) 2 = map Some (le_bytes 2 (0 :: u16))"
    using hi unfolding m by (simp add: read)
  have hdr: "mem_bytes ?m (?qb + 256) 16 = map Some (blk_header_bytes ty sector)"
    and st: "mem_bytes ?m (?qb + 272) 1 = map Some (le_bytes 1 (0xFF :: u8))"
    and idx: "mem_bytes ?m (?qb + 82) 2 = mem_bytes (mem (trace s)) (?qb + 82) 2"
    using lo hi unfolding m by (simp_all add: read)
  have "virtq_chain (Suc (Suc (Suc (Suc 0)))) ?m ?qb 16 0 =
      Some [(p + 256, 16, False), (p + 512, ucast len, ty \<noteq> BlkOut), (p + 272, 1, True)]"
    using virtq_chain_step [OF d0] virtq_chain_step [OF d1] virtq_chain_step [OF d2]
    by (simp add: Let_def)
  then have chain: "virtq_chain 4 ?m ?qb 16 0 =
      Some [(p + 256, 16, False), (p + 512, ucast len, ty \<noteq> BlkOut), (p + 272, 1, True)]"
    by (simp only: numeral_eq_Suc pred_numeral_simps BitM.simps numeral_One)
  show ?thesis
    using submit_request_Ok [OF assms, of ty sector len] chain peek_Some [OF ring] hdr
      peek_Some [OF st] idx
    by (intro exI [of _ ?tr]) simp
qed


lemma request_published_witness:
  "\<exists>tr. virtq_chain 4 (mem tr) 0x20000000 16 0 =
     Some [(0x80000100, 16, False), (0x80000200, 512, True), (0x80000110, 1, True)]"
  using request_published [of "blk_new 0x10001000 0x20000000" sample_device "0x80000000" BlkIn 7 512]
    sample_device_ok
  by (simp add: blk_new_def) blast

section \<open>Every request is answered\<close>

text \<open>What a client may conclude from the answer to a request.\<close>

definition answers :: "u64 \<Rightarrow> driver_request \<Rightarrow> driver_response \<Rightarrow> bool" where
  "answers capacity req resp \<longleftrightarrow> (case req of
     DrProbe \<Rightarrow> resp = DrReady SECTOR_SIZE capacity
   | DrQuiesce \<Rightarrow> resp = DrReady SECTOR_SIZE capacity
   | DrIrq line \<Rightarrow> resp = DrCompleted 0
   | DrReadBlocks lba n cap \<Rightarrow>
       (if n \<noteq> 1 then resp = DrFailed DrUnsupported
        else if capacity \<noteq> 0 \<and> capacity \<le> lba then resp = DrFailed DrOutOfRange
        else resp = DrCompleted 1 \<or> resp = DrFailed DrDeviceIo)
   | DrWriteBlocks lba n cap \<Rightarrow>
       (if n \<noteq> 1 then resp = DrFailed DrUnsupported
        else if capacity \<noteq> 0 \<and> capacity \<le> lba then resp = DrFailed DrOutOfRange
        else resp = DrCompleted 1 \<or> resp = DrFailed DrDeviceIo)
   | _ \<Rightarrow> resp = DrFailed DrUnsupported)"

definition blk_inv :: "env \<Rightarrow> u64 \<Rightarrow> u64 \<Rightarrow> virtio_blk \<Rightarrow> bool" where
  "blk_inv env p capacity s \<longleftrightarrow> transport_ok (v_transport s) \<and> phys_base env (queue_base s) p \<and>
     v_ready s \<and> capacity_sectors s = capacity"

fun last_sector :: "driver_request \<Rightarrow> bool" where
  "last_sector (DrReadBlocks lba n cap) = (lba = - 1)"
| "last_sector (DrWriteBlocks lba n cap) = (lba = - 1)"
| "last_sector _ = False"

lemma inv_trace [simp]: "blk_inv env p c (s\<lparr>trace := tr\<rparr>) = blk_inv env p c s"
  by (simp add: blk_inv_def)

lemma completion_pending_ends:
  assumes "blk_inv env p c s"
  shows "\<exists>b tr. completion_pending env s = (Ok b, s\<lparr>trace := tr\<rparr>)"
proof -
  have "window (queue_base s)" "unat (USED_OFFSET + 2) < 4096"
    using assms by (simp_all add: blk_inv_def phys_base_def layout_defs)
  from rd_window [OF this, of env 2 s] obtain v where
    "rd env 2 (queue_base s) (USED_OFFSET + 2) s =
      (Ok v, s\<lparr>trace := trace s @ [Rd (queue_base s + (USED_OFFSET + 2)) 2 v]\<rparr>)" by blast
  then have "completion_pending env s = (Ok (ucast v = next_idx s),
      s\<lparr>trace := trace s @ [Rd (queue_base s + (USED_OFFSET + 2)) 2 v]\<rparr>)"
    by (simp add: completion_pending_def rd16_def)
  then show ?thesis by blast
qed

lemma spin_ends:
  "blk_inv env p c s \<Longrightarrow> \<exists>b tr. spin env n s = (Ok b, s\<lparr>trace := tr\<rparr>)"
proof (induction n arbitrary: s)
  case 0
  have "spin env 0 s = (Ok False, s\<lparr>trace := trace s\<rparr>)" by simp
  then show ?case by blast
next
  case (Suc n)
  from completion_pending_ends [OF Suc.prems] obtain b tr where
    c: "completion_pending env s = (Ok b, s\<lparr>trace := tr\<rparr>)" by blast
  have inv: "blk_inv env p c (s\<lparr>trace := tr\<rparr>)" using Suc.prems by simp
  from Suc.IH [OF inv] obtain b' tr' where
    r: "spin env n (s\<lparr>trace := tr\<rparr>) = (Ok b', s\<lparr>trace := tr'\<rparr>)" by auto
  have "spin env (Suc n) s = (if b then (Ok True, s\<lparr>trace := tr\<rparr>) else (Ok b', s\<lparr>trace := tr'\<rparr>))"
    by (simp only: spin.simps c then_do_simps r)
  then show ?case by (cases b) auto
qed

lemma wait_ends:
  assumes "blk_inv env p c s"
  shows "\<exists>st tr. wait_for_completion env s = (Ok st, s\<lparr>trace := tr\<rparr>)"
proof -
  obtain b tr where sp: "spin env MAX_SPINS s = (Ok b, s\<lparr>trace := tr\<rparr>)"
    using spin_ends [OF assms] by blast
  let ?s = "s\<lparr>trace := tr\<rparr>"
  obtain tr' where "ack_interrupt env (v_transport s) ?s = (Ok (), ?s\<lparr>trace := tr'\<rparr>)"
    using ack_interrupt_Ok [of "v_transport s" env ?s] assms by (auto simp: blk_inv_def)
  then have ack: "ack_interrupt env (v_transport ?s) ?s = (Ok (), s\<lparr>trace := tr'\<rparr>)" by simp
  have "window (queue_base s)" "unat STATUS_OFFSET < 4096"
    using assms by (simp_all add: blk_inv_def phys_base_def layout_defs)
  from rd_window [OF this, of env 1 "s\<lparr>trace := tr'\<rparr>"] obtain v where
    st: "rd env 1 (queue_base (s\<lparr>trace := tr'\<rparr>)) STATUS_OFFSET (s\<lparr>trace := tr'\<rparr>) =
      (Ok v, s\<lparr>trace := tr' @ [Rd (queue_base s + STATUS_OFFSET) 1 v]\<rparr>)" by auto
  show ?thesis
  proof (cases b)
    case True
    have "wait_for_completion env s = ack_completion env ?s"
      by (simp only: wait_for_completion_def sp then_do_simps True not_True_eq_False if_False)
    also have "\<dots> = (Ok (ucast v), s\<lparr>trace := tr' @ [Rd (queue_base s + STATUS_OFFSET) 1 v]\<rparr>)"
      by (simp only: ack_completion_def ack then_do_simps rd8_def st)
    finally show ?thesis by blast
  next
    case False
    have "wait_for_completion env s = (Ok STATUS_TIMEOUT, s\<lparr>trace := tr'\<rparr>)"
      by (simp only: wait_for_completion_def sp then_do_simps False not_False_eq_True if_True ack)
    then show ?thesis by blast
  qed
qed

lemma validate_io_cases:
  assumes "lba \<noteq> - 1"
  shows "validate_io s n lba = (if n \<noteq> 1 then Err DrUnsupported
    else if capacity_sectors s \<noteq> 0 \<and> capacity_sectors s \<le> lba then Err DrOutOfRange else Ok ())"
proof -
  have "unat lba \<noteq> 2 ^ 64 - 1" using assms by (simp add: word_unat_eq_iff unat_all_ones)
  then have room: "unat lba + unat (1 :: u64) < 2 ^ LENGTH(64)" using unat_bound [of lba] by simp
  then have "add_or_panic lba 1 = (Ok (lba + 1) :: (driver_error, u64) res)"
    by (simp only: add_or_panic_Ok)
  moreover have "unat (lba + 1) = unat lba + 1" using room by (subst unat_add_exact) simp_all
  then have "lba + 1 > capacity_sectors s \<longleftrightarrow> capacity_sectors s \<le> lba"
    by (simp add: word_less_nat_alt word_le_nat_alt less_Suc_eq_le)
  ultimately show ?thesis by (simp add: validate_io_def)
qed

lemma transfer_ends:
  assumes "blk_inv env p c s" and "lba \<noteq> - 1"
  shows "\<exists>resp s'. blk_transfer env ty lba n s = (Ok resp, s') \<and> blk_inv env p c s' \<and>
    (if n \<noteq> 1 then resp = DrFailed DrUnsupported
     else if c \<noteq> 0 \<and> c \<le> lba then resp = DrFailed DrOutOfRange
     else resp = DrCompleted 1 \<or> resp = DrFailed DrDeviceIo)"
proof (cases "validate_io s n lba")
  case (Ok u)
  obtain s1 where sub: "submit_request env ty lba (ucast SECTOR_SIZE) s = (Ok (), s1)"
    and s1: "blk_inv env p c s1"
    using submit_request_Ok [of s env p ty lba "ucast SECTOR_SIZE"] assms(1)
    by (auto simp: blk_inv_def)
  obtain st tr where "wait_for_completion env s1 = (Ok st, s1\<lparr>trace := tr\<rparr>)"
    using wait_ends [OF s1] by blast
  then show ?thesis
    using Ok sub s1 assms validate_io_cases [OF assms(2), of s n]
    by (auto simp: blk_transfer_def blk_inv_def split: if_splits)
qed (use assms validate_io_cases [OF assms(2), of s n] in
      \<open>auto simp: blk_transfer_def blk_inv_def split: if_splits\<close>)

lemma handle_request_ends:
  assumes "blk_inv env p c s" and "\<not> last_sector req"
  shows "\<exists>resp s'. blk_handle_request env req s = (Ok resp, s') \<and> blk_inv env p c s' \<and> answers c req resp"
proof -
  have r: "v_ready s" "capacity_sectors s = c" using assms(1) by (simp_all add: blk_inv_def)
  show ?thesis
  proof (cases req)
    case (DrReadBlocks lba n cap)
    then show ?thesis using transfer_ends [OF assms(1), of lba BlkIn n] assms(2) r
      by (auto simp: blk_handle_request_def answers_def)
  next
    case (DrWriteBlocks lba n cap)
    then show ?thesis using transfer_ends [OF assms(1), of lba BlkOut n] assms(2) r
      by (auto simp: blk_handle_request_def answers_def)
  qed (use assms(1) r in \<open>simp_all add: blk_handle_request_def blk_handle_irq_def answers_def\<close>)
qed


fun requests :: "driver_event list \<Rightarrow> driver_request list" where
  "requests [] = []"
| "requests (EvRequest r # evs) = r # requests evs"
| "requests (EvIrq line # evs) = requests evs"

lemma answer_all_ends:
  assumes "blk_inv env p c s" and "\<not> list_ex last_sector (requests evs)"
  shows "\<exists>rs s'. answer_all (virtio_blk_driver env) evs s = (Ok rs, s') \<and> blk_inv env p c s' \<and>
    list_all2 (answers c) (requests evs) rs"
  using assms
proof (induction evs arbitrary: s)
  case (Cons e evs)
  show ?case
  proof (cases e)
    case (EvRequest req)
    with Cons.prems obtain resp s1 where
      h: "blk_handle_request env req s = (Ok resp, s1)" "blk_inv env p c s1" "answers c req resp"
      using handle_request_ends [OF Cons.prems(1), of req] by auto
    from Cons.IH [OF h(2)] Cons.prems(2) EvRequest obtain rs s' where
      "answer_all (virtio_blk_driver env) evs s1 = (Ok rs, s')" "blk_inv env p c s'"
      "list_all2 (answers c) (requests evs) rs" by auto
    then show ?thesis using EvRequest h by (simp add: virtio_blk_driver_def)
  next
    case (EvIrq line)
    from Cons.IH [OF Cons.prems(1)] Cons.prems(2) EvIrq show ?thesis
      by (simp add: virtio_blk_driver_def blk_handle_irq_def)
  qed
qed simp

text \<open>The block driver answers. Started on any device over either transport and fed any
  finite sequence of requests and interrupts, its loop ends without a panic when the channel closes,
  and unless the device could not be brought up it has sent exactly one answer to each request, in
  order: a transfer is reported complete only if it is of one sector inside the capacity. The one
  request excepted names the sector \<open>2^64 - 1\<close>.\<close>

theorem block_service:
  assumes "transport_ok t" and "phys_base env qb p" and "qb \<noteq> 0"
    and "s = blk_new b qb \<and> t = Mmio b \<and> b \<noteq> 0 \<or>
      s = blk_new_pci c n m i d qb vec \<and> t = Pci c n m i d \<and> c \<noteq> 0"
    and "\<not> list_ex last_sector (requests evs)"
  shows "\<exists>r s' c'. serve (virtio_blk_driver env) script_channel s \<lparr>pending = evs, sent = []\<rparr> = Some (r, s', c') \<and>
    (r = Ok () \<and> pending c' = [] \<and> list_all2 (answers (capacity_sectors s')) (requests evs) (sent c') \<or>
     r = Err ProbeFailed \<and> sent c' = [])"
proof -
  have t: "v_transport s = t" and qb: "queue_base s = qb" and empty: "status_log t (trace s) = []"
    and bound: "transport_is_bound s"
    using assms(4) by (auto simp: blk_new_def blk_new_pci_def status_log_simps transport_is_bound_def)
  obtain r s1 where probe: "do_probe env s = (r, s1)" by fastforce
  have "r = Ok () \<and> probing s s1 \<or> r = Err ProbeFailed"
    using do_probe_ends [OF assms(1,2) t qb empty] by (auto simp: ends_def probe)
  then show ?thesis
  proof
    assume ok: "r = Ok () \<and> probing s s1"
    let ?s = "s1\<lparr>v_ready := True\<rparr>"
    have inv: "blk_inv env p (capacity_sectors s1) ?s"
      using ok t qb assms(1,2) by (simp add: blk_inv_def probing_def)
    from answer_all_ends [OF inv assms(5)] obtain rs s' where
      ans: "answer_all (virtio_blk_driver env) evs ?s = (Ok rs, s')"
      and inv': "blk_inv env p (capacity_sectors s1) s'"
      and all: "list_all2 (answers (capacity_sectors s1)) (requests evs) rs" by blast
    have "serve (virtio_blk_driver env) script_channel s \<lparr>pending = evs, sent = []\<rparr> =
        Some (Ok (), s', \<lparr>pending = [], sent = rs\<rparr>)"
      using serve_script [OF ans, of "[]"] ok probe bound qb assms(3)
      by (simp add: serve_def virtio_blk_driver_def blk_probe_def Let_def)
    then show ?thesis using all inv' by (simp add: blk_inv_def)
  next
    assume "r = Err ProbeFailed"
    then show ?thesis using probe bound qb assms(3)
      by (simp add: serve_def virtio_blk_driver_def blk_probe_def)
  qed
qed

lemma block_service_witness:
  "\<exists>r s' c'. serve (virtio_blk_driver sample_device) script_channel (blk_new 0x10001000 0x20000000)
      \<lparr>pending = [EvRequest (DrReadBlocks 5 2 1), EvIrq 3, EvRequest DrPollFrame], sent = []\<rparr> =
        Some (r, s', c') \<and>
    (r = Ok () \<and> sent c' = [DrFailed DrUnsupported, DrFailed DrUnsupported] \<or> r = Err ProbeFailed)"
  using block_service [OF sample_device_ok, of "blk_new 0x10001000 0x20000000" "0x10001000" _ _ _ _ _ _
      "[EvRequest (DrReadBlocks 5 2 1), EvIrq 3, EvRequest DrPollFrame]"]
  by (auto simp: answers_def list_all2_Cons1)

text \<open>The excepted request stops the driver process: the bounds check adds 1 to the sector before
  it compares.\<close>

lemma last_sector_panics:
  assumes "v_ready s" and "capacity_sectors s \<noteq> 0"
  shows "blk_handle_request env (DrReadBlocks (- 1) 1 cap) s = (Panic, s)"
proof -
  have "add_or_panic (- 1) 1 = (Panic :: (driver_error, u64) res)"
    unfolding add_or_panic_def uint_unat_less(1) by (simp add: unat_all_ones)
  then show ?thesis using assms by (simp add: blk_handle_request_def blk_transfer_def validate_io_def)
qed

end
