(* ===== verification/BlkService.thy ===== *)
theory BlkService
  imports Services VirtioBlk
begin

text \<open>
  \<open>subsystems/drivers/driver-virtio-blk/src/subsystem_entry.rs\<close>: the block driver as a
  process. It learns its transport from an information block of the queue region, probes the device
  once, and serves requests with waits on the interrupt in place of the spinning of the library's
  own \<open>handle_request\<close>. Addresses are those the process maps its regions at.
\<close>

section \<open>The process\<close>

definition DRV_MMIO_VA :: usize where "DRV_MMIO_VA = 0xD8200000"
definition DRV_QUEUE_VA :: usize where "DRV_QUEUE_VA = 0xD8300000"
definition PCI_INFO_OFFSET :: usize where "PCI_INFO_OFFSET = 176"

definition info_word :: "env \<Rightarrow> usize \<Rightarrow> (unit run_scheme, u64) io" where
  "info_word env off = rd env 8 DRV_QUEUE_VA (PCI_INFO_OFFSET + off)"

definition new_driver_for_this_transport :: "env \<Rightarrow> (unit run_scheme, virtio_blk) io" where
  "new_driver_for_this_transport env s =
     then_do (info_word env 0 s) (\<lambda>transport_kind s.
     if transport_kind = 0 then (Ok (blk_new DRV_MMIO_VA DRV_QUEUE_VA), s) else
     then_do (info_word env 8 s) (\<lambda>common s.
     then_do (info_word env 16 s) (\<lambda>notify s.
     then_do (info_word env 24 s) (\<lambda>mult s.
     then_do (info_word env 32 s) (\<lambda>isr s.
     then_do (info_word env 40 s) (\<lambda>device_cfg s.
     then_do (info_word env 48 s) (\<lambda>vec s.
       (Ok (blk_new_pci common notify (ucast mult) isr device_cfg DRV_QUEUE_VA (ucast vec)), s))))))))"

definition MAX_WAIT_RETRIES :: nat where "MAX_WAIT_RETRIES = 8"

fun await_blk :: "env \<Rightarrow> nat \<Rightarrow> (virtio_blk, bool) io" where
  "await_blk env 0 s = (Ok False, s)"
| "await_blk env (Suc n) s = then_do (await_irq s) (\<lambda>_ s.
     then_do (completion_pending env s) (\<lambda>done s.
       if done then (Ok True, s) else await_blk env n s))"

definition handle_io :: "env \<Rightarrow> blk_req_type \<Rightarrow> u64 \<Rightarrow> u32 \<Rightarrow> (virtio_blk, driver_response) io" where
  "handle_io env kind lba n s =
     (if \<not> v_ready s then (Ok (DrFailed DrProbeFailed), s) else
      case validate_io s n lba of
        Panic \<Rightarrow> (Panic, s)
      | Err code \<Rightarrow> (Ok (DrFailed code), s)
      | Ok _ \<Rightarrow>
        then_do (submit_request env kind lba (ucast SECTOR_SIZE) s) (\<lambda>_ s.
        then_do (await_blk env MAX_WAIT_RETRIES s) (\<lambda>completed s.
        if \<not> completed then (Ok (DrFailed DrDeviceIo), s) else
        then_do (ack_completion env s) (\<lambda>status s.
          (Ok (if status = 0 then DrCompleted 1 else DrFailed DrDeviceIo), s)))))"

definition blk_dispatch :: "env \<Rightarrow> virtio_blk \<Rightarrow> driver_request \<Rightarrow> (dd_error, driver_response) res \<times> virtio_blk" where
  "blk_dispatch env s req = (case req of
     DrReadBlocks lba n _ \<Rightarrow> handle_io env BlkIn lba n s
   | DrWriteBlocks lba n _ \<Rightarrow> handle_io env BlkOut lba n s
   | _ \<Rightarrow> blk_handle_request env req s)"

text \<open>\<open>subsystem_main\<close>: the outcome of the probe is dropped, then pages are served for ever.\<close>

definition blk_boot :: "env \<Rightarrow> (dd_error, virtio_blk) res" where
  "blk_boot env = (case new_driver_for_this_transport env \<lparr>trace = []\<rparr> of
     (Ok drv, s) \<Rightarrow> (case blk_probe env (drv\<lparr>trace := trace s\<rparr>) of
         (Panic, drv) \<Rightarrow> Panic | (_, drv) \<Rightarrow> Ok drv)
   | (Err e, s) \<Rightarrow> Err e | (Panic, s) \<Rightarrow> Panic)"

definition blk_serve :: "env \<Rightarrow> page \<Rightarrow> virtio_blk \<Rightarrow> (dd_error, page) res \<times> virtio_blk" where
  "blk_serve env = serve_one decode_driver_request encode_driver_response (DrFailed DrUnsupported)
     (blk_dispatch env)"

section \<open>Every page is answered\<close>

lemma await_blk_ends:
  "blk_inv env p c s \<Longrightarrow> \<exists>b tr. await_blk env n s = (Ok b, s\<lparr>trace := tr\<rparr>)"
proof (induction n arbitrary: s)
  case 0
  have "await_blk env 0 s = (Ok False, s\<lparr>trace := trace s\<rparr>)" by simp
  then show ?case by blast
next
  case (Suc n)
  let ?s = "s\<lparr>trace := trace s @ [Await]\<rparr>"
  have w: "await_irq s = (Ok (), ?s)" by (simp add: await_irq_def)
  have "blk_inv env p c ?s" using Suc.prems by simp
  from completion_pending_ends [OF this] obtain b tr where
    c: "completion_pending env ?s = (Ok b, s\<lparr>trace := tr\<rparr>)" by auto
  have inv: "blk_inv env p c (s\<lparr>trace := tr\<rparr>)" using Suc.prems by simp
  from Suc.IH [OF inv] obtain b' tr' where
    r: "await_blk env n (s\<lparr>trace := tr\<rparr>) = (Ok b', s\<lparr>trace := tr'\<rparr>)" by auto
  have "await_blk env (Suc n) s = (if b then (Ok True, s\<lparr>trace := tr\<rparr>) else (Ok b', s\<lparr>trace := tr'\<rparr>))"
    by (simp only: await_blk.simps w c then_do_simps r)
  then show ?case by (cases b) auto
qed

lemma ack_completion_ends:
  assumes "blk_inv env p c s"
  shows "\<exists>st tr. ack_completion env s = (Ok st, s\<lparr>trace := tr\<rparr>)"
proof -
  obtain tr where ack: "ack_interrupt env (v_transport s) s = (Ok (), s\<lparr>trace := tr\<rparr>)"
    using ack_interrupt_Ok [of "v_transport s" env s] assms by (auto simp: blk_inv_def)
  have "window (queue_base s)" "unat STATUS_OFFSET < 4096"
    using assms by (simp_all add: blk_inv_def phys_base_def layout_defs)
  from rd_window [OF this, of env 1 "s\<lparr>trace := tr\<rparr>"] obtain v where
    "rd env 1 (queue_base (s\<lparr>trace := tr\<rparr>)) STATUS_OFFSET (s\<lparr>trace := tr\<rparr>) =
      (Ok v, s\<lparr>trace := tr @ [Rd (queue_base s + STATUS_OFFSET) 1 v]\<rparr>)" by auto
  then have "ack_completion env s = (Ok (ucast v), s\<lparr>trace := tr @ [Rd (queue_base s + STATUS_OFFSET) 1 v]\<rparr>)"
    by (simp only: ack_completion_def ack then_do_simps rd8_def)
  then show ?thesis by blast
qed

lemma handle_io_ends:
  assumes "blk_inv env p c s" and "lba \<noteq> - 1"
  shows "\<exists>resp s'. handle_io env ty lba n s = (Ok resp, s') \<and> blk_inv env p c s' \<and>
    (if n \<noteq> 1 then resp = DrFailed DrUnsupported
     else if c \<noteq> 0 \<and> c \<le> lba then resp = DrFailed DrOutOfRange
     else resp = DrCompleted 1 \<or> resp = DrFailed DrDeviceIo)"
proof (cases "validate_io s n lba")
  case (Ok u)
  obtain s1 where sub: "submit_request env ty lba (ucast SECTOR_SIZE) s = (Ok (), s1)"
    and s1: "blk_inv env p c s1"
    using submit_request_Ok [of s env p ty lba "ucast SECTOR_SIZE"] assms(1)
    by (auto simp: blk_inv_def)
  obtain b tr where w: "await_blk env MAX_WAIT_RETRIES s1 = (Ok b, s1\<lparr>trace := tr\<rparr>)"
    using await_blk_ends [OF s1] by blast
  have s2: "blk_inv env p c (s1\<lparr>trace := tr\<rparr>)" using s1 by simp
  obtain st tr' where a: "ack_completion env (s1\<lparr>trace := tr\<rparr>) = (Ok st, s1\<lparr>trace := tr'\<rparr>)"
    using ack_completion_ends [OF s2] by auto
  have "handle_io env ty lba n s = (if b
      then (Ok (if st = 0 then DrCompleted 1 else DrFailed DrDeviceIo), s1\<lparr>trace := tr'\<rparr>)
      else (Ok (DrFailed DrDeviceIo), s1\<lparr>trace := tr\<rparr>))"
    using assms(1) Ok sub w a by (simp add: handle_io_def blk_inv_def)
  then show ?thesis
    using Ok s1 assms(1) validate_io_cases [OF assms(2), of s n]
    by (auto simp: blk_inv_def split: if_splits)
qed (use assms validate_io_cases [OF assms(2), of s n] in
      \<open>auto simp: handle_io_def blk_inv_def split: if_splits\<close>)

text \<open>A process whose probe failed still answers.\<close>

definition blk_process :: "env \<Rightarrow> u64 \<Rightarrow> u64 \<Rightarrow> bool \<Rightarrow> virtio_blk \<Rightarrow> bool" where
  "blk_process env p c ready s \<longleftrightarrow> (if ready then blk_inv env p c s else \<not> v_ready s)"

definition process_answers :: "u64 \<Rightarrow> bool \<Rightarrow> driver_request \<Rightarrow> driver_response \<Rightarrow> bool" where
  "process_answers c ready req resp \<longleftrightarrow>
     (if ready then answers c req resp else resp = DrFailed DrProbeFailed)"

lemma blk_dispatch_ends:
  assumes "blk_process env p c ready s" and "\<not> last_sector req"
  shows "\<exists>resp s'. blk_dispatch env s req = (Ok resp, s') \<and> blk_process env p c ready s' \<and>
    process_answers c ready req resp"
proof (cases ready)
  case True
  then have inv: "blk_inv env p c s" using assms(1) by (simp add: blk_process_def)
  show ?thesis
  proof (cases req)
    case (DrReadBlocks lba n cap)
    then show ?thesis using handle_io_ends [OF inv, of lba BlkIn n] assms(2) True
      by (simp add: blk_dispatch_def blk_process_def process_answers_def answers_def)
  next
    case (DrWriteBlocks lba n cap)
    then show ?thesis using handle_io_ends [OF inv, of lba BlkOut n] assms(2) True
      by (simp add: blk_dispatch_def blk_process_def process_answers_def answers_def)
  qed (use handle_request_ends [OF inv assms(2)] True in
        \<open>simp_all add: blk_dispatch_def blk_process_def process_answers_def\<close>)
next
  case False
  then show ?thesis using assms(1)
    by (cases req) (simp_all add: blk_dispatch_def blk_process_def process_answers_def handle_io_def
        blk_handle_request_def)
qed

interpretation blk_server: server decode_driver_request encode_driver_response
  decode_driver_response "DrFailed DrUnsupported" "blk_dispatch env" "blk_process env p c ready"
  "\<lambda>s req. \<not> last_sector req"
  by unfold_locales
    ((rule driver_request.dec_total driver_response.enc_wf page_driver_response; assumption)+,
     use blk_dispatch_ends in blast)

section \<open>Properties\<close>

text \<open>However the transport was described and however the device answered, the process comes up, ready
  exactly if its probe succeeded.\<close>

lemma info_word_log:
  "info_word env off s = (Ok v, s') \<Longrightarrow> status_log t (trace s') = status_log t (trace s)"
  by (auto simp: info_word_def rd_def try_in_def Let_def status_log_append status_log_simps split: res.splits)

lemma new_driver_made:
  assumes "new_driver_for_this_transport env s = (Ok drv, s')"
  shows "queue_base drv = DRV_QUEUE_VA \<and> \<not> v_ready drv \<and> status_log t (trace s') = status_log t (trace s)"
  using assms
  by (auto simp: new_driver_for_this_transport_def then_do_Ok_iff blk_new_def blk_new_pci_def
      dest!: info_word_log [where t = t] split: if_splits)

lemma blk_boot_process:
  assumes "new_driver_for_this_transport env \<lparr>trace = []\<rparr> = (Ok drv, s)"
    and "transport_ok (v_transport drv)" and "phys_base env DRV_QUEUE_VA p"
  obtains d ready where "blk_boot env = Ok d" and "blk_process env p (capacity_sectors d) ready d"
proof -
  let ?d = "drv\<lparr>trace := trace s\<rparr>"
  have made: "queue_base ?d = DRV_QUEUE_VA" "\<not> v_ready ?d" "status_log t (trace ?d) = []" for t
    using new_driver_made [OF assms(1)] by (simp_all add: status_log_simps)
  have bq: "queue_base ?d \<noteq> 0" using made(1) by (simp add: DRV_QUEUE_VA_def)
  obtain r d where pr: "do_probe env ?d = (r, d)" by fastforce
  have out: "probing ?d d \<and> (r = Ok () \<or> r = Err ProbeFailed)"
    using do_probe_ends [of "v_transport drv" env DRV_QUEUE_VA p ?d] assms(2,3) made
    by (auto simp: ends_def pr)
  show thesis
  proof (cases "transport_is_bound ?d \<and> r = Ok ()")
    case True
    then have "blk_boot env = Ok (d\<lparr>v_ready := True\<rparr>)"
      using assms(1) bq pr by (simp add: blk_boot_def blk_probe_def Let_def)
    moreover have "blk_process env p (capacity_sectors (d\<lparr>v_ready := True\<rparr>)) True (d\<lparr>v_ready := True\<rparr>)"
      using out made(1) assms(2,3) by (simp add: blk_process_def blk_inv_def probing_def)
    ultimately show thesis by (rule that)
  next
    case False
    then have "blk_boot env = Ok (if transport_is_bound ?d then d else ?d)"
      using assms(1) bq pr out by (auto simp: blk_boot_def blk_probe_def)
    moreover have "\<not> v_ready (if transport_is_bound ?d then d else ?d)"
      using out made(2) by (simp add: probing_def)
    ultimately show thesis by (intro that [of _ False]) (simp_all add: blk_process_def)
  qed
qed


definition sample_registers :: env where
  "sample_registers tr a n = (if n = 8 then if a = DRV_QUEUE_VA then 0x80000000 else 0
     else if a = 0xD8200000 then 0x74726976
     else if a = 0xD8200008 \<or> a = 0xD8200004 then 2 else if a = 0xD8200010 then 1
     else if a = 0xD8200070 then 11 else if a = 0xD8200034 then 8 else 64)"


end
