(* ===== verification/VirtioNet.thy ===== *)
theory VirtioNet
  imports Virtio
begin

text \<open>
  \<open>subsystems/drivers/driver-virtio-net/src/lib.rs\<close>: the network driver, with a receive and a
  transmit queue of one buffer each. The register accessors are those of the block driver
  (theory Virtio), which the crate repeats.
\<close>

section \<open>Constants and state\<close>

definition VIRTIO_NET_F_MAC :: u32 where "VIRTIO_NET_F_MAC = 32"
definition FALLBACK_MAC :: "u8 list" where "FALLBACK_MAC = [0x02, 0, 0, 0, 0, 0x01]"
definition QUEUE_SIZE :: u16 where "QUEUE_SIZE = 2"
definition RX_QUEUE :: u32 where "RX_QUEUE = 0"
definition TX_QUEUE :: u32 where "TX_QUEUE = 1"
definition VIRTIO_NET_HDR_LEN :: usize where "VIRTIO_NET_HDR_LEN = 12"
definition FRAME_MAX :: usize where "FRAME_MAX = 700"
definition VIRTQ_DESC_F_WRITE :: u16 where "VIRTQ_DESC_F_WRITE = 2"
definition MAX_SPINS :: nat where "MAX_SPINS = 20000000"

definition MAC_OFFSET :: usize where "MAC_OFFSET = 8"
definition DESC_OFFSET :: usize where "DESC_OFFSET = 16"
definition AVAIL_OFFSET :: usize where "AVAIL_OFFSET = 48"
definition USED_OFFSET :: usize where "USED_OFFSET = 64"
definition TX_NOTIFY_OFF_OFFSET :: usize where "TX_NOTIFY_OFF_OFFSET = 152"
definition BUFFER_OFFSET :: usize where "BUFFER_OFFSET = 256"

lemmas net_layout_defs = MAC_OFFSET_def DESC_OFFSET_def AVAIL_OFFSET_def USED_OFFSET_def
  TX_NOTIFY_OFF_OFFSET_def BUFFER_OFFSET_def

record virtio_net = run +
  v_transport :: transport
  rx_base :: usize
  tx_base :: usize
  v_ready :: bool
  rx_next_idx :: u16
  tx_next_idx :: u16
  net_mac :: "u8 list"
  rx_notify_off :: u16
  tx_notify_off :: u16
  msix_vector :: u16

definition net_new :: "usize \<Rightarrow> usize \<Rightarrow> usize \<Rightarrow> virtio_net" where
  "net_new mmio_base rx tx = \<lparr>trace = [], v_transport = Mmio mmio_base, rx_base = rx, tx_base = tx,
     v_ready = False, rx_next_idx = 0, tx_next_idx = 0, net_mac = replicate 6 0, rx_notify_off = 0,
     tx_notify_off = 0, msix_vector = VIRTIO_MSI_NO_VECTOR\<rparr>"

definition net_new_pci ::
    "usize \<Rightarrow> usize \<Rightarrow> u32 \<Rightarrow> usize \<Rightarrow> usize \<Rightarrow> usize \<Rightarrow> usize \<Rightarrow> u16 \<Rightarrow> virtio_net" where
  "net_new_pci common notify mult isr device_cfg rx tx vec = \<lparr>trace = [],
     v_transport = Pci common notify mult isr device_cfg, rx_base = rx, tx_base = tx, v_ready = False,
     rx_next_idx = 0, tx_next_idx = 0, net_mac = replicate 6 0, rx_notify_off = 0,
     tx_notify_off = 0, msix_vector = vec\<rparr>"

definition regions_bound :: "virtio_net \<Rightarrow> bool" where
  "regions_bound s \<longleftrightarrow> (case v_transport s of Mmio base \<Rightarrow> base \<noteq> 0 | Pci common _ _ _ _ \<Rightarrow> common \<noteq> 0) \<and>
     rx_base s \<noteq> 0 \<and> tx_base s \<noteq> 0"

section \<open>Publishing a buffer\<close>

text \<open>\<open>publish_and_notify\<close> returns the index that the source passes by mutable reference.\<close>

definition publish_and_notify ::
    "usize \<Rightarrow> u32 \<Rightarrow> u16 \<Rightarrow> u16 \<Rightarrow> u8 list \<Rightarrow> (virtio_net, u16) io" where
  "publish_and_notify region_base queue_idx notify_off idx desc s =
     then_do (do_all [wr region_base DESC_OFFSET desc,
       wr16 region_base (AVAIL_OFFSET + 4 + (ucast idx mod ucast QUEUE_SIZE) * 2) 0] s) (\<lambda>_ s.
     let idx = idx + 1 in
     then_do (wr16 region_base (AVAIL_OFFSET + 2) idx s) (\<lambda>_ s.
     then_do (notify_queue (v_transport s) queue_idx notify_off s) (\<lambda>_ s. (Ok idx, s))))"

definition post_rx_buffer :: "env \<Rightarrow> (virtio_net, unit) io" where
  "post_rx_buffer env s =
     then_do (queue_phys env (rx_base s) BUFFER_OFFSET s) (\<lambda>buf_phys s.
     let desc = desc_bytes buf_phys (ucast (VIRTIO_NET_HDR_LEN + FRAME_MAX)) VIRTQ_DESC_F_WRITE 0 in
     then_do (publish_and_notify (rx_base s) RX_QUEUE (rx_notify_off s) (rx_next_idx s) desc s)
       (\<lambda>idx s. (Ok (), s\<lparr>rx_next_idx := idx\<rparr>)))"

text \<open>The header is zeroed by one \<open>write_bytes\<close>; \<open>12 + len\<close> is a sum of machine words.\<close>

definition submit_tx_request :: "env \<Rightarrow> usize \<Rightarrow> (virtio_net, unit) io" where
  "submit_tx_request env len s =
     then_do (wr (tx_base s) BUFFER_OFFSET (replicate (unat VIRTIO_NET_HDR_LEN) 0) s) (\<lambda>_ s.
     then_do (queue_phys env (tx_base s) BUFFER_OFFSET s) (\<lambda>buf_phys s.
     try_in s (add_or_panic VIRTIO_NET_HDR_LEN len) (\<lambda>total.
     let desc = desc_bytes buf_phys (ucast total) 0 0 in
     then_do (publish_and_notify (tx_base s) TX_QUEUE (tx_notify_off s) (tx_next_idx s) desc s)
       (\<lambda>idx s. (Ok (), s\<lparr>tx_next_idx := idx\<rparr>)))))"

section \<open>Bringing the device up\<close>

definition read_config_byte :: "env \<Rightarrow> transport \<Rightarrow> usize \<Rightarrow> ('x run_scheme, u8) io" where
  "read_config_byte env t off s = (case t of
     Mmio base \<Rightarrow> rd8 env base (0x100 + off) s
   | Pci _ _ _ _ device_cfg \<Rightarrow> rd8 env device_cfg off s)"

fun read_mac :: "env \<Rightarrow> transport \<Rightarrow> usize \<Rightarrow> nat \<Rightarrow> (virtio_net, u8 list) io" where
  "read_mac env t i 0 s = (Ok [], s)"
| "read_mac env t i (Suc n) s = then_do (read_config_byte env t i s) (\<lambda>b s.
     then_do (read_mac env t (i + 1) n s) (\<lambda>bs s. (Ok (b # bs), s)))"

fun write_mac :: "usize \<Rightarrow> usize \<Rightarrow> u8 list \<Rightarrow> (virtio_net, unit) io" where
  "write_mac base off [] s = (Ok (), s)"
| "write_mac base off (b # bs) s = then_do (wr8 base off b s) (\<lambda>_. write_mac base (off + 1) bs)"

definition net_check_identity :: "env \<Rightarrow> (virtio_net, unit) io" where
  "net_check_identity env s = (case v_transport s of
     Mmio base \<Rightarrow>
       then_do (rd32 env base 0x000 s) (\<lambda>magic s.
       then_do (rd32 env base 0x008 s) (\<lambda>device_id s.
       then_do (rd32 env base 0x004 s) (\<lambda>version s.
         if magic \<noteq> 0x74726976 \<or> device_id \<noteq> 1 then (Err ProbeFailed, s)
         else if version \<noteq> 2 then (Err ProbeFailed, s)
         else (Ok (), s))))
   | Pci _ _ _ _ _ \<Rightarrow> (Ok (), s))"

definition net_probe_fails :: "transport \<Rightarrow> (virtio_net, 'a) io" where
  "net_probe_fails t s = then_do (write_status t ST_FAILED s) (\<lambda>_ s. (Err ProbeFailed, s))"

text \<open>Returns whether the device offers its address.\<close>

definition net_negotiate :: "env \<Rightarrow> (virtio_net, bool) io" where
  "net_negotiate env s = (let t = v_transport s in
     then_do (do_all [write_status t 0, write_status t ST_ACKNOWLEDGE,
       write_status t (ST_ACKNOWLEDGE OR ST_DRIVER)] s) (\<lambda>_ s.
     then_do (read_device_feature env t 0 s) (\<lambda>dev_features_lo s.
     then_do (read_device_feature env t 1 s) (\<lambda>dev_features_hi s.
     let mac_offered = (dev_features_lo AND VIRTIO_NET_F_MAC \<noteq> 0) in
     then_do (do_all [write_driver_feature t 0 (if mac_offered then VIRTIO_NET_F_MAC else 0),
       write_driver_feature t 1 (dev_features_hi AND VIRTIO_F_VERSION_1),
       write_status t (ST_ACKNOWLEDGE OR ST_DRIVER OR ST_FEATURES_OK)] s) (\<lambda>_ s.
     then_do (read_status env t s) (\<lambda>after_features s.
       if after_features AND ST_FEATURES_OK = 0 then net_probe_fails t s else (Ok mac_offered, s)))))))"

definition net_setup_queue :: "env \<Rightarrow> u32 \<Rightarrow> usize \<Rightarrow> (virtio_net, unit) io" where
  "net_setup_queue env queue_idx region_base s = (let t = v_transport s in
     then_do (do_all [select_queue t queue_idx, write_queue_msix_vector t (msix_vector s)] s) (\<lambda>_ s.
     then_do (read_queue_size_max env t s) (\<lambda>m s.
     if m = 0 \<or> (ucast m :: u16) < QUEUE_SIZE then net_probe_fails t s else
     then_do (write_queue_size t (ucast QUEUE_SIZE) s) (\<lambda>_ s.
     then_do (queue_phys env region_base DESC_OFFSET s) (\<lambda>desc_phys s.
     then_do (queue_phys env region_base AVAIL_OFFSET s) (\<lambda>avail_phys s.
     then_do (queue_phys env region_base USED_OFFSET s) (\<lambda>used_phys s.
     then_do (write_queue_addrs t desc_phys avail_phys used_phys s) (\<lambda>_ s.
     then_do (enable_queue env t s) (\<lambda>notify_off s.
       (Ok (), if queue_idx = RX_QUEUE then s\<lparr>rx_notify_off := notify_off\<rparr>
               else s\<lparr>tx_notify_off := notify_off\<rparr>))))))))))"

definition net_do_probe :: "env \<Rightarrow> (virtio_net, unit) io" where
  "net_do_probe env s = (let t = v_transport s in
     then_do (net_check_identity env s) (\<lambda>_ s.
     then_do (net_negotiate env s) (\<lambda>mac_offered s.
     then_do (net_setup_queue env RX_QUEUE (rx_base s) s) (\<lambda>_ s.
     then_do (net_setup_queue env TX_QUEUE (tx_base s) s) (\<lambda>_ s.
     then_do (write_status t (ST_ACKNOWLEDGE OR ST_DRIVER OR ST_FEATURES_OK OR ST_DRIVER_OK) s) (\<lambda>_ s.
     then_do (if mac_offered then read_mac env t 0 6 s else (Ok FALLBACK_MAC, s)) (\<lambda>mac s.
     let s = s\<lparr>net_mac := mac\<rparr> in
     then_do (write_mac (rx_base s) MAC_OFFSET mac s) (\<lambda>_ s.
     then_do (wr64 (rx_base s) TX_NOTIFY_OFF_OFFSET (ucast (tx_notify_off s)) s) (\<lambda>_ s.
       post_rx_buffer env s)))))))))"

definition net_probe :: "env \<Rightarrow> (virtio_net, device_info) io" where
  "net_probe env s = (if \<not> regions_bound s then (Err ProbeFailed, s) else
     then_do (net_do_probe env s) (\<lambda>_ s.
       (Ok \<lparr>sector_size = 0, sector_count = 0\<rparr>, s\<lparr>v_ready := True\<rparr>)))"

section \<open>Sending and receiving\<close>

definition tx_completion_pending :: "env \<Rightarrow> (virtio_net, bool) io" where
  "tx_completion_pending env s = then_do (rd16 env (tx_base s) (USED_OFFSET + 2) s) (\<lambda>used_idx s.
     (Ok (used_idx = tx_next_idx s), s))"

definition ack_tx_completion :: "env \<Rightarrow> (virtio_net, unit) io" where
  "ack_tx_completion env s = ack_interrupt env (v_transport s) s"

fun spin_tx :: "env \<Rightarrow> nat \<Rightarrow> (virtio_net, bool) io" where
  "spin_tx env 0 s = (Ok False, s)"
| "spin_tx env (Suc n) s = then_do (tx_completion_pending env s) (\<lambda>done s.
     if done then (Ok True, s) else spin_tx env n s)"

definition submit_tx :: "env \<Rightarrow> usize \<Rightarrow> (virtio_net, bool) io" where
  "submit_tx env len s =
     then_do (submit_tx_request env len s) (\<lambda>_ s.
     then_do (spin_tx env MAX_SPINS s) (\<lambda>completed s.
     then_do (ack_tx_completion env s) (\<lambda>_ s. (Ok completed, s))))"

definition poll_rx :: "env \<Rightarrow> (virtio_net, u32 option) io" where
  "poll_rx env s =
     then_do (rd16 env (rx_base s) (USED_OFFSET + 2) s) (\<lambda>used_idx s.
     if used_idx \<noteq> rx_next_idx s then (Ok None, s) else
     let slot = ucast (rx_next_idx s - 1) mod ucast QUEUE_SIZE;
         entry_off = USED_OFFSET + 4 + slot * 8 + 4 in
     then_do (rd32 env (rx_base s) entry_off s) (\<lambda>total_len s.
     then_do (ack_interrupt env (v_transport s) s) (\<lambda>_ s.
     then_do (post_rx_buffer env s) (\<lambda>_ s.
       (Ok (Some (saturating_sub total_len (ucast VIRTIO_NET_HDR_LEN))), s)))))"

definition net_handle_irq :: "u32 \<Rightarrow> (virtio_net, unit) io" where
  "net_handle_irq line s = (Ok (), s)"

definition net_handle_request :: "driver_request \<Rightarrow> (virtio_net, driver_response) io" where
  "net_handle_request req s =
     (if \<not> v_ready s then (Ok (DrFailed DrProbeFailed), s) else
      case req of
        DrProbe \<Rightarrow> (Ok (DrReady 0 0), s)
      | DrIrq line \<Rightarrow> then_do (net_handle_irq line s) (\<lambda>_ s. (Ok (DrReady 0 0), s))
      | DrQuiesce \<Rightarrow> (Ok (DrReady 0 0), s)
      | DrReadBlocks _ _ _ \<Rightarrow> (Ok (DrFailed DrUnsupported), s)
      | DrWriteBlocks _ _ _ \<Rightarrow> (Ok (DrFailed DrUnsupported), s)
      | DrSendFrame _ \<Rightarrow> (Ok (DrFailed DrUnsupported), s)
      | DrPollFrame \<Rightarrow> (Ok (DrFailed DrUnsupported), s))"

definition virtio_net_driver :: "env \<Rightarrow> virtio_net device_driver" where
  "virtio_net_driver env = \<lparr>d_probe = net_probe env, d_handle_irq = net_handle_irq,
     d_handle_request = net_handle_request, d_quiesce = (\<lambda>s. (Ok (), s))\<rparr>"

text \<open>The part of \<open>subsystem_entry.rs\<close> that drives a frame.\<close>

fun await_tx :: "env \<Rightarrow> nat \<Rightarrow> (virtio_net, bool) io" where
  "await_tx env 0 s = (Ok False, s)"
| "await_tx env (Suc n) s = then_do (await_irq s) (\<lambda>_ s.
     then_do (tx_completion_pending env s) (\<lambda>done s.
       if done then (Ok True, s) else await_tx env n s))"

definition handle_send_frame :: "env \<Rightarrow> u32 \<Rightarrow> (virtio_net, driver_response) io" where
  "handle_send_frame env len s =
     (if \<not> v_ready s then (Ok (DrFailed DrProbeFailed), s)
      else if ucast len > FRAME_MAX then (Ok (DrFailed DrUnsupported), s) else
      then_do (submit_tx_request env (ucast len) s) (\<lambda>_ s.
      then_do (await_tx env 8 s) (\<lambda>completed s.
      if \<not> completed then (Ok (DrFailed DrDeviceIo), s) else
      then_do (ack_tx_completion env s) (\<lambda>_ s. (Ok DrFrameSent, s)))))"

definition handle_poll_frame :: "env \<Rightarrow> (virtio_net, driver_response) io" where
  "handle_poll_frame env s =
     (if \<not> v_ready s then (Ok (DrFailed DrProbeFailed), s) else
      then_do (poll_rx env s) (\<lambda>r s.
        (Ok (case r of Some len \<Rightarrow> DrFrameReceived len | None \<Rightarrow> DrFailed DrNoData), s)))"

definition net_dispatch :: "env \<Rightarrow> driver_request \<Rightarrow> (virtio_net, driver_response) io" where
  "net_dispatch env req s = (case req of
     DrSendFrame len \<Rightarrow> handle_send_frame env len s
   | DrPollFrame \<Rightarrow> handle_poll_frame env s
   | _ \<Rightarrow> net_handle_request req s)"


section \<open>A frame is published whole\<close>

definition slot_off :: "u16 \<Rightarrow> usize" where
  "slot_off idx = AVAIL_OFFSET + 4 + (ucast idx mod ucast QUEUE_SIZE) * 2"

lemma net_slot_off_nat: "unat (slot_off idx) = 52 + 2 * (unat idx mod 2)"
proof -
  have m: "unat (ucast idx mod ucast QUEUE_SIZE :: usize) = unat idx mod 2"
    by (simp add: unat_mod QUEUE_SIZE_def unat_ucast_up)
  then have "unat ((ucast idx mod ucast QUEUE_SIZE :: usize) * 2) = 2 * (unat idx mod 2)"
    by (subst unat_mult_exact) simp_all
  then show ?thesis by (simp add: slot_off_def net_layout_defs unat_add_exact)
qed

lemma publish_Ok:
  assumes "transport_ok (v_transport s)" and "window base"
  shows "publish_and_notify base q off idx desc s = (Ok (idx + 1), s\<lparr>trace := trace s @
    [Wr (base + 16) desc, Wr (base + slot_off idx) (le_bytes 2 (0 :: u16)),
     Wr (base + 50) (le_bytes 2 (idx + 1)), doorbell (v_transport s) q off]\<rparr>)"
proof -
  have slot: "unat (AVAIL_OFFSET + 4 + (ucast idx mod ucast QUEUE_SIZE) * 2) < 4096"
    using net_slot_off_nat [of idx] by (simp add: slot_off_def)
  then show ?thesis
    using assms by (simp add: publish_and_notify_def Let_def net_layout_defs slot_off_def notify_Ok)
qed

lemma post_rx_Ok:
  assumes "transport_ok (v_transport s)" and "phys_base env (rx_base s) p"
  shows "post_rx_buffer env s = (Ok (), s\<lparr>trace := trace s @
    [Rd (rx_base s) 8 p, Wr (rx_base s + 16) (desc_bytes (p + 256) 712 2 0),
     Wr (rx_base s + slot_off (rx_next_idx s)) (le_bytes 2 (0 :: u16)),
     Wr (rx_base s + 50) (le_bytes 2 (rx_next_idx s + 1)),
     doorbell (v_transport s) RX_QUEUE (rx_notify_off s)], rx_next_idx := rx_next_idx s + 1\<rparr>)"
  using assms phys_base_window [OF assms(2)]
  by (simp add: post_rx_buffer_def BUFFER_OFFSET_def publish_Ok VIRTIO_NET_HDR_LEN_def FRAME_MAX_def
      VIRTQ_DESC_F_WRITE_def Let_def)

lemma submit_tx_Ok:
  assumes "transport_ok (v_transport s)" and "phys_base env (tx_base s) p" and "len \<le> FRAME_MAX"
  shows "submit_tx_request env len s = (Ok (), s\<lparr>trace := trace s @
    [Wr (tx_base s + 256) (replicate 12 0), Rd (tx_base s) 8 p,
     Wr (tx_base s + 16) (desc_bytes (p + 256) (ucast (12 + len)) 0 0),
     Wr (tx_base s + slot_off (tx_next_idx s)) (le_bytes 2 (0 :: u16)),
     Wr (tx_base s + 50) (le_bytes 2 (tx_next_idx s + 1)),
     doorbell (v_transport s) TX_QUEUE (tx_notify_off s)], tx_next_idx := tx_next_idx s + 1\<rparr>)"
proof -
  have "unat (12 :: usize) + unat len < 2 ^ LENGTH(64)"
    using assms(3) by (simp add: word_le_nat_alt FRAME_MAX_def)
  then have "add_or_panic VIRTIO_NET_HDR_LEN len = (Ok (12 + len) :: (dd_error, usize) res)"
    by (simp only: VIRTIO_NET_HDR_LEN_def add_or_panic_Ok)
  then show ?thesis
    using assms phys_base_window [OF assms(2)]
    by (simp add: submit_tx_request_def BUFFER_OFFSET_def publish_Ok Let_def)
      (simp add: VIRTIO_NET_HDR_LEN_def)
qed

text \<open>A frame is sent whole. For a frame the buffer can hold, staged behind the header's 12
  bytes, the doorbell of the transmit queue finds a chain of one buffer that the device may only
  read: the header and the frame, as long as both; the header is zero and the staged bytes are as they
  were. The receive buffer is posted the same way, writable and of full length. In both the index
  is written after the descriptor and its ring entry, and the doorbell is rung last.\<close>

lemma frame_published:
  assumes "transport_ok (v_transport s)" and "phys_base env (tx_base s) p" and "phys_base env (rx_base s) q"
    and "len \<le> FRAME_MAX"
  shows "\<exists>tx rx.
      submit_tx_request env len s = (Ok (), s\<lparr>trace := trace s @ tx @
        [Wr (tx_base s + 50) (le_bytes 2 (tx_next_idx s + 1)),
         doorbell (v_transport s) TX_QUEUE (tx_notify_off s)], tx_next_idx := tx_next_idx s + 1\<rparr>) \<and>
      virtq_chain 2 (mem (trace s @ tx)) (tx_base s) 16 0 = Some [(p + 256, ucast (12 + len), False)] \<and>
      peek (mem (trace s @ tx)) (tx_base s + slot_off (tx_next_idx s)) 2 = Some (0 :: u16) \<and>
      mem_bytes (mem (trace s @ tx)) (tx_base s + 256) 12 = replicate 12 (Some 0) \<and>
      mem_bytes (mem (trace s @ tx)) (tx_base s + 268) 700 = mem_bytes (mem (trace s)) (tx_base s + 268) 700 \<and>
      post_rx_buffer env s = (Ok (), s\<lparr>trace := trace s @ rx @
        [Wr (rx_base s + 50) (le_bytes 2 (rx_next_idx s + 1)),
         doorbell (v_transport s) RX_QUEUE (rx_notify_off s)], rx_next_idx := rx_next_idx s + 1\<rparr>) \<and>
      virtq_chain 2 (mem (trace s @ rx)) (rx_base s) 16 0 = Some [(q + 256, 712, True)] \<and>
      peek (mem (trace s @ rx)) (rx_base s + slot_off (rx_next_idx s)) 2 = Some (0 :: u16)"
proof -
  let ?tx = "[Wr (tx_base s + 256) (replicate 12 0), Rd (tx_base s) 8 p,
     Wr (tx_base s + 16) (desc_bytes (p + 256) (ucast (12 + len)) 0 0),
     Wr (tx_base s + slot_off (tx_next_idx s)) (le_bytes 2 (0 :: u16))]"
  let ?rx = "[Rd (rx_base s) 8 q, Wr (rx_base s + 16) (desc_bytes (q + 256) 712 2 0),
     Wr (rx_base s + slot_off (rx_next_idx s)) (le_bytes 2 (0 :: u16))]"
  have tslot: "52 \<le> unat (slot_off (tx_next_idx s))" "unat (slot_off (tx_next_idx s)) \<le> 54"
    and rslot: "52 \<le> unat (slot_off (rx_next_idx s))" "unat (slot_off (rx_next_idx s)) \<le> 54"
    by (simp_all add: net_slot_off_nat)
  have mt: "mem (trace s @ ?tx) = store (store (store (mem (trace s))
      (tx_base s + 256) (replicate 12 0))
      (tx_base s + 16) (desc_bytes (p + 256) (ucast (12 + len)) 0 0))
      (tx_base s + slot_off (tx_next_idx s)) (le_bytes 2 (0 :: u16))"
    and mr: "mem (trace s @ ?rx) = store (store (mem (trace s))
      (rx_base s + 16) (desc_bytes (q + 256) 712 2 0))
      (rx_base s + slot_off (rx_next_idx s)) (le_bytes 2 (0 :: u16))"
    by (simp_all only: mem_append mem_from_Wr mem_from.simps(1,3))
  note read = mem_bytes_inside mem_bytes_beside
  have dt: "mem_bytes (mem (trace s @ ?tx)) (tx_base s + of_nat (16 + 16 * 0)) 16 =
      map Some (desc_bytes (p + 256) (ucast (12 + len)) 0 0)"
    and dr: "mem_bytes (mem (trace s @ ?rx)) (rx_base s + of_nat (16 + 16 * 0)) 16 =
      map Some (desc_bytes (q + 256) 712 2 0)"
    using tslot rslot unfolding mt mr by (simp_all add: read)
  have ring: "mem_bytes (mem (trace s @ ?tx)) (tx_base s + slot_off (tx_next_idx s)) 2 =
      map Some (le_bytes 2 (0 :: u16))"
    "mem_bytes (mem (trace s @ ?rx)) (rx_base s + slot_off (rx_next_idx s)) 2 =
      map Some (le_bytes 2 (0 :: u16))"
    using tslot rslot unfolding mt mr by (simp_all add: read)
  have hdr: "mem_bytes (mem (trace s @ ?tx)) (tx_base s + 256) 12 = replicate 12 (Some 0)"
    and frame: "mem_bytes (mem (trace s @ ?tx)) (tx_base s + 268) 700 =
      mem_bytes (mem (trace s)) (tx_base s + 268) 700"
    using tslot unfolding mt by (simp_all add: read map_replicate)
  have "virtq_chain (Suc (Suc 0)) (mem (trace s @ ?tx)) (tx_base s) 16 0 =
      Some [(p + 256, ucast (12 + len), False)]"
    "virtq_chain (Suc (Suc 0)) (mem (trace s @ ?rx)) (rx_base s) 16 0 = Some [(q + 256, 712, True)]"
    using virtq_chain_step [OF dt] virtq_chain_step [OF dr] by (simp_all add: Let_def)
  then have chain: "virtq_chain 2 (mem (trace s @ ?tx)) (tx_base s) 16 0 =
      Some [(p + 256, ucast (12 + len), False)]"
    "virtq_chain 2 (mem (trace s @ ?rx)) (rx_base s) 16 0 = Some [(q + 256, 712, True)]"
    by (simp_all only: numeral_eq_Suc pred_numeral_simps BitM.simps numeral_One)
  show ?thesis
    using submit_tx_Ok [OF assms(1,2,4)] post_rx_Ok [OF assms(1,3)] chain hdr frame
      peek_Some [OF ring(1)] peek_Some [OF ring(2)]
    by (intro exI [of _ ?tx] exI [of _ ?rx]) simp
qed


definition sample_memory :: env where
  "sample_memory tr a n = (if a = 0x30000000 then 0x80000000 else 0x80001000)"

lemma sample_memory_ok:
  "phys_base sample_memory 0x30000000 0x80000000" "phys_base sample_memory 0x30001000 0x80001000"
  "transport_ok (Mmio 0x10001000)"
  by (simp_all add: phys_base_def window_def sample_memory_def transport_ok_def)

lemma frame_published_example:
  "\<exists>tx. virtq_chain 2 (mem tx) 0x30001000 16 0 = Some [(0x80001100, 54, False)]"
  using frame_published [of "net_new 0x10001000 0x30000000 0x30001000" sample_memory "0x80001000"
      "0x80000000" 42] sample_memory_ok
  by (simp add: net_new_def FRAME_MAX_def) blast

section \<open>The driver as a server\<close>

definition net_inv :: "env \<Rightarrow> virtio_net \<Rightarrow> bool" where
  "net_inv env s \<longleftrightarrow> transport_ok (v_transport s) \<and> (\<exists>p. phys_base env (rx_base s) p) \<and>
     (\<exists>p. phys_base env (tx_base s) p)"

lemma net_inv_simps [simp]:
  "net_inv env (s\<lparr>trace := tr\<rparr>) = net_inv env s"
  "net_inv env (s\<lparr>trace := tr, tx_next_idx := i\<rparr>) = net_inv env s"
  "net_inv env (s\<lparr>trace := tr, rx_next_idx := i\<rparr>) = net_inv env s"
  by (simp_all add: net_inv_def)

lemma net_windows:
  assumes "net_inv env s"
  shows "window (rx_base s)" "window (tx_base s)" "transport_ok (v_transport s)"
  using assms by (auto simp: net_inv_def dest: phys_base_window)

text \<open>What every operation of a running driver leaves: its ports, and the accesses made so far.\<close>

definition grown :: "virtio_net \<Rightarrow> virtio_net \<Rightarrow> bool" where
  "grown s s' \<longleftrightarrow> v_transport s' = v_transport s \<and> rx_base s' = rx_base s \<and> tx_base s' = tx_base s \<and>
     v_ready s' = v_ready s \<and> (\<exists>tr. trace s' = trace s @ tr)"

lemma grown_refl [simp]: "grown s s"
  by (simp add: grown_def)

lemma grown_trans: "grown s s' \<Longrightarrow> grown s' s'' \<Longrightarrow> grown s s''"
  by (auto simp: grown_def)

lemma grown_inv: "grown s s' \<Longrightarrow> net_inv env s' = net_inv env s"
  by (simp add: grown_def net_inv_def)

lemma grown_steps [simp]:
  "grown s (s\<lparr>trace := trace s @ tr\<rparr>)"
  "grown s (s\<lparr>trace := trace s @ tr, tx_next_idx := i\<rparr>)"
  "grown s (s\<lparr>trace := trace s @ tr, rx_next_idx := i\<rparr>)"
  by (simp_all add: grown_def)

lemma tx_pending_ends:
  assumes "net_inv env s"
  shows "\<exists>b tr. tx_completion_pending env s = (Ok b, s\<lparr>trace := trace s @ tr\<rparr>)"
proof -
  have "unat (USED_OFFSET + 2) < 4096" by (simp add: net_layout_defs)
  from rd_window [OF net_windows(2) [OF assms] this, of env 2 s] obtain v where
    "rd env 2 (tx_base s) (USED_OFFSET + 2) s =
      (Ok v, s\<lparr>trace := trace s @ [Rd (tx_base s + (USED_OFFSET + 2)) 2 v]\<rparr>)" by blast
  then have "tx_completion_pending env s = (Ok (ucast v = tx_next_idx s),
      s\<lparr>trace := trace s @ [Rd (tx_base s + (USED_OFFSET + 2)) 2 v]\<rparr>)"
    by (simp add: tx_completion_pending_def rd16_def)
  then show ?thesis by blast
qed

lemma await_tx_ends:
  "net_inv env s \<Longrightarrow> \<exists>b s'. await_tx env n s = (Ok b, s') \<and> grown s s'"
proof (induction n arbitrary: s)
  case (Suc n)
  let ?s = "s\<lparr>trace := trace s @ [Await]\<rparr>"
  have w: "await_irq s = (Ok (), ?s)" by (simp add: await_irq_def)
  have "net_inv env ?s" using Suc.prems by simp
  from tx_pending_ends [OF this] obtain b tr where
    c: "tx_completion_pending env ?s = (Ok b, s\<lparr>trace := trace s @ Await # tr\<rparr>)" by auto
  let ?t = "s\<lparr>trace := trace s @ Await # tr\<rparr>"
  have "net_inv env ?t" using Suc.prems by simp
  from Suc.IH [OF this] obtain b' s' where r: "await_tx env n ?t = (Ok b', s')" "grown ?t s'" by blast
  have "await_tx env (Suc n) s = (if b then (Ok True, ?t) else (Ok b', s'))"
    by (simp only: await_tx.simps w c then_do_simps r(1))
  then show ?case using r(2) grown_trans [OF _ r(2)] by (cases b) auto
qed auto

lemma send_frame_after:
  assumes "net_inv env s" and "v_ready s" and "ucast len \<le> FRAME_MAX"
    and "submit_tx_request env (ucast len) s = (Ok (), s1)" and "grown s s1"
  shows "\<exists>resp s'. handle_send_frame env len s = (Ok resp, s') \<and> grown s1 s' \<and>
    (resp = DrFrameSent \<or> resp = DrFailed DrDeviceIo)"
proof -
  have inv1: "net_inv env s1" using assms(1) grown_inv [OF assms(5)] by simp
  obtain b s2 where w: "await_tx env 8 s1 = (Ok b, s2)" and s2: "grown s1 s2"
    using await_tx_ends [OF inv1] by blast
  have "net_inv env s2" using inv1 grown_inv [OF s2] by simp
  from ack_interrupt_Ok [OF net_windows(3) [OF this], of env s2] obtain s3 where
    a: "ack_tx_completion env s2 = (Ok (), s3)" and s3: "grown s2 s3"
    by (auto simp: ack_tx_completion_def)
  have "handle_send_frame env len s = (if b then (Ok DrFrameSent, s3) else (Ok (DrFailed DrDeviceIo), s2))"
    using assms(2,3) by (simp add: handle_send_frame_def assms(4) w a not_less)
  then show ?thesis using s2 grown_trans [OF s2 s3] by (cases b) auto
qed

text \<open>What a client may conclude from the answer to a request.\<close>

definition net_answers :: "bool \<Rightarrow> driver_request \<Rightarrow> driver_response \<Rightarrow> bool" where
  "net_answers ready req resp \<longleftrightarrow> (if \<not> ready then resp = DrFailed DrProbeFailed else case req of
     DrSendFrame len \<Rightarrow> if ucast len \<le> FRAME_MAX then resp = DrFrameSent \<or> resp = DrFailed DrDeviceIo
       else resp = DrFailed DrUnsupported
   | DrPollFrame \<Rightarrow> resp = DrFailed DrNoData \<or> (\<exists>len. resp = DrFrameReceived len)
   | DrReadBlocks lba n cap \<Rightarrow> resp = DrFailed DrUnsupported
   | DrWriteBlocks lba n cap \<Rightarrow> resp = DrFailed DrUnsupported
   | _ \<Rightarrow> resp = DrReady 0 0)"

lemma send_frame_ends:
  assumes "net_inv env s"
  shows "\<exists>resp s'. handle_send_frame env len s = (Ok resp, s') \<and> grown s s' \<and>
    net_answers (v_ready s) (DrSendFrame len) resp"
proof (cases "v_ready s \<and> ucast len \<le> FRAME_MAX")
  case True
  obtain p where "phys_base env (tx_base s) p" using assms by (auto simp: net_inv_def)
  from submit_tx_Ok [OF net_windows(3) [OF assms] this] True obtain s1 where
    sub: "submit_tx_request env (ucast len) s = (Ok (), s1)" and s1: "grown s s1"
    by auto
  from send_frame_after [OF assms _ _ sub s1] True grown_trans [OF s1] show ?thesis
    by (auto simp: net_answers_def)
qed (auto simp: handle_send_frame_def net_answers_def)

text \<open>Polling hands the receive buffer back to the device before its caller has read the frame:
  when \<open>poll_rx\<close> returns a length, its last access is the doorbell that offers the same buffer
  again.\<close>

lemma poll_rx_ends:
  assumes "net_inv env s"
  shows "\<exists>r s'. poll_rx env s = (Ok r, s') \<and> grown s s' \<and>
    (r \<noteq> None \<longrightarrow> last (trace s') = doorbell (v_transport s) RX_QUEUE (rx_notify_off s))"
proof -
  have off: "unat (USED_OFFSET + 2) < 4096" by (simp add: net_layout_defs)
  from rd_window [OF net_windows(1) [OF assms] off, of env 2 s] obtain v where
    u: "rd16 env (rx_base s) (USED_OFFSET + 2) s =
      (Ok (ucast v), s\<lparr>trace := trace s @ [Rd (rx_base s + (USED_OFFSET + 2)) 2 v]\<rparr>)"
    by (auto simp: rd16_def)
  let ?s1 = "s\<lparr>trace := trace s @ [Rd (rx_base s + (USED_OFFSET + 2)) 2 v]\<rparr>"
  show ?thesis
  proof (cases "ucast v = rx_next_idx s")
    case False
    then show ?thesis by (simp add: poll_rx_def u)
  next
    case True
    define off' where "off' = USED_OFFSET + 4 + (ucast (rx_next_idx s - 1) mod ucast QUEUE_SIZE) * 8 + 4"
    have m: "unat (ucast (rx_next_idx s - 1) mod ucast QUEUE_SIZE :: usize) \<le> 1"
      by (simp add: unat_mod QUEUE_SIZE_def)
    have "unat off' \<le> unat (76 :: usize) + 8 + 4"
    proof -
      have "unat ((ucast (rx_next_idx s - 1) mod ucast QUEUE_SIZE :: usize) * 8) \<le> 8"
        using m by (subst unat_mult_exact) auto
      then show ?thesis unfolding off'_def net_layout_defs
        by (simp add: unat_add_exact)
    qed
    then have small: "unat off' < 4096" by simp
    have inv1: "net_inv env ?s1" using assms by simp
    from rd_window [OF net_windows(1) [OF assms] small, of env 4 ?s1] obtain x where
      e: "rd32 env (rx_base s) off' ?s1 = (Ok (ucast x),
        s\<lparr>trace := trace ?s1 @ [Rd (rx_base s + off') 4 x]\<rparr>)"
      by (auto simp: rd32_def)
    let ?s2 = "s\<lparr>trace := trace ?s1 @ [Rd (rx_base s + off') 4 x]\<rparr>"
    have s2: "grown s ?s2" by (simp add: grown_def)
    have t2: "transport_ok (v_transport ?s2)" using net_windows(3) [OF assms] by simp
    from ack_interrupt_Ok [OF t2, of env ?s2] obtain s3 where
      a: "ack_interrupt env (v_transport s) ?s2 = (Ok (), s3)" and s3: "grown ?s2 s3"
      and off3: "rx_notify_off s3 = rx_notify_off s" by (auto simp: grown_def)
    have gr3: "grown s s3" by (rule grown_trans [OF s2 s3])
    obtain p where "phys_base env (rx_base s) p" using assms by (auto simp: net_inv_def)
    with gr3 have "phys_base env (rx_base s3) p" "transport_ok (v_transport s3)"
      using net_windows(3) [OF assms] by (simp_all add: grown_def)
    from post_rx_Ok [OF this(2,1)] obtain s4 where post: "post_rx_buffer env s3 = (Ok (), s4)"
      and s4: "grown s3 s4" "last (trace s4) = doorbell (v_transport s3) RX_QUEUE (rx_notify_off s3)"
      by auto
    have "poll_rx env s = (Ok (Some (saturating_sub (ucast x) (ucast VIRTIO_NET_HDR_LEN))), s4)"
    proof -
      have o1: "USED_OFFSET + 4 + (ucast (rx_next_idx ?s1 - 1) mod ucast QUEUE_SIZE) * 8 + 4 = off'"
        by (simp add: off'_def)
      show ?thesis
        unfolding poll_rx_def u then_do_simps Let_def o1 using True e a post by simp
    qed
    moreover have "v_transport s3 = v_transport s" using gr3 by (simp add: grown_def)
    ultimately show ?thesis using s4 off3 grown_trans [OF gr3 s4(1)] by simp
  qed
qed

lemma net_dispatch_ends:
  assumes "net_inv env s"
  shows "\<exists>resp s'. net_dispatch env req s = (Ok resp, s') \<and> grown s s' \<and> net_answers (v_ready s) req resp"
proof (cases req)
  case (DrSendFrame len)
  then show ?thesis using send_frame_ends [OF assms, of len] by (simp add: net_dispatch_def)
next
  case DrPollFrame
  obtain r s' where "poll_rx env s = (Ok r, s')" "grown s s'" using poll_rx_ends [OF assms] by blast
  then show ?thesis using DrPollFrame
    by (cases "v_ready s"; cases r) (auto simp: net_dispatch_def handle_poll_frame_def net_answers_def)
qed (auto simp: net_dispatch_def net_handle_request_def net_handle_irq_def net_answers_def)

end
