(* ===== verification/Netstack.thy ===== *)
theory Netstack
  imports Bytes
begin

text \<open>
  \<open>subsystems/netstack/src/lib.rs\<close>: the parsers and builders of the Ethernet, ARP, IPv4 and ICMP
  frames of a ping, and the Internet checksum. A parser returns \<open>Ok None\<close> for a frame it refuses
  and would return \<open>Panic\<close> for an index past the end. Fixed-size arrays are byte lists whose
  length is a hypothesis where it matters.
\<close>

section \<open>Constants and data\<close>

definition ETHERTYPE_IPV4 :: u16 where "ETHERTYPE_IPV4 = 0x0800"
definition IP_PROTO_ICMP :: u8 where "IP_PROTO_ICMP = 1"
definition ICMP_ECHO_REQUEST :: u8 where "ICMP_ECHO_REQUEST = 8"
definition ICMP_ECHO_REPLY :: u8 where "ICMP_ECHO_REPLY = 0"
definition ETHERTYPE_ARP :: u16 where "ETHERTYPE_ARP = 0x0806"
definition ARP_HTYPE_ETHERNET :: u16 where "ARP_HTYPE_ETHERNET = 1"
definition ARP_OP_REQUEST :: u16 where "ARP_OP_REQUEST = 1"
definition ARP_OP_REPLY :: u16 where "ARP_OP_REPLY = 2"
definition MAC_BROADCAST :: "u8 list" where "MAC_BROADCAST = replicate 6 0xFF"

record echo_request =
  src_mac :: "u8 list"
  dst_mac :: "u8 list"
  src_ip :: "u8 list"
  dst_ip :: "u8 list"
  ident :: u16
  seq :: u16
  payload :: "u8 list"

record echo_reply =
  from_ip :: "u8 list"
  reply_ident :: u16
  reply_seq :: u16
  reply_payload :: "u8 list"

section \<open>Reads\<close>

definition byte :: "u8 list \<Rightarrow> nat \<Rightarrow> (unit, u8) res" where
  "byte b i = (if i < length b then Ok (b ! i) else Panic)"

definition slice_from :: "u8 list \<Rightarrow> nat \<Rightarrow> (unit, u8 list) res" where
  "slice_from b i = (if i \<le> length b then Ok (drop i b) else Panic)"

definition be16 :: "u8 list \<Rightarrow> nat \<Rightarrow> u16 option" where
  "be16 b i = (case (nth_opt b i, nth_opt b (i + 1)) of
     (Some x, Some y) \<Rightarrow> Some (be_word [x, y]) | _ \<Rightarrow> None)"

text \<open>\<open>let x = o?; f(x)\<close> in a function that returns an \<open>Option\<close>.\<close>

definition try_some :: "'a option \<Rightarrow> ('a \<Rightarrow> (unit, 'b option) res) \<Rightarrow> (unit, 'b option) res" where
  "try_some opt f = (case opt of None \<Rightarrow> Ok None | Some x \<Rightarrow> f x)"

lemma try_some_simps [simp]: "try_some None f = Ok None" "try_some (Some x) f = f x"
  by (simp_all add: try_some_def)

section \<open>The checksum\<close>

fun sum_words :: "u32 \<Rightarrow> u8 list \<Rightarrow> (unit, u32) res" where
  "sum_words s [] = Ok s"
| "sum_words s [a] = add_or_panic s (push_bit 8 (ucast a))"
| "sum_words s (a # b # bs) =
     bind_res (add_or_panic s (ucast (be_word [a, b] :: u16))) (\<lambda>s. sum_words s bs)"

lemma unat_high: "unat (drop_bit 16 (s :: u32)) = unat s div 65536"
proof -
  have "unat (drop_bit 16 s) = drop_bit 16 (unat s)" by (rule unat_drop_bit_eq)
  then show ?thesis by (simp only: drop_bit_eq_div) simp
qed

lemma unat_low: "unat ((s :: u32) AND 0xFFFF) = unat s mod 65536"
proof -
  have "s AND 0xFFFF = take_bit 16 s"
    by (simp only: take_bit_eq_mask mask_eq_exp_minus_1) simp
  moreover have "unat (take_bit 16 s) = take_bit 16 (unat s)"
    by (rule unsigned_take_bit_eq)
  moreover have "take_bit 16 (unat s) = unat s mod 65536"
    by (simp only: take_bit_eq_mod) simp
  ultimately show ?thesis by (simp only:)
qed

lemma unat_high_byte:
  fixes a :: u8
  assumes "16 \<le> LENGTH('a)"
  shows "unat (push_bit 8 (ucast a :: 'a::len word)) = 256 * unat a"
proof -
  have "unat (ucast a :: 'a word) = unat a" using assms by (intro unat_ucast_up) simp
  then have eq: "unat (push_bit 8 (ucast a :: 'a word)) = take_bit LENGTH('a) (push_bit 8 (unat a))"
    by (simp only: unsigned_push_bit_eq)
  have "push_bit 8 (unat a) = 256 * unat a" by (simp add: push_bit_eq_mult)
  moreover have "256 * unat a < 2 ^ LENGTH('a)"
  proof -
    have "256 * unat a < 2 ^ 16" using unat_bound [of a] by simp
    also have "(2 :: nat) ^ 16 \<le> 2 ^ LENGTH('a)" using assms by (intro power_increasing) simp_all
    finally show ?thesis .
  qed
  ultimately show ?thesis unfolding eq by (simp only: take_bit_nat_eq_self_iff)
qed

lemma fold_carry_nat:
  fixes s :: u32
  shows "unat ((s AND 0xFFFF) + drop_bit 16 s) = unat s mod 65536 + unat s div 65536"
proof -
  have "unat s < 65536 * 65536" using unat_bound [of s] by simp
  then have "unat s div 65536 < 65536" by (rule less_mult_imp_div_less)
  moreover have "unat s mod 65536 < 65536" by simp
  ultimately have "unat s mod 65536 + unat s div 65536 < 2 ^ LENGTH(32)" by simp
  then show ?thesis by (subst unat_add_exact) (simp_all only: unat_low unat_high)
qed

text \<open>The additions of this loop stay below \<open>2^17\<close>, so they cannot overflow.\<close>

function fold_carry :: "u32 \<Rightarrow> u32" where
  "fold_carry s = (if drop_bit 16 s \<noteq> 0 then fold_carry ((s AND 0xFFFF) + drop_bit 16 s) else s)"
  by pat_completeness auto
termination
proof (relation "measure unat")
  fix s :: u32
  assume "drop_bit 16 s \<noteq> 0"
  then have "unat (drop_bit 16 s) \<noteq> 0" by (simp only: unat_eq_0 not_False_eq_True)
  then have "unat s div 65536 \<noteq> 0" by (simp only: unat_high not_False_eq_True)
  then have "unat s mod 65536 + unat s div 65536 < unat s"
    using div_mult_mod_eq [of "unat s" 65536] by linarith
  then show "((s AND 0xFFFF) + drop_bit 16 s, s) \<in> measure unat"
    by (simp add: fold_carry_nat)
qed simp

declare fold_carry.simps [simp del]

definition checksum :: "u8 list \<Rightarrow> (unit, u16) res" where
  "checksum data = bind_res (sum_words 0 data) (\<lambda>s. Ok (NOT (ucast (fold_carry s))))"

text \<open>As numbers: the sum of the 16-bit words, an odd last byte being a high byte.\<close>

fun word_sum :: "u8 list \<Rightarrow> nat" where
  "word_sum [] = 0"
| "word_sum [a] = 256 * unat a"
| "word_sum (a # b # bs) = 256 * unat a + unat b + word_sum bs"

lemma unat_be_word2: "unat (be_word [a, b] :: u16) = 256 * unat (a :: u8) + unat b"
proof -
  have "(ucast b :: u16) AND push_bit 8 (ucast a) = 0"
    by (rule bit_eqI) (auto simp: bit_simps dest: bit_imp_le_length)
  then have "(be_word [a, b] :: u16) = ucast b + push_bit 8 (ucast a)"
    by (simp add: be_word_def disjunctive_add_eq_or)
  moreover have "unat (ucast b :: u16) = unat b" by (rule unat_ucast_up) simp
  moreover have "unat (push_bit 8 (ucast a :: u16)) = 256 * unat a" by (rule unat_high_byte) simp
  moreover have "unat b + 256 * unat a < 2 ^ LENGTH(16)"
    using unat_bound [of a] unat_bound [of b] by simp
  ultimately show ?thesis by (simp only: unat_add_exact add.commute)
qed

lemma add_word_Ok:
  fixes s w :: u32
  assumes "unat w = k" and "unat s + k < 2 ^ 32"
  shows "add_or_panic s w = (Ok (s + w) :: (unit, u32) res)" and "unat (s + w) = unat s + k"
proof -
  have "unat s + unat w < 2 ^ LENGTH(32)" using assms by simp
  then show "add_or_panic s w = (Ok (s + w) :: (unit, u32) res)" and "unat (s + w) = unat s + k"
    using assms(1) by (simp_all only: add_or_panic_Ok unat_add_exact)
qed

lemma sum_words_Ok:
  assumes "unat s + word_sum data < 2 ^ 32"
  shows "\<exists>r. sum_words s data = Ok r \<and> unat r = unat s + word_sum data"
  using assms
proof (induction s data rule: sum_words.induct)
  case (2 s a)
  have w: "unat (push_bit 8 (ucast a :: u32)) = 256 * unat a" by (rule unat_high_byte) simp
  have "unat s + 256 * unat a < 2 ^ 32" using 2 by (simp only: word_sum.simps)
  from add_word_Ok [OF w this] show ?case by (simp only: sum_words.simps word_sum.simps) blast
next
  case (3 s a b bs)
  let ?w = "ucast (be_word [a, b] :: u16) :: u32"
  have w: "unat ?w = 256 * unat a + unat b"
    unfolding unat_be_word2 [symmetric] by (rule unat_ucast_up) simp
  have "unat s + (256 * unat a + unat b) < 2 ^ 32" using "3.prems" unfolding word_sum.simps by linarith
  from add_word_Ok [OF w this]
  have ok: "add_or_panic s ?w = (Ok (s + ?w) :: (unit, u32) res)"
    and sw: "unat (s + ?w) = unat s + (256 * unat a + unat b)" .
  have "unat (s + ?w) + word_sum bs < 2 ^ 32" using "3.prems" unfolding sw word_sum.simps by linarith
  from "3.IH" [OF this] show ?case
    unfolding sum_words.simps ok bind_res_simps sw word_sum.simps by (simp only: add.assoc)
qed simp

lemma word_sum_le: "word_sum data \<le> 65535 * ((length data + 1) div 2)"
proof (induction data rule: word_sum.induct)
  case (2 a)
  then show ?case using unat_bound [of a] by simp
next
  case (3 a b bs)
  then show ?case using unat_bound [of a] unat_bound [of b] by simp
qed simp

lemma fold_carry_spec:
  "unat (fold_carry s) < 65536 \<and> unat (fold_carry s) mod 65535 = unat s mod 65535 \<and>
     (fold_carry s = 0 \<longleftrightarrow> s = 0)"
proof (induction s rule: fold_carry.induct)
  case (1 s)
  show ?case
  proof (cases "drop_bit 16 s = 0")
    case True
    then have "unat s div 65536 = 0" using unat_high [of s] by (simp only: unat_0)
    then have "unat s < 65536" by (simp only: div_eq_0_iff) simp
    then show ?thesis using True by (simp add: fold_carry.simps [of s])
  next
    case False
    let ?t = "(s AND 0xFFFF) + drop_bit 16 s"
    have t: "unat ?t = unat s mod 65536 + unat s div 65536" by (rule fold_carry_nat)
    have "unat s = unat s mod 65536 + unat s div 65536 + 65535 * (unat s div 65536)"
      using div_mult_mod_eq [of "unat s" 65536] by linarith
    then have "unat s mod 65535 = unat ?t mod 65535" by (metis t mod_mult_self2)
    moreover have "unat ?t \<noteq> 0" "s \<noteq> 0"
    proof -
      have "unat s div 65536 \<noteq> 0" using False unat_high [of s] by (metis unat_eq_0)
      then show "unat ?t \<noteq> 0" unfolding t by (metis add_is_0)
      show "s \<noteq> 0" using False by auto
    qed
    then have "?t \<noteq> 0" "s \<noteq> 0" by auto
    ultimately show ?thesis using "1.IH" False by (simp add: fold_carry.simps [of s])
  qed
qed


lemma word_sum_append: "even (length xs) \<Longrightarrow> word_sum (xs @ ys) = word_sum xs + word_sum ys"
  by (induction xs rule: word_sum.induct) auto

lemma word_sum_be_bytes: "word_sum (be_bytes 2 (w :: u16)) = unat w"
proof -
  obtain a b where ab: "be_bytes 2 w = [a, b]"
    by (simp add: be_bytes_def numeral_2_eq_2)
  have "be_word (be_bytes 2 w) = w" by (rule be_word_bytes) simp
  then have "unat (be_word [a, b] :: u16) = unat w" by (simp only: ab)
  then show ?thesis by (simp only: ab word_sum.simps unat_be_word2)
qed

lemma checksum_sum:
  assumes "word_sum data < 2 ^ 32"
  obtains r where "unat r = word_sum data" and "checksum data = Ok (NOT (ucast (fold_carry r)))"
proof -
  have "unat (0 :: u32) + word_sum data < 2 ^ 32" using assms by simp
  from sum_words_Ok [OF this] obtain r where "sum_words 0 data = Ok r" "unat r = word_sum data"
    by auto
  then show thesis by (intro that [of r]) (simp_all add: checksum_def)
qed

lemma unat_not16: "unat (NOT (w :: u16)) = 65535 - unat w"
proof -
  have "NOT w = - 1 - w" by (simp add: not_eq_complement)
  moreover have "w \<le> - 1" by simp
  ultimately have "unat (NOT w) = unat (- 1 :: u16) - unat w" by (simp only: unat_sub_exact)
  then show ?thesis by (simp add: unat_all_ones)
qed

lemma unat_low16: "unat r < 65536 \<Longrightarrow> unat (ucast (r :: u32) :: u16) = unat r"
  by (simp add: unsigned_ucast_eq take_bit_nat_eq_self_iff)

text \<open>Putting the checksum of a buffer into its zeroed, 16-bit aligned checksum field gives a
  buffer whose checksum is 0: the test of a receiver.\<close>

lemma checksum_verifies:
  assumes "even (length pre)" and "word_sum (pre @ [0, 0] @ post) + 65535 < 2 ^ 32"
    and "checksum (pre @ [0, 0] @ post) = Ok c"
  shows "checksum (pre @ be_bytes 2 c @ post) = Ok 0"
proof -
  have even2: "even (length (be_bytes 2 c))" "even (length [0 :: u8, 0])" by simp_all
  have sums: "word_sum (pre @ be_bytes 2 c @ post) = word_sum (pre @ [0, 0] @ post) + unat c"
    using assms(1)
    by (simp only: word_sum_append [OF assms(1)] word_sum_append [OF even2(1)]
        word_sum_append [OF even2(2)] word_sum_be_bytes) simp
  obtain r where r: "unat r = word_sum (pre @ [0, 0] @ post)"
      and "checksum (pre @ [0, 0] @ post) = Ok (NOT (ucast (fold_carry r)))"
    by (rule checksum_sum [of "pre @ [0, 0] @ post"]) (use assms(2) in linarith)
  then have c: "c = NOT (ucast (fold_carry r))" using assms(3) by simp
  have fr: "unat (fold_carry r) < 65536" "unat (fold_carry r) mod 65535 = unat r mod 65535"
    "fold_carry r = 0 \<longleftrightarrow> r = 0" using fold_carry_spec [of r] by blast+
  have uc: "unat c = 65535 - unat (fold_carry r)"
    unfolding c unat_not16 unat_low16 [OF fr(1)] by (rule refl)
  have "word_sum (pre @ be_bytes 2 c @ post) < 2 ^ 32" using sums assms(2) uc by linarith
  then obtain t where t: "unat t = word_sum (pre @ be_bytes 2 c @ post)"
      and result: "checksum (pre @ be_bytes 2 c @ post) = Ok (NOT (ucast (fold_carry t)))"
    by (rule checksum_sum)
  have ft: "unat (fold_carry t) < 65536" "unat (fold_carry t) mod 65535 = unat t mod 65535"
    "fold_carry t = 0 \<longleftrightarrow> t = 0" using fold_carry_spec [of t] by blast+
  have tv: "unat t = unat r + (65535 - unat (fold_carry r))" using t sums r uc by simp
  have "(unat r + (65535 - unat (fold_carry r))) mod 65535 =
      (unat (fold_carry r) + (65535 - unat (fold_carry r))) mod 65535"
    by (rule mod_add_cong) (simp_all add: fr(2))
  then have zero: "unat (fold_carry t) mod 65535 = 0"
    using ft(2) tv fr(1) by simp
  have "unat t \<noteq> 0"
  proof
    assume "unat t = 0"
    then have "unat r = 0" and "unat (fold_carry r) = 65535" using tv fr(1) by simp_all
    then show False using fr(3) by (simp add: unat_eq_0)
  qed
  then have "unat (fold_carry t) \<noteq> 0" using ft(3) by (metis unat_0 unat_eq_0)
  moreover obtain k where k: "unat (fold_carry t) = 65535 * k"
    using zero by (metis dvd_def mod_0_imp_dvd)
  ultimately have "k = 1" using ft(1) by linarith
  then have all: "unat (fold_carry t) = 65535" using k by simp
  have "unat (NOT (ucast (fold_carry t)) :: u16) = 0"
    unfolding unat_not16 unat_low16 [OF ft(1)] all by simp
  then have "(NOT (ucast (fold_carry t)) :: u16) = 0" by (simp only: unat_eq_0)
  then show ?thesis using result by simp
qed


section \<open>Building frames\<close>

definition put16 :: "u8 list \<Rightarrow> nat \<Rightarrow> u16 \<Rightarrow> (unit, u8 list) res" where
  "put16 f i v = (if i + 2 \<le> length f then Ok (take i f @ be_bytes 2 v @ drop (i + 2) f) else Panic)"

text \<open>The two halves that both echo builders append to the Ethernet header.\<close>

definition put_ip_header :: "u8 list \<Rightarrow> nat \<Rightarrow> u8 list \<Rightarrow> u8 list \<Rightarrow> (unit, u8 list) res" where
  "put_ip_header f ip_total src dst =
     (let ip_start = length f;
          f = f @ [0x45, 0] @ be_bytes 2 (of_nat ip_total :: u16) @ be_bytes 2 (0 :: u16) @
            be_bytes 2 (0x4000 :: u16) @ [64, IP_PROTO_ICMP] @ be_bytes 2 (0 :: u16) @ src @ dst in
      bind_res (slice f ip_start 20) (\<lambda>h.
      bind_res (checksum h) (\<lambda>ip_csum. put16 f (ip_start + 10) ip_csum)))"

definition put_icmp :: "u8 list \<Rightarrow> u8 \<Rightarrow> u16 \<Rightarrow> u16 \<Rightarrow> u8 list \<Rightarrow> (unit, u8 list) res" where
  "put_icmp f ty idt sq pl =
     (let icmp_start = length f;
          f = f @ [ty, 0] @ be_bytes 2 (0 :: u16) @ be_bytes 2 idt @ be_bytes 2 sq @ pl in
      bind_res (slice_from f icmp_start) (\<lambda>m.
      bind_res (checksum m) (\<lambda>icmp_csum. put16 f (icmp_start + 2) icmp_csum)))"

definition build_echo_reply :: "echo_request \<Rightarrow> (unit, u8 list) res" where
  "build_echo_reply req =
     (let icmp_len = 8 + length (payload req); ip_total = 20 + icmp_len;
          f = src_mac req @ dst_mac req @ be_bytes 2 ETHERTYPE_IPV4 in
      bind_res (put_ip_header f ip_total (dst_ip req) (src_ip req)) (\<lambda>f.
        put_icmp f ICMP_ECHO_REPLY (ident req) (seq req) (payload req)))"

definition build_echo_request ::
    "u8 list \<Rightarrow> u8 list \<Rightarrow> u8 list \<Rightarrow> u8 list \<Rightarrow> u16 \<Rightarrow> u16 \<Rightarrow> u8 list \<Rightarrow> (unit, u8 list) res" where
  "build_echo_request smac dmac sip dip idt sq pl =
     (let icmp_len = 8 + length pl; ip_total = 20 + icmp_len;
          f = dmac @ smac @ be_bytes 2 ETHERTYPE_IPV4 in
      bind_res (put_ip_header f ip_total sip dip) (\<lambda>f.
        put_icmp f ICMP_ECHO_REQUEST idt sq pl))"

definition build_arp_request :: "u8 list \<Rightarrow> u8 list \<Rightarrow> u8 list \<Rightarrow> u8 list" where
  "build_arp_request sender_mac sender_ip target_ip =
     MAC_BROADCAST @ sender_mac @ be_bytes 2 ETHERTYPE_ARP @
     be_bytes 2 ARP_HTYPE_ETHERNET @ be_bytes 2 ETHERTYPE_IPV4 @ [6, 4] @
     be_bytes 2 ARP_OP_REQUEST @ sender_mac @ sender_ip @ replicate 6 0 @ target_ip"

section \<open>Parsing frames\<close>

definition parse_echo_request :: "u8 list \<Rightarrow> (unit, echo_request option) res" where
  "parse_echo_request frame =
     (if length frame < 14 + 20 + 8 then Ok None else
      bind_res (slice frame 0 6) (\<lambda>dmac.
      bind_res (slice frame 6 6) (\<lambda>smac.
      try_some (be16 frame 12) (\<lambda>ethertype.
      if ethertype \<noteq> ETHERTYPE_IPV4 then Ok None else
      bind_res (slice_from frame 14) (\<lambda>ip.
      bind_res (byte ip 0) (\<lambda>b0.
      let ihl = unat (b0 AND 0x0F) * 4 in
      if ihl < 20 \<or> length ip < ihl then Ok None else
      bind_res (byte ip 9) (\<lambda>proto.
      if proto \<noteq> IP_PROTO_ICMP then Ok None else
      bind_res (slice ip 12 4) (\<lambda>sip.
      bind_res (slice ip 16 4) (\<lambda>dip.
      bind_res (slice_from ip ihl) (\<lambda>icmp.
      if length icmp < 8 then Ok None else
      bind_res (byte icmp 0) (\<lambda>ty.
      if ty \<noteq> ICMP_ECHO_REQUEST then Ok None else
      try_some (be16 icmp 4) (\<lambda>idt.
      try_some (be16 icmp 6) (\<lambda>sq.
      bind_res (slice_from icmp 8) (\<lambda>pl.
        Ok (Some \<lparr>src_mac = smac, dst_mac = dmac, src_ip = sip, dst_ip = dip,
              ident = idt, seq = sq, payload = pl\<rparr>)))))))))))))))"

definition parse_echo_reply :: "u8 list \<Rightarrow> (unit, echo_reply option) res" where
  "parse_echo_reply frame =
     (if length frame < 14 + 20 + 8 then Ok None else
      try_some (be16 frame 12) (\<lambda>ethertype.
      if ethertype \<noteq> ETHERTYPE_IPV4 then Ok None else
      bind_res (slice_from frame 14) (\<lambda>ip.
      bind_res (byte ip 0) (\<lambda>b0.
      let ihl = unat (b0 AND 0x0F) * 4 in
      if ihl < 20 \<or> length ip < ihl then Ok None else
      bind_res (byte ip 9) (\<lambda>proto.
      if proto \<noteq> IP_PROTO_ICMP then Ok None else
      bind_res (slice ip 12 4) (\<lambda>sip.
      bind_res (slice_from ip ihl) (\<lambda>icmp.
      if length icmp < 8 then Ok None else
      bind_res (byte icmp 0) (\<lambda>ty.
      if ty \<noteq> ICMP_ECHO_REPLY then Ok None else
      try_some (be16 icmp 4) (\<lambda>idt.
      try_some (be16 icmp 6) (\<lambda>sq.
      bind_res (slice_from icmp 8) (\<lambda>pl.
        Ok (Some \<lparr>from_ip = sip, reply_ident = idt, reply_seq = sq, reply_payload = pl\<rparr>))))))))))))"

definition parse_arp_reply :: "u8 list \<Rightarrow> u8 list \<Rightarrow> (unit, u8 list option) res" where
  "parse_arp_reply frame expected_sender_ip =
     (if length frame < 14 + 28 then Ok None else
      try_some (be16 frame 12) (\<lambda>ethertype.
      if ethertype \<noteq> ETHERTYPE_ARP then Ok None else
      bind_res (slice_from frame 14) (\<lambda>arp.
      try_some (be16 arp 0) (\<lambda>htype.
      if htype \<noteq> ARP_HTYPE_ETHERNET then Ok None else
      try_some (be16 arp 2) (\<lambda>ptype.
      if ptype \<noteq> ETHERTYPE_IPV4 then Ok None else
      bind_res (byte arp 4) (\<lambda>hlen.
      if hlen \<noteq> 6 then Ok None else
      bind_res (byte arp 5) (\<lambda>plen.
      if plen \<noteq> 4 then Ok None else
      try_some (be16 arp 6) (\<lambda>oper.
      if oper \<noteq> ARP_OP_REPLY then Ok None else
      bind_res (slice arp 14 4) (\<lambda>spa.
      if spa \<noteq> expected_sender_ip then Ok None else
      bind_res (slice arp 8 6) (\<lambda>sender_mac. Ok (Some sender_mac)))))))))))"

section \<open>No parser panics\<close>

lemma inside:
  "i < length b \<Longrightarrow> byte b i = Ok (b ! i)"
  "i \<le> length b \<Longrightarrow> slice_from b i = Ok (drop i b)"
  "i + n \<le> length b \<Longrightarrow> (slice b i n :: (unit, _) res) = Ok (take n (drop i b))"
  "i + 1 < length b \<Longrightarrow> be16 b i = Some (be_word [b ! i, b ! (i + 1)])"
  by (simp_all add: byte_def slice_from_def slice_def be16_def nth_opt_def)

theorem parsers_total:
  "parse_echo_request frame \<noteq> Panic" "parse_echo_reply frame \<noteq> Panic"
  "parse_arp_reply frame ip \<noteq> Panic"
  by (simp_all add: parse_echo_request_def parse_echo_reply_def parse_arp_reply_def Let_def inside)


section \<open>A ping and its reply\<close>

text \<open>The frame both builders produce, with its two checksums.\<close>

definition ip_header :: "u16 \<Rightarrow> u16 \<Rightarrow> u8 list \<Rightarrow> u8 list \<Rightarrow> u8 list" where
  "ip_header n c src dst = ([0x45, 0] @ be_bytes 2 n @ [0, 0, 0x40, 0, 64, IP_PROTO_ICMP]) @
     be_bytes 2 c @ (src @ dst)"

definition icmp_message :: "u8 \<Rightarrow> u16 \<Rightarrow> u16 \<Rightarrow> u16 \<Rightarrow> u8 list \<Rightarrow> u8 list" where
  "icmp_message ty c idt sq pl = [ty, 0] @ be_bytes 2 c @ (be_bytes 2 idt @ be_bytes 2 sq @ pl)"

definition echo_frame ::
    "u8 list \<Rightarrow> u8 list \<Rightarrow> u8 list \<Rightarrow> u8 list \<Rightarrow> u16 \<Rightarrow> u16 \<Rightarrow> u8 \<Rightarrow> u16 \<Rightarrow> u16 \<Rightarrow> u16 \<Rightarrow> u8 list \<Rightarrow> u8 list" where
  "echo_frame dmac smac sip dip n c1 ty c2 idt sq pl =
     dmac @ smac @ be_bytes 2 ETHERTYPE_IPV4 @ ip_header n c1 sip dip @ icmp_message ty c2 idt sq pl"

lemma two_bytes: "be_bytes 2 (0 :: u16) = [0, 0]" "be_bytes 2 (0x4000 :: u16) = [0x40, 0]"
  by code_simp+

lemma checksum_exists:
  assumes "length data \<le> 131000"
  shows "\<exists>c. checksum data = Ok c" and "word_sum data + 65535 < 2 ^ 32"
proof -
  have "(length data + 1) div 2 \<le> 65500" using assms by linarith
  then have "65535 * ((length data + 1) div 2) \<le> 65535 * 65500" by (rule mult_le_mono2)
  then have "word_sum data \<le> 65535 * 65500" using word_sum_le [of data] by linarith
  then show *: "word_sum data + 65535 < 2 ^ 32" by simp
  then have "word_sum data < 2 ^ 32" by linarith
  then show "\<exists>c. checksum data = Ok c" by (rule checksum_sum) blast
qed

lemma put_ip_header_Ok:
  assumes "length src = 4" "length dst = 4"
  shows "\<exists>c. put_ip_header f n src dst = Ok (f @ ip_header (of_nat n) c src dst) \<and>
           checksum (ip_header (of_nat n) c src dst) = Ok 0"
proof -
  define pre where "pre = [0x45, 0] @ be_bytes 2 (of_nat n :: u16) @ [0, 0, 0x40, 0, 64, IP_PROTO_ICMP]"
  have pre: "length pre = 10" by (simp add: pre_def)
  let ?h = "pre @ [0, 0] @ (src @ dst)"
  have raw: "f @ [0x45, 0] @ be_bytes 2 (of_nat n :: u16) @ be_bytes 2 (0 :: u16) @
      be_bytes 2 (0x4000 :: u16) @ [64, IP_PROTO_ICMP] @ be_bytes 2 (0 :: u16) @ src @ dst = f @ ?h"
    by (simp add: pre_def two_bytes)
  have slice: "slice (f @ ?h) (length f) 20 = (Ok ?h :: (unit, _) res)"
    using pre assms by (simp add: slice_def)
  have small: "length ?h \<le> 131000" using pre assms by simp
  obtain c where c: "checksum ?h = Ok c" using checksum_exists(1) [OF small] by blast
  have "put16 (f @ ?h) (length f + 10) c = Ok (f @ pre @ be_bytes 2 c @ (src @ dst))"
    using pre assms by (simp add: put16_def)
  then have "put_ip_header f n src dst = Ok (f @ pre @ be_bytes 2 c @ (src @ dst))"
    unfolding put_ip_header_def Let_def raw slice bind_res_simps c .
  moreover have "checksum (pre @ be_bytes 2 c @ (src @ dst)) = Ok 0"
    using checksum_verifies [OF _ _ c] checksum_exists(2) [OF small] pre by simp
  ultimately show ?thesis unfolding ip_header_def pre_def [symmetric] by blast
qed

lemma put_icmp_Ok:
  assumes "length pl \<le> 65507"
  shows "\<exists>c. put_icmp f ty idt sq pl = Ok (f @ icmp_message ty c idt sq pl) \<and>
           checksum (icmp_message ty c idt sq pl) = Ok 0"
proof -
  let ?post = "be_bytes 2 idt @ be_bytes 2 sq @ pl"
  let ?m = "[ty, 0] @ [0, 0] @ ?post"
  have raw: "f @ [ty, 0] @ be_bytes 2 (0 :: u16) @ ?post = f @ ?m" by (simp add: two_bytes)
  have slice: "slice_from (f @ ?m) (length f) = Ok ?m" by (simp add: slice_from_def)
  have small: "length ?m \<le> 131000" using assms by simp
  obtain c where c: "checksum ?m = Ok c" using checksum_exists(1) [OF small] by blast
  have "put16 (f @ ?m) (length f + 2) c = Ok (f @ [ty, 0] @ be_bytes 2 c @ ?post)"
    by (simp add: put16_def)
  then have "put_icmp f ty idt sq pl = Ok (f @ [ty, 0] @ be_bytes 2 c @ ?post)"
    unfolding put_icmp_def Let_def raw slice bind_res_simps c .
  moreover have "checksum ([ty, 0] @ be_bytes 2 c @ ?post) = Ok 0"
    using checksum_verifies [OF _ _ c] checksum_exists(2) [OF small] by simp
  ultimately show ?thesis unfolding icmp_message_def by blast
qed

lemma build_request_Ok:
  assumes "length sip = 4" "length dip = 4" "length pl \<le> 65507"
  shows "\<exists>c1 c2. build_echo_request smac dmac sip dip idt sq pl =
             Ok (echo_frame dmac smac sip dip (of_nat (28 + length pl)) c1 ICMP_ECHO_REQUEST c2 idt sq pl) \<and>
           checksum (ip_header (of_nat (28 + length pl)) c1 sip dip) = Ok 0 \<and>
           checksum (icmp_message ICMP_ECHO_REQUEST c2 idt sq pl) = Ok 0"
proof -
  let ?f = "dmac @ smac @ be_bytes 2 ETHERTYPE_IPV4"
  obtain c1 where 1: "put_ip_header ?f (28 + length pl) sip dip =
        Ok (?f @ ip_header (of_nat (28 + length pl)) c1 sip dip)"
      "checksum (ip_header (of_nat (28 + length pl)) c1 sip dip) = Ok 0"
    using put_ip_header_Ok [OF assms(1,2)] by blast
  let ?g = "?f @ ip_header (of_nat (28 + length pl)) c1 sip dip"
  obtain c2 where 2: "put_icmp ?g ICMP_ECHO_REQUEST idt sq pl =
        Ok (?g @ icmp_message ICMP_ECHO_REQUEST c2 idt sq pl)"
      "checksum (icmp_message ICMP_ECHO_REQUEST c2 idt sq pl) = Ok 0"
    using put_icmp_Ok [OF assms(3)] by blast
  have n: "20 + (8 + length pl) = 28 + length pl" by simp
  have "build_echo_request smac dmac sip dip idt sq pl =
      Ok (echo_frame dmac smac sip dip (of_nat (28 + length pl)) c1 ICMP_ECHO_REQUEST c2 idt sq pl)"
    unfolding build_echo_request_def Let_def n 1(1) bind_res_simps 2(1)
    by (simp only: echo_frame_def append_assoc)
  with 1(2) 2(2) show ?thesis by blast
qed

lemma build_reply_Ok:
  assumes "length (src_ip req) = 4" "length (dst_ip req) = 4" "length (payload req) \<le> 65507"
  shows "\<exists>c1 c2. build_echo_reply req =
             Ok (echo_frame (src_mac req) (dst_mac req) (dst_ip req) (src_ip req)
               (of_nat (28 + length (payload req))) c1 ICMP_ECHO_REPLY c2 (ident req) (seq req) (payload req)) \<and>
           checksum (ip_header (of_nat (28 + length (payload req))) c1 (dst_ip req) (src_ip req)) = Ok 0 \<and>
           checksum (icmp_message ICMP_ECHO_REPLY c2 (ident req) (seq req) (payload req)) = Ok 0"
proof -
  let ?f = "src_mac req @ dst_mac req @ be_bytes 2 ETHERTYPE_IPV4" and ?n = "28 + length (payload req)"
  obtain c1 where 1: "put_ip_header ?f ?n (dst_ip req) (src_ip req) =
        Ok (?f @ ip_header (of_nat ?n) c1 (dst_ip req) (src_ip req))"
      "checksum (ip_header (of_nat ?n) c1 (dst_ip req) (src_ip req)) = Ok 0"
    using put_ip_header_Ok [OF assms(2,1)] by blast
  let ?g = "?f @ ip_header (of_nat ?n) c1 (dst_ip req) (src_ip req)"
  obtain c2 where 2: "put_icmp ?g ICMP_ECHO_REPLY (ident req) (seq req) (payload req) =
        Ok (?g @ icmp_message ICMP_ECHO_REPLY c2 (ident req) (seq req) (payload req))"
      "checksum (icmp_message ICMP_ECHO_REPLY c2 (ident req) (seq req) (payload req)) = Ok 0"
    using put_icmp_Ok [OF assms(3)] by blast
  have n: "20 + (8 + length (payload req)) = ?n" by simp
  have "build_echo_reply req =
      Ok (echo_frame (src_mac req) (dst_mac req) (dst_ip req) (src_ip req) (of_nat ?n) c1
        ICMP_ECHO_REPLY c2 (ident req) (seq req) (payload req))"
    unfolding build_echo_reply_def Let_def n 1(1) bind_res_simps 2(1)
    by (simp only: echo_frame_def append_assoc)
  with 1(2) 2(2) show ?thesis by blast
qed

lemma be16_slice:
  "(slice b i 2 :: (unit, _) res) = Ok (be_bytes 2 w) \<Longrightarrow> be16 b i = Some (w :: u16)"
proof -
  assume sl: "(slice b i 2 :: (unit, _) res) = Ok (be_bytes 2 w)"
  then have i: "i + 1 < length b" and t: "be_bytes 2 w = take 2 (drop i b)"
    by (auto simp: slice_Ok)
  have "take 2 (drop i b) = [b ! i, b ! (i + 1)]"
    using i by (simp add: take_Suc_conv_app_nth numeral_2_eq_2)
  then have "be_word [b ! i, b ! (i + 1)] = w" using t be_word_bytes [of 2 w] by simp
  then show ?thesis using i by (simp add: inside)
qed

lemma ip_header_parts:
  assumes "length sip = 4" "length dip = 4"
  shows "length (ip_header n c sip dip) = 20"
    and "byte (ip_header n c sip dip @ m) 0 = Ok 0x45"
    and "byte (ip_header n c sip dip @ m) 9 = Ok IP_PROTO_ICMP"
    and "(slice (ip_header n c sip dip @ m) 12 4 :: (unit, _) res) = Ok sip"
    and "(slice (ip_header n c sip dip @ m) 16 4 :: (unit, _) res) = Ok dip"
    and "slice_from (ip_header n c sip dip @ m) 20 = Ok m"
proof -
  show len: "length (ip_header n c sip dip) = 20" using assms by (simp add: ip_header_def)
  show "byte (ip_header n c sip dip @ m) 0 = Ok 0x45" by (simp add: byte_def ip_header_def)
  show "byte (ip_header n c sip dip @ m) 9 = Ok IP_PROTO_ICMP"
    by (simp add: byte_def ip_header_def nth_append)
  show "(slice (ip_header n c sip dip @ m) 12 4 :: (unit, _) res) = Ok sip"
    and "(slice (ip_header n c sip dip @ m) 16 4 :: (unit, _) res) = Ok dip"
    using assms by (simp_all add: ip_header_def slice_def)
  show "slice_from (ip_header n c sip dip @ m) 20 = Ok m"
    using len by (simp add: slice_from_def)
qed

lemma icmp_parts:
  "\<not> length (icmp_message ty c idt sq pl) < 8"
  "byte (icmp_message ty c idt sq pl) 0 = Ok ty"
  "be16 (icmp_message ty c idt sq pl) 4 = Some idt"
  "be16 (icmp_message ty c idt sq pl) 6 = Some sq"
  "slice_from (icmp_message ty c idt sq pl) 8 = Ok pl"
  by (simp_all add: icmp_message_def byte_def slice_from_def be16_slice slice_def)

lemma frame_parts:
  fixes n :: u16
  assumes "length dmac = 6" "length smac = 6" "length sip = 4" "length dip = 4"
  shows "\<not> length (echo_frame dmac smac sip dip n c1 ty c2 idt sq pl) < 14 + 20 + 8"
    and "(slice (echo_frame dmac smac sip dip n c1 ty c2 idt sq pl) 0 6 :: (unit, _) res) = Ok dmac" and "(slice (echo_frame dmac smac sip dip n c1 ty c2 idt sq pl) 6 6 :: (unit, _) res) = Ok smac"
    and "be16 (echo_frame dmac smac sip dip n c1 ty c2 idt sq pl) 12 = Some ETHERTYPE_IPV4"
    and "slice_from (echo_frame dmac smac sip dip n c1 ty c2 idt sq pl) 14 = Ok (ip_header n c1 sip dip @ icmp_message ty c2 idt sq pl)"
proof -
  have len: "length (ip_header n c1 sip dip) = 20" by (rule ip_header_parts(1) [OF assms(3,4)])
  show "\<not> length (echo_frame dmac smac sip dip n c1 ty c2 idt sq pl) < 14 + 20 + 8"
    using assms(1,2) len icmp_parts(1) [of ty c2 idt sq pl] by (simp add: echo_frame_def)
  show "(slice (echo_frame dmac smac sip dip n c1 ty c2 idt sq pl) 0 6 :: (unit, _) res) = Ok dmac" and "(slice (echo_frame dmac smac sip dip n c1 ty c2 idt sq pl) 6 6 :: (unit, _) res) = Ok smac"
    and "be16 (echo_frame dmac smac sip dip n c1 ty c2 idt sq pl) 12 = Some ETHERTYPE_IPV4"
    and "slice_from (echo_frame dmac smac sip dip n c1 ty c2 idt sq pl) 14 = Ok (ip_header n c1 sip dip @ icmp_message ty c2 idt sq pl)"
    using assms(1,2) by (simp_all add: echo_frame_def slice_def slice_from_def be16_slice)
qed

lemma frame_halves:
  assumes "length dmac = 6" "length smac = 6" "length sip = 4" "length dip = 4"
  shows "take 20 (drop 14 (echo_frame dmac smac sip dip n c1 ty c2 idt sq pl)) = ip_header n c1 sip dip"
    and "drop 34 (echo_frame dmac smac sip dip n c1 ty c2 idt sq pl) = icmp_message ty c2 idt sq pl"
  using assms(1,2) ip_header_parts(1) [OF assms(3,4), where n = n and c = c1] by (simp_all add: echo_frame_def)

lemma parse_frames:
  assumes "length dmac = 6" "length smac = 6" "length sip = 4" "length dip = 4"
  shows "parse_echo_request (echo_frame dmac smac sip dip n c1 ICMP_ECHO_REQUEST c2 idt sq pl) =
      Ok (Some \<lparr>src_mac = smac, dst_mac = dmac, src_ip = sip, dst_ip = dip, ident = idt, seq = sq,
        payload = pl\<rparr>)"
    and "parse_echo_reply (echo_frame dmac smac sip dip n c1 ICMP_ECHO_REPLY c2 idt sq pl) =
      Ok (Some \<lparr>from_ip = sip, reply_ident = idt, reply_seq = sq, reply_payload = pl\<rparr>)"
proof -
  have ihl: "unat ((0x45 :: u8) AND 0x0F) * 4 = 20" by simp
  define icmp where "icmp ty = icmp_message ty c2 idt sq pl" for ty
  define ip where "ip ty = ip_header n c1 sip dip @ icmp ty" for ty
  define f where "f ty = echo_frame dmac smac sip dip n c1 ty c2 idt sq pl" for ty
  have f: "\<not> length (f ty) < 14 + 20 + 8" "be16 (f ty) 12 = Some ETHERTYPE_IPV4"
    "(slice (f ty) 0 6 :: (unit, _) res) = Ok dmac" "(slice (f ty) 6 6 :: (unit, _) res) = Ok smac"
    "slice_from (f ty) 14 = Ok (ip ty)" for ty
    unfolding f_def ip_def icmp_def by (rule frame_parts [OF assms])+
  have len: "\<not> length (f ty) < 42" for ty using f(1) [of ty] by simp
  have ip: "byte (ip ty) 0 = Ok 0x45" "byte (ip ty) 9 = Ok IP_PROTO_ICMP" "\<not> length (ip ty) < 20"
    "(slice (ip ty) 12 4 :: (unit, _) res) = Ok sip" "(slice (ip ty) 16 4 :: (unit, _) res) = Ok dip"
    "slice_from (ip ty) 20 = Ok (icmp ty)" for ty
    using ip_header_parts(1) [OF assms(3,4), where n = n and c = c1]
      ip_header_parts(2-) [OF assms(3,4), where n = n and c = c1 and m = "icmp ty"]
    by (simp_all add: ip_def)
  have icmp: "\<not> length (icmp ty) < 8" "byte (icmp ty) 0 = Ok ty" "be16 (icmp ty) 4 = Some idt"
    "be16 (icmp ty) 6 = Some sq" "slice_from (icmp ty) 8 = Ok pl" for ty
    unfolding icmp_def by (rule icmp_parts)+
  show "parse_echo_request (echo_frame dmac smac sip dip n c1 ICMP_ECHO_REQUEST c2 idt sq pl) =
      Ok (Some \<lparr>src_mac = smac, dst_mac = dmac, src_ip = sip, dst_ip = dip, ident = idt, seq = sq,
        payload = pl\<rparr>)"
    unfolding f_def [symmetric] by (simp add: parse_echo_request_def len f ip icmp ihl)
  show "parse_echo_reply (echo_frame dmac smac sip dip n c1 ICMP_ECHO_REPLY c2 idt sq pl) =
      Ok (Some \<lparr>from_ip = sip, reply_ident = idt, reply_seq = sq, reply_payload = pl\<rparr>)"
    unfolding f_def [symmetric] by (simp add: parse_echo_reply_def len f ip icmp ihl)
qed

text \<open>The parser never looks at the total length of the IPv4 header: bytes after the packet (an
  Ethernet frame is padded to 60 bytes) become part of the payload, and would be echoed back.\<close>

lemma padding_becomes_payload:
  assumes "length dmac = 6" "length smac = 6" "length sip = 4" "length dip = 4"
  shows "parse_echo_request (echo_frame dmac smac sip dip n c1 ICMP_ECHO_REQUEST c2 idt sq pl @ pad) =
      Ok (Some \<lparr>src_mac = smac, dst_mac = dmac, src_ip = sip, dst_ip = dip, ident = idt, seq = sq,
        payload = pl @ pad\<rparr>)"
  using parse_frames(1) [OF assms, of n c1 c2 idt sq "pl @ pad"]
  by (simp add: echo_frame_def icmp_message_def)

text \<open>An ARP frame with the Ethernet and IPv4 types: the parser takes the sender's address from
  a reply of the machine that was asked for, and from nothing else; so not from our own request.\<close>

definition arp_frame ::
    "u8 list \<Rightarrow> u8 list \<Rightarrow> u16 \<Rightarrow> u8 list \<Rightarrow> u8 list \<Rightarrow> u8 list \<Rightarrow> u8 list \<Rightarrow> u8 list" where
  "arp_frame dmac smac oper sha spa tha tpa =
     (dmac @ smac @ be_bytes 2 ETHERTYPE_ARP) @ (be_bytes 2 ARP_HTYPE_ETHERNET @
     be_bytes 2 ETHERTYPE_IPV4 @ [6, 4] @ be_bytes 2 oper @ sha @ spa @ tha @ tpa)"

lemma arp_reply_exact:
  assumes "length dmac = 6" "length smac = 6" "length sha = 6" "length spa = 4" "length tha = 6"
    and "length tpa = 4"
  shows "parse_arp_reply (arp_frame dmac smac oper sha spa tha tpa) ip =
    Ok (if oper = ARP_OP_REPLY \<and> spa = ip then Some sha else None)"
proof -
  define arp where "arp = be_bytes 2 ARP_HTYPE_ETHERNET @ be_bytes 2 ETHERTYPE_IPV4 @ [6, 4] @
    be_bytes 2 oper @ sha @ spa @ tha @ tpa"
  define f where "f = arp_frame dmac smac oper sha spa tha tpa"
  have f_eq: "f = (dmac @ smac @ be_bytes 2 ETHERTYPE_ARP) @ arp"
    by (simp add: f_def arp_frame_def arp_def)
  have f: "\<not> length f < 42" "be16 f 12 = Some ETHERTYPE_ARP" "slice_from f 14 = Ok arp"
    using assms unfolding f_eq by (simp_all add: arp_def be16_slice slice_def slice_from_def)
  have arp: "be16 arp 0 = Some ARP_HTYPE_ETHERNET" "be16 arp 2 = Some ETHERTYPE_IPV4"
    "byte arp 4 = Ok 6" "byte arp 5 = Ok 4" "be16 arp 6 = Some oper"
    "(slice arp 14 4 :: (unit, _) res) = Ok spa" "(slice arp 8 6 :: (unit, _) res) = Ok sha"
    using assms unfolding arp_def by (simp_all add: be16_slice slice_def byte_def nth_append)
  show ?thesis unfolding f_def [symmetric] by (simp add: parse_arp_reply_def f arp)
qed

lemma own_request_refused:
  assumes "length mac = 6" "length ip = 4" "length target = 4"
  shows "parse_arp_reply (build_arp_request mac ip target) ip' = Ok None"
proof -
  have "build_arp_request mac ip target =
      arp_frame MAC_BROADCAST mac ARP_OP_REQUEST mac ip (replicate 6 0) target"
    by (simp add: build_arp_request_def arp_frame_def)
  moreover have "length MAC_BROADCAST = 6" by (simp add: MAC_BROADCAST_def)
  ultimately show ?thesis
    using assms arp_reply_exact [of MAC_BROADCAST mac mac ip "replicate 6 0" target ARP_OP_REQUEST ip']
    by (simp add: ARP_OP_REQUEST_def ARP_OP_REPLY_def)
qed

text \<open>C32: a ping works end to end. For addresses of the right length and a payload that fits
  an IPv4 packet, the request one host builds is parsed by the other to exactly the fields it was
  built from, the reply built from the parse is parsed by the first to the address it pinged with
  its identifier, sequence number and payload; and all four checksums verify.\<close>

theorem ping_exchange:
  assumes "length my_mac = 6" "length peer_mac = 6" "length my_ip = 4" "length peer_ip = 4"
    and "length pl \<le> 65507"
  shows "\<exists>out req rep.
      build_echo_request my_mac peer_mac my_ip peer_ip idt sq pl = Ok out \<and>
      parse_echo_request out = Ok (Some req) \<and>
      req = \<lparr>src_mac = my_mac, dst_mac = peer_mac, src_ip = my_ip, dst_ip = peer_ip, ident = idt,
        seq = sq, payload = pl\<rparr> \<and>
      build_echo_reply req = Ok rep \<and>
      parse_echo_reply rep = Ok (Some \<lparr>from_ip = peer_ip, reply_ident = idt, reply_seq = sq,
        reply_payload = pl\<rparr>) \<and>
      checksum (take 20 (drop 14 out)) = Ok 0 \<and> checksum (drop 34 out) = Ok 0 \<and>
      checksum (take 20 (drop 14 rep)) = Ok 0 \<and> checksum (drop 34 rep) = Ok 0"
proof -
  let ?n = "of_nat (28 + length pl) :: u16"
  define req where "req = \<lparr>src_mac = my_mac, dst_mac = peer_mac, src_ip = my_ip, dst_ip = peer_ip,
    ident = idt, seq = sq, payload = pl\<rparr>"
  obtain c1 c2 where out: "build_echo_request my_mac peer_mac my_ip peer_ip idt sq pl =
        Ok (echo_frame peer_mac my_mac my_ip peer_ip ?n c1 ICMP_ECHO_REQUEST c2 idt sq pl)"
      and k: "checksum (ip_header ?n c1 my_ip peer_ip) = Ok 0"
        "checksum (icmp_message ICMP_ECHO_REQUEST c2 idt sq pl) = Ok 0"
    using build_request_Ok [OF assms(3,4,5)] by blast
  obtain d1 d2 where rep: "build_echo_reply req =
        Ok (echo_frame my_mac peer_mac peer_ip my_ip ?n d1 ICMP_ECHO_REPLY d2 idt sq pl)"
      and l: "checksum (ip_header ?n d1 peer_ip my_ip) = Ok 0"
        "checksum (icmp_message ICMP_ECHO_REPLY d2 idt sq pl) = Ok 0"
    using build_reply_Ok [of req] assms(3,4,5) by (auto simp: req_def)
  show ?thesis
    using out k rep l parse_frames(1) [OF assms(2,1,3,4)] parse_frames(2) [OF assms(1,2,4,3)]
      frame_halves [OF assms(2,1,3,4)] frame_halves [OF assms(1,2,4,3)] req_def
    by metis
qed

lemma ping_exchange_witness:
  "\<exists>out req rep.
      build_echo_request [2, 0, 0, 0, 0, 1] [2, 0, 0, 0, 0, 2] [10, 0, 2, 15] [10, 0, 2, 2] 7 1 [0xAB] =
        Ok out \<and>
      parse_echo_request out = Ok (Some req) \<and> build_echo_reply req = Ok rep \<and>
      parse_echo_reply rep = Ok (Some \<lparr>from_ip = [10, 0, 2, 2], reply_ident = 7, reply_seq = 1,
        reply_payload = [0xAB]\<rparr>)"
  using ping_exchange [of "[2, 0, 0, 0, 0, 1]" "[2, 0, 0, 0, 0, 2]" "[10, 0, 2, 15]" "[10, 0, 2, 2]"
      "[0xAB]" 7 1] by simp blast

end
