(* ===== verification/NetService.thy ===== *)
theory NetService
  imports Services VirtioNet Netstack
begin

text \<open>
  \<open>subsystems/drivers/driver-virtio-net/src/subsystem_entry.rs\<close> and
  \<open>subsystems/netstack/src/subsystem_entry.rs\<close>: the network driver as a process, the stack as
  its client and as a server of its own. The two processes share the driver's regions; a region is
  addressed here by the driver's mapping of it, also where the stack reads or writes it. The stack's
  \<open>Call\<close> blocks it until the driver has served the page, so a call is a step of the driver.
\<close>

section \<open>The driver process\<close>

definition NET_MMIO_VA :: usize where "NET_MMIO_VA = 0xD8400000"
definition NET_RX_VA :: usize where "NET_RX_VA = 0xD8500000"
definition NET_TX_VA :: usize where "NET_TX_VA = 0xD8600000"
definition NET_PCI_INFO_OFFSET :: usize where "NET_PCI_INFO_OFFSET = 96"

definition net_info_word :: "env \<Rightarrow> usize \<Rightarrow> (unit run_scheme, u64) io" where
  "net_info_word env off = rd env 8 NET_RX_VA (NET_PCI_INFO_OFFSET + off)"

definition net_new_driver :: "env \<Rightarrow> (unit run_scheme, virtio_net) io" where
  "net_new_driver env s =
     then_do (net_info_word env 0 s) (\<lambda>transport_kind s.
     if transport_kind = 0 then (Ok (net_new NET_MMIO_VA NET_RX_VA NET_TX_VA), s) else
     then_do (net_info_word env 8 s) (\<lambda>common s.
     then_do (net_info_word env 16 s) (\<lambda>notify s.
     then_do (net_info_word env 24 s) (\<lambda>mult s.
     then_do (net_info_word env 32 s) (\<lambda>isr s.
     then_do (net_info_word env 40 s) (\<lambda>device_cfg s.
     then_do (net_info_word env 48 s) (\<lambda>vec s.
       (Ok (net_new_pci common notify (ucast mult) isr device_cfg NET_RX_VA NET_TX_VA (ucast vec)), s))))))))"

definition net_boot :: "env \<Rightarrow> (dd_error, virtio_net) res" where
  "net_boot env = (case net_new_driver env \<lparr>trace = []\<rparr> of
     (Ok drv, s) \<Rightarrow> (case net_probe env (drv\<lparr>trace := trace s\<rparr>) of
         (Panic, drv) \<Rightarrow> Panic | (_, drv) \<Rightarrow> Ok drv)
   | (Err e, s) \<Rightarrow> Err e | (Panic, s) \<Rightarrow> Panic)"

definition net_serve :: "env \<Rightarrow> page \<Rightarrow> virtio_net \<Rightarrow> (dd_error, page) res \<times> virtio_net" where
  "net_serve env = serve_one decode_driver_request encode_driver_response (DrFailed DrUnsupported)
     (\<lambda>s req. net_dispatch env req s)"

section \<open>The stack as a client\<close>

definition OUR_IP :: "u8 list" where "OUR_IP = [10, 0, 2, 15]"
definition GATEWAY_IP :: "u8 list" where "GATEWAY_IP = [10, 0, 2, 2]"
definition ICMP_IDENT :: u16 where "ICMP_IDENT = 0x5151"
definition ICMP_SEQ :: u16 where "ICMP_SEQ = 1"
definition ICMP_PAYLOAD :: "u8 list" where
  "ICMP_PAYLOAD = map (\<lambda>c. of_nat (of_char c)) ''simurgh-ping''"
definition MAX_POLL_ATTEMPTS :: nat where "MAX_POLL_ATTEMPTS = 5000"

fun read_bytes :: "env \<Rightarrow> usize \<Rightarrow> usize \<Rightarrow> nat \<Rightarrow> (virtio_net, u8 list) io" where
  "read_bytes env base off 0 s = (Ok [], s)"
| "read_bytes env base off (Suc n) s = then_do (rd8 env base off s) (\<lambda>b s.
     then_do (read_bytes env base (off + 1) n s) (\<lambda>bs s. (Ok (b # bs), s)))"

definition read_driver_mac :: "env \<Rightarrow> (virtio_net, u8 list) io" where
  "read_driver_mac env s = read_bytes env (rx_base s) MAC_OFFSET 6 s"

definition call_driver :: "env \<Rightarrow> driver_request \<Rightarrow> (virtio_net, driver_response option) io" where
  "call_driver env req s =
     then_do (write_shared_message (encode_driver_request req), s) (\<lambda>pg s.
     then_do (net_serve env pg s) (\<lambda>pg s.
       (case decode_driver_response (read_shared_message pg) of
          Ok r \<Rightarrow> Ok (Some r) | Err _ \<Rightarrow> Ok None | Panic \<Rightarrow> Panic, s)))"

definition copy_received_frame :: "env \<Rightarrow> usize \<Rightarrow> (virtio_net, u8 list) io" where
  "copy_received_frame env len s = (let len = min len FRAME_MAX in
     read_bytes env (rx_base s) (BUFFER_OFFSET + VIRTIO_NET_HDR_LEN) (unat len) s)"

definition stage_frame_for_tx :: "u8 list \<Rightarrow> (virtio_net, unit) io" where
  "stage_frame_for_tx frame s = wr (tx_base s) (BUFFER_OFFSET + VIRTIO_NET_HDR_LEN) frame s"

text \<open>The loop of \<open>send_then_poll\<close>. The closure is a function that yields \<open>Ok\<close> of an option, or
  panics.\<close>

fun poll_frames :: "env \<Rightarrow> (u8 list \<Rightarrow> (unit, 'a option) res) \<Rightarrow> nat \<Rightarrow> (virtio_net, 'a option) io" where
  "poll_frames env parse 0 s = (Ok None, s)"
| "poll_frames env parse (Suc n) s = then_do (call_driver env DrPollFrame s) (\<lambda>r s.
     case r of
       Some (DrFrameReceived len) \<Rightarrow> then_do (copy_received_frame env (ucast len) s) (\<lambda>bytes s.
         case parse bytes of
           Ok (Some v) \<Rightarrow> (Ok (Some v), s)
         | Panic \<Rightarrow> (Panic, s)
         | _ \<Rightarrow> poll_frames env parse n s)
     | Some (DrFailed DrNoData) \<Rightarrow> poll_frames env parse n s
     | _ \<Rightarrow> (Ok None, s))"

definition send_then_poll ::
    "env \<Rightarrow> u8 list \<Rightarrow> (u8 list \<Rightarrow> (unit, 'a option) res) \<Rightarrow> (virtio_net, 'a option) io" where
  "send_then_poll env frame parse s =
     then_do (stage_frame_for_tx frame s) (\<lambda>_ s.
     then_do (call_driver env (DrSendFrame (of_nat (length frame))) s) (\<lambda>r s.
       if r = Some DrFrameSent then poll_frames env parse MAX_POLL_ATTEMPTS s else (Ok None, s)))"

definition expected_reply :: "u8 list \<Rightarrow> (unit, unit option) res" where
  "expected_reply frame = bind_res (parse_echo_reply frame) (\<lambda>opt. case opt of
     None \<Rightarrow> Ok None
   | Some reply \<Rightarrow>
       let payload_matches = (length (reply_payload reply) \<ge> length ICMP_PAYLOAD \<and>
         take (length ICMP_PAYLOAD) (reply_payload reply) = ICMP_PAYLOAD) in
       Ok (if reply_ident reply = ICMP_IDENT \<and> reply_seq reply = ICMP_SEQ \<and> payload_matches
         then Some () else None))"

text \<open>\<open>subsystem_main\<close> up to \<open>park\<close>: the result is what \<open>write_status\<close> publishes, the verdict
  and the gateway's address.\<close>

definition netstack_main :: "env \<Rightarrow> (virtio_net, u8 \<times> u8 list option) io" where
  "netstack_main env s =
     then_do (read_driver_mac env s) (\<lambda>our_mac s.
     then_do (send_then_poll env (build_arp_request our_mac OUR_IP GATEWAY_IP)
       (\<lambda>frame. parse_arp_reply frame GATEWAY_IP) s) (\<lambda>gw_mac s.
     case gw_mac of
       None \<Rightarrow> (Ok (1, None), s)
     | Some gw_mac \<Rightarrow> (case build_echo_request our_mac gw_mac OUR_IP GATEWAY_IP ICMP_IDENT ICMP_SEQ
           ICMP_PAYLOAD of
         Ok echo_request \<Rightarrow> then_do (send_then_poll env echo_request expected_reply s) (\<lambda>matched s.
           (Ok (if matched \<noteq> None then 3 else 2, Some gw_mac), s))
       | _ \<Rightarrow> (Panic, s))))"

section \<open>The stack as a server\<close>

definition DRV_QUEUE_SIZE :: u32 where "DRV_QUEUE_SIZE = 2"

definition demo_frame :: "u8 list" where
  "demo_frame = replicate 6 0xFF @ replicate 6 0xB9 @ [0xFF, 0xFF] @ replicate 50 0xB5"

definition handle_bypass_request :: "env \<Rightarrow> virtio_net \<Rightarrow> net_bypass_request \<Rightarrow>
    (dd_error, net_bypass_response) res \<times> virtio_net" where
  "handle_bypass_request env s req = (case req of
     NbRequestDirectNic nic \<Rightarrow> (Ok (NbGranted 1 0 0 DRV_QUEUE_SIZE), s)
   | NbRelease h \<Rightarrow> (Ok NbReleased, s)
   | NbRelayFrame \<Rightarrow>
       then_do (stage_frame_for_tx demo_frame s) (\<lambda>_ s.
       then_do (call_driver env (DrSendFrame (of_nat (length demo_frame))) s) (\<lambda>r s.
         (Ok (if r = Some DrFrameSent then NbRelayed else NbDenied), s))))"

definition bypass_serve :: "env \<Rightarrow> page \<Rightarrow> virtio_net \<Rightarrow> (dd_error, page) res \<times> virtio_net" where
  "bypass_serve env = serve_one decode_net_bypass_request encode_net_bypass_response NbDenied
     (handle_bypass_request env)"

section \<open>The driver process comes up and serves\<close>

definition ports_kept :: "virtio_net \<Rightarrow> virtio_net \<Rightarrow> bool" where
  "ports_kept s s' \<longleftrightarrow> v_transport s' = v_transport s \<and> rx_base s' = rx_base s \<and> tx_base s' = tx_base s"

lemma ports_kept_inv: "ports_kept s s' \<Longrightarrow> net_inv env s' = net_inv env s"
  by (simp add: ports_kept_def net_inv_def)

text \<open>A step that does not panic and keeps the ports of a given state.\<close>

definition fine :: "virtio_net \<Rightarrow> (dd_error, 'a) res \<times> virtio_net \<Rightarrow> bool" where
  "fine s0 m \<longleftrightarrow> ends m (\<lambda>r s'. r \<noteq> Panic \<and> ports_kept s0 s')"

lemma fine_pair [simp]: "fine s0 (r, s) \<longleftrightarrow> r \<noteq> Panic \<and> ports_kept s0 s"
  by (simp add: fine_def)

lemma fine_seq:
  "fine s0 m \<Longrightarrow> (\<And>x s'. ports_kept s0 s' \<Longrightarrow> fine s0 (f x s')) \<Longrightarrow> fine s0 (then_do m f)"
  unfolding fine_def by (erule ends_chain) auto

lemmas net_reg_defs = Let_def write_status_def read_device_feature_def write_driver_feature_def
  read_status_def select_queue_def write_queue_msix_vector_def read_queue_size_max_def
  write_queue_size_def write_queue_addrs_def enable_queue_def net_probe_fails_def net_layout_defs
  transport_ok_def ports_kept_def fine_def

lemma net_check_fine:
  assumes "transport_ok (v_transport s0)" and "ports_kept s0 s"
  shows "fine s0 (net_check_identity env s)"
  using assms
  by (cases "v_transport s0") (auto simp: net_check_identity_def net_reg_defs intro!: ends_reads)

lemma net_negotiate_fine:
  assumes "transport_ok (v_transport s0)" and "ports_kept s0 s"
  shows "fine s0 (net_negotiate env s)"
  using assms
  by (cases "v_transport s0") (auto simp: net_negotiate_def net_reg_defs intro!: ends_reads)

lemma net_setup_queue_fine:
  assumes "transport_ok (v_transport s0)" and "ports_kept s0 s" and "phys_base env base p"
  shows "fine s0 (net_setup_queue env q base s)"
  using assms
  by (cases "v_transport s0") (auto simp: net_setup_queue_def net_reg_defs QUEUE_SIZE_def intro!: ends_reads)

lemma status_fine:
  assumes "transport_ok (v_transport s0)" and "ports_kept s0 s"
  shows "fine s0 (write_status (v_transport s0) v s)"
  using assms by (cases "v_transport s0") (auto simp: net_reg_defs)

lemma read_mac_fine:
  assumes "transport_ok (v_transport s0)" and "unat i + n \<le> 6" and "ports_kept s0 s"
  shows "ends (read_mac env (v_transport s0) i n s) (\<lambda>r s'. (\<exists>bs. r = Ok bs \<and> length bs = n) \<and> ports_kept s0 s')"
  using assms(2,3)
proof (induction n arbitrary: i s)
  case (Suc n)
  have i: "unat (i + 1) = unat i + 1" "unat (0x100 + i) < 4096" "unat i < 4096"
    using Suc.prems by (simp_all add: unat_add_exact)
  have one: "ends (read_config_byte env (v_transport s0) i s) (\<lambda>r s'. (\<exists>b. r = Ok b) \<and> ports_kept s0 s')"
    using assms(1) i(2,3) Suc.prems(2)
    by (cases "v_transport s0") (auto simp: read_config_byte_def transport_ok_def ports_kept_def intro!: ends_rd8)
  have next_byte: "unat (i + 1) + n \<le> 6" using Suc.prems i(1) by simp
  show ?case
    by (simp only: read_mac.simps, rule ends_chain [OF one])
      (auto intro!: ends_mono [OF Suc.IH [OF next_byte]])
qed simp

lemma write_mac_fine:
  assumes "window base" and "unat off + length bs < 4096" and "ports_kept s0 s"
  shows "fine s0 (write_mac base off bs s)"
  using assms(2,3)
proof (induction bs arbitrary: off s)
  case (Cons b bs)
  have o: "unat (off + 1) = unat off + 1" "unat off < 4096" using Cons.prems by (simp_all add: unat_add_exact)
  let ?s = "s\<lparr>trace := trace s @ [Wr (base + off) (le_bytes 1 b)]\<rparr>"
  have "unat (off + 1) + length bs < 4096" "ports_kept s0 ?s"
    using Cons.prems o(1) by (simp_all add: ports_kept_def)
  from Cons.IH [OF this] show ?case using assms(1) o(2) by simp
qed simp

lemma net_do_probe_fine:
  assumes "net_inv env s"
  shows "fine s (net_do_probe env s)"
proof -
  have t: "transport_ok (v_transport s)" and w: "window (rx_base s)"
    using net_windows [OF assms] by simp_all
  obtain p q where p: "phys_base env (rx_base s) p" "phys_base env (tx_base s) q"
    using assms by (auto simp: net_inv_def)
  have tail: "fine s (then_do (if mac then read_mac env (v_transport s) 0 6 s1 else (Ok FALLBACK_MAC, s1)) (\<lambda>bs s.
     let s = s\<lparr>net_mac := bs\<rparr> in
     then_do (write_mac (rx_base s) MAC_OFFSET bs s) (\<lambda>_ s.
     then_do (wr64 (rx_base s) TX_NOTIFY_OFF_OFFSET (ucast (tx_notify_off s)) s) (\<lambda>_ s.
       post_rx_buffer env s))))"
    if s1: "ports_kept s s1" for mac s1
  proof -
    have mac: "ends (if mac then read_mac env (v_transport s) 0 6 s1 else (Ok FALLBACK_MAC, s1))
        (\<lambda>r s'. (\<exists>bs. r = Ok bs \<and> length bs = 6) \<and> ports_kept s s')"
      using read_mac_fine [OF t _ s1, of 0 6 env] s1 by (auto simp: FALLBACK_MAC_def)
    have rest: "fine s (then_do (write_mac (rx_base s2) MAC_OFFSET bs s2) (\<lambda>_ s.
        then_do (wr64 (rx_base s) TX_NOTIFY_OFF_OFFSET (ucast (tx_notify_off s)) s) (\<lambda>_ s.
          post_rx_buffer env s)))"
      if s2: "ports_kept s s2" and len: "length bs = 6" for bs s2
    proof (rule fine_seq)
      show "fine s (write_mac (rx_base s2) MAC_OFFSET bs s2)"
        using s2 w len by (intro write_mac_fine) (simp_all add: ports_kept_def MAC_OFFSET_def)
      fix x s3
      assume s3: "ports_kept s s3"
      let ?s4 = "s3\<lparr>trace := trace s3 @ [Wr (rx_base s3 + TX_NOTIFY_OFF_OFFSET) (le_bytes 8 (ucast (tx_notify_off s3) :: u64))]\<rparr>"
      have s4: "transport_ok (v_transport ?s4)" "phys_base env (rx_base ?s4) p"
        using s3 t p by (simp_all add: ports_kept_def)
      show "fine s (then_do (wr64 (rx_base s3) TX_NOTIFY_OFF_OFFSET (ucast (tx_notify_off s3)) s3) (\<lambda>_ s.
          post_rx_buffer env s))"
        using post_rx_Ok [OF s4] s3 w by (simp add: ports_kept_def TX_NOTIFY_OFF_OFFSET_def)
    qed
    show ?thesis
      unfolding fine_def
      by (rule ends_chain [OF mac]) (use rest in \<open>auto simp: fine_def Let_def ports_kept_def\<close>)
  qed
  show ?thesis
    unfolding net_do_probe_def Let_def
    by (intro fine_seq net_check_fine net_negotiate_fine net_setup_queue_fine status_fine
        tail [unfolded Let_def]) (use t p in \<open>simp_all add: ports_kept_def\<close>)
qed

lemma net_info_Ok:
  "net_info_word env off s = (Ok v, s') \<Longrightarrow> s' = s\<lparr>trace := trace s'\<rparr>"
  by (auto simp: net_info_word_def rd_def try_in_def Let_def split: res.splits)

lemma net_new_driver_made:
  assumes "net_new_driver env s = (Ok drv, s')"
  shows "rx_base drv = NET_RX_VA \<and> tx_base drv = NET_TX_VA \<and> \<not> v_ready drv"
  using assms
  by (auto simp: net_new_driver_def then_do_Ok_iff net_new_def net_new_pci_def split: if_splits)

lemma net_boot_inv:
  assumes "net_new_driver env \<lparr>trace = []\<rparr> = (Ok drv, s)"
    and "transport_ok (v_transport drv)" and "phys_base env NET_RX_VA p" and "phys_base env NET_TX_VA q"
  obtains d where "net_boot env = Ok d" and "net_inv env d"
proof -
  let ?d = "drv\<lparr>trace := trace s\<rparr>"
  have inv: "net_inv env ?d"
    using net_new_driver_made [OF assms(1)] assms(2-4) by (auto simp: net_inv_def)
  obtain r d where pr: "net_do_probe env ?d = (r, d)" by fastforce
  have out: "r \<noteq> Panic" "net_inv env d" "net_inv env (d\<lparr>v_ready := True\<rparr>)"
    using net_do_probe_fine [OF inv] inv ports_kept_inv [of ?d d env] pr by (auto simp: fine_def net_inv_def)
  have ne: "r = Ok () \<or> (\<exists>e. r = Err e)" using out(1) by (cases r) auto
  show thesis
  proof (cases "regions_bound ?d")
    case True
    then have "net_boot env = Ok (case r of Ok _ \<Rightarrow> d\<lparr>v_ready := True\<rparr> | _ \<Rightarrow> d)"
      using assms(1) pr ne by (auto simp: net_boot_def net_probe_def)
    with out ne show thesis by (cases r) (auto intro: that)
  next
    case False
    then have "net_boot env = Ok ?d" using assms(1) by (simp add: net_boot_def net_probe_def)
    then show thesis using inv by (rule that)
  qed
qed

definition net_process :: "env \<Rightarrow> bool \<Rightarrow> virtio_net \<Rightarrow> bool" where
  "net_process env ready s \<longleftrightarrow> net_inv env s \<and> v_ready s = ready"

lemma net_dispatch_handled:
  "net_process env ready s \<Longrightarrow> \<exists>r s'. net_dispatch env q s = (Ok r, s') \<and> net_process env ready s'"
proof -
  assume p: "net_process env ready s"
  then have "net_inv env s" by (simp add: net_process_def)
  then obtain r s' where r: "net_dispatch env q s = (Ok r, s')" and g: "grown s s'"
    using net_dispatch_ends by blast
  have "net_process env ready s'"
    using p grown_inv [OF g] g by (simp add: net_process_def grown_def)
  with r show ?thesis by blast
qed

interpretation net_server: server decode_driver_request encode_driver_response
  decode_driver_response "DrFailed DrUnsupported" "\<lambda>s req. net_dispatch env req s" "net_process env ready"
  "\<lambda>s req. True"
  by unfold_locales
    ((rule driver_request.dec_total driver_response.enc_wf page_driver_response; assumption)+,
     use net_dispatch_handled in blast)

section \<open>One call\<close>

lemma call_driver_Ok:
  assumes "net_dispatch env req s = (Ok r, s')"
  shows "call_driver env req s = (Ok (Some r), s')"
proof -
  have "(write_shared_message (encode_driver_request req) :: (dd_error, page) res) =
      Ok (page_of (encode_driver_request req))"
    "(write_shared_message (encode_driver_response r) :: (dd_error, page) res) =
      Ok (page_of (encode_driver_response r))"
    by (simp_all add: write_page [THEN conjunct1] driver_request.enc_wf driver_response.enc_wf)
  then show ?thesis
    using assms page_requests(2) [of req] page_driver_response [of r]
    by (simp add: call_driver_def net_serve_def serve_one_def)
qed

lemma call_driver_ends:
  assumes "net_inv env s"
  obtains r s' where "call_driver env req s = (Ok (Some r), s')" and "grown s s'"
    and "net_answers (v_ready s) req r"
  using net_dispatch_ends [OF assms, of req] call_driver_Ok [of env req s] by blast

text \<open>The reads of a frame, byte after byte.\<close>

fun frame_reads :: "usize \<Rightarrow> usize \<Rightarrow> u8 list \<Rightarrow> access list" where
  "frame_reads base off [] = []"
| "frame_reads base off (b # bs) = Rd (base + off) 1 (ucast b) # frame_reads base (off + 1) bs"

lemma rd8_exact:
  assumes "window base" and "unat off < 4096"
  shows "\<exists>b. rd8 env base off s = (Ok b, s\<lparr>trace := trace s @ [Rd (base + off) 1 (ucast b)]\<rparr>)"
proof -
  have "ucast (ucast (take_bit 8 x) :: u8) = take_bit 8 (x :: u64)" for x
    by (rule bit_eqI) (auto simp: bit_simps)
  then show ?thesis using assms by (auto simp: rd8_def rd_def window_add Let_def)
qed

lemma read_bytes_Ok:
  assumes "window base" and "unat off + n \<le> 4096"
  shows "\<exists>bs. length bs = n \<and>
    read_bytes env base off n s = (Ok bs, s\<lparr>trace := trace s @ frame_reads base off bs\<rparr>)"
  using assms(2)
proof (induction n arbitrary: off s)
  case (Suc n)
  have o: "unat (off + 1) = unat off + 1" "unat off < 4096" using Suc.prems by (simp_all add: unat_add_exact)
  from rd8_exact [OF assms(1) o(2), of env s] obtain b where
    b: "rd8 env base off s = (Ok b, s\<lparr>trace := trace s @ [Rd (base + off) 1 (ucast b)]\<rparr>)" by blast
  have "unat (off + 1) + n \<le> 4096" using Suc.prems o(1) by simp
  from Suc.IH [OF this, of "s\<lparr>trace := trace s @ [Rd (base + off) 1 (ucast b)]\<rparr>"] obtain bs where
    "length bs = n" "read_bytes env base (off + 1) n (s\<lparr>trace := trace s @ [Rd (base + off) 1 (ucast b)]\<rparr>) =
      (Ok bs, s\<lparr>trace := trace s @ Rd (base + off) 1 (ucast b) # frame_reads base (off + 1) bs\<rparr>)" by auto
  then show ?case using b by (intro exI [of _ "b # bs"]) simp
qed simp

text \<open>A frame that was read off the receive buffer, at most 700 bytes of it.\<close>

definition frame_seen :: "virtio_net \<Rightarrow> u8 list \<Rightarrow> bool" where
  "frame_seen s bytes \<longleftrightarrow> length bytes \<le> 700 \<and>
     (\<exists>before after. trace s = before @ frame_reads (rx_base s) 268 bytes @ after)"

lemma frame_seen_grown: "frame_seen s bytes \<Longrightarrow> grown s s' \<Longrightarrow> frame_seen s' bytes"
proof -
  assume "frame_seen s bytes" and g: "grown s s'"
  then obtain before after where f: "length bytes \<le> 700"
    "trace s = before @ frame_reads (rx_base s) 268 bytes @ after" by (auto simp: frame_seen_def)
  from g obtain tr where "trace s' = trace s @ tr" "rx_base s' = rx_base s" by (auto simp: grown_def)
  with f(2) have "trace s' = before @ frame_reads (rx_base s') 268 bytes @ (after @ tr)" by simp
  with f(1) show "frame_seen s' bytes" unfolding frame_seen_def by blast
qed

lemma copy_received_Ok:
  assumes "net_inv env s"
  obtains bytes s' where "copy_received_frame env len s = (Ok bytes, s')" and "grown s s'"
    and "frame_seen s' bytes"
proof -
  let ?n = "min len FRAME_MAX"
  have n: "unat ?n \<le> 700" by (simp add: min_def FRAME_MAX_def word_le_nat_alt)
  have off: "BUFFER_OFFSET + VIRTIO_NET_HDR_LEN = 268" by (simp add: BUFFER_OFFSET_def VIRTIO_NET_HDR_LEN_def)
  have "unat (268 :: usize) + unat ?n \<le> 4096" using n by simp
  from read_bytes_Ok [OF net_windows(1) [OF assms] this, of env s] obtain bs where
    bs: "length bs = unat ?n" "read_bytes env (rx_base s) 268 (unat ?n) s =
      (Ok bs, s\<lparr>trace := trace s @ frame_reads (rx_base s) 268 bs\<rparr>)" by blast
  let ?s' = "s\<lparr>trace := trace s @ frame_reads (rx_base s) 268 bs\<rparr>"
  have "trace ?s' = trace s @ frame_reads (rx_base ?s') 268 bs @ []" by simp
  then have "frame_seen ?s' bs" unfolding frame_seen_def using bs(1) n by (metis (no_types))
  moreover have "copy_received_frame env len s = (Ok bs, ?s')"
    using bs(2) off by (simp add: copy_received_frame_def Let_def)
  ultimately show thesis by (intro that [of bs ?s']) simp_all
qed

lemma poll_frames_ends:
  assumes "net_inv env s" and "\<And>b. parse b \<noteq> Panic"
  shows "\<exists>r s'. poll_frames env parse n s = (Ok r, s') \<and> grown s s' \<and>
    (\<forall>v. r = Some v \<longrightarrow> (\<exists>bytes. frame_seen s' bytes \<and> parse bytes = Ok (Some v)))"
  using assms(1)
proof (induction n arbitrary: s)
  case (Suc n)
  obtain r s1 where call: "call_driver env DrPollFrame s = (Ok (Some r), s1)" and g1: "grown s s1"
    by (rule call_driver_ends [OF Suc.prems])
  have inv1: "net_inv env s1" using Suc.prems grown_inv [OF g1] by simp
  have again: ?case if g: "grown s s2" and more: "poll_frames env parse (Suc n) s = poll_frames env parse n s2"
    for s2
  proof -
    have "net_inv env s2" using Suc.prems grown_inv [OF g] by simp
    from Suc.IH [OF this] show ?thesis unfolding more using grown_trans [OF g] by blast
  qed
  show ?case
  proof (cases r)
    case (DrFrameReceived len)
    obtain bytes s2 where copy: "copy_received_frame env (ucast len) s1 = (Ok bytes, s2)"
      and g2: "grown s1 s2" and seen: "frame_seen s2 bytes"
      by (rule copy_received_Ok [OF inv1])
    have g: "grown s s2" by (rule grown_trans [OF g1 g2])
    have step: "poll_frames env parse (Suc n) s = (case parse bytes of
        Ok (Some v) \<Rightarrow> (Ok (Some v), s2) | Panic \<Rightarrow> (Panic, s2) | _ \<Rightarrow> poll_frames env parse n s2)"
      using call copy DrFrameReceived by simp
    show ?thesis
    proof (cases "parse bytes")
      case (Ok opt)
      show ?thesis
      proof (cases opt)
        case None
        then show ?thesis using Ok step by (intro again [OF g]) simp
      next
        case (Some v)
        then show ?thesis using Ok step g seen by auto
      qed
    next
      case (Err e)
      then show ?thesis using step by (intro again [OF g]) simp
    next
      case Panic
      then show ?thesis using assms(2) by blast
    qed
  next
    case (DrFailed e)
    show ?thesis
    proof (cases "e = DrNoData")
      case True
      then show ?thesis using call DrFailed by (intro again [OF g1]) simp
    next
      case False
      then show ?thesis using call DrFailed g1 by (cases e) simp_all
    qed
  qed (use call g1 in simp_all)
qed simp

lemma stage_frame_Ok:
  assumes "net_inv env s"
  shows "stage_frame_for_tx f s = (Ok (), s\<lparr>trace := trace s @ [Wr (tx_base s + 268) f]\<rparr>)"
  using net_windows(2) [OF assms] by (simp add: stage_frame_for_tx_def BUFFER_OFFSET_def VIRTIO_NET_HDR_LEN_def)

lemma send_then_poll_ends:
  assumes "net_inv env s" and "\<And>b. parse b \<noteq> Panic"
  obtains r s' where "send_then_poll env frame parse s = (Ok r, s')" and "grown s s'"
    and "\<And>v. r = Some v \<Longrightarrow> \<exists>bytes. frame_seen s' bytes \<and> parse bytes = Ok (Some v)"
proof -
  let ?s1 = "s\<lparr>trace := trace s @ [Wr (tx_base s + 268) frame]\<rparr>"
  have inv1: "net_inv env ?s1" using assms(1) by simp
  obtain resp s2 where call: "call_driver env (DrSendFrame (of_nat (length frame))) ?s1 = (Ok (Some resp), s2)"
    and g2: "grown ?s1 s2"
    by (rule call_driver_ends [OF inv1])
  have g: "grown s s2" using grown_trans [OF _ g2] by simp
  have inv2: "net_inv env s2" using assms(1) grown_inv [OF g] by simp
  have eq: "send_then_poll env frame parse s =
      (if resp = DrFrameSent then poll_frames env parse MAX_POLL_ATTEMPTS s2 else (Ok None, s2))"
    by (simp add: send_then_poll_def stage_frame_Ok [OF assms(1)] call)
  obtain r s3 where poll: "poll_frames env parse MAX_POLL_ATTEMPTS s2 = (Ok r, s3)" "grown s2 s3"
    "\<forall>v. r = Some v \<longrightarrow> (\<exists>bytes. frame_seen s3 bytes \<and> parse bytes = Ok (Some v))"
    using poll_frames_ends [OF inv2, of parse MAX_POLL_ATTEMPTS] assms(2) by blast
  show thesis
  proof (cases "resp = DrFrameSent")
    case True
    then show thesis using eq poll grown_trans [OF g poll(2)] by (intro that [of r s3]) auto
  next
    case False
    then show thesis using eq g by (intro that [of None s2]) auto
  qed
qed

lemma expected_reply_total: "expected_reply b \<noteq> Panic"
  using parsers_total(2) [of b]
  by (cases "parse_echo_reply b") (auto simp: expected_reply_def Let_def split: option.split)

lemma take_prefix: "length p \<le> length xs \<and> take (length p) xs = p \<longleftrightarrow> take (length p) xs = p"
  by (metis length_take min.cobounded1)

lemma expected_reply_fields:
  "expected_reply b = Ok (Some ()) \<longleftrightarrow> (\<exists>rep. parse_echo_reply b = Ok (Some rep) \<and>
     reply_ident rep = ICMP_IDENT \<and> reply_seq rep = ICMP_SEQ \<and>
     take (length ICMP_PAYLOAD) (reply_payload rep) = ICMP_PAYLOAD)"
proof (cases "parse_echo_reply b")
  case (Ok opt)
  then show ?thesis by (cases opt) (simp_all add: expected_reply_def Let_def take_prefix)
qed (simp_all add: expected_reply_def)

text \<open>What the published verdict stands for.\<close>

definition verdict_justified :: "virtio_net \<Rightarrow> u8 \<Rightarrow> u8 list option \<Rightarrow> bool" where
  "verdict_justified s v gw \<longleftrightarrow> (case gw of
     None \<Rightarrow> v = 1
   | Some mac \<Rightarrow> (v = 2 \<or> v = 3) \<and>
       (\<exists>bytes. frame_seen s bytes \<and> parse_arp_reply bytes GATEWAY_IP = Ok (Some mac)) \<and>
       (v = 3 \<longrightarrow> (\<exists>bytes. frame_seen s bytes \<and> expected_reply bytes = Ok (Some ()))))"

lemma netstack_main_ends:
  assumes "net_inv env s"
  shows "\<exists>v gw s'. netstack_main env s = (Ok (v, gw), s') \<and> grown s s' \<and> verdict_justified s' v gw"
proof -
  have "unat MAC_OFFSET + 6 \<le> 4096" by (simp add: MAC_OFFSET_def)
  from read_bytes_Ok [OF net_windows(1) [OF assms] this, of env s] obtain mac s1 where
    mac: "read_driver_mac env s = (Ok mac, s1)" and g1: "grown s s1"
    by (auto simp: read_driver_mac_def)
  have inv1: "net_inv env s1" using assms grown_inv [OF g1] by simp
  obtain gw s2 where arp: "send_then_poll env (build_arp_request mac OUR_IP GATEWAY_IP)
      (\<lambda>frame. parse_arp_reply frame GATEWAY_IP) s1 = (Ok gw, s2)" and g2: "grown s1 s2"
    and gw: "\<And>v. gw = Some v \<Longrightarrow> \<exists>bytes. frame_seen s2 bytes \<and> parse_arp_reply bytes GATEWAY_IP = Ok (Some v)"
    by (rule send_then_poll_ends [OF inv1, of "\<lambda>frame. parse_arp_reply frame GATEWAY_IP"])
      (use parsers_total(3) in blast)+
  have g02: "grown s s2" by (rule grown_trans [OF g1 g2])
  have inv2: "net_inv env s2" using assms grown_inv [OF g02] by simp
  show ?thesis
  proof (cases gw)
    case None
    then show ?thesis using mac arp g02 by (simp add: netstack_main_def verdict_justified_def)
  next
    case (Some peer)
    have ips: "length OUR_IP = 4" "length GATEWAY_IP = 4" "length ICMP_PAYLOAD \<le> 65507"
      by (simp_all add: OUR_IP_def GATEWAY_IP_def ICMP_PAYLOAD_def)
    obtain echo where echo: "build_echo_request mac peer OUR_IP GATEWAY_IP ICMP_IDENT ICMP_SEQ ICMP_PAYLOAD = Ok echo"
      using build_request_Ok [OF ips] by blast
    obtain m s3 where ping: "send_then_poll env echo expected_reply s2 = (Ok m, s3)" and g3: "grown s2 s3"
      and m: "\<And>v. m = Some v \<Longrightarrow> \<exists>bytes. frame_seen s3 bytes \<and> expected_reply bytes = Ok (Some v)"
      by (rule send_then_poll_ends [OF inv2, of expected_reply]) (use expected_reply_total in blast)+
    have "\<exists>bytes. frame_seen s3 bytes \<and> parse_arp_reply bytes GATEWAY_IP = Ok (Some peer)"
      using gw [OF Some] frame_seen_grown [OF _ g3] by blast
    then have "verdict_justified s3 (if m \<noteq> None then 3 else 2) gw"
      using m Some by (auto simp: verdict_justified_def)
    moreover have "netstack_main env s = (Ok (if m \<noteq> None then 3 else 2, gw), s3)"
      using mac arp Some echo ping by (simp add: netstack_main_def)
    ultimately show ?thesis using grown_trans [OF g02 g3] by blast
  qed
qed

definition bypass_answers :: "net_bypass_request \<Rightarrow> net_bypass_response \<Rightarrow> bool" where
  "bypass_answers req resp \<longleftrightarrow> (case req of
     NbRequestDirectNic nic \<Rightarrow> resp = NbGranted 1 0 0 2
   | NbRelease h \<Rightarrow> resp = NbReleased
   | NbRelayFrame \<Rightarrow> resp = NbRelayed \<or> resp = NbDenied)"

lemma bypass_ends:
  assumes "net_inv env s"
  shows "\<exists>r s'. handle_bypass_request env s q = (Ok r, s') \<and> grown s s' \<and> bypass_answers q r"
proof (cases q)
  case NbRelayFrame
  let ?s1 = "s\<lparr>trace := trace s @ [Wr (tx_base s + 268) demo_frame]\<rparr>"
  have "net_inv env ?s1" using assms by simp
  then obtain r s2 where "call_driver env (DrSendFrame (of_nat (length demo_frame))) ?s1 = (Ok (Some r), s2)"
    and g: "grown ?s1 s2"
    by (rule call_driver_ends)
  then show ?thesis using NbRelayFrame stage_frame_Ok [OF assms, of demo_frame] grown_trans [OF _ g]
    by (simp add: handle_bypass_request_def bypass_answers_def)
qed (simp_all add: handle_bypass_request_def bypass_answers_def DRV_QUEUE_SIZE_def)

lemma bypass_handled:
  assumes "net_process env ready s"
  shows "\<exists>r s'. handle_bypass_request env s q = (Ok r, s') \<and> net_process env ready s'"
proof -
  have inv: "net_inv env s" using assms by (simp add: net_process_def)
  obtain r s' where r: "handle_bypass_request env s q = (Ok r, s')" and g: "grown s s'"
    using bypass_ends [OF inv] by blast
  have "net_process env ready s'"
    using assms grown_inv [OF g] g by (simp add: net_process_def grown_def)
  with r show ?thesis by blast
qed

interpretation bypass_server: server decode_net_bypass_request encode_net_bypass_response
  decode_net_bypass_response NbDenied "handle_bypass_request env" "net_process env ready" "\<lambda>s req. True"
  by unfold_locales
    ((rule net_bypass_request.dec_total net_bypass_response.enc_wf page_net_bypass_response; assumption)+,
     use bypass_handled in blast)

section \<open>Properties\<close>

text \<open>The network processes answer. Whatever the transport's description, the device and the pages: the
  driver comes up, ready or not, and any sequence of pages is answered in order with pages their clients
  decode, each the answer due to its request (a frame too long is refused, a sent frame is waited for at most
  eight interrupts), a page that holds no request with the refusal; and so does the stack on its own
  endpoint, where granting and releasing direct access always succeed.\<close>

theorem network_answers:
  assumes "net_new_driver env \<lparr>trace = []\<rparr> = (Ok drv, s)" and "transport_ok (v_transport drv)"
    and "phys_base env NET_RX_VA p" and "phys_base env NET_TX_VA q"
    and "list_all (\<lambda>pg. length (snd pg) = 6) pgs"
  shows "\<exists>d outs d' outs' d''. net_boot env = Ok d \<and>
    serve_all (net_serve env) pgs d = (Ok outs, d') \<and>
    list_all2 (\<lambda>pg out. \<exists>r. decode_driver_response (read_shared_message out) = Ok r \<and>
      (case decode_driver_request (read_shared_message pg) of
         Ok q \<Rightarrow> net_answers (v_ready d) q r | _ \<Rightarrow> r = DrFailed DrUnsupported)) pgs outs \<and>
    serve_all (bypass_serve env) pgs d = (Ok outs', d'') \<and>
    list_all2 (\<lambda>pg out. \<exists>r. decode_net_bypass_response (read_shared_message out) = Ok r \<and>
      (case decode_net_bypass_request (read_shared_message pg) of
         Ok q \<Rightarrow> bypass_answers q r | _ \<Rightarrow> r = NbDenied)) pgs outs'"
proof -
  obtain d where d: "net_boot env = Ok d" and inv: "net_inv env d"
    by (rule net_boot_inv [OF assms(1-4)])
  have proc: "net_process env (v_ready d) d" using inv by (simp add: net_process_def)
  have drv: "net_answers (v_ready d) q r"
    if "net_process env (v_ready d) x" "net_dispatch env q x = (Ok r, y)" for x q r y
  proof -
    have "net_inv env x" "v_ready x = v_ready d" using that(1) by (simp_all add: net_process_def)
    with net_dispatch_ends [OF this(1), of q] that(2) show ?thesis by auto
  qed
  have stack: "bypass_answers q r"
    if "net_process env (v_ready d) x" "handle_bypass_request env x q = (Ok r, y)" for x q r y
  proof -
    have "net_inv env x" using that(1) by (simp add: net_process_def)
    with bypass_ends [OF this, of q] that(2) show ?thesis by auto
  qed
  have "\<exists>outs d'. serve_all (net_serve env) pgs d = (Ok outs, d') \<and> net_process env (v_ready d) d' \<and>
    list_all2 (\<lambda>pg out. \<exists>r. decode_driver_response (read_shared_message out) = Ok r \<and>
      (case decode_driver_request (read_shared_message pg) of
         Ok q \<Rightarrow> net_answers (v_ready d) q r | _ \<Rightarrow> r = DrFailed DrUnsupported)) pgs outs"
    unfolding net_serve_def by (rule net_server.all_answered [OF proc assms(5)]) (rule TrueI, (rule drv; assumption))
  moreover have "\<exists>outs d'. serve_all (bypass_serve env) pgs d = (Ok outs, d') \<and> net_process env (v_ready d) d' \<and>
    list_all2 (\<lambda>pg out. \<exists>r. decode_net_bypass_response (read_shared_message out) = Ok r \<and>
      (case decode_net_bypass_request (read_shared_message pg) of
         Ok q \<Rightarrow> bypass_answers q r | _ \<Rightarrow> r = NbDenied)) pgs outs"
    unfolding bypass_serve_def by (rule bypass_server.all_answered [OF proc assms(5)]) (rule TrueI, (rule stack; assumption))
  ultimately show ?thesis using d by blast
qed

definition sample_nic :: env where
  "sample_nic tr a n = (if n = 8 then if a = NET_RX_VA then 0x80000000 else if a = NET_TX_VA then 0x80001000 else 0
     else 0)"

lemma sample_nic_ok:
  "\<exists>s. net_new_driver sample_nic \<lparr>trace = []\<rparr> = (Ok (net_new NET_MMIO_VA NET_RX_VA NET_TX_VA), s)"
  "transport_ok (v_transport (net_new NET_MMIO_VA NET_RX_VA NET_TX_VA))"
  "phys_base sample_nic NET_RX_VA 0x80000000" "phys_base sample_nic NET_TX_VA 0x80001000"
  by (simp_all add: net_new_driver_def net_info_word_def rd_def window_add window_def net_new_def
      transport_ok_def phys_base_def sample_nic_def NET_RX_VA_def NET_TX_VA_def NET_MMIO_VA_def
      NET_PCI_INFO_OFFSET_def)

theorem network_answers_witness:
  "\<exists>d outs d'. net_boot sample_nic = Ok d \<and>
     serve_all (net_serve sample_nic) [page_of (encode_driver_request DrPollFrame), (3, replicate 6 0)] d =
       (Ok outs, d') \<and> length outs = 2"
proof -
  let ?pgs = "[page_of (encode_driver_request DrPollFrame), (3, replicate 6 0)]"
  obtain s where s: "net_new_driver sample_nic \<lparr>trace = []\<rparr> =
      (Ok (net_new NET_MMIO_VA NET_RX_VA NET_TX_VA), s)" using sample_nic_ok(1) by blast
  have six: "list_all (\<lambda>pg. length (snd pg) = 6) ?pgs"
    by (simp add: write_page [THEN conjunct2] driver_request.enc_wf)
  from network_answers [OF s sample_nic_ok(2-4) six] show ?thesis
    by (metis (no_types, lifting) list_all2_lengthD length_Cons list.size(3) numeral_2_eq_2)
qed



lemma mem_bytes_take: "k \<le> n \<Longrightarrow> mem_bytes m a k = take k (mem_bytes m a n)"
  by (simp add: mem_bytes_def take_map)

text \<open>C30: a relayed frame reaches the device whole. When the stack relays its frame through a driver that
  is up, the index of the transmit queue is advanced and its doorbell rung on a chain of one buffer that
  the device may only read, of 12 zero bytes and the 64 bytes of the frame; the stack then answers that the
  frame was relayed or denied.\<close>

theorem relayed_frame:
  assumes "net_inv env s" and "v_ready s" and "phys_base env (tx_base s) p"
  shows "\<exists>r s' tr after. handle_bypass_request env s NbRelayFrame = (Ok r, s') \<and> (r = NbRelayed \<or> r = NbDenied) \<and>
    trace s' = trace s @ tr @ Wr (tx_base s + 50) (le_bytes 2 (tx_next_idx s + 1)) #
      doorbell (v_transport s) TX_QUEUE (tx_notify_off s) # after \<and>
    virtq_chain 2 (mem (trace s @ tr)) (tx_base s) 16 0 = Some [(p + 256, 76, False)] \<and>
    peek (mem (trace s @ tr)) (tx_base s + slot_off (tx_next_idx s)) 2 = Some (0 :: u16) \<and>
    mem_bytes (mem (trace s @ tr)) (tx_base s + 256) 12 = replicate 12 (Some 0) \<and>
    mem_bytes (mem (trace s @ tr)) (tx_base s + 268) 64 = map Some demo_frame"
proof -
  let ?st = "Wr (tx_base s + 268) demo_frame" and ?idx = "Wr (tx_base s + 50) (le_bytes 2 (tx_next_idx s + 1))"
    and ?bell = "doorbell (v_transport s) TX_QUEUE (tx_notify_off s)"
  let ?s1 = "s\<lparr>trace := trace s @ [?st]\<rparr>"
  have len: "length demo_frame = 64" by (simp add: demo_frame_def)
  obtain q where q: "phys_base env (rx_base ?s1) q" using assms(1) by (auto simp: net_inv_def)
  have p: "phys_base env (tx_base ?s1) p" and t: "transport_ok (v_transport ?s1)" and small: "(64 :: usize) \<le> FRAME_MAX"
    using assms(3) net_windows(3) [OF assms(1)] by (simp_all add: FRAME_MAX_def)
  obtain tx where sub: "submit_tx_request env 64 ?s1 =
        (Ok (), ?s1\<lparr>trace := trace ?s1 @ tx @ [?idx, ?bell], tx_next_idx := tx_next_idx s + 1\<rparr>)"
    and chain: "virtq_chain 2 (mem (trace ?s1 @ tx)) (tx_base s) 16 0 = Some [(p + 256, 76, False)]"
    and slot: "peek (mem (trace ?s1 @ tx)) (tx_base s + slot_off (tx_next_idx s)) 2 = Some (0 :: u16)"
    and hdr: "mem_bytes (mem (trace ?s1 @ tx)) (tx_base s + 256) 12 = replicate 12 (Some 0)"
    and body: "mem_bytes (mem (trace ?s1 @ tx)) (tx_base s + 268) 700 =
      mem_bytes (mem (trace ?s1)) (tx_base s + 268) 700"
    using frame_published [OF t p q small] by auto
  let ?s2 = "?s1\<lparr>trace := trace ?s1 @ tx @ [?idx, ?bell], tx_next_idx := tx_next_idx s + 1\<rparr>"
  have inv1: "net_inv env ?s1" and up: "v_ready ?s1" and fits: "ucast (64 :: u32) \<le> FRAME_MAX"
    and sub': "submit_tx_request env (ucast (64 :: u32)) ?s1 = (Ok (), ?s2)"
    using assms(1,2) small sub by simp_all
  have g: "grown ?s1 ?s2" by (simp add: grown_def)
  obtain resp s' where send: "handle_send_frame env 64 ?s1 = (Ok resp, s')" and g2: "grown ?s2 s'"
    using send_frame_after [OF inv1 up fits sub' g] by blast
  have call: "call_driver env (DrSendFrame (of_nat (length demo_frame))) ?s1 = (Ok (Some resp), s')"
    by (rule call_driver_Ok) (simp add: net_dispatch_def len send)
  obtain after where after: "trace s' = trace ?s2 @ after" using g2 by (auto simp: grown_def)
  have staged: "mem (trace ?s1) = store (mem (trace s)) (tx_base s + 268) demo_frame"
    by (simp add: mem_append store_def)
  have "mem_bytes (mem (trace ?s1)) (tx_base s + 268) 64 = map Some (take 64 (drop (unat (268 :: usize) - unat (268 :: usize)) demo_frame))"
    unfolding staged by (rule mem_bytes_inside) (simp_all add: len)
  then have frame: "mem_bytes (mem (trace ?s1 @ tx)) (tx_base s + 268) 64 = map Some demo_frame"
    using mem_bytes_take [of 64 700] body len by (simp del: mem_bytes_take)
  show ?thesis
    using chain slot hdr frame stage_frame_Ok [OF assms(1), of demo_frame] call after
    by (intro exI [of _ "if resp = DrFrameSent then NbRelayed else NbDenied"] exI [of _ s']
        exI [of _ "?st # tx"] exI [of _ after]) (simp add: handle_bypass_request_def)
qed

theorem relayed_frame_witness:
  "\<exists>r s' tr. handle_bypass_request sample_nic ((net_new NET_MMIO_VA NET_RX_VA NET_TX_VA)\<lparr>v_ready := True\<rparr>)
      NbRelayFrame = (Ok r, s') \<and>
    mem_bytes (mem tr) (NET_TX_VA + 268) 64 = map Some demo_frame"
proof -
  let ?s = "(net_new NET_MMIO_VA NET_RX_VA NET_TX_VA)\<lparr>v_ready := True\<rparr>"
  have "net_inv sample_nic ?s" "v_ready ?s" "phys_base sample_nic (tx_base ?s) 0x80001000"
    using sample_nic_ok(2-4) by (auto simp: net_inv_def net_new_def)
  from relayed_frame [OF this] show ?thesis by (simp add: net_new_def) blast
qed

end
