(* ===== verification/PageTables.thy ===== *)
theory PageTables
  imports Kernel
begin

text \<open>
  Radix page tables in physical memory, shared by the three architecture layers
  (\<open>hal/hal-riscv64\<close>, \<open>hal/hal-x86_64\<close>, \<open>hal/hal-arm64\<close>). Every one of them
  walks a tree of 4 KiB tables of 512 entries, takes a missing table from a pre-zeroed pool and
  writes a leaf at the bottom; they differ in the layout of an entry. An entry layout is a
  \<open>pt_format\<close>; the walk is written once over it and the locale \<open>page_format\<close> states what the
  walk needs of a layout.

  Memory is a function from physical addresses to the 64-bit word stored there; the code reads
  and writes whole entries only, at addresses that are multiples of eight. \<open>leaf_at\<close> is the
  specification: the translation the MMU finds for a list of table indices, top level first,
  with the level of the entry (zero for a 4 KiB page).
\<close>

section \<open>The walk of the code\<close>

type_synonym phys_mem = "u64 \<Rightarrow> u64"

record pt_format =
  pte_valid :: "u64 \<Rightarrow> bool"
  pte_block :: "u64 \<Rightarrow> bool"
  pte_table :: "u64 \<Rightarrow> u64"
  pte_link :: "u64 \<Rightarrow> u64"

record pt_state =
  pt_used :: u64
  pt_mem :: phys_mem

text \<open>\<open>(table as *mut u64).add(i)\<close>.\<close>

definition slot :: "u64 \<Rightarrow> u64 \<Rightarrow> u64" where
  "slot t i = t + 8 * i"

text \<open>\<open>pool_base + used * 4096\<close>.\<close>

definition pool_frame :: "u64 \<Rightarrow> u64 \<Rightarrow> ('e, u64) res" where
  "pool_frame base used = bind_res (mul_or_panic used 4096) (\<lambda>off. add_or_panic base off)"

text \<open>One level of the descent: follow the entry at \<open>addr\<close>, or link the next frame of the pool
  there.\<close>

definition next_table ::
  "pt_format \<Rightarrow> u64 \<Rightarrow> u64 \<Rightarrow> u64 \<Rightarrow> pt_state \<Rightarrow> (unit, u64) res \<times> pt_state" where
  "next_table F base len addr s =
     (let e = pt_mem s addr in
      if \<not> pte_valid F e then
        if len \<le> pt_used s then (Err (), s)
        else try_in s (pool_frame base (pt_used s)) (\<lambda>t.
          (Ok t, s\<lparr>pt_used := pt_used s + 1, pt_mem := (pt_mem s)(addr := pte_link F t)\<rparr>))
      else if pte_block F e then (Err (), s)
      else (Ok (pte_table F e), s))"

fun descend ::
  "pt_format \<Rightarrow> u64 \<Rightarrow> u64 \<Rightarrow> u64 list \<Rightarrow> u64 \<Rightarrow> pt_state \<Rightarrow> (unit, u64) res \<times> pt_state" where
  "descend F base len [] t s = (Ok t, s)"
| "descend F base len (i # is) t s =
     then_do (next_table F base len (slot t i) s) (\<lambda>t s. descend F base len is t s)"

definition write_entry :: "u64 \<Rightarrow> u64 \<Rightarrow> pt_state \<Rightarrow> pt_state" where
  "write_entry addr v s = s\<lparr>pt_mem := (pt_mem s)(addr := v)\<rparr>"

section \<open>The translation the hardware finds\<close>

fun frame_at :: "pt_format \<Rightarrow> phys_mem \<Rightarrow> u64 \<Rightarrow> u64 list \<Rightarrow> u64 option" where
  "frame_at F m t [] = Some t"
| "frame_at F m t (i # is) =
     (let e = m (slot t i) in
      if pte_valid F e \<and> \<not> pte_block F e then frame_at F m (pte_table F e) is else None)"

fun leaf_at :: "pt_format \<Rightarrow> phys_mem \<Rightarrow> u64 \<Rightarrow> u64 list \<Rightarrow> (nat \<times> u64) option" where
  "leaf_at F m t [] = None"
| "leaf_at F m t [i] = (let e = m (slot t i) in if pte_valid F e then Some (0, e) else None)"
| "leaf_at F m t (i # j # is) =
     (let e = m (slot t i) in
      if \<not> pte_valid F e then None
      else if pte_block F e then Some (Suc (length is), e)
      else leaf_at F m (pte_table F e) (j # is))"

definition is_path :: "nat \<Rightarrow> u64 list \<Rightarrow> bool" where
  "is_path d p \<longleftrightarrow> length p \<le> d \<and> (\<forall>i \<in> set p. i < 512)"

definition full_path :: "nat \<Rightarrow> u64 list \<Rightarrow> bool" where
  "full_path d p \<longleftrightarrow> length p = Suc d \<and> (\<forall>i \<in> set p. i < 512)"

definition frame_ok :: "nat \<Rightarrow> u64 \<Rightarrow> bool" where
  "frame_ok b f \<longleftrightarrow> 4096 dvd unat f \<and> unat f < 2 ^ b"

text \<open>No two paths of the tree reach the same table, and every table is a page below
  \<open>2 ^ b\<close>, the physical addresses an entry can hold.\<close>

definition table_tree :: "pt_format \<Rightarrow> nat \<Rightarrow> nat \<Rightarrow> phys_mem \<Rightarrow> u64 \<Rightarrow> bool" where
  "table_tree F b d m root \<longleftrightarrow>
     (\<forall>p f. is_path d p \<and> frame_at F m root p = Some f \<longrightarrow> frame_ok b f) \<and>
     (\<forall>p q f. is_path d p \<and> is_path d q \<and> frame_at F m root p = Some f \<and>
        frame_at F m root q = Some f \<longrightarrow> p = q)"

text \<open>The frames of the pool that are still free are zero and outside the tree.\<close>

definition pool_ready ::
  "pt_format \<Rightarrow> nat \<Rightarrow> nat \<Rightarrow> u64 \<Rightarrow> u64 \<Rightarrow> u64 \<Rightarrow> pt_state \<Rightarrow> bool" where
  "pool_ready F b d root base len s \<longleftrightarrow>
     4096 dvd unat base \<and> unat base + 4096 * unat len \<le> 2 ^ b \<and> pt_used s \<le> len \<and>
     (\<forall>k. unat (pt_used s) \<le> k \<and> k < unat len \<longrightarrow>
        (\<forall>i < 512. pt_mem s (slot (base + of_nat k * 4096) i) = 0) \<and>
        (\<forall>p. is_path d p \<longrightarrow>
           frame_at F (pt_mem s) root p \<noteq> Some (base + of_nat k * 4096)))"

definition pt_inv ::
  "pt_format \<Rightarrow> nat \<Rightarrow> nat \<Rightarrow> u64 \<Rightarrow> u64 \<Rightarrow> u64 \<Rightarrow> pt_state \<Rightarrow> bool" where
  "pt_inv F b d root base len s \<longleftrightarrow>
     table_tree F b d (pt_mem s) root \<and> pool_ready F b d root base len s"

text \<open>The two memories translate every address alike.\<close>

definition same_view :: "pt_format \<Rightarrow> nat \<Rightarrow> u64 \<Rightarrow> phys_mem \<Rightarrow> phys_mem \<Rightarrow> bool" where
  "same_view F d root m m' \<longleftrightarrow> (\<forall>q. full_path d q \<longrightarrow> leaf_at F m' root q = leaf_at F m root q)"

section \<open>Addresses\<close>

lemma unat_slot:
  assumes "4096 dvd unat t" and "i < 512"
  shows "unat (slot t i) = unat t + 8 * unat i"
proof -
  have i: "unat i < 512" using assms(2) by (simp add: word_less_nat_alt)
  obtain k where k: "unat t = 4096 * k" using assms(1) by (auto elim: dvdE)
  then have "4096 * k < 2 ^ 64" using unat_bound [of t] by simp
  then have lt: "unat t + 8 * unat i < 2 ^ 64" using k i by (simp; linarith)
  have "unat (8 * i) = 8 * unat i" using i by (simp add: unat_word_ariths)
  then show ?thesis using lt by (simp add: slot_def unat_word_ariths)
qed

lemma slot_inject:
  assumes "4096 dvd unat t" and "4096 dvd unat u" and "i < 512" and "j < 512"
    and "slot t i = slot u j"
  shows "t = u" and "i = j"
proof -
  have i: "unat i < 512" and j: "unat j < 512" using assms(3,4) by (simp_all add: word_less_nat_alt)
  have eq: "unat t + 8 * unat i = unat u + 8 * unat j"
    using unat_slot [OF assms(1,3)] unat_slot [OF assms(2,4)] assms(5) by simp
  obtain k l where k: "unat t = 4096 * k" and l: "unat u = 4096 * l"
    using assms(1,2) by (auto elim!: dvdE)
  have "k = l" using eq i j unfolding k l by linarith
  then show "t = u" using k l by (simp add: word_unat_eq_iff)
  then show "i = j" using eq by (simp add: word_unat_eq_iff)
qed

lemma unat_pool_frame:
  fixes base len :: u64
  assumes "unat base + 4096 * unat len \<le> 2 ^ b" and "b \<le> 64" and "k < unat len"
  shows "unat (base + of_nat k * 4096) = unat base + 4096 * k"
proof -
  have "(2 :: nat) ^ b \<le> 2 ^ 64" using assms(2) by (rule power_increasing) simp
  then have lt: "unat base + 4096 * k < 2 ^ 64" using assms(1,3) by linarith
  then have "unat (of_nat k * 4096 :: u64) = 4096 * k"
    by (simp add: unat_word_ariths unat_of_nat mult.commute)
  then show ?thesis using lt by (simp add: unat_word_ariths)
qed

lemma pool_frame_Ok:
  assumes "unat base + 4096 * unat len \<le> 2 ^ b" and "b \<le> 64" and "used < len"
  shows "pool_frame base used = Ok (base + of_nat (unat used) * 4096)"
proof -
  have k: "unat used < unat len" using assms(3) by (simp add: word_less_nat_alt)
  have "(2 :: nat) ^ b \<le> 2 ^ 64" using assms(2) by (rule power_increasing) simp
  then have lt: "unat base + 4096 * unat used < 2 ^ 64" using assms(1) k by linarith
  then have m: "unat used * unat (4096 :: u64) < 2 ^ LENGTH(64)" by simp
  moreover from this have "unat (used * 4096) = 4096 * unat used"
    using unat_mult_exact [of used "4096 :: u64"] by simp
  then have "unat base + unat (used * 4096) < 2 ^ LENGTH(64)" using lt by simp
  ultimately show ?thesis
    by (simp add: pool_frame_def bind_res_Ok_iff mul_or_panic_Ok add_or_panic_Ok)
qed

section \<open>The entries a walk reads\<close>

fun walk_reads :: "pt_format \<Rightarrow> phys_mem \<Rightarrow> u64 \<Rightarrow> u64 list \<Rightarrow> u64 set" where
  "walk_reads F m t [] = {}"
| "walk_reads F m t (i # is) = insert (slot t i)
     (let e = m (slot t i) in
      if pte_valid F e \<and> \<not> pte_block F e then walk_reads F m (pte_table F e) is else {})"

lemma walk_cong:
  assumes "\<And>a. a \<in> walk_reads F m t q \<Longrightarrow> m' a = m a"
  shows "frame_at F m' t q = frame_at F m t q" and "leaf_at F m' t q = leaf_at F m t q"
proof -
  have "frame_at F m' t q = frame_at F m t q \<and> leaf_at F m' t q = leaf_at F m t q"
    using assms
  proof (induction q arbitrary: t)
    case (Cons i q)
    have s: "m' (slot t i) = m (slot t i)" using Cons.prems by simp
    show ?case
    proof (cases "pte_valid F (m (slot t i)) \<and> \<not> pte_block F (m (slot t i))")
      case True
      then have "frame_at F m' (pte_table F (m (slot t i))) q =
          frame_at F m (pte_table F (m (slot t i))) q \<and>
        leaf_at F m' (pte_table F (m (slot t i))) q = leaf_at F m (pte_table F (m (slot t i))) q"
        using Cons.prems by (intro Cons.IH) simp
      with True s show ?thesis by (cases q) simp_all
    next
      case False
      with s show ?thesis by (cases q) (auto simp: Let_def)
    qed
  qed simp
  then show "frame_at F m' t q = frame_at F m t q" and "leaf_at F m' t q = leaf_at F m t q"
    by simp_all
qed

lemma walk_reads_at:
  assumes "a \<in> walk_reads F m t q"
  obtains k f where "k < length q" and "frame_at F m t (take k q) = Some f" and "a = slot f (q ! k)"
proof -
  have "\<exists>k f. k < length q \<and> frame_at F m t (take k q) = Some f \<and> a = slot f (q ! k)"
    using assms
  proof (induction q arbitrary: t)
    case (Cons i q)
    show ?case
    proof (cases "a = slot t i")
      case True
      then show ?thesis by (intro exI [of _ 0] exI [of _ t]) simp
    next
      case False
      with Cons.prems have v: "pte_valid F (m (slot t i)) \<and> \<not> pte_block F (m (slot t i))"
        and "a \<in> walk_reads F m (pte_table F (m (slot t i))) q"
        by (auto simp: Let_def split: if_splits)
      from Cons.IH [OF this(2)] obtain k f where "k < length q"
        "frame_at F m (pte_table F (m (slot t i))) (take k q) = Some f" "a = slot f (q ! k)"
        by blast
      with v show ?thesis by (intro exI [of _ "Suc k"] exI [of _ f]) simp
    qed
  qed simp
  then show ?thesis using that by blast
qed

lemma frame_at_append:
  "frame_at F m t (p @ q) = (case frame_at F m t p of None \<Rightarrow> None | Some f \<Rightarrow> frame_at F m f q)"
  by (induction p arbitrary: t) (simp_all add: Let_def)

lemma leaf_at_append:
  assumes "q \<noteq> []"
  shows "frame_at F m t p = Some f \<Longrightarrow> leaf_at F m t (p @ q) = leaf_at F m f q"
proof (induction p arbitrary: t)
  case (Cons i p)
  obtain j r where "p @ q = j # r" using assms by (cases "p @ q") auto
  with Cons show ?case by (auto simp: Let_def split: if_splits)
qed simp

lemma table_treeD:
  assumes "table_tree F b d m root"
  shows "is_path d p \<Longrightarrow> frame_at F m root p = Some f \<Longrightarrow> frame_ok b f"
    and "is_path d p \<Longrightarrow> is_path d q \<Longrightarrow> frame_at F m root p = Some f \<Longrightarrow>
      frame_at F m root q = Some f \<Longrightarrow> p = q"
  using assms unfolding table_tree_def by blast+

text \<open>A walk that reads an entry of the table at \<open>p\<close> goes through \<open>p\<close>.\<close>

lemma reads_through:
  assumes tree: "table_tree F b d m root" and p: "is_path d p" "frame_at F m root p = Some t"
    and i: "i < 512" and q: "length q \<le> Suc d" "\<forall>j \<in> set q. j < 512"
    and a: "slot t i \<in> walk_reads F m root q"
  shows "\<exists>r. q = (p @ [i]) @ r"
proof -
  obtain k f where k: "k < length q" "frame_at F m root (take k q) = Some f"
    and s: "slot t i = slot f (q ! k)"
    using a by (rule walk_reads_at)
  have path: "is_path d (take k q)" using q k(1) by (auto simp: is_path_def dest: in_set_takeD)
  have f: "4096 dvd unat f" and t: "4096 dvd unat t"
    using table_treeD(1) [OF tree path k(2)] table_treeD(1) [OF tree p] by (simp_all add: frame_ok_def)
  have "q ! k < 512" using q(2) k(1) by simp
  note same = slot_inject [OF t f i this s]
  have "p = take k q" using table_treeD(2) [OF tree p(1) path p(2)] k(2) same(1) by simp
  then have "q = (p @ [i]) @ drop (Suc k) q" using k(1) same(2) by (simp add: id_take_nth_drop)
  then show ?thesis by blast
qed

lemma is_path_append: "is_path d (p @ q) \<longleftrightarrow> length p + length q \<le> d \<and> (\<forall>i \<in> set p \<union> set q. i < 512)"
  by (auto simp: is_path_def)

lemma is_path_full: "full_path d q \<Longrightarrow> length q \<le> Suc d \<and> (\<forall>j \<in> set q. j < 512)"
  by (simp add: full_path_def)

lemma is_path_short: "is_path d q \<Longrightarrow> length q \<le> Suc d \<and> (\<forall>j \<in> set q. j < 512)"
  by (simp add: is_path_def)

section \<open>Writes that leave the other translations alone\<close>

lemma untouched:
  assumes tree: "table_tree F b d m root" and p: "is_path d p" "frame_at F m root p = Some t"
    and i: "i < 512" and q: "length q \<le> Suc d" "\<forall>j \<in> set q. j < 512"
    and away: "\<And>r. q \<noteq> (p @ [i]) @ r"
  shows "frame_at F (m(slot t i := v)) root q = frame_at F m root q"
    and "leaf_at F (m(slot t i := v)) root q = leaf_at F m root q"
proof -
  have "(m(slot t i := v)) a = m a" if "a \<in> walk_reads F m root q" for a
    using reads_through [OF tree p i q] away that by (cases "a = slot t i") auto
  then show "frame_at F (m(slot t i := v)) root q = frame_at F m root q"
    and "leaf_at F (m(slot t i := v)) root q = leaf_at F m root q"
    by (rule walk_cong; simp)+
qed

lemma write_leaf:
  assumes tree: "table_tree F b d m root" and p: "is_path d p" "frame_at F m root p = Some t"
    and len: "length p = d" and i: "i < 512"
  shows "is_path d q \<Longrightarrow> frame_at F (m(slot t i := v)) root q = frame_at F m root q"
    and "full_path d q \<Longrightarrow> leaf_at F (m(slot t i := v)) root q =
      (if q = p @ [i] then (if pte_valid F v then Some (0, v) else None) else leaf_at F m root q)"
    and "table_tree F b d (m(slot t i := v)) root"
proof -
  let ?m = "m(slot t i := v)"
  have frames: "frame_at F ?m root q = frame_at F m root q" if q: "is_path d q" for q
  proof -
    have "q \<noteq> (p @ [i]) @ r" for r using q len by (auto simp: is_path_def)
    then show ?thesis using untouched(1) [OF tree p i] is_path_short [OF q] by blast
  qed
  then show "frame_at F ?m root q = frame_at F m root q" if "is_path d q" using that by blast
  show "table_tree F b d ?m root"
    using tree frames unfolding table_tree_def by (metis (no_types, lifting))
  show "leaf_at F ?m root q =
      (if q = p @ [i] then (if pte_valid F v then Some (0, v) else None) else leaf_at F m root q)"
    if "full_path d q"
  proof (cases "q = p @ [i]")
    case True
    have "frame_at F ?m root p = Some t" using frames p by simp
    then show ?thesis using True leaf_at_append [of "[i]" F ?m root p t] by simp
  next
    case False
    have "q \<noteq> (p @ [i]) @ r" for r using False that len by (cases r) (auto simp: full_path_def)
    then show ?thesis
      using False untouched(2) [OF tree p i] is_path_full [OF that] by metis
  qed
qed

text \<open>What an allocation may change: more frames are drawn, tables stay where they are, and no
  translation moves.\<close>

definition grows :: "pt_format \<Rightarrow> nat \<Rightarrow> u64 \<Rightarrow> pt_state \<Rightarrow> pt_state \<Rightarrow> bool" where
  "grows F d root s s' \<longleftrightarrow>
     same_view F d root (pt_mem s) (pt_mem s') \<and> pt_used s \<le> pt_used s' \<and>
     (\<forall>q f. is_path d q \<and> frame_at F (pt_mem s) root q = Some f \<longrightarrow>
        frame_at F (pt_mem s') root q = Some f)"

lemma grows_refl [simp]: "grows F d root s s"
  by (simp add: grows_def same_view_def)

lemma grows_trans: "grows F d root s s' \<Longrightarrow> grows F d root s' s'' \<Longrightarrow> grows F d root s s''"
  unfolding grows_def same_view_def by (metis order_trans)

lemma growsD:
  assumes "grows F d root s s'"
  shows "full_path d q \<Longrightarrow> leaf_at F (pt_mem s') root q = leaf_at F (pt_mem s) root q"
    and "is_path d q \<Longrightarrow> frame_at F (pt_mem s) root q = Some f \<Longrightarrow>
      frame_at F (pt_mem s') root q = Some f"
    and "pt_used s \<le> pt_used s'"
  using assms unfolding grows_def same_view_def by blast+

text \<open>The frames a walk below \<open>root\<close> may touch: its tables and what is left of the pool; and
  the writes of a step that keeps to them.\<close>

definition tree_frames :: "pt_format \<Rightarrow> nat \<Rightarrow> u64 \<Rightarrow> phys_mem \<Rightarrow> u64 set" where
  "tree_frames F d root m = {f. \<exists>q. is_path d q \<and> frame_at F m root q = Some f}"

definition free_frames :: "u64 \<Rightarrow> u64 \<Rightarrow> pt_state \<Rightarrow> u64 set" where
  "free_frames base len s =
     {base + of_nat k * 4096 | k. unat (pt_used s) \<le> k \<and> k < unat len}"

abbreviation owned :: "pt_format \<Rightarrow> nat \<Rightarrow> u64 \<Rightarrow> u64 \<Rightarrow> u64 \<Rightarrow> pt_state \<Rightarrow> u64 set" where
  "owned F d root base len s \<equiv> tree_frames F d root (pt_mem s) \<union> free_frames base len s"

definition within :: "pt_format \<Rightarrow> nat \<Rightarrow> u64 \<Rightarrow> u64 \<Rightarrow> u64 \<Rightarrow> pt_state \<Rightarrow> pt_state \<Rightarrow> bool" where
  "within F d root base len s s' \<longleftrightarrow>
     owned F d root base len s' \<subseteq> owned F d root base len s \<and> pt_used s \<le> pt_used s' \<and>
     (\<forall>a. pt_mem s' a \<noteq> pt_mem s a \<longrightarrow>
        (\<exists>f \<in> owned F d root base len s. \<exists>i < 512. a = slot f i))"

lemma within_refl [simp]: "within F d root base len s s"
  by (simp add: within_def)

lemma within_trans:
  assumes "within F d root base len s s'" and "within F d root base len s' s''"
  shows "within F d root base len s s''"
  unfolding within_def
proof (intro conjI allI impI)
  show "owned F d root base len s'' \<subseteq> owned F d root base len s" and "pt_used s \<le> pt_used s''"
    using assms unfolding within_def by (blast, meson order_trans)
  fix a assume "pt_mem s'' a \<noteq> pt_mem s a"
  then have "pt_mem s'' a \<noteq> pt_mem s' a \<or> pt_mem s' a \<noteq> pt_mem s a" by auto
  then show "\<exists>f \<in> owned F d root base len s. \<exists>i < 512. a = slot f i"
    using assms unfolding within_def by blast
qed

lemma owned_aligned:
  assumes "pt_inv F b d root base len s" and "b \<le> 64" and "f \<in> owned F d root base len s"
  shows "4096 dvd unat f"
proof -
  have tree: "table_tree F b d (pt_mem s) root" and pool: "pool_ready F b d root base len s"
    using assms(1) by (simp_all add: pt_inv_def)
  from assms(3) consider q where "is_path d q" "frame_at F (pt_mem s) root q = Some f"
    | k where "k < unat len" "f = base + of_nat k * 4096"
    by (auto simp: tree_frames_def free_frames_def)
  then show ?thesis
  proof cases
    case 1
    then show ?thesis using table_treeD(1) [OF tree] by (simp add: frame_ok_def)
  next
    case 2
    then show ?thesis using pool unat_pool_frame [of base len b k] assms(2)
      by (simp add: pool_ready_def)
  qed
qed

text \<open>A tree that shares no table with the frames a step may touch keeps every table, every
  translation, and the same invariant over what is left of the pool.\<close>

lemma other_tree:
  assumes one: "pt_inv F b d root base len s" "b \<le> 64" "within F d root base len s s'"
      "pt_inv F b d root base len s'"
    and two: "pt_inv F b d other base len s"
    and apart: "tree_frames F d root (pt_mem s) \<inter> tree_frames F d other (pt_mem s) = {}"
  shows "same_view F d other (pt_mem s) (pt_mem s')" and "pt_inv F b d other base len s'"
    and "tree_frames F d other (pt_mem s') = tree_frames F d other (pt_mem s)"
proof -
  have tree: "table_tree F b d (pt_mem s) other" and pool: "pool_ready F b d other base len s"
    using two by (simp_all add: pt_inv_def)
  have disj: "f \<notin> owned F d root base len s" if "f \<in> tree_frames F d other (pt_mem s)" for f
    using apart that pool by (auto simp: tree_frames_def free_frames_def pool_ready_def)
  have reads: "pt_mem s' a = pt_mem s a"
    if q: "length q \<le> Suc d" "\<forall>j \<in> set q. j < 512" and a: "a \<in> walk_reads F (pt_mem s) other q" for a q
  proof (rule ccontr)
    assume "pt_mem s' a \<noteq> pt_mem s a"
    then obtain f i where f: "f \<in> owned F d root base len s" "i < 512" "a = slot f i"
      using one(3) unfolding within_def by blast
    obtain k g where g: "k < length q" "frame_at F (pt_mem s) other (take k q) = Some g"
        "a = slot g (q ! k)" using a by (rule walk_reads_at)
    have path: "is_path d (take k q)" using q g(1) by (auto simp: is_path_def dest: in_set_takeD)
    have "g \<in> tree_frames F d other (pt_mem s)" using path g(2) by (auto simp: tree_frames_def)
    moreover have "4096 dvd unat g" using table_treeD(1) [OF tree path g(2)] by (simp add: frame_ok_def)
    moreover have "q ! k < 512" using q(2) g(1) by simp
    ultimately have "f = g"
      using slot_inject(1) [OF owned_aligned [OF one(1,2) f(1)] _ f(2), of g "q ! k"] f(3) g(3) by simp
    then show False using disj \<open>g \<in> tree_frames F d other (pt_mem s)\<close> f(1) by blast
  qed
  show "same_view F d other (pt_mem s) (pt_mem s')"
    unfolding same_view_def using walk_cong(2) reads is_path_full by metis
  have frames: "frame_at F (pt_mem s') other q = frame_at F (pt_mem s) other q" if "is_path d q" for q
    using walk_cong(1) reads is_path_short [OF that] by metis
  then show "tree_frames F d other (pt_mem s') = tree_frames F d other (pt_mem s)"
    by (auto simp: tree_frames_def)
  have "table_tree F b d (pt_mem s') other"
    using tree frames unfolding table_tree_def by (metis (no_types, lifting))
  moreover have "pool_ready F b d other base len s'"
    using one(3,4) pool frames
    by (auto simp: pool_ready_def pt_inv_def within_def word_le_nat_alt)
  ultimately show "pt_inv F b d other base len s'" by (simp add: pt_inv_def)
qed

text \<open>A block entry on the way to a page.\<close>

definition blocked :: "pt_format \<Rightarrow> phys_mem \<Rightarrow> u64 \<Rightarrow> u64 list \<Rightarrow> bool" where
  "blocked F m root q \<longleftrightarrow> (\<exists>k e. leaf_at F m root q = Some (Suc k, e))"

section \<open>What the walk needs of an entry layout\<close>

locale page_format =
  fixes F :: pt_format and b :: nat
  assumes width: "b \<le> 64"
    and zero_invalid: "\<not> pte_valid F 0"
    and link_valid: "frame_ok b t \<Longrightarrow> pte_valid F (pte_link F t)"
    and link_open: "frame_ok b t \<Longrightarrow> \<not> pte_block F (pte_link F t)"
    and link_table: "frame_ok b t \<Longrightarrow> pte_table F (pte_link F t) = t"
begin

text \<open>Linking a zero frame that is outside the tree adds one table and no translation.\<close>

lemma link_frame:
  assumes tree: "table_tree F b d m root" and p: "is_path d p" "frame_at F m root p = Some t"
    and len: "length p < d" and i: "i < 512" and hole: "\<not> pte_valid F (m (slot t i))"
    and n: "frame_ok b n" "\<And>j. j < 512 \<Longrightarrow> m (slot n j) = 0"
    and fresh: "\<And>q. is_path d q \<Longrightarrow> frame_at F m root q \<noteq> Some n"
  shows "is_path d q \<Longrightarrow> frame_at F (m(slot t i := pte_link F n)) root q =
      (if q = p @ [i] then Some n else frame_at F m root q)"
    and "same_view F d root m (m(slot t i := pte_link F n))"
    and "table_tree F b d (m(slot t i := pte_link F n)) root"
proof -
  let ?m = "m(slot t i := pte_link F n)"
  have t4: "4096 dvd unat t" and n4: "4096 dvd unat n"
    using table_treeD(1) [OF tree p] n(1) by (simp_all add: frame_ok_def)
  have tn: "t \<noteq> n" using fresh [OF p(1)] p(2) by simp
  have pi: "is_path d (p @ [i])" using p(1) len i by (simp add: is_path_def)
  have pm: "frame_at F ?m root p = Some t"
    using untouched(1) [OF tree p i, of p] is_path_short [OF p(1)] p(2) by simp
  have new: "frame_at F ?m root (p @ [i]) = Some n"
    using pm link_valid [OF n(1)] link_open [OF n(1)] link_table [OF n(1)]
    by (simp add: frame_at_append)
  have old: "frame_at F m root ((p @ [i]) @ r) = None" for r
    using p(2) hole by (simp add: frame_at_append)
  have zero: "?m (slot n j) = 0" if "j < 512" for j
    using n(2) [OF that] slot_inject(1) [OF t4 n4 i that] tn by auto
  have below: "frame_at F ?m n (j # r) = None" "leaf_at F ?m n (j # r) = None" if "j < 512" for j r
    using zero [OF that] zero_invalid by (cases r; simp)+
  have frames: "frame_at F ?m root q = (if q = p @ [i] then Some n else frame_at F m root q)"
    if q: "is_path d q" for q
  proof (cases "\<exists>r. q = (p @ [i]) @ r")
    case True
    then obtain r where r: "q = (p @ [i]) @ r" by blast
    show ?thesis
    proof (cases r)
      case Nil
      then show ?thesis using r new by simp
    next
      case (Cons j s)
      have "j < 512" using q unfolding r Cons by (simp add: is_path_def)
      then have "frame_at F ?m root q = None" unfolding r Cons
        using frame_at_append [of F ?m root "p @ [i]" "j # s"] new below(1) by simp
      moreover have "frame_at F m root q = None" unfolding r by (rule old)
      ultimately show ?thesis using r Cons by simp
    qed
  next
    case False
    then have "\<And>r. q \<noteq> (p @ [i]) @ r" by blast
    moreover from this [of "[]"] have "q \<noteq> p @ [i]" by simp
    ultimately show ?thesis
      using untouched(1) [OF tree p i] is_path_short [OF q] by simp
  qed
  then show "frame_at F ?m root q = (if q = p @ [i] then Some n else frame_at F m root q)"
    if "is_path d q" using that by blast
  show "table_tree F b d ?m root"
    unfolding table_tree_def
  proof (intro conjI allI impI)
    fix q f assume "is_path d q \<and> frame_at F ?m root q = Some f"
    then show "frame_ok b f"
      using frames [of q] table_treeD(1) [OF tree, of q f] n(1) by (auto split: if_splits)
  next
    fix q r f
    assume "is_path d q \<and> is_path d r \<and> frame_at F ?m root q = Some f \<and> frame_at F ?m root r = Some f"
    then show "q = r"
      using frames [of q] frames [of r] fresh [of q] fresh [of r] table_treeD(2) [OF tree, of q r f]
      by (auto split: if_splits)
  qed
  show "same_view F d root m ?m"
    unfolding same_view_def
  proof (intro allI impI)
    fix q assume q: "full_path d q"
    show "leaf_at F ?m root q = leaf_at F m root q"
    proof (cases "\<exists>r. q = (p @ [i]) @ r")
      case True
      then obtain r where r: "q = (p @ [i]) @ r" by blast
      then obtain j s where js: "r = j # s" using q len by (cases r) (auto simp: full_path_def)
      have "j < 512" using q unfolding r js by (simp add: full_path_def)
      then have "leaf_at F ?m root q = None"
        unfolding r js using leaf_at_append [OF _ new, of "j # s"] below(2) by simp
      moreover have "leaf_at F m root q = None"
        using leaf_at_append [OF _ p(2), of "i # j # s"] hole unfolding r js by simp
      ultimately show ?thesis by simp
    next
      case False
      then show ?thesis using untouched(2) [OF tree p i] is_path_full [OF q] by blast
    qed
  qed
qed

text \<open>One level of the descent.\<close>

lemma next_table_step:
  assumes inv: "pt_inv F b d root base len s" and p: "is_path d p" "frame_at F (pt_mem s) root p = Some t"
    and l: "length p < d" and i: "i < 512"
    and eq: "next_table F base len (slot t i) s = (r, s')"
  shows "r \<noteq> Panic" and "pt_inv F b d root base len s'" and "grows F d root s s'"
    and "unat (pt_used s') \<le> Suc (unat (pt_used s))"
    and "r = Ok u \<Longrightarrow> frame_at F (pt_mem s') root (p @ [i]) = Some u"
    and "r = Err () \<Longrightarrow> s' = s \<and> (pt_used s = len \<or>
      pte_valid F (pt_mem s (slot t i)) \<and> pte_block F (pt_mem s (slot t i)))"
    and "within F d root base len s s'"
proof -
  let ?m = "pt_mem s" and ?e = "pt_mem s (slot t i)" and ?k = "unat (pt_used s)"
  let ?n = "base + of_nat ?k * 4096"
  have tree: "table_tree F b d ?m root" and pool: "pool_ready F b d root base len s"
    using inv by (simp_all add: pt_inv_def)
  have room: "unat base + 4096 * unat len \<le> 2 ^ b" and b4: "4096 dvd unat base"
    and le: "pt_used s \<le> len" using pool by (simp_all add: pool_ready_def)
  have all: "r \<noteq> Panic \<and> pt_inv F b d root base len s' \<and> grows F d root s s' \<and>
      unat (pt_used s') \<le> Suc ?k \<and>
      (\<forall>u. r = Ok u \<longrightarrow> frame_at F (pt_mem s') root (p @ [i]) = Some u) \<and>
      (r = Err () \<longrightarrow> s' = s \<and> (pt_used s = len \<or> pte_valid F ?e \<and> pte_block F ?e)) \<and>
      within F d root base len s s'"
  proof (cases "\<not> pte_valid F ?e \<and> \<not> len \<le> pt_used s")
    case False
    then consider "\<not> pte_valid F ?e" "len \<le> pt_used s" | "pte_valid F ?e" "pte_block F ?e"
      | "pte_valid F ?e" "\<not> pte_block F ?e" by blast
    then show ?thesis
    proof cases
      case 3
      then show ?thesis using eq p(2) inv by (auto simp: next_table_def frame_at_append)
    qed (use eq inv le in \<open>auto simp: next_table_def\<close>)
  next
    case True
    then have lt: "pt_used s < len" by (simp add: not_le)
    then have k: "?k < unat len" by (simp add: word_less_nat_alt)
    then have suc: "unat (pt_used s + 1) = Suc ?k"
      using unat_add_exact [of "pt_used s" 1] unat_bound [of len] by simp
    note at = unat_pool_frame [OF room width]
    have n: "frame_ok b ?n" using at [OF k] b4 room k by (simp add: frame_ok_def)
    have free: "\<And>j. j < 512 \<Longrightarrow> ?m (slot ?n j) = 0"
      "\<And>q. is_path d q \<Longrightarrow> frame_at F ?m root q \<noteq> Some ?n"
      using pool k unfolding pool_ready_def by auto
    have hole: "\<not> pte_valid F ?e" using True by simp
    let ?m' = "?m(slot t i := pte_link F ?n)"
    have link: "is_path d q \<Longrightarrow> frame_at F ?m' root q =
        (if q = p @ [i] then Some ?n else frame_at F ?m root q)"
      "same_view F d root ?m ?m'" "table_tree F b d ?m' root" for q
      by (rule link_frame [OF tree p l i hole n]; use free in blast)+
    have step: "r = Ok ?n" "s' = s\<lparr>pt_used := pt_used s + 1, pt_mem := ?m'\<rparr>"
      using eq True pool_frame_Ok [OF room width lt, where 'a = unit]
      by (auto simp: next_table_def Let_def)
    have t4: "4096 dvd unat t" using table_treeD(1) [OF tree p] by (simp add: frame_ok_def)
    have rest: "pool_ready F b d root base len s'"
      unfolding pool_ready_def
    proof (intro conjI allI impI)
      fix h assume h: "unat (pt_used s') \<le> h \<and> h < unat len"
      then have hk: "?k < h" using suc step(2) by simp
      let ?h = "base + of_nat h * 4096"
      have uh: "unat ?h = unat base + 4096 * h" using at h by blast
      have old: "\<And>j. j < 512 \<Longrightarrow> ?m (slot ?h j) = 0"
        "\<And>q. is_path d q \<Longrightarrow> frame_at F ?m root q \<noteq> Some ?h"
        using pool h hk unfolding pool_ready_def by auto
      have nh: "?n \<noteq> ?h" using at [OF k] uh hk by (metis add_left_cancel mult_left_cancel nat_neq_iff zero_neq_numeral)
      have th: "t \<noteq> ?h" using old(2) p by blast
      show "pt_mem s' (slot ?h j) = 0" if "j < 512" for j
        using old(1) [OF that] slot_inject(1) [OF t4 _ i that] th uh b4 step(2)
        by (auto simp: dvd_add)
      show "frame_at F (pt_mem s') root q \<noteq> Some ?h" if "is_path d q" for q
        using link(1) [OF that] old(2) [OF that] nh step(2) by simp
    qed (use b4 room suc k step(2) in \<open>simp_all add: word_le_nat_alt\<close>)
    have "grows F d root s s'"
      unfolding grows_def
      using link(1) link(2) step(2) suc p(2) hole
      by (auto simp: word_le_nat_alt frame_at_append)
    moreover have "frame_at F (pt_mem s') root (p @ [i]) = Some ?n"
      using link(1) [of "p @ [i]"] step(2) p(1) l i by (simp add: is_path_def)
    moreover have "within F d root base len s s'"
    proof -
      have "owned F d root base len s' \<subseteq> owned F d root base len s"
        using link(1) step(2) suc k by (auto simp: tree_frames_def free_frames_def split: if_splits)
      moreover have "t \<in> owned F d root base len s" using p by (auto simp: tree_frames_def)
      ultimately show ?thesis using step(2) suc i by (auto simp: within_def word_le_nat_alt)
    qed
    ultimately show ?thesis
      using step link(3) rest suc by (simp add: pt_inv_def)
  qed
  show "r \<noteq> Panic" "pt_inv F b d root base len s'" "grows F d root s s'"
    "unat (pt_used s') \<le> Suc ?k" using all by blast+
  show "frame_at F (pt_mem s') root (p @ [i]) = Some u" if "r = Ok u" using all that by blast
  show "s' = s \<and> (pt_used s = len \<or> pte_valid F ?e \<and> pte_block F ?e)" if "r = Err ()"
    using all that by blast
  show "within F d root base len s s'" using all by blast
qed

text \<open>The whole descent.\<close>

lemma descend_all:
  assumes "pt_inv F b d root base len s" and "is_path d (p @ is)"
    and "frame_at F (pt_mem s) root p = Some t" and "descend F base len is t s = (r, s')"
  shows "r \<noteq> Panic \<and> pt_inv F b d root base len s' \<and> grows F d root s s' \<and>
    unat (pt_used s') \<le> unat (pt_used s) + length is \<and>
    (\<forall>u. r = Ok u \<longrightarrow> frame_at F (pt_mem s') root (p @ is) = Some u) \<and>
    (r = Err () \<longrightarrow> unat (pt_used s') < unat (pt_used s) + length is \<and> (pt_used s' = len \<or>
       (\<forall>js. js \<noteq> [] \<and> full_path d (p @ is @ js) \<longrightarrow> blocked F (pt_mem s) root (p @ is @ js)))) \<and>
    within F d root base len s s'"
  using assms
proof (induction "is" arbitrary: p t s)
  case (Cons i "is")
  have p: "is_path d p" "length p < d" "i < 512" and p': "is_path d ((p @ [i]) @ is)"
    using Cons.prems(2) by (auto simp: is_path_def)
  obtain r1 s1 where one: "next_table F base len (slot t i) s = (r1, s1)" by fastforce
  note step = next_table_step [OF Cons.prems(1) p(1) Cons.prems(3) p(2,3) one]
  show ?case
  proof (cases r1)
    case (Ok u)
    then have rest: "descend F base len is u s1 = (r, s')" using Cons.prems(4) one by simp
    note IH = Cons.IH [OF step(2) p' step(5) [OF Ok] rest]
    have "blocked F (pt_mem s) root q = blocked F (pt_mem s1) root q" if "full_path d q" for q
      using growsD(1) [OF step(3) that] by (simp add: blocked_def)
    then show ?thesis using IH grows_trans [OF step(3)] within_trans [OF step(7)] step(4) by auto
  next
    case (Err e)
    then have out: "r = Err ()" "s' = s" "s1 = s" using Cons.prems(4) one step(6) by auto
    have "blocked F (pt_mem s) root (p @ (i # is) @ js)"
      if "js \<noteq> []" "pte_valid F (pt_mem s (slot t i)) \<and> pte_block F (pt_mem s (slot t i))" for js
    proof -
      obtain j ks where "is @ js = j # ks" using \<open>js \<noteq> []\<close> by (cases "is @ js") simp_all
      then show ?thesis
        using leaf_at_append [OF _ Cons.prems(3), of "i # is @ js"] that(2) by (simp add: blocked_def)
    qed
    then show ?thesis using step(6) Err out Cons.prems(1) by auto
  next
    case Panic
    then show ?thesis using step(1) by simp
  qed
qed auto

lemma write_entry_within:
  assumes "is_path d p" and "frame_at F (pt_mem s) root p = Some t" and "i < 512"
    and "\<And>q. is_path d q \<Longrightarrow>
      frame_at F (pt_mem (write_entry (slot t i) v s)) root q = frame_at F (pt_mem s) root q"
  shows "within F d root base len s (write_entry (slot t i) v s)"
proof -
  have "t \<in> owned F d root base len s" using assms(1,2) by (auto simp: tree_frames_def)
  moreover have "owned F d root base len (write_entry (slot t i) v s) = owned F d root base len s"
    using assms(4) by (auto simp: tree_frames_def free_frames_def write_entry_def)
  ultimately show ?thesis using assms(3) by (auto simp: within_def write_entry_def)
qed

text \<open>Writing a leaf below the table the descent returned.\<close>

lemma write_entry_leaf:
  assumes inv: "pt_inv F b d root base len s" and p: "is_path d p" "length p = d"
    and t: "frame_at F (pt_mem s) root p = Some t" and i: "i < 512"
  shows "pt_inv F b d root base len (write_entry (slot t i) v s)"
    and "full_path d q \<Longrightarrow> leaf_at F (pt_mem (write_entry (slot t i) v s)) root q =
      (if q = p @ [i] then (if pte_valid F v then Some (0, v) else None)
       else leaf_at F (pt_mem s) root q)"
    and "within F d root base len s (write_entry (slot t i) v s)"
proof -
  have tree: "table_tree F b d (pt_mem s) root" and pool: "pool_ready F b d root base len s"
    using inv by (simp_all add: pt_inv_def)
  note w = write_leaf [OF tree p(1) t p(2) i]
  have t4: "4096 dvd unat t" using table_treeD(1) [OF tree p(1) t] by (simp add: frame_ok_def)
  have room: "unat base + 4096 * unat len \<le> 2 ^ b" and b4: "4096 dvd unat base"
    using pool by (simp_all add: pool_ready_def)
  have "slot (base + of_nat k * 4096) j \<noteq> slot t i"
    if k: "unat (pt_used s) \<le> k" "k < unat len" and j: "j < 512" for k j
  proof
    assume eq: "slot (base + of_nat k * 4096) j = slot t i"
    have "4096 dvd unat (base + of_nat k * 4096)"
      using unat_pool_frame [OF room width k(2)] b4 by simp
    from slot_inject(1) [OF this t4 j i eq] show False
      using pool k t p(1) unfolding pool_ready_def by blast
  qed
  then have "pool_ready F b d root base len (write_entry (slot t i) v s)"
    using pool w(1) unfolding pool_ready_def by (auto simp: write_entry_def)
  then show "pt_inv F b d root base len (write_entry (slot t i) v s)"
    using w(3) by (simp add: pt_inv_def write_entry_def)
  show "full_path d q \<Longrightarrow> leaf_at F (pt_mem (write_entry (slot t i) v s)) root q =
      (if q = p @ [i] then (if pte_valid F v then Some (0, v) else None)
       else leaf_at F (pt_mem s) root q)"
    using w(2) by (simp add: write_entry_def)
  show "within F d root base len s (write_entry (slot t i) v s)"
    by (rule write_entry_within [OF p(1) t i]) (use w(1) in \<open>simp add: write_entry_def\<close>)
qed

end

declare leaf_at.simps [simp del]

end
