(* ===== verification/MapRange.thy ===== *)
theory MapRange
  imports PageTables
begin

text \<open>
  \<open>map_range\<close>, the call by which the kernel installs 4 KiB pages through \<open>HalInterface\<close>, of
  \<open>hal/hal-riscv64/src/cpu.rs\<close> (\<open>riscv_sv39\<close>),
  \<open>hal/hal-x86_64/src/cpu.rs\<close> (\<open>x86_64_paging\<close>) and \<open>hal/hal-arm64/src/cpu.rs\<close>
  (\<open>aarch64_paging\<close>). The three routines descend two levels below a table of 1 GiB entries and
  write 4 KiB leaves; a \<open>paging\<close> record holds what differs. \<open>mmu\<close> is the specification of the
  hardware that reads the leaves: the frame and the rights of unprivileged code.

  The theory shows that a call maps exactly its range and moves no other translation, in this
  address space or in another one, that it succeeds when the pool has two frames for every page
  and no block is in the way, and that it keeps the contract the system calls are verified against.
\<close>

section \<open>The three layouts\<close>

record paging =
  pg_entry :: pt_format
  pg_top :: "u64 \<Rightarrow> (unit, u64) res"
  pg_leaf :: "u64 \<Rightarrow> u64 \<Rightarrow> u64"

datatype arch = RiscV64 | X86_64 | AArch64

text \<open>Sv39: the flags are the low ten bits, an entry with none of R, W and X is a link.\<close>

definition riscv_leaf :: "u64 \<Rightarrow> u64" where
  "riscv_leaf perm = 1 OR 0x40 OR 0x80
     OR (if perm AND 1 \<noteq> 0 then 2 else 0)
     OR (if perm AND 2 \<noteq> 0 then 4 else 0)
     OR (if perm AND 4 \<noteq> 0 then 8 else 0)
     OR (if perm AND 8 \<noteq> 0 then 0x10 else 0)"

definition riscv_entry :: pt_format where
  "riscv_entry = \<lparr>pte_valid = (\<lambda>e. e AND 1 \<noteq> 0),
     pte_block = (\<lambda>e. e AND (2 OR 4 OR 8) \<noteq> 0),
     pte_table = (\<lambda>e. push_bit 12 (drop_bit 10 e AND (2 ^ 44 - 1))),
     pte_link = (\<lambda>t. push_bit 10 (drop_bit 12 t) OR 1)\<rparr>"

definition riscv_sv39 :: paging where
  "riscv_sv39 = \<lparr>pg_entry = riscv_entry,
     pg_top = (\<lambda>root. Ok root),
     pg_leaf = (\<lambda>perm pa. push_bit 10 (drop_bit 12 pa) OR riscv_leaf perm)\<rparr>"

text \<open>x86-64: the table of 1 GiB entries is the page behind the PML4.\<close>

definition x86_leaf :: "u64 \<Rightarrow> u64" where
  "x86_leaf perm = 1
     OR (if perm AND 2 \<noteq> 0 then 2 else 0)
     OR (if perm AND 8 \<noteq> 0 then 4 else 0)
     OR (if perm AND 4 = 0 then 2 ^ 63 else 0)"

definition x86_entry :: pt_format where
  "x86_entry = \<lparr>pte_valid = (\<lambda>e. e AND 1 \<noteq> 0),
     pte_block = (\<lambda>e. e AND 0x80 \<noteq> 0),
     pte_table = (\<lambda>e. e AND 0x000FFFFFFFFFF000),
     pte_link = (\<lambda>t. t OR 1 OR 2 OR 4)\<rparr>"

definition x86_64_paging :: paging where
  "x86_64_paging = \<lparr>pg_entry = x86_entry,
     pg_top = (\<lambda>root. add_or_panic root 4096),
     pg_leaf = (\<lambda>perm pa. (pa AND 0x000FFFFFFFFFF000) OR x86_leaf perm)\<rparr>"

text \<open>AArch64: bit one tells a table or a page from a block.\<close>

definition arm_leaf :: "u64 \<Rightarrow> u64" where
  "arm_leaf perm = 1 OR 2 OR 0 OR 0x300 OR 0x400
     OR (if perm AND 8 \<noteq> 0 then 0x40 else 0)
     OR (if perm AND 2 = 0 then 0x80 else 0)
     OR (if perm AND 4 = 0 then 2 ^ 54 OR 2 ^ 53
         else if perm AND 8 \<noteq> 0 then 2 ^ 53 else 2 ^ 54)"

definition arm_entry :: pt_format where
  "arm_entry = \<lparr>pte_valid = (\<lambda>e. e AND 1 \<noteq> 0),
     pte_block = (\<lambda>e. e AND 2 = 0),
     pte_table = (\<lambda>e. e AND 0x0000FFFFFFFFF000),
     pte_link = (\<lambda>t. (t AND 0x0000FFFFFFFFF000) OR 1 OR 2)\<rparr>"

definition aarch64_paging :: paging where
  "aarch64_paging = \<lparr>pg_entry = arm_entry,
     pg_top = (\<lambda>root. Ok root),
     pg_leaf = (\<lambda>perm pa. (pa AND 0x0000FFFFFFFFF000) OR arm_leaf perm)\<rparr>"

fun paging_of :: "arch \<Rightarrow> paging" where
  "paging_of RiscV64 = riscv_sv39"
| "paging_of X86_64 = x86_64_paging"
| "paging_of AArch64 = aarch64_paging"

text \<open>The physical addresses an entry holds: 56, 52 and 48 bits.\<close>

fun pa_width :: "arch \<Rightarrow> nat" where
  "pa_width RiscV64 = 56"
| "pa_width X86_64 = 52"
| "pa_width AArch64 = 48"

section \<open>map_range\<close>

definition vpn :: "u64 \<Rightarrow> nat \<Rightarrow> u64" where
  "vpn va n = drop_bit n va AND 0x1FF"

definition map_one ::
  "paging \<Rightarrow> u64 \<Rightarrow> u64 \<Rightarrow> u64 \<Rightarrow> u64 \<Rightarrow> u64 \<Rightarrow> u64 \<Rightarrow> pt_state \<Rightarrow> (unit, unit) res \<times> pt_state" where
  "map_one A t va pa perm base len s =
     then_do (descend (pg_entry A) base len [vpn va 30, vpn va 21] t s) (\<lambda>t s.
       (Ok (), write_entry (slot t (vpn va 12)) (pg_leaf A perm pa) s))"

text \<open>The loop over the pages of the range; \<open>p * 4096\<close> is below \<open>len\<close>, the two sums can
  overflow.\<close>

fun map_pages ::
  "paging \<Rightarrow> u64 \<Rightarrow> u64 \<Rightarrow> u64 \<Rightarrow> u64 \<Rightarrow> u64 \<Rightarrow> u64 \<Rightarrow> nat list \<Rightarrow> pt_state \<Rightarrow>
     (unit, unit) res \<times> pt_state" where
  "map_pages A t vaddr paddr perm base len [] s = (Ok (), s)"
| "map_pages A t vaddr paddr perm base len (p # ps) s =
     try_in s (add_or_panic vaddr (of_nat p * 4096)) (\<lambda>va.
     try_in s (add_or_panic paddr (of_nat p * 4096)) (\<lambda>pa.
     then_do (map_one A t va pa perm base len s) (\<lambda>_ s.
       map_pages A t vaddr paddr perm base len ps s)))"

definition map_range ::
  "paging \<Rightarrow> u64 \<Rightarrow> u64 \<Rightarrow> u64 \<Rightarrow> u64 \<Rightarrow> u64 \<Rightarrow> u64 \<Rightarrow> u64 \<Rightarrow> phys_mem \<Rightarrow>
     (unit, u32) res \<times> phys_mem" where
  "map_range A root_frame vaddr paddr len perm pool_base pool_len m =
     (if root_frame = 0 \<or> len = 0 \<or> (vaddr OR paddr OR len) AND 0xFFF \<noteq> 0 then (Ok (- 1), m)
      else try_in m (pg_top A root_frame) (\<lambda>t.
        let (r, s) = map_pages A t vaddr paddr perm pool_base pool_len
              [0 ..< unat (len div 4096)] \<lparr>pt_used = 0, pt_mem = m\<rparr>
        in (case r of Ok _ \<Rightarrow> Ok (ucast (pt_used s)) | Err _ \<Rightarrow> Ok (- 1) | Panic \<Rightarrow> Panic, pt_mem s)))"

text \<open>The three copies of the routine: the same loop over the layout of the machine.\<close>

definition riscv_map_range ::
  "u64 \<Rightarrow> u64 \<Rightarrow> u64 \<Rightarrow> u64 \<Rightarrow> u64 \<Rightarrow> u64 \<Rightarrow> u64 \<Rightarrow> phys_mem \<Rightarrow> (unit, u32) res \<times> phys_mem" where
  "riscv_map_range = map_range riscv_sv39"

definition x86_map_range ::
  "u64 \<Rightarrow> u64 \<Rightarrow> u64 \<Rightarrow> u64 \<Rightarrow> u64 \<Rightarrow> u64 \<Rightarrow> u64 \<Rightarrow> phys_mem \<Rightarrow> (unit, u32) res \<times> phys_mem" where
  "x86_map_range = map_range x86_64_paging"

definition arm_map_range ::
  "u64 \<Rightarrow> u64 \<Rightarrow> u64 \<Rightarrow> u64 \<Rightarrow> u64 \<Rightarrow> u64 \<Rightarrow> u64 \<Rightarrow> phys_mem \<Rightarrow> (unit, u32) res \<times> phys_mem" where
  "arm_map_range = map_range aarch64_paging"

lemma map_range_by_arch:
  "map_range (paging_of a) =
     (case a of RiscV64 \<Rightarrow> riscv_map_range | X86_64 \<Rightarrow> x86_map_range | AArch64 \<Rightarrow> arm_map_range)"
  by (cases a) (simp_all add: riscv_map_range_def x86_map_range_def arm_map_range_def)

section \<open>What the hardware makes of a leaf\<close>

record mmu =
  maps_to :: "u64 \<Rightarrow> u64"
  user_reads :: "u64 \<Rightarrow> bool"
  user_writes :: "u64 \<Rightarrow> bool"
  user_execs :: "u64 \<Rightarrow> bool"

text \<open>Sv39 faults on the reserved encoding W without R.\<close>

fun mmu_of :: "arch \<Rightarrow> mmu" where
  "mmu_of RiscV64 = \<lparr>maps_to = (\<lambda>e. push_bit 12 (drop_bit 10 e AND (2 ^ 44 - 1))),
     user_reads = (\<lambda>e. bit e 4 \<and> bit e 1),
     user_writes = (\<lambda>e. bit e 4 \<and> bit e 1 \<and> bit e 2),
     user_execs = (\<lambda>e. bit e 4 \<and> bit e 3 \<and> (bit e 2 \<longrightarrow> bit e 1))\<rparr>"
| "mmu_of X86_64 = \<lparr>maps_to = (\<lambda>e. e AND 0x000FFFFFFFFFF000),
     user_reads = (\<lambda>e. bit e 2),
     user_writes = (\<lambda>e. bit e 2 \<and> bit e 1),
     user_execs = (\<lambda>e. bit e 2 \<and> \<not> bit e 63)\<rparr>"
| "mmu_of AArch64 = \<lparr>maps_to = (\<lambda>e. e AND 0x0000FFFFFFFFF000),
     user_reads = (\<lambda>e. bit e 6),
     user_writes = (\<lambda>e. bit e 6 \<and> \<not> bit e 7),
     user_execs = (\<lambda>e. bit e 6 \<and> \<not> bit e 54)\<rparr>"

definition vpns :: "u64 \<Rightarrow> u64 list" where
  "vpns va = [vpn va 30, vpn va 21, vpn va 12]"

definition page_of :: "paging \<Rightarrow> u64 \<Rightarrow> phys_mem \<Rightarrow> u64 \<Rightarrow> (nat \<times> u64) option" where
  "page_of A t m va = leaf_at (pg_entry A) m t (vpns va)"

section \<open>The layouts are page formats\<close>

lemma frame_ok_bit:
  assumes "frame_ok b t" and "bit t n"
  shows "12 \<le> n" and "n < b"
proof -
  have bit: "bit (unat t) n" using assms(2) by (simp add: bit_unsigned_iff bit_imp_le_length)
  obtain k where "unat t = 4096 * k" using assms(1) by (auto simp: frame_ok_def elim: dvdE)
  then have "unat t = push_bit 12 k" by (simp add: push_bit_eq_mult)
  then show "12 \<le> n" using bit by (simp add: bit_push_bit_iff)
  show "n < b"
  proof (rule ccontr)
    assume "\<not> n < b"
    have "2 ^ n \<le> unat t" using bit by (simp add: bit_iff_odd) (metis div_less even_zero not_le)
    moreover have "(2 :: nat) ^ b \<le> 2 ^ n" using \<open>\<not> n < b\<close> by (intro power_increasing) auto
    moreover have "unat t < 2 ^ b" using assms(1) by (simp add: frame_ok_def)
    ultimately show False by linarith
  qed
qed

lemma and_one_iff: "(e :: 'a::len word) AND 1 \<noteq> 0 \<longleftrightarrow> bit e 0"
  by (metis and_one_eq bit_0 odd_iff_mod_2_eq_one even_iff_mod_2_eq_zero)

lemma test_bit_and: "(e :: 'a::len word) AND 2 ^ n \<noteq> 0 \<longleftrightarrow> bit e n"
  by (simp add: and_exp_eq_0_iff_not_bit)

lemma field_masks:
  "(0x000FFFFFFFFFF000 :: u64) = push_bit 12 (mask 40)"
  "(0x0000FFFFFFFFF000 :: u64) = push_bit 12 (mask 36)"
  "(2 ^ 44 - 1 :: u64) = mask 44"
  "(0x1FF :: u64) = mask 9"
  by (simp_all add: mask_eq_exp_minus_1 push_bit_eq_mult)

lemma flag_bits:
  "bit (2 :: u64) n \<longleftrightarrow> n = 1" "bit (4 :: u64) n \<longleftrightarrow> n = 2" "bit (8 :: u64) n \<longleftrightarrow> n = 3"
  "bit (0x10 :: u64) n \<longleftrightarrow> n = 4" "bit (0x40 :: u64) n \<longleftrightarrow> n = 6" "bit (0x80 :: u64) n \<longleftrightarrow> n = 7"
  "bit (0x300 :: u64) n \<longleftrightarrow> n = 8 \<or> n = 9" "bit (0x400 :: u64) n \<longleftrightarrow> n = 10"
  "bit (2 ^ 53 :: u64) n \<longleftrightarrow> n = 53" "bit (2 ^ 54 :: u64) n \<longleftrightarrow> n = 54"
  "bit (2 ^ 63 :: u64) n \<longleftrightarrow> n = 63"
proof -
  have p: "bit (2 ^ k :: u64) n \<longleftrightarrow> n = k" if "k < 64" for k
    using that by (auto simp: bit_exp_iff)
  have "(0x300 :: u64) = 2 ^ 8 OR 2 ^ 9" by simp
  then show "bit (0x300 :: u64) n \<longleftrightarrow> n = 8 \<or> n = 9"
    using p [of 8] p [of 9] by (simp only: bit_or_iff)
  show "bit (2 :: u64) n \<longleftrightarrow> n = 1" "bit (4 :: u64) n \<longleftrightarrow> n = 2" "bit (8 :: u64) n \<longleftrightarrow> n = 3"
    "bit (0x10 :: u64) n \<longleftrightarrow> n = 4" "bit (0x40 :: u64) n \<longleftrightarrow> n = 6" "bit (0x80 :: u64) n \<longleftrightarrow> n = 7"
    "bit (0x400 :: u64) n \<longleftrightarrow> n = 10"
    using p [of 1] p [of 2] p [of 3] p [of 4] p [of 6] p [of 7] p [of 10] by simp_all
  show "bit (2 ^ 53 :: u64) n \<longleftrightarrow> n = 53" "bit (2 ^ 54 :: u64) n \<longleftrightarrow> n = 54"
    "bit (2 ^ 63 :: u64) n \<longleftrightarrow> n = 63"
    by (rule p; simp)+
qed

lemma perm_tests:
  fixes e :: u64
  shows "e AND 1 = 0 \<longleftrightarrow> \<not> bit e 0" "e AND 2 = 0 \<longleftrightarrow> \<not> bit e 1" "e AND 4 = 0 \<longleftrightarrow> \<not> bit e 2"
    "e AND 8 = 0 \<longleftrightarrow> \<not> bit e 3" "e AND 0x80 = 0 \<longleftrightarrow> \<not> bit e 7"
  using and_exp_eq_0_iff_not_bit [of e 0] and_exp_eq_0_iff_not_bit [of e 1]
    and_exp_eq_0_iff_not_bit [of e 2] and_exp_eq_0_iff_not_bit [of e 3]
    and_exp_eq_0_iff_not_bit [of e 7] by simp_all

lemma and_or_zero: "(e :: 'a::len word) AND (x OR y) = 0 \<longleftrightarrow> e AND x = 0 \<and> e AND y = 0"
  by (auto simp: bit_eq_iff bit_simps)

lemmas entry_bits = flag_bits perm_tests and_or_zero bit_or_iff bit_and_iff bit_push_bit_iff
  bit_drop_bit_eq bit_mask_iff bit_1_iff

lemma riscv_table:
  assumes "frame_ok 56 t" and "\<forall>n. bit f n \<longrightarrow> n < 10"
  shows "push_bit 12 (drop_bit 10 (push_bit 10 (drop_bit 12 t) OR f) AND (2 ^ 44 - 1)) = t"
  unfolding field_masks
proof (rule bit_word_eqI)
  fix n
  show "bit (push_bit 12 (drop_bit 10 (push_bit 10 (drop_bit 12 t) OR f) AND mask 44)) n = bit t n"
    using frame_ok_bit [OF assms(1), of n] assms(2) by (auto simp: entry_bits)
qed

lemma x86_table: "frame_ok 52 t \<Longrightarrow> \<forall>n. bit f n \<longrightarrow> n < 12 \<or> n = 63 \<Longrightarrow> (t OR f) AND 0x000FFFFFFFFFF000 = t"
  unfolding field_masks
  by (rule bit_word_eqI) (auto simp: entry_bits dest: frame_ok_bit)

lemma arm_table:
  assumes "frame_ok 48 t" and "\<forall>n. bit f n \<longrightarrow> n < 12 \<or> 48 \<le> n"
  shows "((t AND 0x0000FFFFFFFFF000) OR f) AND 0x0000FFFFFFFFF000 = t"
  unfolding field_masks
  by (rule bit_word_eqI) (use assms in \<open>auto simp: entry_bits dest: frame_ok_bit\<close>)

text \<open>A layout together with the hardware that reads it: a written leaf is a page, of the frame
  and with the rights it was written with. Rights are stated for a page with the READ bit.\<close>

locale paging_unit = page_format "pg_entry A" b for A :: paging and b :: nat +
  fixes M :: mmu
  assumes leaf_valid: "pte_valid (pg_entry A) (pg_leaf A perm pa)"
    and leaf_frame: "frame_ok b pa \<Longrightarrow> maps_to M (pg_leaf A perm pa) = pa"
    and leaf_reads: "frame_ok b pa \<Longrightarrow> bit perm 0 \<Longrightarrow> user_reads M (pg_leaf A perm pa) = bit perm 3"
    and leaf_writes: "frame_ok b pa \<Longrightarrow> bit perm 0 \<Longrightarrow>
      user_writes M (pg_leaf A perm pa) = (bit perm 3 \<and> bit perm 1)"
    and leaf_execs: "frame_ok b pa \<Longrightarrow> bit perm 0 \<Longrightarrow>
      user_execs M (pg_leaf A perm pa) = (bit perm 3 \<and> bit perm 2)"

lemma bit_if: "bit (if c then x else y) n \<longleftrightarrow> (if c then bit x n else bit y n)"
  by simp

lemma bit_zero: "bit (0 :: u64) n \<longleftrightarrow> False"
  by simp

lemmas raw_bits = bit_or_iff bit_and_iff flag_bits bit_1_iff bit_if bit_zero perm_tests and_or_zero

lemma riscv_leaf_bits:
  "bit (riscv_leaf perm) n \<longleftrightarrow> n = 0 \<or> n = 6 \<or> n = 7 \<or> n = 1 \<and> bit perm 0 \<or> n = 2 \<and> bit perm 1 \<or>
     n = 3 \<and> bit perm 2 \<or> n = 4 \<and> bit perm 3"
  unfolding riscv_leaf_def by (simp only: raw_bits) auto

lemma x86_leaf_bits:
  "bit (x86_leaf perm) n \<longleftrightarrow> n = 0 \<or> n = 1 \<and> bit perm 1 \<or> n = 2 \<and> bit perm 3 \<or>
     n = 63 \<and> \<not> bit perm 2"
  unfolding x86_leaf_def by (simp only: raw_bits) auto

lemma arm_leaf_bits:
  "bit (arm_leaf perm) n \<longleftrightarrow> n = 0 \<or> n = 1 \<or> n = 8 \<or> n = 9 \<or> n = 10 \<or> n = 6 \<and> bit perm 3 \<or>
     n = 7 \<and> \<not> bit perm 1 \<or> n = 53 \<and> (\<not> bit perm 2 \<or> bit perm 3) \<or>
     n = 54 \<and> (\<not> bit perm 2 \<or> \<not> bit perm 3)"
  unfolding arm_leaf_def by (simp only: raw_bits) auto

lemma riscv_tests:
  "pte_valid (pg_entry riscv_sv39) e \<longleftrightarrow> bit e 0"
  "pte_block (pg_entry riscv_sv39) e \<longleftrightarrow> bit e 1 \<or> bit e 2 \<or> bit e 3"
  "bit (pte_link (pg_entry riscv_sv39) t) n \<longleftrightarrow> 10 \<le> n \<and> n < 64 \<and> bit t (n + 2) \<or> n = 0"
  "pg_leaf riscv_sv39 perm pa = push_bit 10 (drop_bit 12 pa) OR riscv_leaf perm"
  unfolding riscv_sv39_def riscv_entry_def
  by (simp_all only: pt_format.simps paging.simps raw_bits bit_push_bit_iff bit_drop_bit_eq) auto

lemma x86_tests:
  "pte_valid (pg_entry x86_64_paging) e \<longleftrightarrow> bit e 0"
  "pte_block (pg_entry x86_64_paging) e \<longleftrightarrow> bit e 7"
  "pte_link (pg_entry x86_64_paging) t = t OR (1 OR 2 OR 4)"
  "pg_leaf x86_64_paging perm pa = (pa AND 0x000FFFFFFFFFF000) OR x86_leaf perm"
  unfolding x86_64_paging_def x86_entry_def
  by (simp_all only: pt_format.simps paging.simps raw_bits or.assoc not_not)

lemma arm_tests:
  "pte_valid (pg_entry aarch64_paging) e \<longleftrightarrow> bit e 0"
  "pte_block (pg_entry aarch64_paging) e \<longleftrightarrow> \<not> bit e 1"
  "pte_link (pg_entry aarch64_paging) t = (t AND 0x0000FFFFFFFFF000) OR (1 OR 2)"
  "pg_leaf aarch64_paging perm pa = (pa AND 0x0000FFFFFFFFF000) OR arm_leaf perm"
  unfolding aarch64_paging_def arm_entry_def
  by (simp_all only: pt_format.simps paging.simps raw_bits or.assoc not_not)

lemma masked_bits:
  "bit (pa AND 0x000FFFFFFFFFF000 :: u64) n \<longleftrightarrow> bit pa n \<and> 12 \<le> n \<and> n < 52"
  "bit (pa AND 0x0000FFFFFFFFF000 :: u64) n \<longleftrightarrow> bit pa n \<and> 12 \<le> n \<and> n < 48"
  unfolding field_masks by (auto simp: entry_bits dest: bit_imp_le_length)

interpretation riscv: paging_unit riscv_sv39 56 "mmu_of RiscV64"
proof
  fix t :: u64 assume t: "frame_ok 56 t"
  have "\<forall>n. bit (1 :: u64) n \<longrightarrow> n < 10" by (simp only: bit_1_iff) simp
  then show "pte_table (pg_entry riscv_sv39) (pte_link (pg_entry riscv_sv39) t) = t"
    using riscv_table [OF t, of 1] by (simp add: riscv_sv39_def riscv_entry_def)
next
  fix perm pa :: u64 assume pa: "frame_ok 56 pa"
  show "maps_to (mmu_of RiscV64) (pg_leaf riscv_sv39 perm pa) = pa"
    using riscv_table [OF pa, of "riscv_leaf perm"] by (auto simp: riscv_tests(4) riscv_leaf_bits)
qed (auto simp: riscv_tests riscv_leaf_bits bit_or_iff bit_push_bit_iff)

interpretation x86: paging_unit x86_64_paging 52 "mmu_of X86_64"
proof
  fix t :: u64 assume t: "frame_ok 52 t"
  have "\<forall>n. bit (1 OR 2 OR 4 :: u64) n \<longrightarrow> n < 12 \<or> n = 63" by (simp only: raw_bits) auto
  then show "pte_table (pg_entry x86_64_paging) (pte_link (pg_entry x86_64_paging) t) = t"
    using x86_table [OF t] by (simp only: x86_tests) (simp add: x86_64_paging_def x86_entry_def)
  show "\<not> pte_block (pg_entry x86_64_paging) (pte_link (pg_entry x86_64_paging) t)"
    using frame_ok_bit(1) [OF t, of 7] by (simp only: x86_tests raw_bits) auto
  show "pte_valid (pg_entry x86_64_paging) (pte_link (pg_entry x86_64_paging) t)"
    by (simp only: x86_tests raw_bits) simp
next
  fix perm pa :: u64 assume pa: "frame_ok 52 pa"
  have idle: "pa AND 0x000FFFFFFFFFF000 = pa" using x86_table [OF pa, of 0] by simp
  show "maps_to (mmu_of X86_64) (pg_leaf x86_64_paging perm pa) = pa"
    using x86_table [OF pa, of "x86_leaf perm"] idle by (auto simp: x86_tests(4) x86_leaf_bits)
qed (auto simp: x86_tests x86_leaf_bits bit_or_iff masked_bits)

interpretation arm: paging_unit aarch64_paging 48 "mmu_of AArch64"
proof
  fix t :: u64 assume t: "frame_ok 48 t"
  have "\<forall>n. bit (1 OR 2 :: u64) n \<longrightarrow> n < 12 \<or> 48 \<le> n" by (simp only: raw_bits) auto
  then show "pte_table (pg_entry aarch64_paging) (pte_link (pg_entry aarch64_paging) t) = t"
    using arm_table [OF t] by (simp only: arm_tests) (simp add: aarch64_paging_def arm_entry_def)
  show "\<not> pte_block (pg_entry aarch64_paging) (pte_link (pg_entry aarch64_paging) t)"
    and "pte_valid (pg_entry aarch64_paging) (pte_link (pg_entry aarch64_paging) t)"
    by (simp_all only: arm_tests raw_bits) simp_all
next
  fix perm pa :: u64 assume pa: "frame_ok 48 pa"
  show "maps_to (mmu_of AArch64) (pg_leaf aarch64_paging perm pa) = pa"
    using arm_table [OF pa, of "arm_leaf perm"] by (auto simp: arm_tests(4) arm_leaf_bits)
qed (auto simp: arm_tests arm_leaf_bits bit_or_iff masked_bits)

section \<open>Index lists\<close>

lemma vpn_small [simp]: "vpn va n < 512"
proof -
  have "vpn va n = take_bit 9 (drop_bit n va)"
    by (simp add: vpn_def field_masks take_bit_eq_mask)
  moreover have "unat (take_bit 9 (drop_bit n va)) < 512"
    by (simp only: unsigned_take_bit_eq) (use take_bit_nat_less_exp [of 9] in simp)
  ultimately show ?thesis by (simp add: word_less_nat_alt)
qed

lemma vpns_path [simp]: "full_path 2 (vpns va)" "is_path 2 [vpn va 30, vpn va 21]"
  by (simp_all add: vpns_def full_path_def is_path_def)

lemma bit_vpn: "bit (vpn va n) k \<longleftrightarrow> k < 9 \<and> bit va (n + k)"
  unfolding vpn_def field_masks by (auto simp: bit_and_iff bit_mask_iff bit_drop_bit_eq)

text \<open>Below 2^39 the indices determine the page.\<close>

lemma high_bits:
  fixes va :: u64
  assumes "va < 2 ^ 39" and "39 \<le> n"
  shows "\<not> bit va n"
proof
  assume "bit va n"
  then have "bit (unat va) n" by (simp add: bit_unsigned_iff bit_imp_le_length)
  then have "2 ^ n \<le> unat va" by (simp add: bit_iff_odd) (metis div_less even_zero not_le)
  moreover have "(2 :: nat) ^ 39 \<le> 2 ^ n" using assms(2) by (intro power_increasing) auto
  moreover have "unat va < 2 ^ 39" using assms(1) by (simp add: word_less_nat_alt)
  ultimately show False by linarith
qed

lemma vpns_inject:
  assumes "va < 2 ^ 39" and "vb < 2 ^ 39" and "vpns va = vpns vb"
  shows "drop_bit 12 va = drop_bit 12 vb"
proof (rule bit_word_eqI)
  fix n :: nat
  have eq: "bit (vpn va k) j = bit (vpn vb k) j" if "k \<in> {30, 21, 12}" for k j
    using assms(3) that by (auto simp: vpns_def)
  consider "n < 9" | "9 \<le> n" "n < 18" | "18 \<le> n" "n < 27" | "27 \<le> n" by linarith
  then show "bit (drop_bit 12 va) n = bit (drop_bit 12 vb) n"
  proof cases
    case 1
    then show ?thesis using eq [of 12 n] by (simp add: bit_vpn bit_drop_bit_eq)
  next
    case 2
    then have "n - 9 < 9" by linarith
    with 2 show ?thesis using eq [of 21 "n - 9"] by (simp add: bit_vpn bit_drop_bit_eq)
  next
    case 3
    then have "n - 18 < 9" by linarith
    with 3 show ?thesis using eq [of 30 "n - 18"] by (simp add: bit_vpn bit_drop_bit_eq)
  next
    case 4
    then show ?thesis using high_bits assms(1,2) by (simp add: bit_drop_bit_eq)
  qed
qed

section \<open>One page and a range of pages\<close>

text \<open>The pages of a loop: each one below 2^39, none of them twice, no sum out of range.\<close>

definition pages_ok :: "u64 \<Rightarrow> u64 \<Rightarrow> nat list \<Rightarrow> bool" where
  "pages_ok v p ks \<longleftrightarrow> distinct ks \<and> 4096 dvd unat v \<and>
     (\<forall>k \<in> set ks. unat v + 4096 * k + 4096 \<le> 2 ^ 39 \<and> unat p + 4096 * k < 2 ^ 64)"

lemma page_sum:
  assumes "unat (v :: u64) + 4096 * k < 2 ^ 64"
  shows "add_or_panic v (of_nat k * 4096) = Ok (v + of_nat k * 4096)"
    and "unat (v + of_nat k * 4096) = unat v + 4096 * k"
proof -
  have k: "unat (of_nat k * 4096 :: u64) = 4096 * k"
    using assms by (simp add: unat_word_ariths unat_of_nat mult.commute)
  then have "unat v + unat (of_nat k * 4096 :: u64) < 2 ^ LENGTH(64)" using assms by simp
  then show "add_or_panic v (of_nat k * 4096) = Ok (v + of_nat k * 4096)"
    and "unat (v + of_nat k * 4096) = unat v + 4096 * k"
    using unat_add_exact [of v "of_nat k * 4096"] k by (simp_all add: add_or_panic_Ok)
qed

lemma page_apart:
  assumes "4096 dvd unat v" and "unat v + 4096 * k + 4096 \<le> 2 ^ 39"
    and "unat v + 4096 * l + 4096 \<le> 2 ^ 39"
    and "vpns (v + of_nat k * 4096) = vpns (v + of_nat l * 4096)"
  shows "k = l"
proof -
  have u: "unat (v + of_nat j * 4096) = unat v + 4096 * j"
    if "unat v + 4096 * j + 4096 \<le> 2 ^ 39" for j using that by (intro page_sum(2)) simp
  have "v + of_nat k * 4096 < 2 ^ 39" "v + of_nat l * 4096 < 2 ^ 39"
    using u [OF assms(2)] u [OF assms(3)] assms(2,3) by (simp_all add: word_less_nat_alt)
  from vpns_inject [OF this assms(4)]
  have "unat (drop_bit 12 (v + of_nat k * 4096)) = unat (drop_bit 12 (v + of_nat l * 4096))" by simp
  then have "(unat v + 4096 * k) div 4096 = (unat v + 4096 * l) div 4096"
    by (simp only: unat_drop_bit_eq u [OF assms(2)] u [OF assms(3)]) (simp add: drop_bit_eq_div)
  then show ?thesis by simp
qed

context paging_unit
begin

lemma map_one_outcome:
  assumes inv: "pt_inv (pg_entry A) b 2 t base len s"
    and run: "map_one A t va pa perm base len s = (r, s')"
  shows "r \<noteq> Panic" and "pt_inv (pg_entry A) b 2 t base len s'"
    and "r = Ok () \<Longrightarrow> full_path 2 q \<Longrightarrow> leaf_at (pg_entry A) (pt_mem s') t q =
      (if q = vpns va then Some (0, pg_leaf A perm pa) else leaf_at (pg_entry A) (pt_mem s) t q)"
    and "r = Err () \<Longrightarrow> full_path 2 q \<Longrightarrow>
      leaf_at (pg_entry A) (pt_mem s') t q = leaf_at (pg_entry A) (pt_mem s) t q"
    and "unat (pt_used s') \<le> unat (pt_used s) + 2"
    and "r = Err () \<Longrightarrow> unat (pt_used s') < unat (pt_used s) + 2 \<and>
      (pt_used s' = len \<or> blocked (pg_entry A) (pt_mem s) t (vpns va))"
    and "within (pg_entry A) 2 t base len s s'"
proof -
  obtain r1 s1 where d: "descend (pg_entry A) base len [vpn va 30, vpn va 21] t s = (r1, s1)"
    by fastforce
  have D: "r1 \<noteq> Panic" "pt_inv (pg_entry A) b 2 t base len s1" "grows (pg_entry A) 2 t s s1"
    "unat (pt_used s1) \<le> unat (pt_used s) + 2"
    "\<And>u. r1 = Ok u \<Longrightarrow> frame_at (pg_entry A) (pt_mem s1) t [vpn va 30, vpn va 21] = Some u"
    "r1 = Err () \<Longrightarrow> unat (pt_used s1) < unat (pt_used s) + 2 \<and> (pt_used s1 = len \<or>
      (\<forall>js. js \<noteq> [] \<and> full_path 2 ([vpn va 30, vpn va 21] @ js) \<longrightarrow>
         blocked (pg_entry A) (pt_mem s) t ([vpn va 30, vpn va 21] @ js)))"
    "within (pg_entry A) 2 t base len s s1"
    using descend_all [of 2 t base len s "[]" "[vpn va 30, vpn va 21]" t r1 s1] inv d by auto
  note same = growsD(1) [OF D(3)]
  show "r \<noteq> Panic" using run d D(1) by (cases r1) (auto simp: map_one_def)
  show "pt_inv (pg_entry A) b 2 t base len s'"
  proof (cases r1)
    case (Ok u)
    then have "s' = write_entry (slot u (vpn va 12)) (pg_leaf A perm pa) s1"
      using run d by (simp add: map_one_def)
    then show ?thesis
      using write_entry_leaf(1) [OF D(2) vpns_path(2) _ D(5) [OF Ok] vpn_small] by simp
  qed (use run d D(1,2) in \<open>auto simp: map_one_def\<close>)
  show "leaf_at (pg_entry A) (pt_mem s') t q =
      (if q = vpns va then Some (0, pg_leaf A perm pa) else leaf_at (pg_entry A) (pt_mem s) t q)"
    if ok: "r = Ok ()" and q: "full_path 2 q"
  proof -
    obtain u where u: "r1 = Ok u" and s': "s' = write_entry (slot u (vpn va 12)) (pg_leaf A perm pa) s1"
      using run d D(1) ok by (cases r1) (auto simp: map_one_def)
    show ?thesis
      using write_entry_leaf(2) [OF D(2) vpns_path(2) _ D(5) [OF u] vpn_small q] same [OF q]
      by (simp add: s' leaf_valid vpns_def)
  qed
  have err: "r1 = Err () \<and> s' = s1" if "r = Err ()"
    using run d D(1) that by (cases r1) (auto simp: map_one_def)
  show "leaf_at (pg_entry A) (pt_mem s') t q = leaf_at (pg_entry A) (pt_mem s) t q"
    if "r = Err ()" and "full_path 2 q"
    using err [OF that(1)] same [OF that(2)] by simp
  show "unat (pt_used s') \<le> unat (pt_used s) + 2"
    using run d D(4) by (cases r1) (auto simp: map_one_def write_entry_def)
  show "unat (pt_used s') < unat (pt_used s) + 2 \<and>
      (pt_used s' = len \<or> blocked (pg_entry A) (pt_mem s) t (vpns va))" if "r = Err ()"
    using err [OF that] D(6) vpns_path(1) [of va] by (auto simp: vpns_def)
  show "within (pg_entry A) 2 t base len s s'"
  proof (cases r1)
    case (Ok u)
    then have "s' = write_entry (slot u (vpn va 12)) (pg_leaf A perm pa) s1"
      using run d by (simp add: map_one_def)
    then show ?thesis
      using within_trans [OF D(7)] write_entry_leaf(3) [OF D(2) vpns_path(2) _ D(5) [OF Ok] vpn_small]
      by simp
  qed (use run d D(1,7) in \<open>auto simp: map_one_def\<close>)
qed

lemma map_pages_outcome:
  assumes "pt_inv (pg_entry A) b 2 t base len s" and "pages_ok v p ks"
    and "map_pages A t v p perm base len ks s = (r, s')"
  shows "r \<noteq> Panic \<and> pt_inv (pg_entry A) b 2 t base len s' \<and>
    unat (pt_used s') \<le> unat (pt_used s) + 2 * length ks \<and>
    (\<forall>q. full_path 2 q \<and> (\<forall>k \<in> set ks. q \<noteq> vpns (v + of_nat k * 4096)) \<longrightarrow>
       leaf_at (pg_entry A) (pt_mem s') t q = leaf_at (pg_entry A) (pt_mem s) t q) \<and>
    (\<forall>k \<in> set ks. let q = vpns (v + of_nat k * 4096);
         new = Some (0, pg_leaf A perm (p + of_nat k * 4096)) in
       leaf_at (pg_entry A) (pt_mem s') t q = new \<or>
       r = Err () \<and> leaf_at (pg_entry A) (pt_mem s') t q = leaf_at (pg_entry A) (pt_mem s) t q) \<and>
    (r = Err () \<longrightarrow> unat len < unat (pt_used s) + 2 * length ks \<or>
       (\<exists>k \<in> set ks. blocked (pg_entry A) (pt_mem s) t (vpns (v + of_nat k * 4096)))) \<and>
    within (pg_entry A) 2 t base len s s'"
  using assms
proof (induction ks arbitrary: s)
  case (Cons k ks)
  let ?F = "pg_entry A"
  let ?va = "\<lambda>k. v + of_nat k * 4096" and ?pa = "\<lambda>k. p + of_nat k * 4096"
  have ok: "pages_ok v p ks" and k: "k \<notin> set ks" "4096 dvd unat v"
      "unat v + 4096 * k + 4096 \<le> 2 ^ 39" "unat p + 4096 * k < 2 ^ 64"
    and later: "\<And>l. l \<in> set ks \<Longrightarrow> unat v + 4096 * l + 4096 \<le> 2 ^ 39"
    using Cons.prems(2) by (auto simp: pages_ok_def)
  have apart: "vpns (?va l) \<noteq> vpns (?va k)" if "l \<in> set ks" for l
    using page_apart [OF k(2) later [OF that] k(3)] k(1) that by metis
  obtain r1 s1 where one: "map_one A t (?va k) (?pa k) perm base len s = (r1, s1)" by fastforce
  note O = map_one_outcome [OF Cons.prems(1) one]
  have sums: "add_or_panic v (of_nat k * 4096) = (Ok (?va k) :: (unit, u64) res)"
    "add_or_panic p (of_nat k * 4096) = (Ok (?pa k) :: (unit, u64) res)"
    by (rule page_sum(1); use k(3,4) in simp)+
  have run: "(case r1 of Ok _ \<Rightarrow> map_pages A t v p perm base len ks s1 | Err _ \<Rightarrow> (r1, s1) | Panic \<Rightarrow> (Panic, s1))
      = (r, s')"
    using Cons.prems(3) one sums by (cases r1) auto
  show ?case
  proof (cases r1)
    case (Ok x)
    then have rest: "map_pages A t v p perm base len ks s1 = (r, s')" using run by simp
    note IH = Cons.IH [OF O(2) ok rest]
    have leaf1: "leaf_at ?F (pt_mem s1) t q =
        (if q = vpns (?va k) then Some (0, pg_leaf A perm (?pa k)) else leaf_at ?F (pt_mem s) t q)"
      if "full_path 2 q" for q using O(3) [OF _ that] Ok by simp
    have here: "leaf_at ?F (pt_mem s') t (vpns (?va k)) = Some (0, pg_leaf A perm (?pa k))"
      using IH leaf1 [OF vpns_path(1)] apart by (metis vpns_path(1))
    have away: "leaf_at ?F (pt_mem s') t q = leaf_at ?F (pt_mem s) t q"
      if "full_path 2 q" "\<forall>l \<in> set (k # ks). q \<noteq> vpns (?va l)" for q
      using IH leaf1 [OF that(1)] that by auto
    have others: "leaf_at ?F (pt_mem s1) t (vpns (?va l)) = leaf_at ?F (pt_mem s) t (vpns (?va l))"
      if "l \<in> set ks" for l using leaf1 [OF vpns_path(1)] apart [OF that] by simp
    then have "blocked ?F (pt_mem s1) t (vpns (?va l)) = blocked ?F (pt_mem s) t (vpns (?va l))"
      if "l \<in> set ks" for l using that by (simp add: blocked_def)
    then show ?thesis using IH O(5) here away others within_trans [OF O(7)] unfolding Let_def by auto
  next
    case (Err e)
    then have out: "r = Err ()" "s' = s1" using run by auto
    then show ?thesis using O(1,2,4,5,6,7) Err by (auto simp: Let_def)
  next
    case Panic
    then show ?thesis using O(1) by simp
  qed
qed auto

end

lemma paging_of_unit: "paging_unit (paging_of a) (pa_width a) (mmu_of a)"
  by (cases a) (simp_all only: paging_of.simps pa_width.simps riscv.paging_unit_axioms
      x86.paging_unit_axioms arm.paging_unit_axioms)

interpretation hw: paging_unit "paging_of a" "pa_width a" "mmu_of a" for a
  by (rule paging_of_unit)

section \<open>The call as a whole\<close>

text \<open>The arguments a caller may pass: page-aligned, below 2^39, physical end in range.\<close>

definition page_range :: "u64 \<Rightarrow> u64 \<Rightarrow> u64 \<Rightarrow> u64 \<Rightarrow> bool" where
  "page_range root v p len \<longleftrightarrow> root \<noteq> 0 \<and> len \<noteq> 0 \<and> (v OR p OR len) AND 0xFFF = 0 \<and>
     unat v + unat len \<le> 2 ^ 39 \<and> unat p + unat len \<le> 2 ^ 64"

text \<open>An address space: its tables form a tree and the pool handed to the next call is fresh.\<close>

definition space_ok :: "arch \<Rightarrow> u64 \<Rightarrow> u64 \<Rightarrow> u64 \<Rightarrow> phys_mem \<Rightarrow> bool" where
  "space_ok a t base len m \<longleftrightarrow>
     pt_inv (pg_entry (paging_of a)) (pa_width a) 2 t base len \<lparr>pt_used = 0, pt_mem = m\<rparr>"

definition in_range :: "u64 \<Rightarrow> u64 \<Rightarrow> u64 \<Rightarrow> bool" where
  "in_range v len va \<longleftrightarrow> unat v \<le> unat va \<and> unat va < unat v + unat len"

lemma aligned_iff: "(x :: u64) AND 0xFFF = 0 \<longleftrightarrow> 4096 dvd unat x"
proof -
  have "(0xFFF :: u64) = mask 12" by (simp add: mask_eq_exp_minus_1)
  then have "unat (x AND 0xFFF) = unat x mod 4096"
    by (simp only: take_bit_eq_mask [symmetric] unsigned_take_bit_eq) (simp add: take_bit_eq_mod)
  then show ?thesis by (metis dvd_eq_mod_eq_0 unat_eq_0 unsigned_0)
qed

lemma or_aligned: "(x OR y :: u64) AND z = 0 \<longleftrightarrow> x AND z = 0 \<and> y AND z = 0"
  by (auto simp: bit_eq_iff bit_simps)

lemma page_rangeD:
  assumes "page_range root v p len"
  shows "4096 dvd unat v" and "4096 dvd unat p" and "4096 dvd unat len" and "len \<noteq> 0"
    and "unat v + unat len \<le> 2 ^ 39" and "unat p + unat len \<le> 2 ^ 64"
    and "unat (len div 4096) * 4096 = unat len"
    and "pages_ok v p [0 ..< unat (len div 4096)]"
proof -
  show a: "4096 dvd unat v" "4096 dvd unat p" "4096 dvd unat len" "len \<noteq> 0"
    and e: "unat v + unat len \<le> 2 ^ 39" "unat p + unat len \<le> 2 ^ 64"
    using assms by (auto simp: page_range_def or_aligned simp flip: aligned_iff)
  show n: "unat (len div 4096) * 4096 = unat len"
    using a(3) by (simp add: unat_div)
  show "pages_ok v p [0 ..< unat (len div 4096)]"
    using a e n by (auto simp: pages_ok_def)
qed

lemma vpns_page: "drop_bit 12 va = drop_bit 12 vb \<Longrightarrow> vpns va = vpns vb"
proof -
  assume eq: "drop_bit 12 va = drop_bit 12 vb"
  have "vpn va n = vpn vb n" if "12 \<le> n" for n
  proof (rule bit_word_eqI)
    fix k
    have "bit (drop_bit 12 va) (n + k - 12) = bit (drop_bit 12 vb) (n + k - 12)" using eq by simp
    then show "bit (vpn va n) k = bit (vpn vb n) k" using that by (simp add: bit_vpn bit_drop_bit_eq)
  qed
  then show "vpns va = vpns vb" by (simp add: vpns_def)
qed

lemma page_index:
  assumes "4096 dvd unat v" and "4096 dvd unat len" and "in_range v len va"
    and "unat v + unat len \<le> 2 ^ 39"
  defines "k \<equiv> (unat va - unat v) div 4096"
  shows "k < unat len div 4096" and "vpns va = vpns (v + of_nat k * 4096)"
proof -
  have le: "unat v \<le> unat va" "unat va - unat v < unat len"
    using assms(3) by (auto simp: in_range_def)
  obtain j where j: "unat len = 4096 * j" using assms(2) by (auto elim: dvdE)
  have "k < j" using le(2) j unfolding k_def by (simp add: less_mult_imp_div_less mult.commute)
  then show "k < unat len div 4096" using j by simp
  obtain l where l: "unat v = 4096 * l" using assms(1) by (auto elim: dvdE)
  have "unat v + 4096 * k < 2 ^ 64" using \<open>k < j\<close> j assms(4) by simp
  then have u: "unat (v + of_nat k * 4096) = unat v + 4096 * k" by (rule page_sum(2))
  have "unat va div 4096 = l + k"
  proof -
    have "unat va = 4096 * l + (unat va - unat v)" using le(1) l by simp
    then show ?thesis unfolding k_def by (metis div_mult_self2 zero_neq_numeral add.commute)
  qed
  moreover have "(unat v + 4096 * k) div 4096 = l + k" using l by simp
  ultimately have "drop_bit 12 va = drop_bit 12 (v + of_nat k * 4096)"
    by (simp only: word_unat_eq_iff unat_drop_bit_eq u) (simp add: drop_bit_eq_div)
  then show "vpns va = vpns (v + of_nat k * 4096)" by (rule vpns_page)
qed

lemma page_outside:
  assumes "4096 dvd unat v" and "4096 dvd unat len" and "va < 2 ^ 39" and "\<not> in_range v len va"
    and "unat v + unat len \<le> 2 ^ 39" and "k < unat len div 4096"
  shows "vpns va \<noteq> vpns (v + of_nat k * 4096)"
proof
  assume eq: "vpns va = vpns (v + of_nat k * 4096)"
  obtain j where j: "unat len = 4096 * j" using assms(2) by (auto elim: dvdE)
  obtain l where l: "unat v = 4096 * l" using assms(1) by (auto elim: dvdE)
  have k: "k < j" using assms(6) j by simp
  then have "unat v + 4096 * k < 2 ^ 64" using assms(5) j by simp
  then have u: "unat (v + of_nat k * 4096) = unat v + 4096 * k" by (rule page_sum(2))
  have "v + of_nat k * 4096 < 2 ^ 39" using u k assms(5) j by (simp add: word_less_nat_alt)
  from vpns_inject [OF assms(3) this eq]
  have "unat va div 4096 = (unat v + 4096 * k) div 4096"
    by (simp only: word_unat_eq_iff unat_drop_bit_eq u) (simp add: drop_bit_eq_div)
  then have "unat va div 4096 = l + k" using l by simp
  then have "unat va = 4096 * (l + k) + unat va mod 4096" by (metis mult_div_mod_eq)
  moreover have "unat va mod 4096 < 4096" by simp
  ultimately have "4096 * (l + k) \<le> unat va" "unat va < 4096 * (l + k) + 4096" by linarith+
  then show False using assms(4) k l j by (auto simp: in_range_def)
qed

text \<open>What is left of a pool is a pool.\<close>

lemma pt_inv_rest:
  assumes "pt_inv F b d root base len \<lparr>pt_used = u, pt_mem = m\<rparr>" and "b \<le> 64"
  shows "pt_inv F b d root (base + u * 4096) (len - u) \<lparr>pt_used = 0, pt_mem = m\<rparr>"
proof -
  have tree: "table_tree F b d m root" and pool: "pool_ready F b d root base len \<lparr>pt_used = u, pt_mem = m\<rparr>"
    using assms(1) by (simp_all add: pt_inv_def)
  have room: "unat base + 4096 * unat len \<le> 2 ^ b" "4096 dvd unat base" "u \<le> len"
    using pool by (simp_all add: pool_ready_def)
  have left: "unat (len - u) = unat len - unat u" using room(3) by (simp add: unat_sub_exact)
  show ?thesis
  proof (cases "u = len")
    case True
    have "4096 dvd unat (base + u * 4096) \<and> unat (base + u * 4096) \<le> 2 ^ b"
    proof -
      have "unat (base + of_nat (unat u) * 4096 :: u64) = (unat base + 4096 * unat u) mod 2 ^ 64"
        by (simp add: unat_word_ariths mod_simps mult.commute)
      moreover have "4096 dvd (unat base + 4096 * unat u) mod 2 ^ 64"
        using room(2) by (simp add: dvd_mod)
      moreover have "(unat base + 4096 * unat u) mod 2 ^ 64 \<le> 2 ^ b"
        using room(1) True by (meson le_trans mod_less_eq_dividend)
      ultimately show ?thesis by simp
    qed
    then show ?thesis using tree True left by (simp add: pt_inv_def pool_ready_def)
  next
    case False
    then have lt: "unat u < unat len" using room(3) by (simp add: word_le_nat_alt word_less_nat_alt le_less word_unat_eq_iff)
    have base: "unat (base + u * 4096) = unat base + 4096 * unat u"
      using unat_pool_frame [OF room(1) assms(2) lt] by simp
    have shift: "base + u * 4096 + of_nat k * 4096 = base + of_nat (unat u + k) * 4096" for k
      by (simp add: algebra_simps)
    have "pool_ready F b d root (base + u * 4096) (len - u) \<lparr>pt_used = 0, pt_mem = m\<rparr>"
      unfolding pool_ready_def shift
    proof (intro conjI allI impI)
      fix k assume "unat (pt_used \<lparr>pt_used = 0, pt_mem = m\<rparr>) \<le> k \<and> k < unat (len - u)"
      then have k: "unat u \<le> unat u + k" "unat u + k < unat len" using left by auto
      show "pt_mem \<lparr>pt_used = 0, pt_mem = m\<rparr> (slot (base + of_nat (unat u + k) * 4096) i) = 0"
        if "i < 512" for i
        using pool k that unfolding pool_ready_def pt_state.simps by blast
      show "frame_at F (pt_mem \<lparr>pt_used = 0, pt_mem = m\<rparr>) root q \<noteq>
          Some (base + of_nat (unat u + k) * 4096)" if "is_path d q" for q
        using pool k that unfolding pool_ready_def pt_state.simps by blast
    qed (use base room lt left in \<open>simp_all add: dvd_add diff_mult_distrib2\<close>)
    then show ?thesis using tree by (simp add: pt_inv_def)
  qed
qed

text \<open>Everything a call does, in one statement.\<close>

lemma map_range_run:
  assumes top: "pg_top (paging_of a) root = Ok t" and ok: "space_ok a t base plen m"
    and range: "page_range root v p len"
    and run: "map_range (paging_of a) root v p len perm base plen m = (r, m')"
  obtains (mapped) u where "r = Ok (ucast u)" "u \<le> plen" "unat u \<le> 2 * (unat len div 4096)"
      "space_ok a t (base + u * 4096) (plen - u) m'"
      "\<And>va. va < 2 ^ 39 \<Longrightarrow> page_of (paging_of a) t m' va =
        (if in_range v len va
         then Some (0, pg_leaf (paging_of a) perm (p + of_nat ((unat va - unat v) div 4096) * 4096))
         else page_of (paging_of a) t m va)"
      "within (pg_entry (paging_of a)) 2 t base plen \<lparr>pt_used = 0, pt_mem = m\<rparr> \<lparr>pt_used = u, pt_mem = m'\<rparr>"
      "pt_inv (pg_entry (paging_of a)) (pa_width a) 2 t base plen \<lparr>pt_used = u, pt_mem = m'\<rparr>"
  | (failed) u where "r = Ok (- 1)" "u \<le> plen"
      "space_ok a t (base + u * 4096) (plen - u) m'"
      "\<And>va. va < 2 ^ 39 \<Longrightarrow> \<not> in_range v len va \<Longrightarrow>
         page_of (paging_of a) t m' va = page_of (paging_of a) t m va"
      "unat plen < 2 * (unat len div 4096) \<or>
         (\<exists>va. in_range v len va \<and> blocked (pg_entry (paging_of a)) m t (vpns va))"
      "len = 4096 \<Longrightarrow> va < 2 ^ 39 \<Longrightarrow> page_of (paging_of a) t m' va = page_of (paging_of a) t m va"
      "within (pg_entry (paging_of a)) 2 t base plen \<lparr>pt_used = 0, pt_mem = m\<rparr> \<lparr>pt_used = u, pt_mem = m'\<rparr>"
      "pt_inv (pg_entry (paging_of a)) (pa_width a) 2 t base plen \<lparr>pt_used = u, pt_mem = m'\<rparr>"
proof -
  let ?A = "paging_of a" and ?s = "\<lparr>pt_used = 0, pt_mem = m\<rparr>" and ?n = "unat len div 4096"
  let ?F = "pg_entry ?A"
  note R = page_rangeD [OF range]
  have inv: "pt_inv ?F (pa_width a) 2 t base plen ?s" using ok by (simp add: space_ok_def)
  have n: "unat (len div 4096) = ?n" by (simp add: unat_div)
  obtain r1 s1 where loop: "map_pages ?A t v p perm base plen [0 ..< ?n] ?s = (r1, s1)" by fastforce
  have out: "r = (case r1 of Ok _ \<Rightarrow> Ok (ucast (pt_used s1)) | Err _ \<Rightarrow> Ok (- 1) | Panic \<Rightarrow> Panic)"
    "m' = pt_mem s1"
    using run top range loop by (auto simp: map_range_def page_range_def n)
  have ks: "pages_ok v p [0 ..< ?n]" using R(8) n by simp
  note M = hw.map_pages_outcome [OF inv ks loop]
  let ?q = "\<lambda>k. vpns (v + of_nat k * 4096)"
  have s1: "s1 = \<lparr>pt_used = pt_used s1, pt_mem = m'\<rparr>" using out(2) by simp
  have inv1: "pt_inv ?F (pa_width a) 2 t base plen \<lparr>pt_used = pt_used s1, pt_mem = m'\<rparr>"
    using M s1 by metis
  have le: "pt_used s1 \<le> plen" using inv1 by (simp add: pt_inv_def pool_ready_def)
  have rest: "space_ok a t (base + pt_used s1 * 4096) (plen - pt_used s1) m'"
    unfolding space_ok_def by (rule pt_inv_rest [OF inv1 hw.width])
  have away: "page_of ?A t m' va = page_of ?A t m va" if "va < 2 ^ 39" "\<not> in_range v len va" for va
    using M page_outside [OF R(1,3) that R(5)] out(2) by (simp add: page_of_def)
  have start: "in_range v len (v + of_nat k * 4096)" if "k < ?n" for k
  proof -
    have "unat v + 4096 * k + 4096 \<le> unat v + unat len" using that R(3) by (auto elim!: dvdE)
    moreover from this have "unat (v + of_nat k * 4096) = unat v + 4096 * k"
      using R(5) by (intro page_sum(2)) simp
    ultimately show ?thesis by (simp add: in_range_def)
  qed
  show thesis
  proof (cases r1)
    case (Ok x)
    have here: "page_of ?A t m' va =
        Some (0, pg_leaf ?A perm (p + of_nat ((unat va - unat v) div 4096) * 4096))"
      if "in_range v len va" for va
      using M Ok page_index [OF R(1,3) that R(5)] out(2)
      by (simp add: page_of_def Let_def)
    show thesis
      by (rule mapped [of "pt_used s1"]) (use Ok out(1) le M rest here away inv1 s1 in auto)
  next
    case (Err e)
    have "unat plen < 2 * ?n \<or> (\<exists>k < ?n. blocked ?F m t (?q k))" using M Err by auto
    then have why: "unat plen < 2 * ?n \<or> (\<exists>va. in_range v len va \<and> blocked ?F m t (vpns va))"
      using start by blast
    have single: "page_of ?A t m' va = page_of ?A t m va" if "len = 4096" for va
    proof -
      have "?n = 1" using that by simp
      then have "map_pages ?A t v p perm base plen [0] ?s = (r1, s1)" using loop by simp
      moreover have "add_or_panic v 0 = (Ok v :: (unit, u64) res)" "add_or_panic p 0 = (Ok p :: (unit, u64) res)"
        using unat_bound [of v] unat_bound [of p] by (simp_all add: add_or_panic_Ok)
      ultimately have "map_one ?A t v p perm base plen ?s = (r1, s1)"
        using Err by (cases "map_one ?A t v p perm base plen ?s"; cases "fst (map_one ?A t v p perm base plen ?s)") auto
      from hw.map_one_outcome(4) [OF inv this] show ?thesis
        using Err out(2) by (simp add: page_of_def)
    qed
    show thesis
      by (rule failed [of "pt_used s1"]) (use Err out(1) le rest why away single M inv1 s1 in auto)
  next
    case Panic
    then show thesis using M by simp
  qed
qed

section \<open>A fresh address space\<close>

text \<open>A table that links to at most one other, which links to none, is a whole address space.\<close>

abbreviation opens :: "pt_format \<Rightarrow> u64 \<Rightarrow> bool" where
  "opens F e \<equiv> pte_valid F e \<and> \<not> pte_block F e"

lemma shallow_space:
  assumes t: "frame_ok b t" "\<And>k. k < unat len \<Longrightarrow> base + of_nat k * 4096 \<noteq> t"
    and link: "\<And>i. i < 512 \<Longrightarrow> opens F (m (slot t i)) \<Longrightarrow> i = g \<and> pte_table F (m (slot t i)) = n \<and>
      n \<noteq> t \<and> frame_ok b n \<and> (\<forall>k < unat len. base + of_nat k * 4096 \<noteq> n) \<and>
      (\<forall>j < 512. \<not> opens F (m (slot n j)))"
    and pool: "4096 dvd unat base" "unat base + 4096 * unat len \<le> 2 ^ b"
      "\<And>k i. k < unat len \<Longrightarrow> i < 512 \<Longrightarrow> m (slot (base + of_nat k * 4096) i) = 0"
  shows "pt_inv F b 2 t base len \<lparr>pt_used = 0, pt_mem = m\<rparr>"
proof -
  have at: "q = [] \<and> f = t \<or> q = [g] \<and> f = n \<and> n \<noteq> t \<and> frame_ok b n \<and>
      (\<forall>k < unat len. base + of_nat k * 4096 \<noteq> n)"
    if "is_path 2 q" "frame_at F m t q = Some f" for q f
  proof (cases q)
    case (Cons i r)
    have i: "i < 512" "opens F (m (slot t i))" and f: "frame_at F m (pte_table F (m (slot t i))) r = Some f"
      using that Cons by (auto simp: is_path_def Let_def split: if_splits)
    note l = link [OF i]
    have "r = []"
    proof (cases r)
      case (Cons j u)
      then have "j < 512" using that(1) \<open>q = i # r\<close> by (simp add: is_path_def)
      then show ?thesis using f Cons l by (auto simp: Let_def split: if_splits)
    qed
    then show ?thesis using Cons l f by auto
  qed (use that in simp)
  have "table_tree F b 2 m t"
    unfolding table_tree_def using at t(1) by (metis (no_types, lifting))
  moreover have "pool_ready F b 2 t base len \<lparr>pt_used = 0, pt_mem = m\<rparr>"
    unfolding pool_ready_def pt_state.simps
  proof (intro conjI allI impI)
    fix k q assume "unat (0 :: u64) \<le> k \<and> k < unat len" and q: "is_path 2 q"
    then have k: "k < unat len" by simp
    show "frame_at F m t q \<noteq> Some (base + of_nat k * 4096)"
      using at [OF q] t(2) [OF k] k by metis
  qed (use pool in auto)
  ultimately show ?thesis by (simp add: pt_inv_def)
qed

text \<open>The pool of an address space: aligned, in range, zero, away from the tables in \<open>ts\<close>.\<close>

definition fresh_pool :: "nat \<Rightarrow> u64 \<Rightarrow> u64 \<Rightarrow> u64 list \<Rightarrow> phys_mem \<Rightarrow> bool" where
  "fresh_pool b base len ts m \<longleftrightarrow> 4096 dvd unat base \<and> unat base + 4096 * unat len \<le> 2 ^ b \<and>
     (\<forall>k < unat len. (\<forall>t \<in> set ts. base + of_nat k * 4096 \<noteq> t) \<and>
        (\<forall>i < 512. m (slot (base + of_nat k * 4096) i) = 0))"

lemma fresh_pool_aligned:
  assumes "fresh_pool b base len ts m" and "b \<le> 64" and "k < unat len"
  shows "4096 dvd unat (base + of_nat k * 4096)"
  using assms unat_pool_frame [of base len b k] by (simp add: fresh_pool_def)

section \<open>The routine behind the kernel's interface\<close>

text \<open>The \<open>HalInterface\<close> the kernel is handed on an architecture, over the memory it finds.
  The interrupt controller stays a parameter.\<close>

definition hal_of :: "arch \<Rightarrow> (u32 \<Rightarrow> irq_handler \<Rightarrow> bool) \<Rightarrow> phys_mem \<Rightarrow> hal_interface" where
  "hal_of a irq m = \<lparr>hal_map_range = (\<lambda>root v p n pb base len.
       case fst (map_range (paging_of a) root v p n pb base len m) of Ok w \<Rightarrow> w | _ \<Rightarrow> - 1),
     hal_register_irq = irq\<rparr>"

lemma next_table_used:
  "pt_used s \<le> len \<Longrightarrow> pt_used (snd (next_table F base len addr s)) \<le> len"
  by (cases "pool_frame base (pt_used s) :: (unit, u64) res")
    (auto simp: next_table_def Let_def not_le inc_le)

lemma descend_used:
  "pt_used s \<le> len \<Longrightarrow> pt_used (snd (descend F base len is t s)) \<le> len"
proof (induction "is" arbitrary: t s)
  case (Cons i "is")
  then show ?case
    using next_table_used [of s len F base "slot t i"]
    by (cases "next_table F base len (slot t i) s"; cases "fst (next_table F base len (slot t i) s)") auto
qed simp

lemma map_one_used:
  "pt_used s \<le> len \<Longrightarrow> pt_used (snd (map_one A t va pa perm base len s)) \<le> len"
  using descend_used [of s len "pg_entry A" base "[vpn va 30, vpn va 21]" t]
  by (cases "descend (pg_entry A) base len [vpn va 30, vpn va 21] t s";
      cases "fst (descend (pg_entry A) base len [vpn va 30, vpn va 21] t s)")
    (auto simp: map_one_def write_entry_def)

lemma map_pages_used:
  "pt_used s \<le> len \<Longrightarrow> pt_used (snd (map_pages A t v p perm base len ks s)) \<le> len"
proof (induction ks arbitrary: s)
  case (Cons k ks)
  let ?va = "add_or_panic v (of_nat k * 4096) :: (unit, u64) res"
    and ?pa = "add_or_panic p (of_nat k * 4096) :: (unit, u64) res"
  show ?case
  proof (cases ?va)
    case va: (Ok va)
    show ?thesis
    proof (cases ?pa)
      case (Ok pa)
      then show ?thesis
        using va Cons.IH map_one_used [OF Cons.prems, of A t va pa perm base]
        by (cases "map_one A t va pa perm base len s"; cases "fst (map_one A t va pa perm base len s)") auto
    qed (use va Cons.prems in auto)
  qed (use Cons.prems in auto)
qed simp

lemma unat_low_half: "unat (ucast (u :: u64) :: u32) = unat u mod 2 ^ 32"
  using unat_ucast_down [where x = u and 'b = 32] by simp

lemma used_cast:
  assumes "u \<le> plen" and "unat (plen :: u64) < 2 ^ 32 - 1"
  shows "ucast (ucast u :: u32) = u" and "ucast u \<noteq> (- 1 :: u32)"
proof -
  have lt: "unat u < 2 ^ 32 - 1" using assms by (simp add: word_le_nat_alt)
  then have "unat (ucast (ucast u :: u32) :: u64) = unat u"
    by (simp add: unat_ucast_up unat_low_half)
  then show "ucast (ucast u :: u32) = u" by (simp only: word_unat_eq_iff)
  show "ucast u \<noteq> (- 1 :: u32)"
  proof
    assume "ucast u = (- 1 :: u32)"
    then have "unat (ucast u :: u32) = 2 ^ 32 - 1" by (simp add: unat_all_ones)
    then show False using lt by (simp add: unat_low_half)
  qed
qed

lemma map_range_within_pool:
  assumes "map_range A root v p len perm base plen m = (Ok n, m')"
  shows "n = - 1 \<or> unat n \<le> unat plen"
proof -
  have small: "unat (ucast u :: u32) \<le> unat plen" if "u \<le> plen" for u :: u64
    using that by (simp add: unat_low_half word_le_nat_alt le_trans [OF mod_less_eq_dividend])
  show ?thesis
  proof (cases "root = 0 \<or> len = 0 \<or> (v OR p OR len) AND 0xFFF \<noteq> 0")
    case True
    then show ?thesis using assms by (auto simp: map_range_def)
  next
    case False
    then obtain t where t: "pg_top A root = Ok t"
      using assms by (cases "pg_top A root") (auto simp: map_range_def)
    obtain r s where loop: "map_pages A t v p perm base plen [0 ..< unat (len div 4096)]
        \<lparr>pt_used = 0, pt_mem = m\<rparr> = (r, s)" by fastforce
    then have "pt_used s \<le> plen"
      using map_pages_used [of "\<lparr>pt_used = 0, pt_mem = m\<rparr>" plen A t v p perm base] by (metis snd_conv pt_state.select_convs(1) word_zero_le)
    from small [OF this] show ?thesis
      using assms False t loop by (cases r) (auto simp: map_range_def)
  qed
qed

text \<open>The page-table routine of every architecture keeps the contract the kernel's system
  calls are verified against: whatever it is asked, it reports \<open>u32::MAX\<close> or a number of frames
  the pool had.\<close>

lemma real_hal_ok: "hal_ok (hal_of a irq m)"
  unfolding hal_ok_def
proof (intro allI)
  fix root v p n pb base len
  obtain r m' where "map_range (paging_of a) root v p n pb base len m = (r, m')" by fastforce
  then show "hal_map_range (hal_of a irq m) root v p n pb base len = - 1 \<or>
      unat (hal_map_range (hal_of a irq m) root v p n pb base len) \<le> unat len"
    using map_range_within_pool by (cases r) (auto simp: hal_of_def)
qed

section \<open>Properties\<close>



text \<open>C38: Mapping into one address space leaves every other one alone: a space whose tables are
  disjoint from the first translates as before, whatever the call returned, and when it succeeded
  both spaces go on sharing the rest of the pool.\<close>

theorem map_range_isolated:
  assumes "pg_top (paging_of a) root = Ok t" and "space_ok a t base plen m"
    and "page_range root v p len" and "unat plen < 2 ^ 32 - 1"
    and "map_range (paging_of a) root v p len perm base plen m = (Ok n, m')"
    and "space_ok a u base plen m"
    and "tree_frames (pg_entry (paging_of a)) 2 t m \<inter> tree_frames (pg_entry (paging_of a)) 2 u m = {}"
  shows "page_of (paging_of a) u m' va = page_of (paging_of a) u m va \<and>
    (n \<noteq> - 1 \<longrightarrow> space_ok a u (base + ucast n * 4096) (plen - ucast n) m')"
proof -
  let ?F = "pg_entry (paging_of a)"
  have other: "page_of (paging_of a) u m' va = page_of (paging_of a) u m va \<and>
      space_ok a u (base + w * 4096) (plen - w) m'"
    if w: "within ?F 2 t base plen \<lparr>pt_used = 0, pt_mem = m\<rparr> \<lparr>pt_used = w, pt_mem = m'\<rparr>"
      "pt_inv ?F (pa_width a) 2 t base plen \<lparr>pt_used = w, pt_mem = m'\<rparr>" for w
  proof -
    note o = other_tree [OF assms(2) [unfolded space_ok_def] hw.width w assms(6) [unfolded space_ok_def]]
    have "same_view ?F 2 u m m'" and "pt_inv ?F (pa_width a) 2 u base plen \<lparr>pt_used = w, pt_mem = m'\<rparr>"
      using o(1,2) assms(7) by simp_all
    then show ?thesis
      unfolding space_ok_def using pt_inv_rest [OF _ hw.width]
      by (auto simp: page_of_def same_view_def)
  qed
  show ?thesis
    using assms(1,2,3,5)
  proof (cases rule: map_range_run [where va = va])
    case (mapped w)
    then show ?thesis using other [of w] used_cast [OF mapped(2) assms(4)] by auto
  next
    case (failed w)
    then show ?thesis using other [of w] by auto
  qed
qed

section \<open>A run on an empty memory\<close>

text \<open>An empty root at 0x80200000 and a pool of eight frames at 0x80300000, on RISC-V.\<close>

abbreviation blank :: phys_mem where
  "blank \<equiv> \<lambda>_. 0"

lemma blank_space:
  assumes "frame_ok (pa_width a) t" and "unat t < unat base" and "4096 dvd unat base"
    and "unat base + 4096 * unat len \<le> 2 ^ pa_width a"
  shows "space_ok a t base len blank"
  unfolding space_ok_def
proof (rule shallow_space)
  show "base + of_nat k * 4096 \<noteq> t" if "k < unat len" for k
    using unat_pool_frame [OF assms(4) hw.width that] assms(2) by auto
qed (use assms hw.zero_invalid in auto)

lemma blank_riscv: "space_ok RiscV64 0x80200000 0x80300000 8 blank"
  by (rule blank_space) (simp_all add: frame_ok_def)

lemma blank_frames: "tree_frames (pg_entry (paging_of a)) 2 t blank = {t}"
proof -
  have "frame_at (pg_entry (paging_of a)) blank t q = (if q = [] then Some t else None)" for q
    using hw.zero_invalid by (cases q) auto
  then show ?thesis by (auto simp: tree_frames_def is_path_def)
qed

abbreviation sample_call :: "(unit, u32) res \<times> phys_mem" where
  "sample_call \<equiv> map_range riscv_sv39 0x80200000 0x40000000 0x80400000 0x2000 11 0x80300000 8 blank"

lemma sample_range: "page_range 0x80200000 0x40000000 0x80400000 0x2000"
  by (simp add: page_range_def)

lemma sample_result: "fst sample_call = Ok 2"
  by code_simp

lemma sample_pair: "sample_call = (Ok 2, snd sample_call)"
  using sample_result by (metis prod.collapse)


lemma blank_open: "\<not> blocked (pg_entry (paging_of a)) blank t q"
proof -
  have "leaf_at (pg_entry (paging_of a)) blank t q = None"
    using hw.zero_invalid
    by (cases "(pg_entry (paging_of a), blank, t, q)" rule: leaf_at.cases) (simp_all add: leaf_at.simps)
  then show ?thesis by (simp add: blocked_def)
qed


theorem map_range_isolated_witness:
  "page_of riscv_sv39 0x80201000 (snd sample_call) 0x40001010 = page_of riscv_sv39 0x80201000 blank 0x40001010 \<and>
   space_ok RiscV64 0x80201000 (0x80300000 + 2 * 4096) (8 - 2) (snd sample_call)"
proof -
  have other: "space_ok RiscV64 0x80201000 0x80300000 8 blank"
    by (rule blank_space) (simp_all add: frame_ok_def)
  have "tree_frames (pg_entry (paging_of RiscV64)) 2 0x80200000 blank \<inter>
      tree_frames (pg_entry (paging_of RiscV64)) 2 0x80201000 blank = {}"
    unfolding blank_frames by simp
  from map_range_isolated [of RiscV64 "0x80200000" "0x80200000" "0x80300000" 8 blank "0x40000000"
      "0x80400000" "0x2000" 11 2 "snd sample_call" "0x80201000", OF _ blank_riscv sample_range _ _ other this]
  show ?thesis using sample_pair by (simp add: riscv_sv39_def)
qed

end
