(* ===== verification/IdentityMap.thy ===== *)
theory IdentityMap
  imports MapRange
begin

text \<open>
  \<open>map_ram_identity\<close> of the three architecture layers: it clears the frames of a new root and
  maps the first gigabytes of memory to themselves with one block entry each. On x86-64 it also
  links the PML4 to its PDPT and adds a kernel-only 2 MiB entry for the local interrupt controller.

  The result is an address space in the sense of \<open>MapRange\<close> (\<open>space_ok\<close>), with the translation
  written out, and the hardware grants unprivileged code nothing in it unless asked to.
\<close>

section \<open>map_ram_identity\<close>

text \<open>Zeroing a table, and the loop over the 1 GiB blocks.\<close>

definition zero_tables :: "u64 list \<Rightarrow> phys_mem \<Rightarrow> phys_mem" where
  "zero_tables ts m =
     fold (\<lambda>a m. m(a := 0)) (concat (map (\<lambda>i. map (\<lambda>t. slot t (of_nat i)) ts) [0 ..< 512])) m"

definition write_blocks :: "u64 \<Rightarrow> (u64 \<Rightarrow> u64) \<Rightarrow> nat \<Rightarrow> phys_mem \<Rightarrow> phys_mem" where
  "write_blocks t block n m = fold (\<lambda>i m. m(slot t (of_nat i) := block (of_nat i))) [0 ..< n] m"

definition riscv_block :: "bool \<Rightarrow> u64 \<Rightarrow> u64" where
  "riscv_block user gib = push_bit 28 gib OR
     (1 OR 2 OR 4 OR 8 OR 0x40 OR 0x80 OR (if user then 0x10 else 0))"

definition riscv_map_ram_identity :: "u64 \<Rightarrow> u64 \<Rightarrow> bool \<Rightarrow> phys_mem \<Rightarrow> phys_mem" where
  "riscv_map_ram_identity root_frame bytes_gib user m =
     write_blocks root_frame (riscv_block user) (min (unat bytes_gib) 512) (zero_tables [root_frame] m)"

definition arm_block :: "bool \<Rightarrow> u64 \<Rightarrow> u64" where
  "arm_block user gib = (push_bit 30 gib AND 0x0000FFFFFFFFF000) OR
     (1 OR 0 OR 0x300 OR 0x400 OR (if user then 0x40 else 0))"

definition arm_map_ram_identity :: "u64 \<Rightarrow> u64 \<Rightarrow> bool \<Rightarrow> phys_mem \<Rightarrow> phys_mem" where
  "arm_map_ram_identity root_frame bytes_gib user m =
     write_blocks root_frame (arm_block user) (min (unat bytes_gib) 512) (zero_tables [root_frame] m)"

definition x86_block :: "bool \<Rightarrow> u64 \<Rightarrow> u64" where
  "x86_block user gib = push_bit 30 gib OR (1 OR 2 OR 0x80 OR (if user then 4 else 0))"

text \<open>On x86-64 the PML4, its first PDPT and the table for the local interrupt controller are
  three neighbouring frames; \<open>apic\<close> is the masked base the routine reads from the processor.
  The sums wrap here and panic in the source for a root within three pages of 2^64, which
  \<open>roots_ok\<close> rules out.\<close>

definition x86_map_ram_identity :: "u64 \<Rightarrow> u64 \<Rightarrow> u64 \<Rightarrow> bool \<Rightarrow> phys_mem \<Rightarrow> phys_mem" where
  "x86_map_ram_identity apic root_frame bytes_gib user m =
     (let pdpt = root_frame + 4096; xapic_pd = root_frame + 8192;
          m = zero_tables [root_frame, pdpt, xapic_pd] m;
          m = m(slot root_frame 0 := pdpt OR (1 OR 2 OR 4));
          m = write_blocks pdpt (x86_block user) (min (unat bytes_gib) 512) m;
          xapic_gib = drop_bit 30 apic
      in if bytes_gib \<le> xapic_gib \<and> xapic_gib < 512
         then (m(slot xapic_pd (vpn apic 21) := (apic AND NOT 0x1FFFFF) OR 1 OR 2 OR 0x80))
                (slot pdpt xapic_gib := (root_frame + 8192) OR 1 OR 2 OR 4)
         else m)"

lemma slot_nat_inject:
  assumes "4096 dvd unat t" and "4096 dvd unat u" and "i < 512" and "j < 512"
  shows "slot t (of_nat i) = slot u (of_nat j) \<longleftrightarrow> t = u \<and> i = j"
proof
  assume eq: "slot t (of_nat i) = slot u (of_nat j)"
  have s: "(of_nat k :: u64) < 512" if "k < 512" for k
    using that by (simp add: word_less_nat_alt unat_of_nat)
  have "(of_nat i :: u64) = of_nat j"
    using slot_inject(2) [OF assms(1,2) s [OF assms(3)] s [OF assms(4)] eq] .
  then show "t = u \<and> i = j"
    using slot_inject(1) [OF assms(1,2) s [OF assms(3)] s [OF assms(4)] eq] assms(3,4)
    by (simp add: of_nat_inj_small)
qed simp

lemma fold_zero: "fold (\<lambda>a m. m(a := 0)) as m a = (if a \<in> set as then 0 else m a :: u64)"
  by (induction as arbitrary: m) auto

lemma zero_tables_at: "t \<in> set ts \<Longrightarrow> i < 512 \<Longrightarrow> zero_tables ts m (slot t i) = 0"
proof -
  assume t: "t \<in> set ts" and i: "i < 512"
  have "unat i < 512" using i by (simp add: word_less_nat_alt)
  then have "slot t i \<in> set (concat (map (\<lambda>i. map (\<lambda>t. slot t (of_nat i)) ts) [0 ..< 512]))"
    using t by (auto intro!: bexI [of _ "unat i"])
  then show ?thesis unfolding zero_tables_def fold_zero by simp
qed

lemma zero_tables_off:
  assumes "\<And>t i. t \<in> set ts \<Longrightarrow> i < 512 \<Longrightarrow> a \<noteq> slot t i"
  shows "zero_tables ts m a = m a"
proof -
  have "a \<notin> set (concat (map (\<lambda>i. map (\<lambda>t. slot t (of_nat i)) ts) [0 ..< 512]))"
  proof
    assume "a \<in> set (concat (map (\<lambda>i. map (\<lambda>t. slot t (of_nat i)) ts) [0 ..< 512]))"
    then obtain t k where k: "t \<in> set ts" "k < 512" "a = slot t (of_nat k)" by auto
    then have "(of_nat k :: u64) < 512" by (simp add: word_less_nat_alt unat_of_nat)
    then show False using assms [OF k(1)] k(3) by blast
  qed
  then show ?thesis unfolding zero_tables_def fold_zero by simp
qed

lemma write_blocks_at:
  assumes "4096 dvd unat t" and "n \<le> 512" and "i < 512"
  shows "write_blocks t f n m (slot t i) = (if unat i < n then f i else m (slot t i))"
proof -
  have i: "i = of_nat (unat i)" "unat i < 512" using assms(3) by (simp_all add: word_less_nat_alt)
  have "fold (\<lambda>i m. m(slot t (of_nat i) := f (of_nat i))) [0 ..< n] m (slot t (of_nat j)) =
      (if j < n then f (of_nat j) else m (slot t (of_nat j)))" if "j < 512" for j
    using assms(2) that by (induction n) (auto simp: slot_nat_inject [OF assms(1) assms(1)])
  from this [OF i(2)] show ?thesis using i(1) by (simp add: write_blocks_def)
qed

lemma write_blocks_off:
  assumes "n \<le> 512" and "\<And>i. i < 512 \<Longrightarrow> a \<noteq> slot t i"
  shows "write_blocks t f n m a = m a"
proof -
  have "(of_nat k :: u64) < 512" if "k < 512" for k
    using that by (simp add: word_less_nat_alt unat_of_nat)
  then show ?thesis
    unfolding write_blocks_def using assms by (induction n) auto
qed

lemma riscv_block_bits:
  "bit (riscv_block user gib) n \<longleftrightarrow> 28 \<le> n \<and> n < 64 \<and> bit gib (n - 28) \<or> n \<in> {0, 1, 2, 3, 6, 7} \<or> n = 4 \<and> user"
  unfolding riscv_block_def by (simp only: raw_bits bit_push_bit_iff) auto

lemma arm_block_bits:
  "bit (arm_block user gib) n \<longleftrightarrow> 30 \<le> n \<and> n < 48 \<and> bit gib (n - 30) \<or> n \<in> {0, 8, 9, 10} \<or> n = 6 \<and> user"
  unfolding arm_block_def by (simp only: bit_or_iff masked_bits) (simp only: raw_bits bit_push_bit_iff, auto)

lemma x86_block_bits:
  "bit (x86_block user gib) n \<longleftrightarrow> 30 \<le> n \<and> n < 64 \<and> bit gib (n - 30) \<or> n \<in> {0, 1, 7} \<or> n = 2 \<and> user"
  unfolding x86_block_def by (simp only: raw_bits bit_push_bit_iff) auto

fun block_of :: "arch \<Rightarrow> bool \<Rightarrow> u64 \<Rightarrow> u64" where
  "block_of RiscV64 user gib = riscv_block user gib"
| "block_of X86_64 user gib = x86_block user gib"
| "block_of AArch64 user gib = arm_block user gib"

fun map_ram_identity :: "arch \<Rightarrow> u64 \<Rightarrow> u64 \<Rightarrow> u64 \<Rightarrow> bool \<Rightarrow> phys_mem \<Rightarrow> phys_mem" where
  "map_ram_identity RiscV64 apic root gib user m = riscv_map_ram_identity root gib user m"
| "map_ram_identity X86_64 apic root gib user m = x86_map_ram_identity apic root gib user m"
| "map_ram_identity AArch64 apic root gib user m = arm_map_ram_identity root gib user m"

lemma block_entry:
  "pte_valid (pg_entry (paging_of a)) (block_of a user gib)"
  "pte_block (pg_entry (paging_of a)) (block_of a user gib)"
  by (cases a; simp add: riscv_tests x86_tests arm_tests riscv_block_bits x86_block_bits arm_block_bits)+

lemma gib_bits: "(g :: u64) < 512 \<Longrightarrow> bit g n \<Longrightarrow> n < 9"
proof (rule ccontr)
  assume g: "g < 512" "bit g n" "\<not> n < 9"
  have "bit (unat g) n" using g(2) by (simp add: bit_unsigned_iff bit_imp_le_length)
  then have "2 ^ n \<le> unat g" by (simp add: bit_iff_odd) (metis div_less even_zero not_le)
  moreover have "(2 :: nat) ^ 9 \<le> 2 ^ n" using g(3) by (intro power_increasing) auto
  moreover have "unat g < 512" using g(1) by (simp add: word_less_nat_alt)
  ultimately show False by simp
qed

text \<open>The hardware reads a block as the gigabyte at its own address, with every right for
  unprivileged code or with none.\<close>

lemma block_identity:
  assumes "gib < 512"
  shows "maps_to (mmu_of a) (block_of a user gib) = push_bit 30 gib"
    and "user_reads (mmu_of a) (block_of a user gib) = user"
    and "user_writes (mmu_of a) (block_of a user gib) = user"
    and "user_execs (mmu_of a) (block_of a user gib) = user"
proof -
  note bits = riscv_block_bits x86_block_bits arm_block_bits
  note g = gib_bits [OF assms]
  show "maps_to (mmu_of a) (block_of a user gib) = push_bit 30 gib"
  proof (cases a)
    case RiscV64
    show ?thesis
      unfolding RiscV64 block_of.simps mmu_of.simps mmu.simps field_masks
    proof (rule bit_word_eqI)
      fix n
      show "bit (push_bit 12 (drop_bit 10 (riscv_block user gib) AND mask 44)) n = bit (push_bit 30 gib) n"
        using g [of "n - 30"] by (auto simp: bit_push_bit_iff bit_and_iff bit_mask_iff bit_drop_bit_eq bits)
    qed
  next
    case X86_64
    show ?thesis
      unfolding X86_64 block_of.simps mmu_of.simps mmu.simps
    proof (rule bit_word_eqI)
      fix n
      show "bit (x86_block user gib AND 0x000FFFFFFFFFF000) n = bit (push_bit 30 gib) n"
        using g [of "n - 30"] by (simp only: masked_bits) (auto simp: bit_push_bit_iff bits)
    qed
  next
    case AArch64
    show ?thesis
      unfolding AArch64 block_of.simps mmu_of.simps mmu.simps
    proof (rule bit_word_eqI)
      fix n
      show "bit (arm_block user gib AND 0x0000FFFFFFFFF000) n = bit (push_bit 30 gib) n"
        using g [of "n - 30"] by (simp only: masked_bits) (auto simp: bit_push_bit_iff bits)
    qed
  qed
  have "\<not> bit gib 33" using g [of 33] by auto
  then show "user_reads (mmu_of a) (block_of a user gib) = user"
    and "user_writes (mmu_of a) (block_of a user gib) = user"
    and "user_execs (mmu_of a) (block_of a user gib) = user"
    by (cases a; simp add: bits)+
qed

lemma vpn_top_eq:
  assumes "va < 2 ^ 39"
  shows "vpn va 30 = drop_bit 30 va"
proof (rule bit_word_eqI)
  fix n
  show "bit (vpn va 30) n = bit (drop_bit 30 va) n"
    using high_bits [OF assms, of "30 + n"] by (cases "n < 9") (simp_all add: bit_vpn bit_drop_bit_eq)
qed

lemma vpn_top: "va < 2 ^ 39 \<Longrightarrow> unat (vpn va 30) = unat va div 2 ^ 30"
  by (simp only: vpn_top_eq unat_drop_bit_eq) (simp add: drop_bit_eq_div)

lemma vpn_window:
  "drop_bit 30 va = drop_bit 30 vb \<and> vpn va 21 = vpn vb 21 \<longleftrightarrow> drop_bit 21 va = drop_bit 21 vb"
  (is "?l \<longleftrightarrow> ?r")
proof
  assume l: ?l
  show ?r
  proof (rule bit_word_eqI)
    fix n
    have "bit (vpn va 21) n = bit (vpn vb 21) n" "bit (drop_bit 30 va) (n - 9) = bit (drop_bit 30 vb) (n - 9)"
      using l by simp_all
    then show "bit (drop_bit 21 va) n = bit (drop_bit 21 vb) n"
      by (cases "n < 9") (simp_all add: bit_vpn bit_drop_bit_eq)
  qed
next
  assume r: ?r
  have "bit va (21 + n) = bit vb (21 + n)" for n
    using r by (metis bit_drop_bit_eq comp_apply)
  then have "bit va n = bit vb n" if "21 \<le> n" for n using that by (metis le_add_diff_inverse)
  then show ?l by (auto intro!: bit_word_eqI simp: bit_vpn bit_drop_bit_eq)
qed

text \<open>RISC-V and AArch64: one table, blocks in front, nothing behind.\<close>

lemma flat_identity:
  assumes m': "\<And>i. i < 512 \<Longrightarrow> m' (slot t i) = (if unat i < min (unat gib) 512 then block_of a user i else 0)"
    and t: "frame_ok (pa_width a) t" and pool: "fresh_pool (pa_width a) base plen [t] m'"
  shows "space_ok a t base plen m'"
    and "va < 2 ^ 39 \<Longrightarrow> page_of (paging_of a) t m' va =
      (if unat va < unat gib * 2 ^ 30 then Some (2, block_of a user (vpn va 30)) else None)"
proof -
  note z = hw.zero_invalid
  show "space_ok a t base plen m'"
    unfolding space_ok_def
    by (rule shallow_space) (use t pool m' block_entry z in \<open>auto simp: fresh_pool_def split: if_splits\<close>)
  assume va: "va < 2 ^ 39"
  have lt: "unat (vpn va 30) < min (unat gib) 512 \<longleftrightarrow> unat va < unat gib * 2 ^ 30"
    using vpn_small [of va 30] vpn_top [OF va]
    by (simp add: word_less_nat_alt div_less_iff_less_mult)
  show "page_of (paging_of a) t m' va =
      (if unat va < unat gib * 2 ^ 30 then Some (2, block_of a user (vpn va 30)) else None)"
    using m' [OF vpn_small] lt block_entry z
    by (simp add: page_of_def vpns_def leaf_at.simps Let_def)
qed

text \<open>x86-64: the window of the local interrupt controller is one more 2 MiB entry, reachable
  by the kernel only.\<close>

definition apic_on :: "u64 \<Rightarrow> u64 \<Rightarrow> bool" where
  "apic_on apic gib \<longleftrightarrow> gib \<le> drop_bit 30 apic \<and> drop_bit 30 apic < 512"

definition apic_leaf :: "u64 \<Rightarrow> u64" where
  "apic_leaf apic = (apic AND NOT 0x1FFFFF) OR 1 OR 2 OR 0x80"

lemma x86_frames:
  assumes "frame_ok 52 root" and "unat root + 12288 \<le> 2 ^ 52"
  shows "unat (root + 4096) = unat root + 4096" and "unat (root + 8192) = unat root + 8192"
    and "frame_ok 52 (root + 4096)" and "frame_ok 52 (root + 8192)"
    and "root \<noteq> root + 4096" and "root + 4096 \<noteq> root + 8192" and "root \<noteq> root + 8192"
proof -
  show u: "unat (root + 4096) = unat root + 4096" "unat (root + 8192) = unat root + 8192"
    using unat_add_exact [of root 4096] unat_add_exact [of root 8192] assms(2) by simp_all
  show "frame_ok 52 (root + 4096)" "frame_ok 52 (root + 8192)"
    using assms u by (simp_all add: frame_ok_def)
  show "root \<noteq> root + 4096" "root + 4096 \<noteq> root + 8192" "root \<noteq> root + 8192"
    using u by (auto simp: word_unat_eq_iff)
qed

lemma x86_identity_memory:
  fixes apic root gib :: u64 and user :: bool and m :: phys_mem
  assumes root: "frame_ok 52 root" "unat root + 12288 \<le> 2 ^ 52"
  defines "m' \<equiv> x86_map_ram_identity apic root gib user m"
  shows "i < 512 \<Longrightarrow> m' (slot (root + 4096) i) =
      (if apic_on apic gib \<and> i = drop_bit 30 apic then (root + 8192) OR 1 OR 2 OR 4
       else if unat i < min (unat gib) 512 then x86_block user i else 0)"
    and "i < 512 \<Longrightarrow> m' (slot (root + 8192) i) =
      (if apic_on apic gib \<and> i = vpn apic 21 then apic_leaf apic else 0)"
    and "m' (slot root 0) = (root + 4096) OR (1 OR 2 OR 4)"
    and "(\<And>t i. t \<in> {root, root + 4096, root + 8192} \<Longrightarrow> i < 512 \<Longrightarrow> x \<noteq> slot t i) \<Longrightarrow> m' x = m x"
proof -
  note fr = x86_frames [OF root]
  have al: "4096 dvd unat root" "4096 dvd unat (root + 4096)" "4096 dvd unat (root + 8192)"
    using root fr(3,4) by (simp_all add: frame_ok_def)
  have ne: "slot t i \<noteq> slot u j" if "t \<noteq> u" "4096 dvd unat t" "4096 dvd unat u" "i < 512" "j < 512"
    for t u i j using slot_inject(1) [OF that(2-5)] that(1) by blast
  have eq: "slot t i = slot t j \<longleftrightarrow> i = j" if "4096 dvd unat t" "i < 512" "j < 512" for t i j
    using slot_inject(2) [OF that(1,1,2,3)] by blast
  let ?z = "zero_tables [root, root + 4096, root + 8192] m"
  let ?p = "?z(slot root 0 := (root + 4096) OR (1 OR 2 OR 4))"
  let ?b = "write_blocks (root + 4096) (x86_block user) (min (unat gib) 512) ?p"
  let ?g = "drop_bit 30 apic"
  have m': "m' = (if apic_on apic gib then (?b(slot (root + 8192) (vpn apic 21) := apic_leaf apic))
      (slot (root + 4096) ?g := (root + 8192) OR 1 OR 2 OR 4) else ?b)"
    by (simp only: m'_def x86_map_ram_identity_def Let_def apic_on_def apic_leaf_def)
  have g: "?g < 512" if "apic_on apic gib" using that by (simp add: apic_on_def)
  have b_pd: "?b (slot (root + 8192) i) = 0" if "i < 512" for i
    using write_blocks_off [of _ "slot (root + 8192) i" "root + 4096"]
      ne [OF fr(6) [symmetric] al(3,2) that] ne [OF fr(7) [symmetric] al(3,1) that, of 0]
      zero_tables_at [of "root + 8192" "[root, root + 4096, root + 8192]" i m] that by simp
  have b_pdpt: "?b (slot (root + 4096) i) = (if unat i < min (unat gib) 512 then x86_block user i else 0)"
    if "i < 512" for i
    using write_blocks_at [OF al(2) _ that] ne [OF fr(5) [symmetric] al(2,1) that, of 0]
      zero_tables_at [of "root + 4096" "[root, root + 4096, root + 8192]" i m] that by simp
  show "m' (slot (root + 4096) i) = (if apic_on apic gib \<and> i = ?g then (root + 8192) OR 1 OR 2 OR 4
       else if unat i < min (unat gib) 512 then x86_block user i else 0)" if "i < 512"
    using b_pdpt [OF that] eq [OF al(2) that g] ne [OF fr(6) al(2,3) that vpn_small] by (simp add: m')
  show "m' (slot (root + 8192) i) = (if apic_on apic gib \<and> i = vpn apic 21 then apic_leaf apic else 0)"
    if "i < 512"
    using b_pd [OF that] eq [OF al(3) that vpn_small] ne [OF fr(6) [symmetric] al(3,2) that g]
      ne [OF fr(6) [symmetric] al(3,2) vpn_small g, of apic 21] by (simp add: m')
  have b_root: "?b (slot root 0) = (root + 4096) OR (1 OR 2 OR 4)"
    using write_blocks_off [of _ "slot root 0" "root + 4096"] ne [OF fr(5) al(1,2)] by simp
  show "m' (slot root 0) = (root + 4096) OR (1 OR 2 OR 4)"
    using b_root ne [OF fr(7) al(1,3) _ vpn_small, of 0] ne [OF fr(5) al(1,2) _ g, of 0] by (simp add: m')
  show "m' x = m x" if off: "\<And>t i. t \<in> {root, root + 4096, root + 8192} \<Longrightarrow> i < 512 \<Longrightarrow> x \<noteq> slot t i"
  proof -
    have "?b x = ?p x" by (rule write_blocks_off) (use off in auto)
    moreover have "?z x = m x" by (rule zero_tables_off) (use off in auto)
    ultimately show ?thesis
      using off [of root 0] off [of "root + 8192" "vpn apic 21"] off [of "root + 4096" ?g] g
      by (auto simp: m')
  qed
qed

definition root_top :: "arch \<Rightarrow> u64 \<Rightarrow> u64" where
  "root_top a root = (if a = X86_64 then root + 4096 else root)"

text \<open>The frames the routine takes: one, and three on x86-64.\<close>

definition root_frames :: "arch \<Rightarrow> u64 \<Rightarrow> u64 list" where
  "root_frames a root = (if a = X86_64 then [root, root + 4096, root + 8192] else [root])"

definition roots_ok :: "arch \<Rightarrow> u64 \<Rightarrow> bool" where
  "roots_ok a root \<longleftrightarrow> frame_ok (pa_width a) root \<and> (a = X86_64 \<longrightarrow> unat root + 12288 \<le> 2 ^ 52)"

lemma flat_map_ram_identity:
  fixes apic gib :: u64 and user :: bool
  assumes a: "a \<noteq> X86_64" and t: "roots_ok a root"
    and pool: "fresh_pool (pa_width a) base plen (root_frames a root) m"
  defines "m' \<equiv> map_ram_identity a apic root gib user m"
  shows "i < 512 \<Longrightarrow> m' (slot root i) = (if unat i < min (unat gib) 512 then block_of a user i else 0)"
    and "fresh_pool (pa_width a) base plen [root] m'"
proof -
  have al: "4096 dvd unat root" using t by (simp add: roots_ok_def frame_ok_def)
  have w: "m' = write_blocks root (block_of a user) (min (unat gib) 512) (zero_tables [root] m)"
    unfolding m'_def using a
    by (cases a) (simp_all add: riscv_map_ram_identity_def arm_map_ram_identity_def fun_eq_iff
        write_blocks_def)
  show "m' (slot root i) = (if unat i < min (unat gib) 512 then block_of a user i else 0)" if "i < 512"
    using write_blocks_at [OF al _ that] zero_tables_at [of root "[root]" i m] that by (simp add: w)
  have pool': "fresh_pool (pa_width a) base plen [root] m" using pool a by (simp add: root_frames_def)
  have "m' (slot (base + of_nat k * 4096) i) = m (slot (base + of_nat k * 4096) i)"
    if k: "k < unat plen" and i: "i < 512" for k i
  proof -
    have "slot (base + of_nat k * 4096) i \<noteq> slot root j" if "j < 512" for j
      using slot_inject(1) [OF fresh_pool_aligned [OF pool' hw.width k] al i that] pool' k
      by (auto simp: fresh_pool_def)
    then show ?thesis
      using write_blocks_off [of _ "slot (base + of_nat k * 4096) i" root]
        zero_tables_off [of "[root]" "slot (base + of_nat k * 4096) i"] by (simp add: w)
  qed
  then show "fresh_pool (pa_width a) base plen [root] m'" using pool' by (simp add: fresh_pool_def)
qed

lemma x86_identity_space:
  fixes apic gib :: u64 and user :: bool
  assumes r: "roots_ok X86_64 root" and pool: "fresh_pool 52 base plen (root_frames X86_64 root) m"
  defines "m' \<equiv> x86_map_ram_identity apic root gib user m"
  shows "space_ok X86_64 (root + 4096) base plen m'"
    and "va < 2 ^ 39 \<Longrightarrow> page_of (paging_of X86_64) (root + 4096) m' va =
      (if unat va < unat gib * 2 ^ 30 then Some (2, x86_block user (vpn va 30))
       else if apic_on apic gib \<and> drop_bit 21 va = drop_bit 21 apic then Some (1, apic_leaf apic)
       else None)"
proof -
  have root: "frame_ok 52 root" "unat root + 12288 \<le> 2 ^ 52" using r by (simp_all add: roots_ok_def)
  note fr = x86_frames [OF root]
  note M = x86_identity_memory [OF root, where apic = apic and gib = gib and user = user and m = m, folded m'_def]
  have al: "4096 dvd unat t" if "t \<in> {root, root + 4096, root + 8192}" for t
    using root fr(3,4) that by (auto simp: frame_ok_def)
  let ?F = "pg_entry (paging_of X86_64)" and ?g = "drop_bit 30 apic"
  note z = hw.zero_invalid [of X86_64] and blk = block_entry [of X86_64, simplified block_of.simps]
  have link: "(root + 8192) OR 1 OR 2 OR 4 = pte_link ?F (root + 8192)"
    by (simp only: paging_of.simps x86_tests or.assoc)
  have op: "pte_valid ?F (pte_link ?F (root + 8192))" "\<not> pte_block ?F (pte_link ?F (root + 8192))"
    "pte_table ?F (pte_link ?F (root + 8192)) = root + 8192"
    using hw.link_valid [of X86_64 "root + 8192"] hw.link_open [of X86_64 "root + 8192"]
      hw.link_table [of X86_64 "root + 8192"] fr(4) by simp_all
  have leaf: "pte_valid ?F (apic_leaf apic)" "pte_block ?F (apic_leaf apic)"
    by (simp_all only: paging_of.simps x86_tests apic_leaf_def raw_bits) simp_all
  have pool_same: "m' (slot (base + of_nat k * 4096) i) = 0" if k: "k < unat plen" and i: "i < 512" for k i
  proof -
    have "4096 dvd unat (base + of_nat k * 4096)" by (rule fresh_pool_aligned [OF pool _ k]) simp
    then have "slot (base + of_nat k * 4096) i \<noteq> slot t j"
      if "t \<in> {root, root + 4096, root + 8192}" "j < 512" for t j
      using slot_inject(1) [OF _ al [OF that(1)] i that(2)] pool k that(1)
      by (auto simp: fresh_pool_def root_frames_def)
    then show ?thesis using M(4) pool k i by (auto simp: fresh_pool_def)
  qed
  show "space_ok X86_64 (root + 4096) base plen m'"
    unfolding space_ok_def
  proof (rule shallow_space [where g = ?g and n = "root + 8192"])
    fix i assume i: "i < 512" and o: "opens ?F (m' (slot (root + 4096) i))"
    have on: "apic_on apic gib \<and> i = ?g"
      using o M(1) [OF i] blk z by (auto split: if_splits)
    then show "i = ?g \<and> pte_table ?F (m' (slot (root + 4096) i)) = root + 8192 \<and>
      root + 8192 \<noteq> root + 4096 \<and> frame_ok (pa_width X86_64) (root + 8192) \<and>
      (\<forall>k < unat plen. base + of_nat k * 4096 \<noteq> root + 8192) \<and>
      (\<forall>j < 512. \<not> opens ?F (m' (slot (root + 8192) j)))"
      using M(1) [OF i] M(2) fr(4,6) op(3) leaf z pool unfolding link
      by (auto simp: fresh_pool_def root_frames_def)
  qed (use fr(3) pool pool_same in \<open>auto simp: fresh_pool_def root_frames_def\<close>)
  assume va: "va < 2 ^ 39"
  have lt: "unat (vpn va 30) < min (unat gib) 512 \<longleftrightarrow> unat va < unat gib * 2 ^ 30"
    using vpn_small [of va 30] vpn_top [OF va]
    by (simp add: word_less_nat_alt div_less_iff_less_mult)
  note win = vpn_window [of va apic, folded vpn_top_eq [OF va]]
  have "unat ?g \<ge> unat gib" if "apic_on apic gib" using that by (simp add: apic_on_def word_le_nat_alt)
  then show "page_of (paging_of X86_64) (root + 4096) m' va =
      (if unat va < unat gib * 2 ^ 30 then Some (2, x86_block user (vpn va 30))
       else if apic_on apic gib \<and> drop_bit 21 va = drop_bit 21 apic then Some (1, apic_leaf apic)
       else None)"
    using M(1) [OF vpn_small [of va 30]] M(2) [OF vpn_small [of va 21]] lt blk z op leaf win
    unfolding link
    by (auto simp: page_of_def vpns_def leaf_at.simps Let_def)
qed

lemma apic_leaf_private:
  "\<not> user_reads (mmu_of X86_64) (apic_leaf apic)" "\<not> user_writes (mmu_of X86_64) (apic_leaf apic)"
  "\<not> user_execs (mmu_of X86_64) (apic_leaf apic)"
proof -
  have "\<not> bit (NOT 0x1FFFFF :: u64) 2" by (simp add: bit_not_iff)
  then have "\<not> bit (apic_leaf apic) 2"
    unfolding apic_leaf_def by (simp only: raw_bits) simp
  then show "\<not> user_reads (mmu_of X86_64) (apic_leaf apic)" "\<not> user_writes (mmu_of X86_64) (apic_leaf apic)"
    "\<not> user_execs (mmu_of X86_64) (apic_leaf apic)" by simp_all
qed

text \<open>The three routines in one statement.\<close>

lemma identity_space:
  fixes apic gib :: u64 and user :: bool
  assumes r: "roots_ok a root" and pool: "fresh_pool (pa_width a) base plen (root_frames a root) m"
  defines "m' \<equiv> map_ram_identity a apic root gib user m"
  shows "pg_top (paging_of a) root = Ok (root_top a root)" and "space_ok a (root_top a root) base plen m'"
    and "va < 2 ^ 39 \<Longrightarrow> page_of (paging_of a) (root_top a root) m' va =
      (if unat va < unat gib * 2 ^ 30 then Some (2, block_of a user (vpn va 30))
       else if a = X86_64 \<and> apic_on apic gib \<and> drop_bit 21 va = drop_bit 21 apic
       then Some (1, apic_leaf apic) else None)"
proof -
  show "pg_top (paging_of a) root = Ok (root_top a root)"
    using r by (cases a) (simp_all add: riscv_sv39_def x86_64_paging_def aarch64_paging_def root_top_def
        roots_ok_def add_or_panic_Ok)
  have "space_ok a (root_top a root) base plen m' \<and> (va < 2 ^ 39 \<longrightarrow>
    page_of (paging_of a) (root_top a root) m' va =
      (if unat va < unat gib * 2 ^ 30 then Some (2, block_of a user (vpn va 30))
       else if a = X86_64 \<and> apic_on apic gib \<and> drop_bit 21 va = drop_bit 21 apic
       then Some (1, apic_leaf apic) else None))"
  proof (cases "a = X86_64")
    case True
    have p: "fresh_pool 52 base plen (root_frames X86_64 root) m" using pool True by simp
    note x = x86_identity_space [OF r [unfolded True] p, where apic = apic and gib = gib and user = user]
    show ?thesis
      using x by (simp add: True m'_def root_top_def)
  next
    case False
    note f = flat_map_ram_identity [OF False r pool, where apic = apic and gib = gib and user = user, folded m'_def]
    have t: "frame_ok (pa_width a) root" using r by (simp add: roots_ok_def)
    show ?thesis
      using flat_identity [OF f(1) t f(2)] False by (simp add: root_top_def)
  qed
  then show "space_ok a (root_top a root) base plen m'"
    and "va < 2 ^ 39 \<Longrightarrow> page_of (paging_of a) (root_top a root) m' va =
      (if unat va < unat gib * 2 ^ 30 then Some (2, block_of a user (vpn va 30))
       else if a = X86_64 \<and> apic_on apic gib \<and> drop_bit 21 va = drop_bit 21 apic
       then Some (1, apic_leaf apic) else None)" by simp_all
qed

lemma fresh_sample: "fresh_pool (pa_width RiscV64) 0x80300000 8 (root_frames RiscV64 0x80200000) blank"
proof -
  have "(0x80300000 :: u64) + of_nat k * 4096 \<noteq> 0x80200000" if "k < 8" for k
  proof -
    have "unat ((0x80300000 :: u64) + of_nat k * 4096) = 0x80300000 + 4096 * k"
      using unat_pool_frame [of "0x80300000" 8 56 k] that by simp
    then have "unat ((0x80300000 :: u64) + of_nat k * 4096) \<noteq> unat (0x80200000 :: u64)" by simp
    then show ?thesis by metis
  qed
  then show ?thesis by (simp add: fresh_pool_def root_frames_def)
qed



end
