(* ===== verification/MapFaults.thy ===== *)
theory MapFaults
  imports MapCall
begin

text \<open>
  Two runs of the \<open>Map\<close> system call (\<open>kernel/kernel-core/src/syscall.rs\<close>, \<open>do_map\<close>) on the sample
  machine in which the kernel's record of an address space and the tables the hardware reads come
  apart: a call that fails half-way leaves a table frame linked that the pool still counts as
  free, and an address above 2^39 lands in the slot of a lower one.
\<close>

section \<open>A call that fails half-way\<close>

text \<open>With one frame left, a \<open>Map\<close> that needs two links the frame below the root and then fails;
  \<open>do_map\<close> rolls its record back but not the pool, which hands the frame out again.\<close>

abbreviation leak_walk :: "phys_mem \<Rightarrow> phys_mem" where
  "leak_walk m \<equiv> snd (map_range x86_64_paging 0x1000 0x40001000 0x204000 PAGE_SIZE (perm_bits rw) 0x300000 1 m)"

abbreviation leak_call :: "kernel_state \<Rightarrow> phys_mem \<Rightarrow> syscall_return sys" where
  "leak_call st m \<equiv> do_map st 0 1 0 0x40001000 rw (hal_of X86_64 no_irq m)"

lemma x86_facts:
  "pg_entry x86_64_paging = x86_entry" "pg_top x86_64_paging 0x1000 = Ok 0x2000"
  "vpn 0x40001000 30 = 1" "vpn 0x40001000 21 = 0" "vpn 0x40001000 12 = 1"
  "pte_valid x86_entry 0 = False" "pte_valid x86_entry 0x300007 = True" "pte_block x86_entry 0x300007 = False"
  "pte_table x86_entry 0x300007 = 0x300000" "pte_link x86_entry 0x300000 = 0x300007"
  "pg_leaf x86_64_paging (perm_bits rw) 0x204000 = 0x8000000000204007"
  "slot 0x2000 1 = 0x2008" "slot 0x300000 0 = 0x300000" "slot 0x300000 1 = 0x300008"
  "(pool_frame 0x300000 0 :: (unit, u64) res) = Ok 0x300000"
  "add_or_panic 0x40001000 (0 :: u64) = (Ok 0x40001000 :: (unit, u64) res)"
  "add_or_panic 0x204000 (0 :: u64) = (Ok 0x204000 :: (unit, u64) res)"
  "[0 ..< unat (PAGE_SIZE div 4096)] = [0]"
  "(0x40001000 OR 0x204000 OR PAGE_SIZE) AND 0xFFF = 0" "PAGE_SIZE \<noteq> 0"
  by code_simp+

abbreviation leak_one :: "phys_mem \<Rightarrow> (unit, unit) res \<times> pt_state" where
  "leak_one m \<equiv> map_one x86_64_paging 0x2000 0x40001000 0x204000 (perm_bits rw) 0x300000 1
     \<lparr>pt_used = 0, pt_mem = m\<rparr>"

lemma leak_one_fails:
  "leak_one blank = (Err (), \<lparr>pt_used = 1, pt_mem = blank(0x2008 := 0x300007)\<rparr>)"
  by (simp only: map_one_def descend.simps x86_facts) (simp add: next_table_def x86_facts del: One_nat_def)

lemma leak_one_again:
  "leak_one (blank(0x2008 := 0x300007)) = (Ok (), \<lparr>pt_used = 1, pt_mem =
     blank(0x2008 := 0x300007, 0x300000 := 0x300007, 0x300008 := 0x8000000000204007)\<rparr>)"
  by (simp only: map_one_def descend.simps x86_facts) (simp add: next_table_def write_entry_def x86_facts)

lemma leak_walk_one: "leak_walk m = pt_mem (snd (leak_one m))"
  by (simp only: map_range_def x86_facts if_False simp_thms)
   (cases "leak_one m"; cases "fst (leak_one m)"; simp add: x86_facts)

lemma leak_results:
  "fst (map_range x86_64_paging 0x1000 0x40001000 0x204000 PAGE_SIZE (perm_bits rw) 0x300000 1 blank) = Ok (- 1)"
  "fst (map_range x86_64_paging 0x1000 0x40001000 0x204000 PAGE_SIZE (perm_bits rw) 0x300000 1
     (blank(0x2008 := 0x300007))) = Ok 1"
  by ((simp only: map_range_def x86_facts if_False simp_thms),
      (simp add: x86_facts leak_one_fails leak_one_again))+

lemma leak_memories:
  "leak_walk blank = blank(0x2008 := 0x300007)"
  "leak_walk (blank(0x2008 := 0x300007)) =
     blank(0x2008 := 0x300007, 0x300000 := 0x300007, 0x300008 := 0x8000000000204007)"
  by (simp_all only: leak_walk_one leak_one_fails leak_one_again snd_conv pt_state.select_convs)

lemma leak_space:
  "as_map (as_new 32 0x1000) 0x40001000 0x204000 PAGE_SIZE rw = (Ok (), first_space 0x40001000 rw)"
  "case as_unmap (first_space 0x40001000 rw) 0x40001000 of (r, s) \<Rightarrow> r \<noteq> Panic \<and> s = as_new 32 0x1000"
  "root_phys (first_space 0x40001000 rw) = 0x1000"
  by code_simp+

lemma leak_hal:
  "hal_map_range (hal_of X86_64 no_irq blank) (root_phys (first_space 0x40001000 rw)) 0x40001000 0x204000
     PAGE_SIZE (perm_bits rw) 0x300000 (ucast (1 :: u32)) = - 1"
  "hal_map_range (hal_of X86_64 no_irq (blank(0x2008 := 0x300007))) (root_phys (first_space 0x40001000 rw))
     0x40001000 0x204000 PAGE_SIZE (perm_bits rw) 0x300000 (ucast (1 :: u32)) = 1"
  unfolding leak_space(3) using leak_results by (simp_all add: hal_of_def)

lemma leak_calls:
  "leak_call (pool_kernel 1) blank = (Err (MmErr HardwareMapFailed), pool_kernel 1)"
  "fst (leak_call (pool_kernel 1) (blank(0x2008 := 0x300007))) = Ok Mapped"
proof -
  obtain r s where u: "as_unmap (first_space 0x40001000 rw) 0x40001000 = (r, s)" by fastforce
  with leak_space(2) have rs: "r \<noteq> Panic" "s = as_new 32 0x1000" by simp_all
  show "leak_call (pool_kernel 1) blank = (Err (MmErr HardwareMapFailed), pool_kernel 1)"
    by (subst first_call [OF _ _ leak_space(1)])
      (simp_all only: leak_hal(1) u rs, simp_all add: rs(1) pool_kernel_space [symmetric])
  show "fst (leak_call (pool_kernel 1) (blank(0x2008 := 0x300007))) = Ok Mapped"
    by (subst first_call [OF _ _ leak_space(1)]) (simp_all only: leak_hal(2), simp_all)
qed

lemma leak_page:
  "page_of x86_64_paging 0x2000 (blank(0x2008 := 0x300007, 0x300000 := 0x300007,
     0x300008 := 0x8000000000204007)) 0x40000000 = Some (0, 0x300007)"
  "maps_to (mmu_of X86_64) 0x300007 = 0x300000" "user_writes (mmu_of X86_64) 0x300007"
  by code_simp+


section \<open>An address the tables cannot hold\<close>

abbreviation far :: "virt_addr" where
  "far \<equiv> 0x8040000000"

lemma far_walk:
  "case map_range (paging_of RiscV64) 0x1000 far 0x204000 PAGE_SIZE (perm_bits rw) 0x300000 8 blank of
    (r, m) \<Rightarrow> r = Ok 2 \<and> page_of (paging_of RiscV64) 0x1000 m 0x40000000 =
      Some (0, pg_leaf (paging_of RiscV64) (perm_bits rw) 0x204000)"
  by code_simp

lemma far_space:
  "as_map (as_new 32 0x1000) far 0x204000 PAGE_SIZE rw = (Ok (), first_space far rw)"
  "root_phys (first_space far rw) = 0x1000"
  "translate (first_space far rw) 0x40000000 = (Ok None :: (mm_error, _) res)"
  "translate (first_space far rw) far = (Ok (Some (0x204000, rw)) :: (mm_error, _) res)"
  by code_simp+

text \<open>Nothing on the way of a \<open>Map\<close> bounds its address. On Sv39, whose addresses end below
  2^39, a call for 0x8040000000 reports success: the kernel's record holds that page and nothing
  at 0x40000000, while the hardware's tables, indexed by three fields of nine bits, hold the frame
  at 0x40000000.\<close>

theorem map_ignores_high_bits:
  "\<exists>s. do_map (pool_kernel 8) 0 1 0 far rw (hal_of RiscV64 no_irq blank) =
       (Ok Mapped, (with_space (pool_kernel 8) s)\<lparr>map_pool_used := 2\<rparr>) \<and>
     translate s far = (Ok (Some (0x204000, rw)) :: (mm_error, _) res) \<and>
     translate s 0x40000000 = (Ok None :: (mm_error, _) res) \<and>
     page_of riscv_sv39 0x1000
       (snd (map_range riscv_sv39 (root_phys s) far 0x204000 PAGE_SIZE (perm_bits rw) 0x300000 8 blank)) 0x40000000 =
       Some (0, pg_leaf riscv_sv39 (perm_bits rw) 0x204000)"
proof (rule exI [of _ "first_space far rw"], intro conjI)
  have walk: "fst (map_range riscv_sv39 0x1000 far 0x204000 PAGE_SIZE (perm_bits rw) 0x300000 8 blank) = Ok 2"
    and page: "page_of riscv_sv39 0x1000
       (snd (map_range riscv_sv39 0x1000 far 0x204000 PAGE_SIZE (perm_bits rw) 0x300000 8 blank)) 0x40000000 =
       Some (0, pg_leaf riscv_sv39 (perm_bits rw) 0x204000)"
    using far_walk unfolding case_prod_beta by simp_all
  have hal: "hal_map_range (hal_of RiscV64 no_irq blank) (root_phys (first_space far rw)) far 0x204000
      PAGE_SIZE (perm_bits rw) 0x300000 (ucast (8 :: u32)) = 2"
    unfolding far_space(2) using walk by (simp add: hal_of_def)
  show "do_map (pool_kernel 8) 0 1 0 far rw (hal_of RiscV64 no_irq blank) =
       (Ok Mapped, (with_space (pool_kernel 8) (first_space far rw))\<lparr>map_pool_used := 2\<rparr>)"
    by (subst first_call [OF _ _ far_space(1)]) (simp_all only: hal, simp_all)
  show "page_of riscv_sv39 0x1000 (snd (map_range riscv_sv39 (root_phys (first_space far rw)) far 0x204000
      PAGE_SIZE (perm_bits rw) 0x300000 8 blank)) 0x40000000 = Some (0, pg_leaf riscv_sv39 (perm_bits rw) 0x204000)"
    unfolding far_space(2) by (rule page)
qed (rule far_space(4), rule far_space(3))

end
