(* ===== verification/Spec2Isabelle.thy ===== *)
theory Spec2Isabelle
  imports Kernel Progress Rendezvous Codec DeviceManager VfsRouter ElfLoader Services BlkService NetService MapFaults
begin

text \<open>
  A development of the Simurgh OS microkernel.
\<close>

end
